(* ===== verification/Prelude.thy ===== *)
theory Prelude
  imports Complex_Main "HOL-Library.Word" "HOL-Library.AList" "HOL-Library.Multiset"
begin

section \<open>Prelude: machine types, maps as association lists, iterator idioms\<close>

text \<open>
  The vocabulary every component theory shares.

  \<^item> Fixed-width Rust integers are words of that width; \<open>usize\<close> sizes of in-memory
    collections are natural numbers, since no collection of the program comes near
    the address space.
  \<^item> A point of the monotonic clock (\<open>tokio::time::Instant\<close>) is a natural number of
    nanoseconds, and \<open>now.duration_since(t)\<close>, which the runtime saturates at zero,
    is natural subtraction.
  \<^item> A \<open>HashMap\<close> is an association list with distinct keys. The order of the list stands for
    the iteration order, which the standard library leaves unspecified; every
    property quantifies over the list, so it holds for each order the map can be
    iterated in.
  \<^item> \<open>position\<close>, \<open>min_by_key\<close>, \<open>VecDeque::remove\<close> and \<open>VecDeque::insert\<close> are
    written as the iterator methods of the same names behave, on lists.
\<close>

subsection \<open>Types\<close>

type_synonym u8 = "8 word"
type_synonym u16 = "16 word"
type_synonym u32 = "32 word"
type_synonym u64 = "64 word"
type_synonym usize = nat
type_synonym bytes = "8 word list"
type_synonym instant = nat
type_synonym duration = nat
type_synonym ('k, 'v) hash_map = "('k \<times> 'v) list"

text \<open>
  Collections of facts: \<open>defs\<close> gathers the definitions the component proofs unfold
  as a matter of course, \<open>inv_intros\<close> the preservation lemmas of the invariants.
\<close>

named_theorems defs \<open>definitions unfolded by component proofs\<close>
named_theorems inv_intros \<open>preservation of component invariants\<close>

definition from_secs :: "u64 \<Rightarrow> duration" where
  "from_secs s = unat s * 1000000000"

definition from_millis :: "u64 \<Rightarrow> duration" where
  "from_millis s = unat s * 1000000"

definition saturating_add :: "'a::len word \<Rightarrow> 'a word \<Rightarrow> 'a word" where
  "saturating_add a b = (if unat a + unat b < 2 ^ LENGTH('a) then a + b else - 1)"

definition saturating_sub :: "'a::len word \<Rightarrow> 'a word \<Rightarrow> 'a word" where
  "saturating_sub a b = (if b \<le> a then a - b else 0)"

definition saturating_mul :: "'a::len word \<Rightarrow> 'a word \<Rightarrow> 'a word" where
  "saturating_mul a b = (if unat a * unat b < 2 ^ LENGTH('a) then a * b else - 1)"

definition i64_saturating_sub :: "int \<Rightarrow> int \<Rightarrow> int" where
  "i64_saturating_sub a b = max (- (2 ^ 63)) (min (2 ^ 63 - 1) (a - b))"

definition checked_add :: "'a::len word \<Rightarrow> 'a word \<Rightarrow> 'a word option" where
  "checked_add a b = (if unat a + unat b < 2 ^ LENGTH('a) then Some (a + b) else None)"

definition from_be_bytes16 :: "u8 \<Rightarrow> u8 \<Rightarrow> nat" where
  "from_be_bytes16 msb lsb = unat msb * 256 + unat lsb"

definition to_be_bytes16 :: "nat \<Rightarrow> bytes" where
  "to_be_bytes16 n = [word_of_nat (n div 256), word_of_nat n]"

fun position :: "('a \<Rightarrow> bool) \<Rightarrow> 'a list \<Rightarrow> nat option" where
  "position P [] = None"
| "position P (x # xs) = (if P x then Some 0 else map_option Suc (position P xs))"

fun min_by_key :: "('a \<Rightarrow> 'b::linorder) \<Rightarrow> 'a list \<Rightarrow> 'a option" where
  "min_by_key f [] = None"
| "min_by_key f (x # xs) =
     (case min_by_key f xs of None \<Rightarrow> Some x | Some y \<Rightarrow> Some (if f x \<le> f y then x else y))"

definition remove_at :: "nat \<Rightarrow> 'a list \<Rightarrow> 'a list" where
  "remove_at i xs = take i xs @ drop (Suc i) xs"

definition insert_at :: "nat \<Rightarrow> 'a \<Rightarrow> 'a list \<Rightarrow> 'a list" where
  "insert_at i x xs = take i xs @ x # drop i xs"

definition hm_wf :: "('k, 'v) hash_map \<Rightarrow> bool" where
  "hm_wf m \<longleftrightarrow> distinct (map fst m)"

abbreviation hm_get :: "('k, 'v) hash_map \<Rightarrow> 'k \<Rightarrow> 'v option" where
  "hm_get \<equiv> map_of"

abbreviation hm_insert :: "'k \<Rightarrow> 'v \<Rightarrow> ('k, 'v) hash_map \<Rightarrow> ('k, 'v) hash_map" where
  "hm_insert \<equiv> AList.update"

abbreviation hm_remove :: "'k \<Rightarrow> ('k, 'v) hash_map \<Rightarrow> ('k, 'v) hash_map" where
  "hm_remove \<equiv> AList.delete"

definition hm_contains :: "'k \<Rightarrow> ('k, 'v) hash_map \<Rightarrow> bool" where
  "hm_contains k m \<longleftrightarrow> map_of m k \<noteq> None"

definition hm_retain :: "('k \<Rightarrow> 'v \<Rightarrow> bool) \<Rightarrow> ('k, 'v) hash_map \<Rightarrow> ('k, 'v) hash_map" where
  "hm_retain P m = filter (\<lambda>(k, v). P k v) m"

definition hm_map_values :: "('v \<Rightarrow> 'w) \<Rightarrow> ('k, 'v) hash_map \<Rightarrow> ('k, 'w) hash_map" where
  "hm_map_values f m = map (\<lambda>(k, v). (k, f v)) m"

definition hm_count :: "('v \<Rightarrow> bool) \<Rightarrow> ('k, 'v) hash_map \<Rightarrow> nat" where
  "hm_count P m = length (filter (P \<circ> snd) m)"

fun is_ok :: "'e + 'a \<Rightarrow> bool" where
  "is_ok (Inl _) = False"
| "is_ok (Inr _) = True"

subsection \<open>Word arithmetic\<close>

lemma unat_max_word: "unat (- 1 :: 'a::len word) = 2 ^ LENGTH('a) - 1"
  by (simp add: unsigned_minus_1_eq_mask mask_eq_exp_minus_1)

lemma unat_saturating_add:
  "unat (saturating_add a b) = min (unat a + unat b) (2 ^ LENGTH('a) - 1)"
  for a b :: "'a::len word"
  by (auto simp: saturating_add_def unat_word_ariths unat_max_word min_def)

lemma unat_word_of_int_nat: "0 \<le> i \<Longrightarrow> nat i < 2 ^ LENGTH('a) \<Longrightarrow> unat (word_of_int i :: 'a::len word) = nat i"
proof -
  assume "0 \<le> i" "nat i < 2 ^ LENGTH('a)"
  then obtain n where "i = int n" "n < 2 ^ LENGTH('a)" by (auto elim: nonneg_int_cases)
  then show ?thesis by (simp add: unsigned_of_nat take_bit_nat_eq_self)
qed

lemma unat_word_of_int_neg:
  assumes "- (2 ^ 63) \<le> i" and "i < 0"
  shows "2 ^ 63 \<le> unat (word_of_int i :: u64)"
proof -
  have "uint (word_of_int i :: u64) = (i + 2 ^ 64) mod 2 ^ 64"
    by (simp add: uint_word_of_int)
  also have "\<dots> = i + 2 ^ 64" 
  proof (rule mod_pos_pos_trivial)
    show "0 \<le> i + 2 ^ 64" using assms(1) by simp
    show "i + 2 ^ 64 < 2 ^ 64" using assms(2) by simp
  qed
  finally have "2 ^ 63 \<le> uint (word_of_int i :: u64)" using assms(1) by simp
  then have "nat (2 ^ 63) \<le> nat (uint (word_of_int i :: u64))" by (rule nat_mono)
  then show ?thesis by (simp add: nat_power_eq)
qed

lemma unat_saturating_mul:
  "unat (saturating_mul a b) = min (unat a * unat b) (2 ^ LENGTH('a) - 1)"
  for a b :: "'a::len word"
proof (cases "unat a * unat b < 2 ^ LENGTH('a)")
  case True
  then show ?thesis by (simp add: saturating_mul_def unat_word_ariths)
next
  case False
  then have "2 ^ LENGTH('a) - 1 \<le> unat a * unat b" by simp
  with False show ?thesis by (simp add: saturating_mul_def unat_max_word)
qed

lemma unat_saturating_sub:
  "unat (saturating_sub a b) = unat a - unat b"
  for a b :: "'a::len word"
  by (auto simp: saturating_sub_def unat_sub word_le_nat_alt)

lemma checked_add_Some_iff:
  "checked_add a b = Some c \<longleftrightarrow> unat c = unat a + unat b"
  for a b c :: "'a::len word"
proof
  assume "checked_add a b = Some c"
  then show "unat c = unat a + unat b"
    by (auto simp: checked_add_def unat_word_ariths split: if_splits)
next
  assume eq: "unat c = unat a + unat b"
  then have lt: "unat a + unat b < 2 ^ LENGTH('a)"
    by (metis unsigned_less)
  then have "unat (a + b) = unat c"
    by (simp add: eq unat_word_ariths)
  then have "a + b = c" by (simp only: word_unat_eq_iff)
  with lt show "checked_add a b = Some c" by (simp add: checked_add_def)
qed

lemma checked_add_None_iff:
  "checked_add a b = None \<longleftrightarrow> 2 ^ LENGTH('a) \<le> unat a + unat b"
  for a b :: "'a::len word"
  by (auto simp: checked_add_def)

lemma unat_inc: "x < y \<Longrightarrow> unat (x + 1) = Suc (unat x)"
  for x y :: "'a::len word"
proof -
  assume "x < y"
  then have "unat x < unat y" by (simp add: word_less_nat_alt)
  also have "\<dots> < 2 ^ LENGTH('a)" by (rule unsigned_less)
  finally have "Suc (unat x) < 2 ^ LENGTH('a)"
    using \<open>unat x < unat y\<close> unsigned_less [of y, where ?'a = nat] by linarith
  then show ?thesis by (simp add: unat_word_ariths)
qed

lemma unat_u8_lt [simp]: "unat (x :: u8) < 256"
  using unsigned_less [of x, where ?'a = nat] by simp

lemma from_be_bytes16_lt: "from_be_bytes16 a b < 65536"
  using unat_u8_lt [of a] unat_u8_lt [of b] unfolding from_be_bytes16_def by arith

lemma from_to_be_bytes16:
  "n < 65536 \<Longrightarrow> to_be_bytes16 n = [a, b] \<Longrightarrow> from_be_bytes16 a b = n"
  by (auto simp: to_be_bytes16_def from_be_bytes16_def unat_of_nat)

subsection \<open>Positions, insertion and removal in lists\<close>

lemma position_None_iff [simp]: "position P xs = None \<longleftrightarrow> (\<forall>x \<in> set xs. \<not> P x)"
  by (induction xs) auto

lemma position_Some_iff:
  "position P xs = Some i \<longleftrightarrow>
     i < length xs \<and> P (xs ! i) \<and> (\<forall>j < i. \<not> P (xs ! j))"
proof (induction xs arbitrary: i)
  case Nil
  then show ?case by simp
next
  case (Cons x xs)
  show ?case
    by (cases i) (auto simp: Cons.IH less_Suc_eq_0_disj nth_Cons split: nat.splits)
qed

lemma length_remove_at [simp]: "i < length xs \<Longrightarrow> length (remove_at i xs) = length xs - 1"
  by (simp add: remove_at_def)

lemma length_insert_at [simp]: "length (insert_at i x xs) = Suc (length xs)"
  by (simp add: insert_at_def)

lemma mset_insert_at [simp]: "mset (insert_at i x xs) = add_mset x (mset xs)"
proof -
  have "mset (take i xs) + mset (drop i xs) = mset xs"
    by (metis append_take_drop_id mset_append)
  then show ?thesis by (simp add: insert_at_def)
qed

lemma set_insert_at [simp]: "set (insert_at i x xs) = insert x (set xs)"
proof -
  have "set_mset (mset (insert_at i x xs)) = insert x (set xs)" by simp
  then show ?thesis by (simp only: set_mset_mset)
qed

lemma mset_remove_at: "i < length xs \<Longrightarrow> add_mset (xs ! i) (mset (remove_at i xs)) = mset xs"
proof -
  assume "i < length xs"
  then have "xs = take i xs @ xs ! i # drop (Suc i) xs"
    by (rule id_take_nth_drop)
  then have "mset xs = mset (take i xs @ xs ! i # drop (Suc i) xs)" by simp
  then show ?thesis by (simp add: remove_at_def)
qed

lemma set_remove_at_subset: "set (remove_at i xs) \<subseteq> set xs"
  by (auto simp: remove_at_def dest: in_set_takeD in_set_dropD)

subsection \<open>First minimum\<close>

lemma min_by_key_None_iff [simp]: "min_by_key f xs = None \<longleftrightarrow> xs = []"
  by (cases xs) (auto split: option.splits)

lemma min_by_key_Some:
  "min_by_key f xs = Some x \<Longrightarrow> x \<in> set xs \<and> (\<forall>y \<in> set xs. f x \<le> f y)"
proof (induction xs arbitrary: x)
  case Nil
  then show ?case by simp
next
  case (Cons z zs)
  then show ?case
    by (cases "min_by_key f zs") (fastforce split: if_splits)+
qed

lemmas min_by_key_in = min_by_key_Some [THEN conjunct1]
  and min_by_key_le = min_by_key_Some [THEN conjunct2, rule_format]

subsection \<open>Hash maps\<close>

lemma hm_wf_Nil [simp, intro]: "hm_wf []"
  by (simp add: hm_wf_def)

lemma hm_wf_insert [simp, intro]: "hm_wf m \<Longrightarrow> hm_wf (hm_insert k v m)"
  by (simp add: hm_wf_def distinct_update)

lemma hm_wf_remove [simp, intro]: "hm_wf m \<Longrightarrow> hm_wf (hm_remove k m)"
  by (simp add: hm_wf_def distinct_delete)

lemma hm_wf_retain [simp, intro]: "hm_wf m \<Longrightarrow> hm_wf (hm_retain P m)"
  unfolding hm_wf_def hm_retain_def by (rule distinct_map_filter)

lemma fst_hm_map_values [simp]: "map fst (hm_map_values f m) = map fst m"
  by (induction m) (auto simp: hm_map_values_def)

lemma hm_wf_map_values [simp]: "hm_wf (hm_map_values f m) \<longleftrightarrow> hm_wf m"
  by (simp add: hm_wf_def)

lemma hm_get_insert [simp]: "hm_get (hm_insert k v m) = (hm_get m)(k \<mapsto> v)"
  by (rule update_conv')

lemma hm_get_remove [simp]: "hm_get (hm_remove k m) = (hm_get m)(k := None)"
  by (rule delete_conv')

lemma hm_get_retain:
  "hm_wf m \<Longrightarrow>
     hm_get (hm_retain P m) k =
       (case hm_get m k of None \<Rightarrow> None | Some v \<Rightarrow> if P k v then Some v else None)"
  by (induction m) (auto simp: hm_retain_def hm_wf_def map_of_eq_None_iff split: option.splits)

lemma hm_get_map_values [simp]: "hm_get (hm_map_values f m) k = map_option f (hm_get m k)"
  by (induction m) (auto simp: hm_map_values_def)

lemma hm_contains_iff: "hm_contains k m \<longleftrightarrow> k \<in> fst ` set m"
  by (auto simp: hm_contains_def map_of_eq_None_iff)

lemma hm_get_in: "hm_get m k = Some v \<Longrightarrow> (k, v) \<in> set m"
  by (rule map_of_SomeD)

lemma hm_in_get: "hm_wf m \<Longrightarrow> (k, v) \<in> set m \<Longrightarrow> hm_get m k = Some v"
  by (simp add: hm_wf_def)

lemma length_hm_map_values [simp]: "length (hm_map_values f m) = length m"
  by (simp add: hm_map_values_def)

lemma length_hm_retain_le [simp]: "length (hm_retain P m) \<le> length m"
  by (simp add: hm_retain_def)

lemma length_hm_insert:
  "length (hm_insert k v m) = (if hm_contains k m then length m else Suc (length m))"
  by (induction m) (auto simp: hm_contains_def)

lemma length_hm_remove:
  "hm_wf m \<Longrightarrow> length (hm_remove k m) = (if hm_contains k m then length m - 1 else length m)"
proof (induction m)
  case Nil
  then show ?case by (simp add: hm_contains_def)
next
  case (Cons p m)
  have notin: "k \<notin> fst ` set m \<Longrightarrow> hm_remove k m = m"
    by simp
  from Cons show ?case
    by (cases p; cases m)
      (auto simp: hm_wf_def hm_contains_iff notin image_iff)
qed

lemma length_hm_remove_le [simp]: "length (hm_remove k m) \<le> length m"
  by (rule length_delete_le)

lemma set_hm_insert_subset: "set (hm_insert k v m) \<subseteq> insert (k, v) (set m)"
  by (induction m) auto

lemma set_hm_remove_subset: "set (hm_remove k m) \<subseteq> set m"
  by (auto simp: AList.delete_eq)

lemma set_hm_retain: "set (hm_retain P m) = {(k, v) \<in> set m. P k v}"
  by (auto simp: hm_retain_def)

lemma hm_count_Nil [simp]: "hm_count P [] = 0"
  by (simp add: hm_count_def)

lemma hm_count_Cons [simp]: "hm_count P ((k, v) # m) = (if P v then Suc (hm_count P m) else hm_count P m)"
  by (simp add: hm_count_def)

lemma hm_count_remove:
  "hm_wf m \<Longrightarrow>
     hm_count P m = hm_count P (hm_remove k m) +
       (case hm_get m k of None \<Rightarrow> 0 | Some v \<Rightarrow> if P v then 1 else 0)"
proof (induction m)
  case Nil
  then show ?case by simp
next
  case (Cons p m)
  obtain k' v where p: "p = (k', v)" by fastforce
  with Cons.prems have wf: "hm_wf m" "k' \<notin> fst ` set m" by (auto simp: hm_wf_def)
  show ?case
  proof (cases "k' = k")
    case True
    with wf(2) p show ?thesis by simp
  next
    case False
    with p show ?thesis by (simp add: Cons.IH [OF wf(1), symmetric])
  qed
qed

lemma hm_count_insert:
  "hm_wf m \<Longrightarrow> hm_count P (hm_insert k v m) = hm_count P (hm_remove k m) + (if P v then 1 else 0)"
proof -
  assume "hm_wf m"
  then have "hm_wf (hm_insert k v m)" by (rule hm_wf_insert)
  from hm_count_remove [OF this, of P k] show ?thesis
    by (simp only: delete_update_same hm_get_insert fun_upd_same option.case)
qed

lemma hm_count_retain_le: "hm_count P (hm_retain Q m) \<le> hm_count P m"
  by (induction m) (auto simp: hm_retain_def)

lemma hm_count_pos: "hm_wf m \<Longrightarrow> hm_get m k = Some v \<Longrightarrow> P v \<Longrightarrow> 0 < hm_count P m"
  by (subst hm_count_remove [of m P k]) simp_all

lemma hm_length_eq:
  assumes "hm_wf m" "hm_wf m'" "hm_get m = hm_get m'"
  shows "length m = length m'"
proof -
  have "length m = card (dom (hm_get m))" if "hm_wf m" for m :: "('a, 'b) hash_map"
    using that distinct_card [of "map fst m"] by (simp add: hm_wf_def dom_map_of_conv_image_fst)
  with assms show ?thesis by metis
qed

lemma distinct_map_filter: "distinct (map f xs) \<Longrightarrow> distinct (map f (filter P xs))"
  by (induction xs) auto

lemma sum_list_map_le: "\<forall>x \<in> set xs. f x \<le> (b :: nat) \<Longrightarrow> sum_list (map f xs) \<le> length xs * b"
  by (induction xs) auto

end
