(* ===== verification/Interfaces.thy ===== *)
theory Interfaces
  imports Prelude
begin

section \<open>Interfaces between components\<close>

text \<open>
  The contracts components rely on, as locales. Each is interpreted on the definitions of
  the component that provides it, in that component's theory.

  \<^item> \<open>guarded_component\<close>: a component whose operations are the steps \<open>step op\<close>, with an
    invariant every step keeps. What is proved once here is that a run of any
    operations in any order keeps it.
  \<^item> \<open>bounded_component\<close>: a guarded component whose occupancy stays under its capacity
    (the memory bound an unauthenticated peer cannot exceed).
  \<^item> \<open>bounded_sink\<close>: a queue that accepts a message while it has room. What is proved
    once here is that as many messages as there is room for are all accepted.
\<close>

locale guarded_component =
  fixes inv :: "'s \<Rightarrow> bool"
    and step :: "'op \<Rightarrow> 's \<Rightarrow> 's"
  assumes step_inv: "inv s \<Longrightarrow> inv (step op s)"
begin

lemma run_inv: "inv s \<Longrightarrow> inv (fold step ops s)"
  by (induction ops arbitrary: s) (auto simp: step_inv)

end

locale bounded_component = guarded_component inv step
  for inv :: "'s \<Rightarrow> bool" and step :: "'op \<Rightarrow> 's \<Rightarrow> 's" +
  fixes occupancy :: "'s \<Rightarrow> nat"
    and capacity :: "'s \<Rightarrow> nat"
  assumes step_capacity: "capacity (step op s) = capacity s"
    and inv_bound: "inv s \<Longrightarrow> occupancy s \<le> capacity s"
begin

lemma run_capacity: "capacity (fold step ops s) = capacity s"
  by (induction ops arbitrary: s) (auto simp: step_capacity)

lemma run_bound: "inv s \<Longrightarrow> occupancy (fold step ops s) \<le> capacity s"
  using inv_bound [OF run_inv] by (simp add: run_capacity)

end

fun push_all :: "('m \<Rightarrow> 's \<Rightarrow> 's option) \<Rightarrow> 'm list \<Rightarrow> 's \<Rightarrow> 's option" where
  "push_all push [] s = Some s"
| "push_all push (m # ms) s =
     (case push m s of None \<Rightarrow> None | Some s' \<Rightarrow> push_all push ms s')"

locale bounded_sink =
  fixes sink_inv :: "'s \<Rightarrow> bool"
    and push :: "'m \<Rightarrow> 's \<Rightarrow> 's option"
    and room :: "'s \<Rightarrow> nat"
    and contents :: "'s \<Rightarrow> 'm multiset"
  assumes push_room: "sink_inv s \<Longrightarrow> 0 < room s \<Longrightarrow>
    \<exists>s'. push m s = Some s' \<and> sink_inv s' \<and> room s' = room s - 1 \<and>
         contents s' = add_mset m (contents s)"
begin

lemma push_all_room:
  "sink_inv s \<Longrightarrow> length ms \<le> room s \<Longrightarrow>
     \<exists>s'. push_all push ms s = Some s' \<and> sink_inv s' \<and> room s' = room s - length ms \<and>
          contents s' = mset ms + contents s"
proof (induction ms arbitrary: s)
  case Nil
  then show ?case by simp
next
  case (Cons m ms)
  then obtain s1 where s1: "push m s = Some s1" "sink_inv s1" "room s1 = room s - 1"
    "contents s1 = add_mset m (contents s)"
    using push_room [of s m] by auto
  with Cons.prems have "length ms \<le> room s1" by simp
  from Cons.IH [OF s1(2) this] obtain s2 where
    "push_all push ms s1 = Some s2" "sink_inv s2" "room s2 = room s1 - length ms"
    "contents s2 = mset ms + contents s1"
    by blast
  with s1 show ?case by simp
qed

end

end
