(* ===== verification/Float_Model.thy ===== *)
theory Float_Model
  imports Prelude "HOL-Library.Log_Nat"
begin

unbundle bit_operations_syntax

section \<open>IEEE-754 arithmetic\<close>

text \<open>
  What the source uses of Rust's \<open>f32\<close> and \<open>f64\<close>. A double is NaN, an infinity or the rational it
  denotes; the two zeros are one value, since nothing the modelled code does tells them
  apart except \<open>copysign\<close>, which it only applies to nonzero differences. An operation computes the exact rational
  result and rounds it once, to nearest and ties to even, with subnormals and overflow to infinity
  (\<open>round64\<close>). The operations take the rounding as an argument, so that a computation can
  also be read over exact rationals (\<open>Fin\<close> in place of \<open>round64\<close>). A single is its bit pattern.
\<close>

subsection \<open>Rounding\<close>

datatype f64 = F_NaN | F_Inf bool | Fin rat

type_synonym rounding = "rat \<Rightarrow> f64"

definition two_pow :: "int \<Rightarrow> rat" where
  "two_pow e = (if 0 \<le> e then 2 ^ nat e else 1 / 2 ^ nat (- e))"

definition log2_floor :: "rat \<Rightarrow> int" where
  "log2_floor q =
     (let (a, b) = quotient_of q; e = bitlen a - bitlen b in if two_pow e \<le> q then e else e - 1)"

definition round_ne :: "rat \<Rightarrow> int" where
  "round_ne q =
     (let f = \<lfloor>q\<rfloor>; r = q - of_int f
      in if r < 1 / 2 \<or> r = 1 / 2 \<and> even f then f else f + 1)"

definition ulp_exp :: "int \<Rightarrow> int \<Rightarrow> rat \<Rightarrow> int" where
  "ulp_exp prec emin q = max (log2_floor q - (prec - 1)) emin"

definition round_to :: "int \<Rightarrow> int \<Rightarrow> rat \<Rightarrow> rat" where
  "round_to prec emin q =
     (if q = 0 then 0
      else let e = ulp_exp prec emin \<bar>q\<bar> in sgn q * of_int (round_ne (\<bar>q\<bar> / two_pow e)) * two_pow e)"

definition round64 :: rounding where
  "round64 q =
     (let v = round_to 53 (- 1074) q in if \<bar>v\<bar> < two_pow 1024 then Fin v else F_Inf (v < 0))"

subsection \<open>Doubles\<close>

fun f64_is_finite :: "f64 \<Rightarrow> bool" where
  "f64_is_finite (Fin _) = True"
| "f64_is_finite _ = False"

fun f64_neg :: "f64 \<Rightarrow> f64" where
  "f64_neg F_NaN = F_NaN"
| "f64_neg (F_Inf s) = F_Inf (\<not> s)"
| "f64_neg (Fin x) = Fin (- x)"

fun f64_add :: "rounding \<Rightarrow> f64 \<Rightarrow> f64 \<Rightarrow> f64" where
  "f64_add rnd (Fin x) (Fin y) = rnd (x + y)"
| "f64_add rnd (F_Inf s) (Fin _) = F_Inf s"
| "f64_add rnd (Fin _) (F_Inf s) = F_Inf s"
| "f64_add rnd (F_Inf s) (F_Inf s') = (if s = s' then F_Inf s else F_NaN)"
| "f64_add rnd _ _ = F_NaN"

definition f64_sub :: "rounding \<Rightarrow> f64 \<Rightarrow> f64 \<Rightarrow> f64" where
  "f64_sub rnd x y = f64_add rnd x (f64_neg y)"

fun f64_mul :: "rounding \<Rightarrow> f64 \<Rightarrow> f64 \<Rightarrow> f64" where
  "f64_mul rnd (Fin x) (Fin y) = rnd (x * y)"
| "f64_mul rnd (F_Inf s) (Fin y) = (if y = 0 then F_NaN else F_Inf (s \<noteq> (y < 0)))"
| "f64_mul rnd (Fin x) (F_Inf s) = (if x = 0 then F_NaN else F_Inf (s \<noteq> (x < 0)))"
| "f64_mul rnd (F_Inf s) (F_Inf s') = F_Inf (s \<noteq> s')"
| "f64_mul rnd _ _ = F_NaN"

text \<open>Division, for divisors that are not zero (a zero divisor would need the sign of the zero).\<close>

fun f64_div :: "rounding \<Rightarrow> f64 \<Rightarrow> f64 \<Rightarrow> f64" where
  "f64_div rnd (Fin x) (Fin y) = (if y = 0 then F_NaN else rnd (x / y))"
| "f64_div rnd (F_Inf s) (Fin y) = F_Inf (s \<noteq> (y < 0))"
| "f64_div rnd (Fin _) (F_Inf _) = Fin 0"
| "f64_div rnd _ _ = F_NaN"

text \<open>\<open>x.mul_add(y, z)\<close>: one rounding of \<open>x * y + z\<close>.\<close>

fun f64_mul_add :: "rounding \<Rightarrow> f64 \<Rightarrow> f64 \<Rightarrow> f64 \<Rightarrow> f64" where
  "f64_mul_add rnd (Fin x) (Fin y) (Fin z) = rnd (x * y + z)"
| "f64_mul_add rnd (Fin _) (Fin _) z = z"
| "f64_mul_add rnd x y z = f64_add rnd (f64_mul rnd x y) z"

fun f64_lt :: "f64 \<Rightarrow> f64 \<Rightarrow> bool" where
  "f64_lt (Fin x) (Fin y) \<longleftrightarrow> x < y"
| "f64_lt (Fin _) (F_Inf s) \<longleftrightarrow> \<not> s"
| "f64_lt (F_Inf s) (Fin _) \<longleftrightarrow> s"
| "f64_lt (F_Inf s) (F_Inf s') \<longleftrightarrow> s \<and> \<not> s'"
| "f64_lt _ _ \<longleftrightarrow> False"

definition f64_eq :: "f64 \<Rightarrow> f64 \<Rightarrow> bool" where
  "f64_eq x y \<longleftrightarrow> x \<noteq> F_NaN \<and> x = y"

definition f64_le :: "f64 \<Rightarrow> f64 \<Rightarrow> bool" where
  "f64_le x y \<longleftrightarrow> f64_lt x y \<or> f64_eq x y"

fun f64_abs :: "f64 \<Rightarrow> f64" where
  "f64_abs F_NaN = F_NaN"
| "f64_abs (F_Inf _) = F_Inf False"
| "f64_abs (Fin x) = Fin \<bar>x\<bar>"

text \<open>\<open>x as i32\<close>: truncation towards zero, saturating, NaN to zero.\<close>

fun f64_trunc_i32 :: "f64 \<Rightarrow> int" where
  "f64_trunc_i32 F_NaN = 0"
| "f64_trunc_i32 (F_Inf s) = (if s then - (2 ^ 31) else 2 ^ 31 - 1)"
| "f64_trunc_i32 (Fin q) = max (- (2 ^ 31)) (min (2 ^ 31 - 1) (if q < 0 then - \<lfloor>- q\<rfloor> else \<lfloor>q\<rfloor>))"

subsection \<open>Singles\<close>

type_synonym f32 = "32 word"

definition f32_is_finite :: "f32 \<Rightarrow> bool" where
  "f32_is_finite x \<longleftrightarrow> x AND 0x7F800000 \<noteq> 0x7F800000"

definition f32_is_zero :: "f32 \<Rightarrow> bool" where
  "f32_is_zero x \<longleftrightarrow> x = 0 \<or> x = 0x80000000"

definition f32_is_nan :: "f32 \<Rightarrow> bool" where
  "f32_is_nan x \<longleftrightarrow> 0x7F800000 < x AND 0x7FFFFFFF"

text \<open>\<open>x < 0.0\<close> and \<open>x > y\<close> for a positive finite \<open>y\<close>, by the ordering of the bit patterns.\<close>

definition f32_is_negative :: "f32 \<Rightarrow> bool" where
  "f32_is_negative x \<longleftrightarrow> 0x80000000 < x \<and> x \<le> 0xFF800000"

definition f32_gt :: "f32 \<Rightarrow> f32 \<Rightarrow> bool" where
  "f32_gt x y \<longleftrightarrow> y < x \<and> x \<le> 0x7F800000"

definition f32_encode :: "rat \<Rightarrow> f32" where
  "f32_encode q =
     (let v = \<bar>round_to 24 (- 149) q\<bar>; s = (if q < 0 then 0x80000000 else 0)
      in if v = 0 then s
         else if two_pow 128 \<le> v then s + 0x7F800000
         else let e = ulp_exp 24 (- 149) v; m = \<lfloor>v / two_pow e\<rfloor>
              in s + word_of_int (if m < 2 ^ 23 then m else (e + 150) * 2 ^ 23 + (m - 2 ^ 23)))"

definition i32_as_f32 :: "int \<Rightarrow> f32" where
  "i32_as_f32 i = f32_encode (of_int i)"

definition f64_of_f32 :: "f32 \<Rightarrow> f64" where
  "f64_of_f32 x =
     (let s = bit x 31; e = uint (drop_bit 23 x AND 0xFF); m = uint (x AND 0x7FFFFF)
      in if e = 255 then (if m = 0 then F_Inf s else F_NaN)
         else Fin ((if s then - 1 else 1) *
                (if e = 0 then of_int m * two_pow (- 149) else of_int (m + 2 ^ 23) * two_pow (e - 150))))"

subsection \<open>Facts\<close>

lemma two_pow_powi: "two_pow e = 2 powi e"
  by (simp add: two_pow_def power_int_def inverse_eq_divide power_one_over)

lemma two_pow_pos [simp]: "0 < two_pow e"
  by (simp add: two_pow_def)

lemma log2_floor_le:
  assumes "0 < q"
  shows "two_pow (log2_floor q) \<le> q"
proof -
  obtain a b where ab: "quotient_of q = (a, b)" by fastforce
  have q: "q = of_int a / of_int b" and b: "0 < b" using quotient_of_div [OF ab] quotient_of_denom_pos [OF ab] by auto
  then have a: "0 < a" using assms by (simp add: zero_less_divide_iff)
  have "2 powi (bitlen a - 1) \<le> (of_int a :: rat)"
  proof -
    have "2 ^ nat (bitlen a - 1) \<le> a" "0 \<le> bitlen a - 1" using bitlen_bounds [OF a] a by (simp_all add: bitlen_alt_def)
    then have "(2 :: rat) ^ nat (bitlen a - 1) \<le> of_int a" by (metis of_int_le_iff of_int_numeral of_int_power)
    with \<open>0 \<le> bitlen a - 1\<close> show ?thesis by (simp add: power_int_def)
  qed
  moreover have "(of_int b :: rat) \<le> 2 powi bitlen b"
  proof -
    have "b < 2 ^ nat (bitlen b)" "0 \<le> bitlen b" using bitlen_bounds [OF b] by (simp_all add: bitlen_nonneg)
    then have "(of_int b :: rat) < 2 ^ nat (bitlen b)" by (metis of_int_less_iff of_int_numeral of_int_power)
    with \<open>0 \<le> bitlen b\<close> show ?thesis by (simp add: power_int_def)
  qed
  ultimately have "2 powi (bitlen a - 1) / 2 powi bitlen b \<le> q"
    unfolding q using a b by (intro frac_le) auto
  then have "two_pow (bitlen a - bitlen b - 1) \<le> q"
    by (simp add: two_pow_powi power_int_diff power_int_add field_simps)
  then show ?thesis by (simp add: log2_floor_def ab Let_def)
qed

lemma round_ne_le: "x \<le> of_int k \<Longrightarrow> round_ne x \<le> k"
proof -
  assume x: "x \<le> of_int k"
  have f: "\<lfloor>x\<rfloor> \<le> k" using x floor_mono [OF x] by simp
  show ?thesis
  proof (cases "\<lfloor>x\<rfloor> = k")
    case True
    then have "x = of_int k" using x of_int_floor_le [of x] by simp
    then show ?thesis by (simp add: round_ne_def)
  next
    case False
    with f show ?thesis by (simp add: round_ne_def Let_def)
  qed
qed

lemma round_ne_nonneg: "0 \<le> x \<Longrightarrow> 0 \<le> round_ne x"
  by (simp add: round_ne_def Let_def)

text \<open>Rounding does not cross an integer the format represents.\<close>

lemma round_to_le_int:
  assumes "\<bar>q\<bar> \<le> of_int n" "n < 2 ^ nat prec" "0 < prec" "emin \<le> 0"
  shows "\<bar>round_to prec emin q\<bar> \<le> of_int n"
proof (cases "q = 0")
  case True
  with assms(1) show ?thesis by (simp add: round_to_def)
next
  case False
  let ?e = "ulp_exp prec emin \<bar>q\<bar>"
  have "two_pow (log2_floor \<bar>q\<bar>) \<le> of_int n" using log2_floor_le [of "\<bar>q\<bar>"] False assms(1) by simp
  also have "\<dots> < two_pow prec"
    using assms(2,3) by (simp add: two_pow_def)
  finally have "log2_floor \<bar>q\<bar> < prec"
    unfolding two_pow_powi by (metis linorder_not_less one_le_numeral power_int_increasing)
  then have e: "?e \<le> 0" using assms(4) by (simp add: ulp_exp_def)
  have "\<bar>q\<bar> / two_pow ?e \<le> of_int (n * 2 ^ nat (- ?e))"
    using assms(1) e by (cases "?e = 0") (simp_all add: two_pow_def divide_right_mono)
  then have "round_ne (\<bar>q\<bar> / two_pow ?e) \<le> n * 2 ^ nat (- ?e)" by (rule round_ne_le)
  then have "(of_int (round_ne (\<bar>q\<bar> / two_pow ?e)) :: rat) \<le> of_int (n * 2 ^ nat (- ?e))" by (simp only: of_int_le_iff)
  also have "\<dots> = of_int n / two_pow ?e" using e by (cases "?e = 0") (simp_all add: two_pow_def)
  finally have "of_int (round_ne (\<bar>q\<bar> / two_pow ?e)) * two_pow ?e \<le> (of_int n :: rat)"
    by (simp add: pos_le_divide_eq)
  moreover have "0 \<le> round_ne (\<bar>q\<bar> / two_pow ?e)" by (rule round_ne_nonneg) (simp add: less_imp_le)
  ultimately show ?thesis
    using False unfolding round_to_def Let_def by (simp add: abs_mult less_imp_le del: abs_divide)
qed

lemma round64_le_int:
  assumes "\<bar>q\<bar> \<le> of_int n" "n < 2 ^ 53"
  shows "\<exists>v. round64 q = Fin v \<and> \<bar>v\<bar> \<le> of_int n"
proof -
  have v: "\<bar>round_to 53 (- 1074) q\<bar> \<le> of_int n" using round_to_le_int [OF assms(1), of 53 "- 1074"] assms(2) by simp
  also have "of_int n < (2 ^ 53 :: rat)" using assms(2) by (metis of_int_less_iff of_int_numeral of_int_power)
  also have "\<dots> \<le> two_pow 1024" by (simp add: two_pow_def power_increasing)
  finally show ?thesis using v by (simp add: round64_def Let_def)
qed

end
