(* ===== verification/Mesh_Types.thy ===== *)
theory Mesh_Types
  imports Float_Model
begin

unbundle bit_operations_syntax

section \<open>Mesh types, packets, packet identifiers\<close>

text \<open>
  The type primitives of the mesh crate (\<open>kerykeion/src/types.rs\<close>), the wire
  messages of \<open>kerykeion/proto\<close>, the error values of \<open>kerykeion/src/error.rs\<close> that the
  modelled operations return, and the outbound packet-id sequence of
  \<open>kerykeion/src/packet_id.rs\<close>.

  \<open>NodeNum\<close> and \<open>PacketId\<close> are newtypes around \<open>u32\<close> and are modelled by the word
  itself. A float field (\<open>rx_snr\<close>, \<open>snr\<close>) is its IEEE-754 bit pattern (theory \<open>Float_Model\<close>).
  An error value keeps the data its message interpolates, not the message text.
\<close>

type_synonym node_num = u32
type_synonym packet_id = u32

definition BROADCAST_ADDR :: node_num where
  "BROADCAST_ADDR = 0xFFFFFFFF"

definition MAX_CHANNELS :: u8 where
  "MAX_CHANNELS = 8"

definition MAX_HOP_LIMIT :: u8 where
  "MAX_HOP_LIMIT = 7"

definition MAX_PACKET_SIZE :: usize where
  "MAX_PACKET_SIZE = 512"

definition MAX_LIVE_NODES :: usize where
  "MAX_LIVE_NODES = 4096"

definition MAX_LIVE_LINKS :: usize where
  "MAX_LIVE_LINKS = 16384"

definition FRAME_MAGIC :: "u8 \<times> u8" where
  "FRAME_MAGIC = (0x94, 0xC3)"

datatype encryption_detail =
    CipherInit nat
  | InvalidKeyLength nat
  | UndefinedPsk nat
  | NoPskDecrypted

datatype handshake_detail =
    RebootedDuringHandshake
  | ConfigDumpTimedOut u32
  | NoMyNodeInfo
  | AllConnectionsFailed nat

text \<open>
  The variants of \<open>Error\<close> in their order. The underlying I/O, protobuf and JSON errors and the source locations are left out; a
  human-readable detail is the data it is built from.
\<close>

datatype mesh_error =
    SerialConnect string
  | MeshSerialIo
  | TcpConnect string
  | BleConnect string
  | FrameDecode string
  | ProtobufDecode
  | ProtobufEncode
  | Encryption encryption_detail
  | InvalidChannel u8
  | InvalidHopLimit u8
  | NodeNotFound u32
  | HandshakeFailed handshake_detail
  | ConnectionLost
  | SendFailed nat
  | PayloadDecode string
  | TopologySnapshot
  | DeliveryFailed u32 string
  | RoutingNak u32 string
  | QueueFull u32
  | MessageExpired u32
  | StoreForwardSerde
  | InvalidPosition f64 f64
  | StoreForwardOverCapacity nat nat
  | PacketIdSpaceExhausted

definition is_broadcast :: "node_num \<Rightarrow> bool" where
  "is_broadcast n \<longleftrightarrow> n = BROADCAST_ADDR"

definition claimed_from_wire :: "u32 \<Rightarrow> node_num option" where
  "claimed_from_wire raw = (if raw \<noteq> 0 \<and> \<not> is_broadcast raw then Some raw else None)"

definition channel_index_new :: "u8 \<Rightarrow> mesh_error + u8" where
  "channel_index_new index = (if index < MAX_CHANNELS then Inr index else Inl (InvalidChannel index))"

definition u8_try_from :: "u32 \<Rightarrow> u8 option" where
  "u8_try_from x = (if unat x < 256 then Some (ucast x) else None)"

definition hop_count_from_wire :: "u32 \<Rightarrow> u32 \<Rightarrow> u8 option" where
  "hop_count_from_wire hop_start hop_limit =
     (if hop_start = 0 \<or> hop_limit > hop_start then None
      else case u8_try_from (hop_start - hop_limit) of
             None \<Rightarrow> None
           | Some hops \<Rightarrow> if hops \<le> MAX_HOP_LIMIT then Some hops else None)"

subsection \<open>Wire messages\<close>

datatype priority = PUnset | PMin | PBackground | PDefault | PReliable | PAck | PMax

fun priority_i32 :: "priority \<Rightarrow> int" where
  "priority_i32 PUnset = 0"
| "priority_i32 PMin = 1"
| "priority_i32 PBackground = 10"
| "priority_i32 PDefault = 64"
| "priority_i32 PReliable = 70"
| "priority_i32 PAck = 120"
| "priority_i32 PMax = 127"

definition priority_try_from :: "int \<Rightarrow> priority option" where
  "priority_try_from n =
     find (\<lambda>p. priority_i32 p = n) [PUnset, PMin, PBackground, PDefault, PReliable, PAck, PMax]"

definition priority_or_default :: "int \<Rightarrow> priority" where
  "priority_or_default n = (case priority_try_from n of None \<Rightarrow> PDefault | Some p \<Rightarrow> p)"

datatype port_num =
    PortNumUnspecified
  | TextMessageApp
  | PositionApp
  | RoutingApp
  | AdminApp
  | TracerouteApp

fun port_num_i32 :: "port_num \<Rightarrow> int" where
  "port_num_i32 PortNumUnspecified = 0"
| "port_num_i32 TextMessageApp = 1"
| "port_num_i32 PositionApp = 3"
| "port_num_i32 RoutingApp = 5"
| "port_num_i32 AdminApp = 6"
| "port_num_i32 TracerouteApp = 70"

record data_msg =
  d_portnum :: int
  d_payload :: bytes
  d_want_response :: bool
  d_dest :: u32
  d_source :: u32
  d_request_id :: u32
  d_reply_id :: u32
  d_emoji :: bytes

datatype payload_variant = Decoded data_msg | Encrypted bytes

record mesh_packet =
  mp_from :: u32
  mp_to :: u32
  mp_channel :: u32
  mp_payload_variant :: "payload_variant option"
  mp_id :: u32
  mp_rx_time :: u32
  mp_rx_snr :: f32
  mp_hop_limit :: u32
  mp_want_ack :: bool
  mp_priority :: int
  mp_rx_rssi :: int
  mp_via_mqtt :: bool
  mp_hop_start :: u32

datatype to_radio = ToPacket mesh_packet | WantConfigId u32

datatype routing_error =
    RNone | NoRoute | GotNak | Timeout | NoInterface | MaxRetransmit | NoChannel | TooLarge
  | NoResponse | DutyCycleLimit | BadRequest | NotAuthorized

subsection \<open>Packet-id sequence\<close>

record packet_id_counter =
  last_issued :: u32

definition seed_random :: "u32 \<Rightarrow> packet_id_counter" where
  "seed_random r = \<lparr>last_issued = r\<rparr>"

definition resume :: "u32 \<Rightarrow> packet_id_counter" where
  "resume last_used = \<lparr>last_issued = last_used\<rparr>"

definition current :: "packet_id_counter \<Rightarrow> u32" where
  "current c = last_issued c"

definition next_id :: "packet_id_counter \<Rightarrow> (mesh_error + u32) \<times> packet_id_counter" where
  "next_id c =
     (case checked_add (last_issued c) 1 of
        None \<Rightarrow> (Inl PacketIdSpaceExhausted, c)
      | Some n \<Rightarrow> (Inr n, c\<lparr>last_issued := n\<rparr>))"

text \<open>
  A life of the counter as its documentation prescribes it: ids are drawn with
  \<open>next_id\<close>, and a restart persists \<open>current\<close> and comes back through \<open>resume\<close>.
  \<open>issued\<close> is the sequence of ids the life hands out.
\<close>

datatype id_event = Draw | Restart

fun issued :: "id_event list \<Rightarrow> packet_id_counter \<Rightarrow> u32 list" where
  "issued [] c = []"
| "issued (Draw # es) c =
     (case next_id c of (Inl _, c') \<Rightarrow> issued es c' | (Inr n, c') \<Rightarrow> n # issued es c')"
| "issued (Restart # es) c = issued es (resume (current c))"

subsection \<open>Facts\<close>

lemma claimed_from_wire_Some_iff:
  "claimed_from_wire raw = Some n \<longleftrightarrow> n = raw \<and> raw \<noteq> 0 \<and> raw \<noteq> 0xFFFFFFFF"
  by (auto simp: claimed_from_wire_def is_broadcast_def BROADCAST_ADDR_def)

lemma unat_u8_try_from: "u8_try_from x = Some y \<Longrightarrow> unat y = unat x"
  by (auto simp: u8_try_from_def unsigned_ucast_eq take_bit_eq_mod split: if_splits)

lemma priority_try_from_i32 [simp]: "priority_try_from (priority_i32 p) = Some p"
  by (cases p) (simp_all add: priority_try_from_def)

lemma priority_or_default_i32 [simp]: "priority_or_default (priority_i32 p) = p"
  by (simp add: priority_or_default_def)

lemma next_id_Inr:
  "next_id c = (Inr n, c') \<Longrightarrow>
     unat n = Suc (unat (last_issued c)) \<and> last_issued c' = n"
  by (auto simp: next_id_def checked_add_Some_iff split: option.splits)

lemma next_id_Inl:
  "next_id c = (Inl e, c') \<Longrightarrow> e = PacketIdSpaceExhausted \<and> c' = c \<and> last_issued c = - 1"
proof -
  assume a: "next_id c = (Inl e, c')"
  then have none: "checked_add (last_issued c) 1 = None"
    and e: "e = PacketIdSpaceExhausted" "c' = c"
    by (auto simp: next_id_def split: option.splits)
  from none have "2 ^ LENGTH(32) - 1 \<le> unat (last_issued c)"
    by (simp add: checked_add_None_iff)
  moreover have "unat (last_issued c) < 2 ^ LENGTH(32)"
    by (rule unsigned_less)
  ultimately have "unat (last_issued c) = unat (- 1 :: u32)"
    by (simp add: unat_max_word)
  then have "last_issued c = - 1" by (simp only: word_unat_eq_iff)
  with e show ?thesis by simp
qed

lemma resume_current [simp]: "last_issued (resume (current c)) = last_issued c"
  by (simp add: resume_def current_def)

lemma issued_increasing:
  "sorted_wrt (<) (issued es c) \<and> (\<forall>i \<in> set (issued es c). last_issued c < i)"
proof (induction es c rule: issued.induct)
  case (1 c)
  then show ?case by simp
next
  case (2 es c)
  show ?case
  proof (cases "next_id c")
    case (Pair r c')
    show ?thesis
    proof (cases r)
      case (Inl e)
      with Pair have "c' = c" by (auto dest: next_id_Inl)
      with 2(1) [OF Pair [symmetric] Inl] Pair Inl show ?thesis by simp
    next
      case (Inr n)
      with Pair have n: "last_issued c < n" "last_issued c' = n"
        by (auto dest!: next_id_Inr simp: word_less_nat_alt)
      with 2(2) [OF Pair [symmetric] Inr] Pair Inr show ?thesis
        by (auto intro: order.strict_trans)
    qed
  qed
next
  case (3 es c)
  then show ?case by simp
qed

end
