(* ===== verification/Frame_Codec.thy ===== *)
theory Frame_Codec
  imports Mesh_Types
begin

section \<open>The serial frame codec\<close>

text \<open>
  \<open>kerykeion/src/codec.rs\<close>: every protobuf message travels behind a four-byte
  header, two magic bytes and a big-endian length. \<open>decode_body\<close> is one iteration of the loop
  of \<open>Decoder::decode\<close>, \<open>decode\<close> the loop, and \<open>drain\<close> what \<open>Framed\<close> does with a
  decoder: call it until it asks for more input.

  The protobuf parser of the payload is generated code and is the parameter \<open>dec\<close>;
  the protobuf printer of the encoder is the parameter \<open>enc\<close>. Nothing is assumed
  of either in the properties of the decoder: the stream is adversarial.
\<close>

subsection \<open>Model\<close>

datatype 'm loop_step = Return "mesh_error + 'm option" bytes | Continue bytes

definition magic_at :: "bytes \<Rightarrow> nat \<Rightarrow> bool" where
  "magic_at src i \<longleftrightarrow> src ! i = fst FRAME_MAGIC \<and> src ! Suc i = snd FRAME_MAGIC"

definition magic_pos :: "bytes \<Rightarrow> nat option" where
  "magic_pos src = find (magic_at src) [0..<length src - 1]"

definition parse_frame :: "(bytes \<Rightarrow> 'm option) \<Rightarrow> bytes \<Rightarrow> 'm loop_step" where
  "parse_frame dec src =
     (if length src < 4 then Return (Inr None) src
      else let payload_len = from_be_bytes16 (src ! 2) (src ! 3) in
        if payload_len > MAX_PACKET_SIZE then Continue (drop 2 src)
        else if payload_len = 0 then Continue (drop 4 src)
        else if length src < 4 + payload_len then Return (Inr None) src
        else let payload = take payload_len (drop 4 src);
                 src' = drop payload_len (drop 4 src)
             in case dec payload of
                  Some msg \<Rightarrow> Return (Inr (Some msg)) src'
                | None \<Rightarrow> Continue src')"

definition decode_body :: "(bytes \<Rightarrow> 'm option) \<Rightarrow> bytes \<Rightarrow> 'm loop_step" where
  "decode_body dec src =
     (if length src < 2 then Return (Inr None) src
      else case magic_pos src of
        None \<Rightarrow> Return (Inr None) (drop (length src - 1) src)
      | Some n \<Rightarrow> if n > 0 then Continue (drop n src) else parse_frame dec src)"

lemma magic_pos_SomeD:
  "magic_pos src = Some n \<Longrightarrow>
     n < length src - 1 \<and> magic_at src n \<and> (\<forall>i < n. \<not> magic_at src i)"
  by (auto simp: magic_pos_def find_Some_iff)

lemma parse_frame_Continue_shorter: "parse_frame dec src = Continue s \<Longrightarrow> length s < length src"
  by (auto simp: parse_frame_def Let_def split: if_splits option.splits)

lemma decode_body_Continue_shorter: "decode_body dec src = Continue s \<Longrightarrow> length s < length src"
  by (auto simp: decode_body_def parse_frame_Continue_shorter dest: magic_pos_SomeD
      split: if_splits option.splits)

lemma parse_frame_Some_shorter:
  "parse_frame dec src = Return (Inr (Some m)) s \<Longrightarrow> length s < length src"
  by (auto simp: parse_frame_def Let_def split: if_splits option.splits)

lemma decode_body_Some_shorter:
  "decode_body dec src = Return (Inr (Some m)) s \<Longrightarrow> length s < length src"
  by (auto simp: decode_body_def parse_frame_Some_shorter split: if_splits option.splits)

function decode :: "(bytes \<Rightarrow> 'm option) \<Rightarrow> bytes \<Rightarrow> (mesh_error + 'm option) \<times> bytes" where
  "decode dec src =
     (case decode_body dec src of Return r s \<Rightarrow> (r, s) | Continue s \<Rightarrow> decode dec s)"
  by pat_completeness auto
termination
  by (relation "measure (\<lambda>(dec, src). length src)") (auto simp: decode_body_Continue_shorter)

declare decode.simps [simp del]

lemma decode_Some_shorter: "decode dec src = (Inr (Some m), s) \<Longrightarrow> length s < length src"
proof (induction dec src rule: decode.induct)
  case (1 dec src)
  show ?case
  proof (cases "decode_body dec src")
    case (Return r s')
    with "1.prems" show ?thesis
      by (simp add: decode.simps [of dec src] decode_body_Some_shorter)
  next
    case (Continue s')
    with "1.prems" have "length s < length s'"
      by (intro "1.IH") (simp_all add: decode.simps [of dec src])
    with Continue show ?thesis using decode_body_Continue_shorter by fastforce
  qed
qed

function drain :: "(bytes \<Rightarrow> 'm option) \<Rightarrow> bytes \<Rightarrow> 'm list \<times> bytes" where
  "drain dec src =
     (case decode dec src of
        (Inr (Some m), s) \<Rightarrow> (let (ms, r) = drain dec s in (m # ms, r))
      | (_, s) \<Rightarrow> ([], s))"
  by pat_completeness auto
termination
  by (relation "measure (\<lambda>(dec, src). length src)") (auto simp: decode_Some_shorter [OF sym])

declare drain.simps [simp del]

definition frame :: "bytes \<Rightarrow> bytes" where
  "frame payload = fst FRAME_MAGIC # snd FRAME_MAGIC # to_be_bytes16 (length payload) @ payload"

definition encode :: "('t \<Rightarrow> bytes) \<Rightarrow> 't \<Rightarrow> bytes \<Rightarrow> (mesh_error + unit) \<times> bytes" where
  "encode enc item dst =
     (let payload = enc item in
      if length payload > MAX_PACKET_SIZE then (Inl (SendFailed (length payload)), dst)
      else (Inr (), dst @ frame payload))"

text \<open>
  A transport delivers the stream in chunks. \<open>feed\<close> is the reader: it appends each
  chunk to the residue of the last one and drains the buffer.
\<close>

fun feed :: "(bytes \<Rightarrow> 'm option) \<Rightarrow> bytes \<Rightarrow> bytes list \<Rightarrow> 'm list \<times> bytes" where
  "feed dec buf [] = ([], buf)"
| "feed dec buf (c # cs) =
     (let (ms, r) = drain dec (buf @ c); (ms', r') = feed dec r cs in (ms @ ms', r'))"

subsection \<open>One iteration under more input\<close>

lemma magic_at_append: "Suc i < length a \<Longrightarrow> magic_at (a @ b) i = magic_at a i"
  by (simp add: magic_at_def nth_append)

lemma magic_pos_None_iff: "magic_pos src = None \<longleftrightarrow> (\<forall>i. Suc i < length src \<longrightarrow> \<not> magic_at src i)"
  by (auto simp: magic_pos_def find_None_iff)

lemma magic_pos_Some_iff:
  "magic_pos src = Some n \<longleftrightarrow>
     Suc n < length src \<and> magic_at src n \<and> (\<forall>i < n. \<not> magic_at src i)"
  by (auto simp: magic_pos_def find_Some_iff intro!: exI [of _ n])

lemma magic_pos_append: "magic_pos a = Some n \<Longrightarrow> magic_pos (a @ b) = Some n"
  by (auto simp: magic_pos_Some_iff magic_at_append)

lemma parse_frame_Continue_append:
  "parse_frame dec a = Continue s \<Longrightarrow> parse_frame dec (a @ b) = Continue (s @ b)"
  by (cases "length a < 4")
    (auto simp: parse_frame_def Let_def nth_append split: if_splits option.splits)

lemma parse_frame_Some_append:
  "parse_frame dec a = Return (Inr (Some m)) s \<Longrightarrow>
     parse_frame dec (a @ b) = Return (Inr (Some m)) (s @ b)"
  by (cases "length a < 4")
    (auto simp: parse_frame_def Let_def nth_append split: if_splits option.splits)

lemma decode_body_Continue_append:
  assumes "decode_body dec a = Continue s"
  shows "decode_body dec (a @ b) = Continue (s @ b)"
proof -
  from assms obtain n where n: "2 \<le> length a" "magic_pos a = Some n"
    "if n > 0 then s = drop n a else parse_frame dec a = Continue s"
    by (auto simp: decode_body_def split: if_splits option.splits)
  then have "n < length a" by (auto dest: magic_pos_SomeD)
  with n show ?thesis
    by (auto simp: decode_body_def magic_pos_append parse_frame_Continue_append split: if_splits)
qed

lemma decode_body_Some_append:
  assumes "decode_body dec a = Return (Inr (Some m)) s"
  shows "decode_body dec (a @ b) = Return (Inr (Some m)) (s @ b)"
proof -
  from assms have "2 \<le> length a" "magic_pos a = Some 0"
    "parse_frame dec a = Return (Inr (Some m)) s"
    by (auto simp: decode_body_def split: if_splits option.splits)
  then show ?thesis
    by (simp add: decode_body_def magic_pos_append parse_frame_Some_append)
qed

lemma decode_body_Inl: "decode_body dec src \<noteq> Return (Inl e) s"
  by (auto simp: decode_body_def parse_frame_def Let_def split: if_splits option.splits)

lemma parse_frame_None: "parse_frame dec a = Return (Inr None) s \<Longrightarrow> s = a"
  by (auto simp: parse_frame_def Let_def split: if_splits option.splits)

lemma decode_body_None_cases:
  "decode_body dec a = Return (Inr None) s \<Longrightarrow>
     s = a \<or> (2 \<le> length a \<and> magic_pos a = None \<and> s = drop (length a - 1) a)"
  by (auto simp: decode_body_def parse_frame_None split: if_splits option.splits)

lemma decode_Continue: "decode_body dec src = Continue s \<Longrightarrow> decode dec src = decode dec s"
  by (subst decode.simps) simp

lemma decode_Return: "decode_body dec src = Return r s \<Longrightarrow> decode dec src = (r, s)"
  by (subst decode.simps) simp

lemma decode_skip:
  assumes "0 < n" and "Suc n < length src" and "\<forall>i < n. \<not> magic_at src i"
  shows "decode dec src = decode dec (drop n src)"
proof (cases "magic_pos src")
  case None
  then have "magic_pos (drop n src) = None"
    using assms by (auto simp: magic_pos_None_iff magic_at_def)
  with None assms have "decode_body dec src = Return (Inr None) (drop (length src - 1) src)"
    and "decode_body dec (drop n src) = Return (Inr None) (drop (length src - 1) src)"
    by (auto simp: decode_body_def)
  then show ?thesis by (simp add: decode_Return)
next
  case (Some p)
  then have p: "n \<le> p" "Suc p < length src"
    using assms(3) by (auto simp: magic_pos_Some_iff not_less [symmetric])
  from Some have "decode_body dec src = Continue (drop p src)"
    using assms p by (simp add: decode_body_def)
  moreover have "magic_pos (drop n src) = Some (p - n)"
    using Some p by (auto simp: magic_pos_Some_iff magic_at_def)
  then have "p = n \<or> decode_body dec (drop n src) = Continue (drop p src)"
    using p by (auto simp: decode_body_def)
  ultimately show ?thesis by (auto simp: decode_Continue)
qed

lemma decode_keep_last:
  assumes "2 \<le> length a" and "magic_pos a = None"
  shows "decode dec (a @ b) = decode dec (drop (length a - 1) a @ b)"
proof (cases b)
  case Nil
  have "decode_body dec a = Return (Inr None) (drop (length a - 1) a)"
    and "decode_body dec (drop (length a - 1) a) = Return (Inr None) (drop (length a - 1) a)"
    using assms by (auto simp: decode_body_def)
  with Nil show ?thesis by (simp add: decode_Return)
next
  case (Cons x xs)
  have "\<forall>i < length a - 1. \<not> magic_at (a @ b) i"
    using assms(2) by (auto simp: magic_pos_None_iff magic_at_append)
  then have "decode dec (a @ b) = decode dec (drop (length a - 1) (a @ b))"
    using assms(1) Cons by (intro decode_skip) auto
  with assms(1) show ?thesis by simp
qed

subsection \<open>The whole decoder under more input\<close>

lemma decode_Some_append:
  "decode dec a = (Inr (Some m), s) \<Longrightarrow> decode dec (a @ b) = (Inr (Some m), s @ b)"
proof (induction dec a rule: decode.induct)
  case (1 dec a)
  show ?case
  proof (cases "decode_body dec a")
    case (Return r s')
    with "1.prems" show ?thesis
      by (auto simp: decode.simps [of dec a] intro!: decode_Return decode_body_Some_append)
  next
    case (Continue s')
    with "1.prems" have "decode dec (s' @ b) = (Inr (Some m), s @ b)"
      by (intro "1.IH") (simp_all add: decode.simps [of dec a])
    with Continue show ?thesis by (simp add: decode_Continue decode_body_Continue_append)
  qed
qed

lemma decode_None_append:
  "decode dec a = (Inr None, s) \<Longrightarrow> decode dec (a @ b) = decode dec (s @ b)"
proof (induction dec a rule: decode.induct)
  case (1 dec a)
  show ?case
  proof (cases "decode_body dec a")
    case (Return r s')
    with "1.prems" have "decode_body dec a = Return (Inr None) s"
      by (simp add: decode.simps [of dec a])
    from decode_body_None_cases [OF this] show ?thesis
      using decode_keep_last [of a dec b] by auto
  next
    case (Continue s')
    with "1.prems" have "decode dec (s' @ b) = decode dec (s @ b)"
      by (intro "1.IH") (simp_all add: decode.simps [of dec a])
    with Continue show ?thesis by (simp add: decode_Continue decode_body_Continue_append)
  qed
qed

lemma decode_not_Inl: "decode dec src \<noteq> (Inl e, s)"
proof (induction dec src rule: decode.induct)
  case (1 dec src)
  then show ?case
    by (cases "decode_body dec src") (auto simp: decode.simps [of dec src] decode_body_Inl)
qed

lemma decode_cases:
  obtains (more) s where "decode dec src = (Inr None, s)"
  | (msg) m s where "decode dec src = (Inr (Some m), s)"
proof -
  obtain r s where rs: "decode dec src = (r, s)" by fastforce
  show ?thesis
  proof (cases r)
    case (Inl e)
    with rs show ?thesis by (simp add: decode_not_Inl)
  next
    case (Inr o1)
    with rs more msg show ?thesis by (cases o1) auto
  qed
qed

lemma drain_None: "decode dec src = (Inr None, s) \<Longrightarrow> drain dec src = ([], s)"
  by (subst drain.simps) simp

lemma drain_Some:
  "decode dec src = (Inr (Some m), s) \<Longrightarrow>
     drain dec src = (m # fst (drain dec s), snd (drain dec s))"
  by (subst drain.simps) (simp add: case_prod_beta)

lemma decode_None_idem: "decode dec a = (Inr None, s) \<Longrightarrow> decode dec s = (Inr None, s)"
  using decode_None_append [of dec a s "[]"] by simp

lemma drain_append:
  "drain dec (a @ b) =
     (fst (drain dec a) @ fst (drain dec (snd (drain dec a) @ b)),
      snd (drain dec (snd (drain dec a) @ b)))"
proof (induction dec a rule: drain.induct)
  case (1 dec a)
  show ?case
  proof (cases dec a rule: decode_cases)
    case (more s)
    then have "drain dec (a @ b) = drain dec (s @ b)"
      by (subst (1 2) drain.simps) (simp add: decode_None_append)
    with more show ?thesis by (simp add: drain_None)
  next
    case (msg m s)
    from "1.IH" [OF msg [symmetric] refl refl]
    show ?thesis
      using msg by (simp add: drain_Some [OF msg] drain_Some [OF decode_Some_append [OF msg]])
  qed
qed

subsection \<open>Bounded residue\<close>

lemma decode_body_None_bound:
  "decode_body dec src = Return (Inr None) s \<Longrightarrow> length s < 4 + MAX_PACKET_SIZE"
  by (auto simp: decode_body_def parse_frame_def Let_def MAX_PACKET_SIZE_def
      split: if_splits option.splits)

lemma decode_None_bound: "decode dec src = (Inr None, s) \<Longrightarrow> length s < 4 + MAX_PACKET_SIZE"
proof (induction dec src rule: decode.induct)
  case (1 dec src)
  then show ?case
    by (cases "decode_body dec src")
      (auto simp: decode.simps [of dec src] decode_body_None_bound)
qed

lemma drain_bound: "length (snd (drain dec src)) < 4 + MAX_PACKET_SIZE"
proof (induction dec src rule: drain.induct)
  case (1 dec src)
  show ?case
  proof (cases dec src rule: decode_cases)
    case (more s)
    then show ?thesis by (simp add: drain_None decode_None_bound)
  next
    case (msg m s)
    from "1.IH" [OF msg [symmetric] refl refl] show ?thesis by (simp add: drain_Some [OF msg])
  qed
qed

subsection \<open>Frames\<close>

lemma length_frame [simp]: "length (frame p) = 4 + length p"
  by (simp add: frame_def to_be_bytes16_def)

lemma frame_header:
  "frame p ! 0 = fst FRAME_MAGIC" "frame p ! Suc 0 = snd FRAME_MAGIC"
  "frame p ! 2 = word_of_nat (length p div 256)" "frame p ! 3 = word_of_nat (length p)"
  by (simp_all add: frame_def to_be_bytes16_def)

lemma frame_payload: "drop 4 (frame p) = p"
  by (simp add: frame_def to_be_bytes16_def)

lemma frame_length_field:
  "length p \<le> MAX_PACKET_SIZE \<Longrightarrow> from_be_bytes16 (frame p ! 2) (frame p ! 3) = length p"
  by (rule from_to_be_bytes16) (simp_all add: frame_header to_be_bytes16_def MAX_PACKET_SIZE_def)

lemma magic_pos_frame: "magic_pos (frame p @ rest) = Some 0"
  by (auto simp: magic_pos_Some_iff magic_at_def nth_append frame_header)

lemma nth_frame_append: "k < 4 \<Longrightarrow> (frame p @ rest) ! k = frame p ! k"
  by (simp add: nth_append)

lemma decode_frame:
  assumes "0 < length p" "length p \<le> MAX_PACKET_SIZE"
  shows "decode dec (frame p @ rest) =
    (case dec p of Some m \<Rightarrow> (Inr (Some m), rest) | None \<Rightarrow> decode dec rest)"
proof -
  have "decode_body dec (frame p @ rest) =
      (case dec p of Some m \<Rightarrow> Return (Inr (Some m)) rest | None \<Rightarrow> Continue rest)"
    using assms
    by (auto simp: decode_body_def parse_frame_def magic_pos_frame nth_frame_append frame_length_field
        frame_payload Let_def split: option.splits)
  then show ?thesis
    by (cases "dec p") (simp_all add: decode_Continue decode_Return)
qed

lemma decode_empty_frame: "decode dec (frame [] @ rest) = decode dec rest"
proof -
  have "decode_body dec (frame [] @ rest) = Continue rest"
    using frame_payload [of "[]"] frame_length_field [of "[]"]
    by (simp add: decode_body_def parse_frame_def magic_pos_frame nth_frame_append Let_def)
  then show ?thesis by (simp add: decode_Continue)
qed

lemma decode_partial_frame:
  assumes "0 < length p" "length p \<le> MAX_PACKET_SIZE" "k < length (frame p)"
  shows "decode dec (take k (frame p)) = (Inr None, take k (frame p))"
proof -
  have "2 \<le> k \<Longrightarrow> magic_pos (take k (frame p)) = Some 0"
    using assms(3) by (auto simp: magic_pos_Some_iff magic_at_def frame_header)
  then have "decode_body dec (take k (frame p)) = Return (Inr None) (take k (frame p))"
    using assms by (auto simp: decode_body_def parse_frame_def frame_length_field Let_def)
  then show ?thesis by (rule decode_Return)
qed

lemma decode_noise_frame:
  assumes "magic_pos noise = None"
  shows "decode dec (noise @ frame p @ rest) = decode dec (frame p @ rest)"
proof (cases "noise = []")
  case False
  have "\<not> magic_at (noise @ frame p @ rest) i" if "i < length noise" for i
  proof (cases "Suc i < length noise")
    case True
    then show ?thesis using assms by (simp add: magic_pos_None_iff magic_at_append)
  next
    case False
    with that have "(noise @ frame p @ rest) ! Suc i = frame p ! 0"
      by (simp add: nth_append)
    then show ?thesis by (simp add: magic_at_def frame_header FRAME_MAGIC_def)
  qed
  then have "decode dec (noise @ frame p @ rest) =
      decode dec (drop (length noise) (noise @ frame p @ rest))"
    using False by (intro decode_skip) auto
  then show ?thesis by simp
qed simp

lemma drain_decode_cong: "decode dec a = decode dec b \<Longrightarrow> drain dec a = drain dec b"
  by (subst (1 2) drain.simps) simp

lemma drain_frames:
  assumes "\<forall>p \<in> set ps. 0 < length p \<and> length p \<le> MAX_PACKET_SIZE"
  shows "drain dec (concat (map frame ps) @ rest) =
    (List.map_filter dec ps @ fst (drain dec rest), snd (drain dec rest))"
  using assms
proof (induction ps)
  case Nil
  then show ?case by (simp add: List.map_filter_simps)
next
  case (Cons p ps)
  let ?tail = "concat (map frame ps) @ rest"
  have p: "0 < length p" "length p \<le> MAX_PACKET_SIZE" using Cons.prems by auto
  show ?case
  proof (cases "dec p")
    case None
    with p have "decode dec (frame p @ ?tail) = decode dec ?tail"
      by (simp add: decode_frame)
    then have "drain dec (frame p @ ?tail) = drain dec ?tail" by (rule drain_decode_cong)
    with Cons None show ?thesis by (simp add: List.map_filter_simps)
  next
    case (Some m)
    with p have "decode dec (frame p @ ?tail) = (Inr (Some m), ?tail)"
      by (simp add: decode_frame)
    with Cons Some show ?thesis by (simp add: drain_Some List.map_filter_simps)
  qed
qed

lemma drain_snd_idem: "drain dec (snd (drain dec a)) = ([], snd (drain dec a))"
proof (induction dec a rule: drain.induct)
  case (1 dec a)
  show ?case
  proof (cases dec a rule: decode_cases)
    case (more s)
    then show ?thesis using decode_None_idem [OF more] by (simp add: drain_None)
  next
    case (msg m s)
    from "1.IH" [OF msg [symmetric] refl refl] show ?thesis by (simp add: drain_Some [OF msg])
  qed
qed

lemma feed_drain:
  "drain dec buf = ([], buf) \<Longrightarrow> feed dec buf cs = drain dec (buf @ concat cs)"
proof (induction cs arbitrary: buf)
  case Nil
  then show ?case by simp
next
  case (Cons c cs)
  let ?d = "drain dec (buf @ c)"
  have "feed dec (snd ?d) cs = drain dec (snd ?d @ concat cs)"
    by (rule Cons.IH) (rule drain_snd_idem)
  then show ?case
    using drain_append [of dec "buf @ c" "concat cs"] by (simp add: case_prod_beta)
qed

subsection \<open>Properties\<close>

text \<open>
  C30. Framing is independent of how the transport chops the stream: feeding the bytes in any
  chunks yields the same messages and leaves the same residue as decoding the whole stream at once.
\<close>

theorem feed_chunk_independent: "feed dec [] cs = drain dec (concat cs)"
  using feed_drain [of dec "[]" cs] by (simp add: drain_None decode_Return decode_body_def)

text \<open>
  The decoder resynchronises and never loses a well-formed frame: after any noise that holds no
  magic pair, a run of frames followed by a partial frame yields exactly the payloads that parse, in
  order, skips the frames whose payload is malformed, and keeps the partial frame whole.
\<close>

theorem drain_resynchronises:
  assumes "magic_pos noise = None"
    and "ps \<noteq> []"
    and "\<forall>p \<in> set ps. 0 < length p \<and> length p \<le> MAX_PACKET_SIZE"
    and "0 < length q" "length q \<le> MAX_PACKET_SIZE" "k < length (frame q)"
  shows "drain dec (noise @ concat (map frame ps) @ take k (frame q)) =
    (List.map_filter dec ps, take k (frame q))"
proof -
  obtain p ps' where ps: "ps = p # ps'" using assms(2) by (cases ps) auto
  have "drain dec (noise @ concat (map frame ps) @ take k (frame q)) =
      drain dec (concat (map frame ps) @ take k (frame q))"
    using assms(1) by (intro drain_decode_cong) (simp add: ps decode_noise_frame)
  then show ?thesis
    using assms drain_frames [of ps dec "take k (frame q)"]
    by (simp add: drain_None decode_partial_frame)
qed

text \<open>
  Whatever bytes arrive, the decoder returns without an error (an error would tear the receive
  stream down), and the bytes it holds back are fewer than one maximal frame.
\<close>

theorem decode_never_fails_and_bounded:
  "\<exists>r s. decode dec src = (Inr r, s) \<and> length (snd (drain dec src)) < 4 + MAX_PACKET_SIZE"
  by (cases dec src rule: decode_cases) (auto simp: drain_bound)

text \<open>
  C26. What the encoder writes the decoder reads. A message whose encoding fits a packet is accepted and appended as one frame;
  behind noise without a magic pair and before any further bytes, decoding yields the message if its encoding is
  non-empty and the payload parser accepts it, and otherwise skips exactly that frame and goes on with the bytes after it (so a message
  with an empty encoding is accepted by the encoder and never seen by the decoder). A message that does not fit is refused
  and leaves the output buffer as it was.
\<close>

theorem encode_decode_roundtrip:
  assumes "magic_pos noise = None"
  shows "if length (enc item) \<le> MAX_PACKET_SIZE
    then \<exists>bs. encode enc item dst = (Inr (), dst @ bs) \<and>
           decode dec (noise @ bs @ rest) =
             (if enc item = [] then decode dec rest
              else case dec (enc item) of None \<Rightarrow> decode dec rest | Some m \<Rightarrow> (Inr (Some m), rest))
    else encode enc item dst = (Inl (SendFailed (length (enc item))), dst)"
  using assms decode_empty_frame [of dec rest] decode_frame [of "enc item" dec rest]
  by (auto simp: encode_def Let_def decode_noise_frame split: option.splits)

theorem encode_decode_roundtrip_witness:
  "\<exists>bs. encode (\<lambda>n. [word_of_nat n, 1]) 7 [3] = (Inr (), [3] @ bs) \<and>
     decode (\<lambda>p. Some (p ! 0, p ! 1)) ([0x94] @ bs @ [2]) = (Inr (Some (7, 1)), [2])"
proof -
  have "magic_pos [0x94] = None"
    by (simp add: magic_pos_def)
  from encode_decode_roundtrip [OF this, of "\<lambda>n. [word_of_nat n, 1]" 7 "[3]"
      "\<lambda>p. Some (p ! 0, p ! 1)" "[2]"]
  show ?thesis by (simp add: MAX_PACKET_SIZE_def)
qed

end
