(* ===== verification/Outbound_Queue.thy ===== *)
theory Outbound_Queue
  imports Mesh_Types Interfaces
begin

section \<open>The outbound queue\<close>

text \<open>
  \<open>kerykeion/src/outbound.rs\<close>: a priority-ordered queue of messages waiting to be
  sent and a table of messages awaiting an acknowledgement. A clock reading
  (\<open>Instant::now()\<close>) is the argument \<open>now\<close> of the operation that takes it.
\<close>

subsection \<open>Model\<close>

record outbound_config =
  oc_max_inflight :: usize
  oc_max_pending :: usize
  oc_max_retries :: u8
  oc_ack_timeout_secs :: u64
  oc_store_forward_ttl_secs :: u64
  oc_delivery_record_max_age_secs :: u64

definition outbound_config_default :: outbound_config where
  "outbound_config_default =
     \<lparr>oc_max_inflight = 8, oc_max_pending = 1024, oc_max_retries = 5, oc_ack_timeout_secs = 30,
      oc_store_forward_ttl_secs = 3600, oc_delivery_record_max_age_secs = 7200\<rparr>"

record pending_message =
  pm_packet :: mesh_packet
  pm_created :: instant
  pm_ttl :: duration
  pm_priority :: priority
  pm_retries :: u8

definition pm_is_expired :: "instant \<Rightarrow> pending_message \<Rightarrow> bool" where
  "pm_is_expired now m \<longleftrightarrow> now - pm_created m \<ge> pm_ttl m"

record inflight_message =
  im_packet :: mesh_packet
  im_created :: instant
  im_ttl :: duration
  im_sent_at :: instant
  im_retries :: u8
  im_max_retries :: u8
  im_ack_timeout :: duration

definition im_is_expired :: "instant \<Rightarrow> inflight_message \<Rightarrow> bool" where
  "im_is_expired now m \<longleftrightarrow> now - im_created m \<ge> im_ttl m"

definition has_timed_out :: "instant \<Rightarrow> inflight_message \<Rightarrow> bool" where
  "has_timed_out now m \<longleftrightarrow> now - im_sent_at m \<ge> im_ack_timeout m"

record outbound_queue =
  pending :: "pending_message list"
  inflight :: "(packet_id, inflight_message) hash_map"
  max_inflight :: usize
  max_pending :: usize
  max_retries :: u8

definition outbound_with_config :: "outbound_config \<Rightarrow> outbound_queue" where
  "outbound_with_config config =
     \<lparr>pending = [], inflight = [], max_inflight = oc_max_inflight config,
      max_pending = oc_max_pending config, max_retries = oc_max_retries config\<rparr>"

definition outbound_with_max_inflight :: "usize \<Rightarrow> outbound_queue" where
  "outbound_with_max_inflight n =
     \<lparr>pending = [], inflight = [], max_inflight = n,
      max_pending = oc_max_pending outbound_config_default,
      max_retries = oc_max_retries outbound_config_default\<rparr>"

definition remaining_capacity :: "outbound_queue \<Rightarrow> usize" where
  "remaining_capacity q = max_pending q - length (pending q)"

abbreviation pm_rank :: "pending_message \<Rightarrow> int" where
  "pm_rank m \<equiv> priority_i32 (pm_priority m)"

definition enqueue ::
    "pending_message \<Rightarrow> outbound_queue \<Rightarrow> (pending_message + unit) \<times> outbound_queue" where
  "enqueue msg q =
     (if length (pending q) \<ge> max_pending q then (Inl msg, q)
      else let insert_pos =
             (case position (\<lambda>existing. pm_rank existing < pm_rank msg) (pending q) of
                None \<Rightarrow> length (pending q) | Some i \<Rightarrow> i)
           in (Inr (), q\<lparr>pending := insert_at insert_pos msg (pending q)\<rparr>))"

fun pop_unexpired :: "instant \<Rightarrow> pending_message list \<Rightarrow>
    pending_message option \<times> pending_message list" where
  "pop_unexpired now [] = (None, [])"
| "pop_unexpired now (front # rest) =
     (if pm_is_expired now front then pop_unexpired now rest else (Some front, rest))"

definition next_to_send ::
    "instant \<Rightarrow> outbound_queue \<Rightarrow> pending_message option \<times> outbound_queue" where
  "next_to_send now q =
     (if length (inflight q) \<ge> max_inflight q then (None, q)
      else let (m, rest) = pop_unexpired now (pending q) in (m, q\<lparr>pending := rest\<rparr>))"

definition outbound_mark_sent ::
    "instant \<Rightarrow> packet_id \<Rightarrow> duration \<Rightarrow> outbound_queue \<Rightarrow> outbound_queue" where
  "outbound_mark_sent now pid timeout q =
     (case position (\<lambda>m. mp_id (pm_packet m) = pid) (pending q) of
        None \<Rightarrow> q
      | Some pos \<Rightarrow>
          let msg = pending q ! pos in
          q\<lparr>pending := remove_at pos (pending q),
            inflight := hm_insert pid
              \<lparr>im_packet = pm_packet msg, im_created = pm_created msg, im_ttl = pm_ttl msg,
               im_sent_at = now, im_retries = 0, im_max_retries = max_retries q,
               im_ack_timeout = timeout\<rparr> (inflight q)\<rparr>)"

definition track_inflight ::
    "instant \<Rightarrow> pending_message \<Rightarrow> duration \<Rightarrow> outbound_queue \<Rightarrow> outbound_queue" where
  "track_inflight now msg timeout q =
     q\<lparr>inflight := hm_insert (mp_id (pm_packet msg))
         \<lparr>im_packet = pm_packet msg, im_created = pm_created msg, im_ttl = pm_ttl msg,
          im_sent_at = now, im_retries = pm_retries msg, im_max_retries = max_retries q,
          im_ack_timeout = timeout\<rparr> (inflight q)\<rparr>"

definition outbound_handle_ack ::
    "packet_id \<Rightarrow> outbound_queue \<Rightarrow> inflight_message option \<times> outbound_queue" where
  "outbound_handle_ack pid q =
     (hm_get (inflight q) pid, q\<lparr>inflight := hm_remove pid (inflight q)\<rparr>)"

definition requeued :: "inflight_message \<Rightarrow> pending_message" where
  "requeued m =
     \<lparr>pm_packet = im_packet m, pm_created = im_created m, pm_ttl = im_ttl m,
      pm_priority = priority_or_default (mp_priority (im_packet m)), pm_retries = im_retries m + 1\<rparr>"

definition retry :: "packet_id \<Rightarrow> outbound_queue \<Rightarrow> bool \<times> outbound_queue" where
  "retry pid q =
     (case hm_get (inflight q) pid of
        None \<Rightarrow> (False, q)
      | Some msg \<Rightarrow>
          let q' = q\<lparr>inflight := hm_remove pid (inflight q)\<rparr> in
          if im_retries msg \<ge> im_max_retries msg then (False, q')
          else case enqueue (requeued msg) q' of (r, q'') \<Rightarrow> (is_ok r, q''))"

definition outbound_handle_nak :: "packet_id \<Rightarrow> outbound_queue \<Rightarrow> bool \<times> outbound_queue" where
  "outbound_handle_nak pid q = retry pid q"

definition check_timeouts :: "instant \<Rightarrow> outbound_queue \<Rightarrow> packet_id list" where
  "check_timeouts now q = map fst (filter (\<lambda>(_, m). has_timed_out now m) (inflight q))"

definition drain_expired :: "instant \<Rightarrow> outbound_queue \<Rightarrow> outbound_queue" where
  "drain_expired now q =
     q\<lparr>pending := filter (\<lambda>m. \<not> pm_is_expired now m) (pending q),
       inflight := hm_retain (\<lambda>_ m. \<not> im_is_expired now m) (inflight q)\<rparr>"

definition pending_count :: "outbound_queue \<Rightarrow> usize" where
  "pending_count q = length (pending q)"

definition inflight_count :: "outbound_queue \<Rightarrow> usize" where
  "inflight_count q = length (inflight q)"

text \<open>
  The queue's invariant: the pending queue is in priority order and within its bound;
  the inflight table has one entry per packet id, filed under the id of its packet; and no
  message has been retried more often than the limit.
\<close>

definition outbound_inv :: "outbound_queue \<Rightarrow> bool" where
  "outbound_inv q \<longleftrightarrow>
     sorted_wrt (\<lambda>a b. pm_rank b \<le> pm_rank a) (pending q) \<and>
     length (pending q) \<le> max_pending q \<and>
     hm_wf (inflight q) \<and>
     (\<forall>m \<in> set (pending q). pm_retries m \<le> max_retries q) \<and>
     (\<forall>(pid, m) \<in> set (inflight q).
        mp_id (im_packet m) = pid \<and> im_max_retries m = max_retries q \<and>
        im_retries m \<le> max_retries q)"

text \<open>
  The operations as steps. Both callers of \<open>enqueue\<close> outside \<open>retry\<close> submit retry count 0,
  and \<open>OSend\<close> is a message on its way out: popped, transmitted, tracked.
\<close>

datatype outbound_op =
    OEnqueue mesh_packet instant duration priority
  | ONext instant
  | OMarkSent instant packet_id duration
  | OSend instant instant duration
  | OAck packet_id
  | ORetry packet_id
  | ODrain instant

fun outbound_step :: "outbound_op \<Rightarrow> outbound_queue \<Rightarrow> outbound_queue" where
  "outbound_step (OEnqueue p c t pr) q =
     snd (enqueue \<lparr>pm_packet = p, pm_created = c, pm_ttl = t, pm_priority = pr, pm_retries = 0\<rparr> q)"
| "outbound_step (ONext now) q = snd (next_to_send now q)"
| "outbound_step (OMarkSent now pid t) q = outbound_mark_sent now pid t q"
| "outbound_step (OSend now sent t) q =
     (case next_to_send now q of
        (None, q') \<Rightarrow> q'
      | (Some m, q') \<Rightarrow> track_inflight sent m t q')"
| "outbound_step (OAck pid) q = snd (outbound_handle_ack pid q)"
| "outbound_step (ORetry pid) q = snd (retry pid q)"
| "outbound_step (ODrain now) q = drain_expired now q"

subsection \<open>Insertion is stable insertion by priority\<close>

text \<open>\<open>enqueue\<close> with the refusal as \<open>None\<close>, the shape the sink interface has.\<close>

definition enqueue_opt :: "pending_message \<Rightarrow> outbound_queue \<Rightarrow> outbound_queue option" where
  "enqueue_opt m q = (case enqueue m q of (Inl _, _) \<Rightarrow> None | (Inr _, q') \<Rightarrow> Some q')"

definition enqueue_pos :: "pending_message \<Rightarrow> pending_message list \<Rightarrow> nat" where
  "enqueue_pos msg ms =
     (case position (\<lambda>e. pm_rank e < pm_rank msg) ms of None \<Rightarrow> length ms | Some i \<Rightarrow> i)"

lemma enqueue_ok:
  "length (pending q) < max_pending q \<Longrightarrow>
     enqueue m q = (Inr (), q\<lparr>pending := insert_at (enqueue_pos m (pending q)) m (pending q)\<rparr>)"
  by (simp add: enqueue_def enqueue_pos_def)

lemma enqueue_full: "max_pending q \<le> length (pending q) \<Longrightarrow> enqueue m q = (Inl m, q)"
  by (simp add: enqueue_def)

lemma enqueue_pos_Cons:
  "insert_at (enqueue_pos m (x # xs)) m (x # xs) =
     (if pm_rank x < pm_rank m then m # x # xs else x # insert_at (enqueue_pos m xs) m xs)"
  by (auto simp: enqueue_pos_def insert_at_def simp del: position_None_iff split: option.splits)

lemma enqueue_pos_Nil: "insert_at (enqueue_pos m []) m [] = [m]"
  by (simp add: enqueue_pos_def insert_at_def)

lemma enqueue_sorted:
  "sorted_wrt (\<lambda>a b. pm_rank b \<le> pm_rank a) ms \<Longrightarrow>
     sorted_wrt (\<lambda>a b. pm_rank b \<le> pm_rank a) (insert_at (enqueue_pos m ms) m ms)"
proof (induction ms)
  case Nil
  then show ?case by (simp add: enqueue_pos_Nil)
next
  case (Cons x xs)
  then show ?case
    by (auto simp: enqueue_pos_Cons)
qed

lemma enqueue_stable:
  "sorted_wrt (\<lambda>a b. pm_rank b \<le> pm_rank a) ms \<Longrightarrow>
     filter (\<lambda>x. pm_rank x = k) (insert_at (enqueue_pos m ms) m ms) =
       filter (\<lambda>x. pm_rank x = k) ms @ (if pm_rank m = k then [m] else [])"
proof (induction ms)
  case Nil
  then show ?case by (simp add: enqueue_pos_Nil)
next
  case (Cons x xs)
  show ?case
  proof (cases "pm_rank x < pm_rank m")
    case True
    with Cons.prems have "\<forall>y \<in> set (x # xs). pm_rank y < pm_rank m" by auto
    then have "filter (\<lambda>y. pm_rank y = pm_rank m) (x # xs) = []"
      by (auto simp: filter_empty_conv)
    with True show ?thesis by (auto simp: enqueue_pos_Cons)
  next
    case False
    with Cons show ?thesis by (simp add: enqueue_pos_Cons)
  qed
qed

text \<open>Inserting one message and sorting is sorting with the message at its place in the order of arrival.\<close>

lemma sort_key_enqueue:
  assumes "sorted_wrt (\<lambda>a b. pm_rank b \<le> pm_rank a) ps"
  shows "sort_key (\<lambda>m. - pm_rank m) (insert_at (enqueue_pos m ps) m ps @ ms) = sort_key (\<lambda>m. - pm_rank m) (ps @ m # ms)"
    (is "sort_key ?f (?p @ ms) = _")
proof (rule properties_for_sort_key [symmetric])
  show "mset (sort_key ?f (?p @ ms)) = mset (ps @ m # ms)" by simp
  show "filter (\<lambda>x. ?f k = ?f x) (sort_key ?f (?p @ ms)) = filter (\<lambda>x. ?f k = ?f x) (ps @ m # ms)" for k
  proof -
    have "filter (\<lambda>x. ?f x = ?f k) (sort_key ?f (?p @ ms)) = filter (\<lambda>x. ?f x = ?f k) (?p @ ms)"
      by (rule sort_key_stable)
    with enqueue_stable [OF assms, of "pm_rank k" m] show ?thesis
      by (simp add: eq_commute [of "pm_rank k"])
  qed
  show "sorted (map ?f (sort_key ?f (?p @ ms)))" by (rule sorted_sort_key)
qed

lemma sort_key_pending:
  "sorted_wrt (\<lambda>a b. pm_rank b \<le> pm_rank a) ps \<Longrightarrow> sort_key (\<lambda>m. - pm_rank m) ps = ps"
  by (simp add: sort_key_id_if_sorted sorted_wrt_map)

lemma enqueue_is_sort:
  "sorted_wrt (\<lambda>a b. pm_rank b \<le> pm_rank a) ps \<Longrightarrow>
     insert_at (enqueue_pos m ps) m ps = sort_key (\<lambda>m. - pm_rank m) (ps @ [m])"
  using sort_key_enqueue [of ps m "[]"] sort_key_pending [OF enqueue_sorted, of ps m] by simp

lemma enqueue_all_pending:
  assumes "length (pending q) + length ms \<le> max_pending q"
    and "sorted_wrt (\<lambda>a b. pm_rank b \<le> pm_rank a) (pending q)"
  shows "push_all enqueue_opt ms q =
    Some (q\<lparr>pending := sort_key (\<lambda>m. - pm_rank m) (pending q @ ms)\<rparr>)"
  using assms
proof (induction ms arbitrary: q)
  case Nil
  then show ?case by (simp add: sort_key_pending)
next
  case (Cons m ms)
  let ?p = "insert_at (enqueue_pos m (pending q)) m (pending q)"
  have "sorted_wrt (\<lambda>a b. pm_rank b \<le> pm_rank a) ?p"
    using Cons.prems(2) by (rule enqueue_sorted)
  with Cons.IH [of "q\<lparr>pending := ?p\<rparr>"] Cons.prems show ?case
    by (simp add: enqueue_opt_def enqueue_ok sort_key_enqueue)
qed

subsection \<open>Dispatch order\<close>

lemma pop_unexpired_eq:
  "pop_unexpired now ms =
     (case dropWhile (pm_is_expired now) ms of [] \<Rightarrow> (None, []) | m # rest \<Rightarrow> (Some m, rest))"
  by (induction ms) auto

lemma pop_unexpired_Some:
  "pop_unexpired now ms = (Some m, rest) \<Longrightarrow>
     \<exists>dead. ms = dead @ m # rest \<and> (\<forall>d \<in> set dead. pm_is_expired now d) \<and> \<not> pm_is_expired now m"
proof (induction ms)
  case Nil
  then show ?case by simp
next
  case (Cons x xs)
  show ?case
  proof (cases "pm_is_expired now x")
    case True
    with Cons obtain dead where "xs = dead @ m # rest" "\<forall>d \<in> set dead. pm_is_expired now d"
      "\<not> pm_is_expired now m" by auto
    with True show ?thesis by (intro exI [of _ "x # dead"]) auto
  next
    case False
    with Cons.prems show ?thesis by (intro exI [of _ "[]"]) auto
  qed
qed

lemma pop_unexpired_None:
  "pop_unexpired now ms = (None, rest) \<longleftrightarrow> rest = [] \<and> (\<forall>m \<in> set ms. pm_is_expired now m)"
  by (induction ms) auto

subsection \<open>The invariant is kept\<close>

lemma outbound_invD:
  assumes "outbound_inv q"
  shows "sorted_wrt (\<lambda>a b. pm_rank b \<le> pm_rank a) (pending q)" "length (pending q) \<le> max_pending q"
    "hm_wf (inflight q)" "m \<in> set (pending q) \<Longrightarrow> pm_retries m \<le> max_retries q"
    "hm_get (inflight q) pid = Some im \<Longrightarrow> mp_id (im_packet im) = pid"
    "hm_get (inflight q) pid = Some im \<Longrightarrow> im_max_retries im = max_retries q"
    "hm_get (inflight q) pid = Some im \<Longrightarrow> im_retries im \<le> max_retries q"
  using assms by (auto simp: outbound_inv_def dest!: hm_get_in)

lemma outbound_inv_with_config [simp, intro]: "outbound_inv (outbound_with_config config)"
  by (simp add: outbound_inv_def outbound_with_config_def)

lemma outbound_inv_enqueue [inv_intros]:
  "outbound_inv q \<Longrightarrow> pm_retries m \<le> max_retries q \<Longrightarrow> outbound_inv (snd (enqueue m q))"
  by (cases "length (pending q) < max_pending q")
    (auto simp: outbound_inv_def enqueue_ok enqueue_full enqueue_sorted)

lemma outbound_inv_next [inv_intros]:
  assumes "outbound_inv q"
  shows "outbound_inv (snd (next_to_send now q))"
proof -
  obtain m rest where p: "pop_unexpired now (pending q) = (m, rest)" by fastforce
  have "\<exists>dead. pending q = dead @ rest"
  proof (cases m)
    case None
    with p show ?thesis by (auto simp: pop_unexpired_None)
  next
    case (Some m')
    with p show ?thesis by (auto dest!: pop_unexpired_Some intro: exI [of _ "_ @ [_]"])
  qed
  then show ?thesis
    using assms p by (auto simp: next_to_send_def outbound_inv_def sorted_wrt_append)
qed

lemma sorted_wrt_remove_at: "sorted_wrt P xs \<Longrightarrow> sorted_wrt P (remove_at i xs)"
proof (induction xs arbitrary: i)
  case Nil
  then show ?case by (simp add: remove_at_def)
next
  case (Cons x xs)
  then show ?case
    using set_remove_at_subset [of "i - 1" xs] by (cases i) (auto simp: remove_at_def)
qed

lemma length_remove_at_le: "length (remove_at i xs) \<le> length xs"
  by (simp add: remove_at_def)

lemma outbound_inv_mark_sent [inv_intros]:
  assumes "outbound_inv q"
  shows "outbound_inv (outbound_mark_sent now pid t q)"
proof (cases "position (\<lambda>m. mp_id (pm_packet m) = pid) (pending q)")
  case None
  with assms show ?thesis by (simp add: outbound_mark_sent_def del: position_None_iff)
next
  case (Some pos)
  then have "mp_id (pm_packet (pending q ! pos)) = pid" by (simp add: position_Some_iff)
  with assms Some show ?thesis
    using set_hm_insert_subset [of pid _ "inflight q"] set_remove_at_subset [of pos "pending q"]
      length_remove_at_le [of pos "pending q"]
    by (fastforce simp: outbound_mark_sent_def outbound_inv_def Let_def sorted_wrt_remove_at)
qed

lemma outbound_inv_track [inv_intros]:
  "outbound_inv q \<Longrightarrow> pm_retries m \<le> max_retries q \<Longrightarrow> outbound_inv (track_inflight now m t q)"
  using set_hm_insert_subset [of "mp_id (pm_packet m)" _ "inflight q"]
  by (fastforce simp: track_inflight_def outbound_inv_def)

lemma outbound_inv_remove [inv_intros]:
  "outbound_inv q \<Longrightarrow> outbound_inv (q\<lparr>inflight := hm_remove pid (inflight q)\<rparr>)"
  using set_hm_remove_subset [of pid "inflight q"] by (fastforce simp: outbound_inv_def)

lemma outbound_inv_ack [inv_intros]:
  "outbound_inv q \<Longrightarrow> outbound_inv (snd (outbound_handle_ack pid q))"
  by (simp add: outbound_handle_ack_def outbound_inv_remove)

lemma retries_succ_le:
  "im_retries m < im_max_retries m \<Longrightarrow> im_retries m + 1 \<le> im_max_retries m"
  by (metis inc_le)

lemma outbound_inv_retry [inv_intros]:
  assumes "outbound_inv q"
  shows "outbound_inv (snd (retry pid q))"
proof (cases "hm_get (inflight q) pid")
  case None
  with assms show ?thesis by (simp add: retry_def)
next
  case (Some m)
  let ?q = "q\<lparr>inflight := hm_remove pid (inflight q)\<rparr>"
  have q: "outbound_inv ?q" using assms by (rule outbound_inv_remove)
  show ?thesis
  proof (cases "im_retries m < im_max_retries m")
    case True
    then have "pm_retries (requeued m) \<le> max_retries ?q"
      using retries_succ_le [OF True] outbound_invD(6) [OF assms Some] by (simp add: requeued_def)
    with q have "outbound_inv (snd (enqueue (requeued m) ?q))" by (rule outbound_inv_enqueue)
    with Some True show ?thesis by (auto simp: retry_def Let_def case_prod_beta)
  next
    case False
    with Some q show ?thesis by (simp add: retry_def not_less)
  qed
qed

lemma outbound_inv_drain [inv_intros]: "outbound_inv q \<Longrightarrow> outbound_inv (drain_expired now q)"
  using length_filter_le [of "\<lambda>m. \<not> pm_is_expired now m" "pending q"]
  by (auto simp: drain_expired_def outbound_inv_def set_hm_retain intro!: sorted_wrt_filter
      simp del: length_filter_le)

lemma next_to_send_Some:
  assumes "next_to_send now q = (Some m, q')"
  shows "m \<in> set (pending q)" "max_retries q' = max_retries q" "inflight q' = inflight q"
    "\<exists>dead. pending q = dead @ m # pending q' \<and> (\<forall>d \<in> set dead. pm_is_expired now d)"
proof -
  from assms have q': "pop_unexpired now (pending q) = (Some m, pending q')"
    "max_retries q' = max_retries q" "inflight q' = inflight q"
    by (auto simp: next_to_send_def split: if_splits prod.splits)
  from pop_unexpired_Some [OF q'(1)] obtain dead where
    "pending q = dead @ m # pending q'" "\<forall>d \<in> set dead. pm_is_expired now d" by blast
  with q' show "m \<in> set (pending q)" "max_retries q' = max_retries q" "inflight q' = inflight q"
    "\<exists>dead. pending q = dead @ m # pending q' \<and> (\<forall>d \<in> set dead. pm_is_expired now d)"
    by auto
qed

lemma outbound_inv_send [inv_intros]:
  assumes "outbound_inv q"
  shows "outbound_inv (outbound_step (OSend now sent t) q)"
proof (cases "next_to_send now q")
  case (Pair m q')
  have q': "outbound_inv q'" using outbound_inv_next [OF assms, of now] Pair by simp
  show ?thesis
  proof (cases m)
    case None
    with Pair q' show ?thesis by simp
  next
    case (Some m')
    with Pair have n: "next_to_send now q = (Some m', q')" by simp
    have "pm_retries m' \<le> max_retries q'"
      using outbound_invD(4) [OF assms next_to_send_Some(1) [OF n]] next_to_send_Some(2) [OF n]
      by simp
    with q' n show ?thesis by (simp add: outbound_inv_track)
  qed
qed

lemma max_pending_step [simp]: "max_pending (outbound_step op q) = max_pending q"
  by (cases op)
    (auto simp: enqueue_def next_to_send_def outbound_mark_sent_def track_inflight_def
      outbound_handle_ack_def retry_def drain_expired_def Let_def case_prod_beta
      split: option.splits prod.splits)

interpretation outbound: bounded_component outbound_inv outbound_step
    "\<lambda>q. length (pending q)" max_pending
proof unfold_locales
  show "outbound_inv s \<Longrightarrow> outbound_inv (outbound_step op s)" for op s
    by (cases op) (auto intro!: inv_intros simp del: outbound_step.simps(4) simp: outbound_inv_send)
  show "max_pending (outbound_step op s) = max_pending s" for op s
    by simp
  show "outbound_inv s \<Longrightarrow> length (pending s) \<le> max_pending s" for s
    by (rule outbound_invD)
qed

interpretation outbound_sink: bounded_sink "\<lambda>q. True" enqueue_opt remaining_capacity
    "\<lambda>q. mset (pending q)"
  by unfold_locales (auto simp: enqueue_opt_def enqueue_ok remaining_capacity_def)

subsection \<open>Properties\<close>

lemma retry_cases:
  assumes "outbound_inv q" and "hm_get (inflight q) pid = Some m"
  shows "im_retries m < max_retries q \<and> length (pending q) < max_pending q \<Longrightarrow>
      retry pid q = (True, q\<lparr>inflight := hm_remove pid (inflight q),
        pending := insert_at (enqueue_pos (requeued m) (pending q)) (requeued m) (pending q)\<rparr>)"
    and "\<not> (im_retries m < max_retries q \<and> length (pending q) < max_pending q) \<Longrightarrow>
      retry pid q = (False, q\<lparr>inflight := hm_remove pid (inflight q)\<rparr>)"
  using assms(2) outbound_invD(6) [OF assms]
  by (auto simp: retry_def Let_def enqueue_ok enqueue_full not_less)

text \<open>
  Messages accepted by the outbound queue leave it in priority order and, within a priority, in
  the order they were accepted: the pending queue is the stable sort of what was enqueued.
\<close>

theorem enqueue_is_stable_priority_sort:
  assumes "length ms \<le> oc_max_pending config"
  shows "push_all enqueue_opt ms (outbound_with_config config) =
    Some ((outbound_with_config config)\<lparr>pending := sort_key (\<lambda>m. - priority_i32 (pm_priority m)) ms\<rparr>)"
  using assms by (subst enqueue_all_pending) (simp_all add: outbound_with_config_def)

definition witness_packet :: "u32 \<Rightarrow> int \<Rightarrow> mesh_packet" where
  "witness_packet pid pr =
     \<lparr>mp_from = 1, mp_to = 2, mp_channel = 0, mp_payload_variant = None, mp_id = pid, mp_rx_time = 0,
      mp_rx_snr = 0, mp_hop_limit = 3, mp_want_ack = True, mp_priority = pr, mp_rx_rssi = 0,
      mp_via_mqtt = False, mp_hop_start = 3\<rparr>"

definition witness_pending :: "u32 \<Rightarrow> priority \<Rightarrow> pending_message" where
  "witness_pending pid pr =
     \<lparr>pm_packet = witness_packet pid (priority_i32 pr), pm_created = 10, pm_ttl = 100,
      pm_priority = pr, pm_retries = 0\<rparr>"

text \<open>
  \<open>next_to_send\<close> sends nothing while the inflight table is full; otherwise it hands out an
  unexpired message of the highest priority there is, or reports an empty queue only when every
  pending message has expired. No unexpired message is lost: those that remain are exactly the
  others, in order.
\<close>

theorem next_to_send_picks_best:
  assumes "outbound_inv q"
  shows "case next_to_send now q of
      (None, q') \<Rightarrow> (length (inflight q) \<ge> max_inflight q \<and> q' = q) \<or>
                    ((\<forall>m \<in> set (pending q). pm_is_expired now m) \<and> pending q' = [])
    | (Some m, q') \<Rightarrow> length (inflight q) < max_inflight q \<and> \<not> pm_is_expired now m \<and>
        filter (\<lambda>m. \<not> pm_is_expired now m) (pending q) =
          m # filter (\<lambda>m. \<not> pm_is_expired now m) (pending q') \<and>
        (\<forall>m' \<in> set (pending q). pm_is_expired now m' \<or> pm_rank m' \<le> pm_rank m)"
proof (cases "length (inflight q) < max_inflight q")
  case False
  then show ?thesis by (simp add: next_to_send_def)
next
  case True
  obtain m rest where p: "pop_unexpired now (pending q) = (m, rest)" by fastforce
  show ?thesis
  proof (cases m)
    case None
    with p have "rest = []" "\<forall>m \<in> set (pending q). pm_is_expired now m"
      by (simp_all add: pop_unexpired_None)
    with True p None show ?thesis by (simp add: next_to_send_def)
  next
    case (Some m')
    with p obtain dead where dead: "pending q = dead @ m' # rest"
      "\<forall>d \<in> set dead. pm_is_expired now d" "\<not> pm_is_expired now m'"
      by (auto dest: pop_unexpired_Some)
    then have "filter (\<lambda>m. \<not> pm_is_expired now m) dead = []"
      by (simp add: filter_empty_conv)
    with True p Some dead outbound_invD(1) [OF assms] show ?thesis
      by (auto simp: next_to_send_def sorted_wrt_append)
  qed
qed

definition witness_queue :: outbound_queue where
  "witness_queue = (outbound_with_config outbound_config_default)
     \<lparr>pending := [(witness_pending 1 PMax)\<lparr>pm_ttl := 5\<rparr>, witness_pending 2 PAck, witness_pending 3 PDefault]\<rparr>"

text \<open>
  A retry keeps the message and its deadline: when the retry budget and the queue allow it, the
  inflight entry moves to the pending queue with the same packet, enqueue time and TTL and
  one more retry, and the call reports it; otherwise the entry is dropped, the pending queue is
  untouched, and the call says so. A message that is not inflight is never retried.
\<close>

theorem retry_keeps_deadline:
  assumes "outbound_inv q"
  shows "case hm_get (inflight q) pid of
      None \<Rightarrow> retry pid q = (False, q)
    | Some m \<Rightarrow> \<exists>ok q'. retry pid q = (ok, q') \<and> hm_get (inflight q') = (hm_get (inflight q))(pid := None) \<and>
        (ok \<longleftrightarrow> im_retries m < max_retries q \<and> length (pending q) < max_pending q) \<and>
        (if ok then \<exists>m'. mset (pending q') = add_mset m' (mset (pending q)) \<and>
             pm_packet m' = im_packet m \<and> pm_created m' = im_created m \<and> pm_ttl m' = im_ttl m \<and>
             unat (pm_retries m') = Suc (unat (im_retries m)) \<and> pm_retries m' \<le> max_retries q
         else pending q' = pending q)"
proof (cases "hm_get (inflight q) pid")
  case None
  then show ?thesis by (simp add: retry_def)
next
  case (Some m)
  let ?ok = "im_retries m < max_retries q \<and> length (pending q) < max_pending q"
  have "im_retries m < max_retries q \<Longrightarrow> unat (im_retries m + 1) = Suc (unat (im_retries m))"
    by (rule unat_inc)
  moreover have "im_retries m < max_retries q \<Longrightarrow> im_retries m + 1 \<le> max_retries q"
    using retries_succ_le [of m] outbound_invD(6) [OF assms Some] by simp
  ultimately show ?thesis
    using retry_cases [OF assms Some] Some
    by (cases ?ok) (auto simp: requeued_def)
qed

definition witness_inflight :: outbound_queue where
  "witness_inflight =
     track_inflight 20 (witness_pending 9 PReliable) 30 (outbound_with_config outbound_config_default)"

text \<open>
  Whatever sequence of operations the router and the radio drive it through, the queue built
  from a configuration keeps its invariant (priority order, one inflight entry per packet id
  under that packet's id, no message retried beyond the limit) and never holds more pending messages
  than configured.
\<close>

theorem outbound_run_invariant:
  "outbound_inv (fold outbound_step ops (outbound_with_config config)) \<and>
   length (pending (fold outbound_step ops (outbound_with_config config))) \<le> oc_max_pending config"
  using outbound.run_inv [OF outbound_inv_with_config, of ops config]
    outbound.run_bound [OF outbound_inv_with_config, of ops config]
  by (simp add: outbound_with_config_def)

end
