(* ===== verification/Delivery_Tracker.thy ===== *)
theory Delivery_Tracker
  imports Mesh_Types Interfaces
begin

section \<open>Delivery tracking\<close>

text \<open>
  \<open>kerykeion/src/delivery.rs\<close>: the lifecycle record of every outbound message and
  per-destination statistics. Counters are machine words and \<open>+= 1\<close> wraps, as in the
  release profile. \<open>success_rate\<close> is the exact quotient; its rounding to \<open>f64\<close> is
  not modelled.
\<close>

subsection \<open>Model\<close>

datatype delivery_failure =
    DFNoRoute
  | DFMaxRetries
  | DFNak routing_error
  | DFUnknownNak int
  | DFTtl
  | DFNodeOffline

datatype delivery_status =
    Queued
  | Sent instant
  | Acknowledged instant "u8 option"
  | Failed delivery_failure
  | Expired

record dest_stats =
  attempted :: u64
  acknowledged :: u64
  failed :: u64
  latency_sum_ms :: u64
  total_retries :: u64

definition dest_stats_default :: dest_stats where
  "dest_stats_default =
     \<lparr>attempted = 0, acknowledged = 0, failed = 0, latency_sum_ms = 0, total_retries = 0\<rparr>"

definition average_latency_ms :: "dest_stats \<Rightarrow> u64 option" where
  "average_latency_ms s =
     (if acknowledged s = 0 then None else Some (latency_sum_ms s div acknowledged s))"

definition success_rate :: "dest_stats \<Rightarrow> rat option" where
  "success_rate s =
     (if attempted s > 0 then Some (of_nat (unat (acknowledged s)) / of_nat (unat (attempted s)))
      else None)"

record delivery_record =
  dr_status :: delivery_status
  dr_dest :: u32
  dr_created :: instant
  dr_retries :: u8

record delivery_tracker =
  records :: "(packet_id, delivery_record) hash_map"
  dest_stats :: "(u32, dest_stats) hash_map"

definition delivery_new :: delivery_tracker where
  "delivery_new = \<lparr>records = [], dest_stats = []\<rparr>"

definition stats_of :: "(u32, dest_stats) hash_map \<Rightarrow> u32 \<Rightarrow> dest_stats" where
  "stats_of m dest = (case hm_get m dest of None \<Rightarrow> dest_stats_default | Some s \<Rightarrow> s)"

definition stats_upd ::
    "u32 \<Rightarrow> (dest_stats \<Rightarrow> dest_stats) \<Rightarrow> (u32, dest_stats) hash_map \<Rightarrow> (u32, dest_stats) hash_map" where
  "stats_upd dest f m = hm_insert dest (f (stats_of m dest)) m"

definition track :: "instant \<Rightarrow> packet_id \<Rightarrow> u32 \<Rightarrow> delivery_tracker \<Rightarrow> delivery_tracker" where
  "track now pid dest t =
     t\<lparr>records := hm_insert pid
         \<lparr>dr_status = Queued, dr_dest = dest, dr_created = now, dr_retries = 0\<rparr> (records t),
       dest_stats := stats_upd dest (\<lambda>s. s\<lparr>attempted := attempted s + 1\<rparr>) (dest_stats t)\<rparr>"

definition mark_sent :: "instant \<Rightarrow> packet_id \<Rightarrow> delivery_tracker \<Rightarrow> delivery_tracker" where
  "mark_sent now pid t =
     (case hm_get (records t) pid of
        None \<Rightarrow> t
      | Some r \<Rightarrow> t\<lparr>records := hm_insert pid (r\<lparr>dr_status := Sent now\<rparr>) (records t)\<rparr>)"

fun status_active :: "delivery_status \<Rightarrow> bool" where
  "status_active Queued = True"
| "status_active (Sent _) = True"
| "status_active _ = False"

fun status_failed :: "delivery_status \<Rightarrow> bool" where
  "status_failed (Failed _) = True"
| "status_failed Expired = True"
| "status_failed _ = False"

fun status_acknowledged :: "delivery_status \<Rightarrow> bool" where
  "status_acknowledged (Acknowledged _ _) = True"
| "status_acknowledged _ = False"

definition mark_acknowledged ::
    "instant \<Rightarrow> packet_id \<Rightarrow> u8 option \<Rightarrow> delivery_tracker \<Rightarrow> delivery_tracker" where
  "mark_acknowledged now pid hops t =
     (case hm_get (records t) pid of
        None \<Rightarrow> t
      | Some r \<Rightarrow>
          if status_acknowledged (dr_status r) then t
          else let reconcile_failed = status_failed (dr_status r);
                   latency_ms = (now - dr_created r) div 1000000;
                   latency_u64 = word_of_nat (min latency_ms (2 ^ 64 - 1))
               in t\<lparr>records := hm_insert pid (r\<lparr>dr_status := Acknowledged now hops\<rparr>) (records t),
                    dest_stats := stats_upd (dr_dest r)
                      (\<lambda>s. s\<lparr>failed := (if reconcile_failed then saturating_sub (failed s) 1
                                       else failed s),
                            acknowledged := acknowledged s + 1,
                            latency_sum_ms := saturating_add (latency_sum_ms s) latency_u64\<rparr>)
                      (dest_stats t)\<rparr>)"

definition mark_failed ::
    "packet_id \<Rightarrow> delivery_failure \<Rightarrow> delivery_tracker \<Rightarrow> delivery_tracker" where
  "mark_failed pid reason t =
     (case hm_get (records t) pid of
        None \<Rightarrow> t
      | Some r \<Rightarrow>
          t\<lparr>records := hm_insert pid (r\<lparr>dr_status := Failed reason\<rparr>) (records t),
            dest_stats := stats_upd (dr_dest r) (\<lambda>s. s\<lparr>failed := failed s + 1\<rparr>) (dest_stats t)\<rparr>)"

definition mark_expired :: "packet_id \<Rightarrow> delivery_tracker \<Rightarrow> delivery_tracker" where
  "mark_expired pid t =
     (case hm_get (records t) pid of
        None \<Rightarrow> t
      | Some r \<Rightarrow>
          t\<lparr>records := hm_insert pid (r\<lparr>dr_status := Expired\<rparr>) (records t),
            dest_stats := stats_upd (dr_dest r) (\<lambda>s. s\<lparr>failed := failed s + 1\<rparr>) (dest_stats t)\<rparr>)"

definition record_retry :: "packet_id \<Rightarrow> delivery_tracker \<Rightarrow> delivery_tracker" where
  "record_retry pid t =
     (case hm_get (records t) pid of
        None \<Rightarrow> t
      | Some r \<Rightarrow>
          t\<lparr>records := hm_insert pid (r\<lparr>dr_retries := dr_retries r + 1\<rparr>) (records t),
            dest_stats := stats_upd (dr_dest r) (\<lambda>s. s\<lparr>total_retries := total_retries s + 1\<rparr>)
              (dest_stats t)\<rparr>)"

definition delivery_status_of :: "packet_id \<Rightarrow> delivery_tracker \<Rightarrow> delivery_status option" where
  "delivery_status_of pid t = map_option dr_status (hm_get (records t) pid)"

definition stats_for :: "u32 \<Rightarrow> delivery_tracker \<Rightarrow> dest_stats option" where
  "stats_for dest t = hm_get (dest_stats t) dest"

definition tracked_count :: "delivery_tracker \<Rightarrow> usize" where
  "tracked_count t = length (records t)"

definition prune_completed :: "instant \<Rightarrow> duration \<Rightarrow> delivery_tracker \<Rightarrow> delivery_tracker" where
  "prune_completed now max_age t =
     t\<lparr>records := hm_retain
         (\<lambda>_ r. status_active (dr_status r) \<or> now - dr_created r < max_age) (records t)\<rparr>"

fun expire_loop :: "instant \<Rightarrow> duration \<Rightarrow> (packet_id, delivery_record) hash_map \<Rightarrow>
    (u32, dest_stats) hash_map \<Rightarrow>
    (packet_id, delivery_record) hash_map \<times> (u32, dest_stats) hash_map \<times> packet_id list" where
  "expire_loop now max_age [] stats = ([], stats, [])"
| "expire_loop now max_age ((pid, r) # rs) stats =
     (if status_active (dr_status r) \<and> now - dr_created r \<ge> max_age
      then let (rs', stats', expired) =
             expire_loop now max_age rs (stats_upd (dr_dest r) (\<lambda>s. s\<lparr>failed := failed s + 1\<rparr>) stats)
           in ((pid, r\<lparr>dr_status := Expired\<rparr>) # rs', stats', pid # expired)
      else let (rs', stats', expired) = expire_loop now max_age rs stats
           in ((pid, r) # rs', stats', expired))"

definition expire_stale ::
    "instant \<Rightarrow> duration \<Rightarrow> delivery_tracker \<Rightarrow> packet_id list \<times> delivery_tracker" where
  "expire_stale now max_age t =
     (let (rs, stats, expired) = expire_loop now max_age (records t) (dest_stats t)
      in (expired, t\<lparr>records := rs, dest_stats := stats\<rparr>))"

text \<open>
  The ledger of a destination: every attempt is acknowledged, failed or still active at most once,
  and every record that shows a failure has been counted as one.
\<close>

definition active_for :: "u32 \<Rightarrow> delivery_record \<Rightarrow> bool" where
  "active_for d r \<longleftrightarrow> dr_dest r = d \<and> status_active (dr_status r)"

definition failed_for :: "u32 \<Rightarrow> delivery_record \<Rightarrow> bool" where
  "failed_for d r \<longleftrightarrow> dr_dest r = d \<and> status_failed (dr_status r)"

definition ledger_ok :: "delivery_tracker \<Rightarrow> u32 \<Rightarrow> bool" where
  "ledger_ok t d \<longleftrightarrow>
     (let s = stats_of (dest_stats t) d in
      unat (acknowledged s) + unat (failed s) + hm_count (active_for d) (records t)
        \<le> unat (attempted s) \<and>
      hm_count (failed_for d) (records t) \<le> unat (failed s))"

definition delivery_inv :: "delivery_tracker \<Rightarrow> bool" where
  "delivery_inv t \<longleftrightarrow> hm_wf (records t) \<and> hm_wf (dest_stats t) \<and> (\<forall>d. ledger_ok t d)"

text \<open>
  Disciplined use of the tracker: a message is marked sent, failed or expired only while it
  is active, and a destination's attempt counter has not run through all of \<open>u64\<close>.
\<close>

datatype delivery_op =
    DTrack instant packet_id u32
  | DSent instant packet_id
  | DAck instant packet_id "u8 option"
  | DFail packet_id delivery_failure
  | DExpire packet_id
  | DRetry packet_id
  | DPrune instant duration
  | DExpireStale instant duration

definition pid_active :: "packet_id \<Rightarrow> delivery_tracker \<Rightarrow> bool" where
  "pid_active pid t \<longleftrightarrow>
     (case hm_get (records t) pid of None \<Rightarrow> True | Some r \<Rightarrow> status_active (dr_status r))"

fun delivery_step :: "delivery_op \<Rightarrow> delivery_tracker \<Rightarrow> delivery_tracker" where
  "delivery_step (DTrack now pid d) t =
     (if attempted (stats_of (dest_stats t) d) = - 1 then t else track now pid d t)"
| "delivery_step (DSent now pid) t = (if pid_active pid t then mark_sent now pid t else t)"
| "delivery_step (DAck now pid hops) t = mark_acknowledged now pid hops t"
| "delivery_step (DFail pid reason) t = (if pid_active pid t then mark_failed pid reason t else t)"
| "delivery_step (DExpire pid) t = (if pid_active pid t then mark_expired pid t else t)"
| "delivery_step (DRetry pid) t = record_retry pid t"
| "delivery_step (DPrune now age) t = prune_completed now age t"
| "delivery_step (DExpireStale now age) t = snd (expire_stale now age t)"

subsection \<open>Statistics\<close>

lemma stats_of_upd [simp]:
  "stats_of (stats_upd d f m) d' = (if d' = d then f (stats_of m d) else stats_of m d')"
  by (simp add: stats_upd_def stats_of_def)

lemma hm_wf_stats_upd [simp]: "hm_wf m \<Longrightarrow> hm_wf (stats_upd d f m)"
  by (simp add: stats_upd_def)

lemma status_exclusive:
  "\<not> (status_active s \<and> status_failed s)" "\<not> (status_active s \<and> status_acknowledged s)"
  "\<not> (status_failed s \<and> status_acknowledged s)"
  "status_active s \<or> status_failed s \<or> status_acknowledged s"
  by (cases s; simp)+

lemma ledger_attempted_bound:
  "ledger_ok t d \<Longrightarrow> 0 < hm_count (active_for d) (records t) \<Longrightarrow>
     unat (acknowledged (stats_of (dest_stats t) d) + 1) =
       Suc (unat (acknowledged (stats_of (dest_stats t) d))) \<and>
     unat (failed (stats_of (dest_stats t) d) + 1) = Suc (unat (failed (stats_of (dest_stats t) d)))"
  by (auto simp: ledger_ok_def Let_def word_less_nat_alt
      intro!: unat_inc [where y = "attempted (stats_of (dest_stats t) d)"])

text \<open>Replacing one record moves one unit between the counts.\<close>

lemma hm_count_replace:
  assumes "hm_wf m" and "hm_get m k = Some r"
  shows "hm_count P (hm_insert k r' m) + (if P r then 1 else 0) = hm_count P m + (if P r' then 1 else 0)"
  using hm_count_remove [OF assms(1), of P k] hm_count_insert [OF assms(1), of P k r'] assms(2)
  by simp

lemma ledger_track:
  assumes "delivery_inv t" and "attempted (stats_of (dest_stats t) d) \<noteq> - 1"
  shows "delivery_inv (track now pid d t)"
proof -
  let ?r = "\<lparr>dr_status = Queued, dr_dest = d, dr_created = now, dr_retries = 0\<rparr>"
  have wf: "hm_wf (records t)" "hm_wf (dest_stats t)" and led: "\<And>e. ledger_ok t e"
    using assms(1) by (auto simp: delivery_inv_def)
  have inc: "unat (attempted (stats_of (dest_stats t) d) + 1) =
      Suc (unat (attempted (stats_of (dest_stats t) d)))"
    using assms(2) by (intro unat_inc [of _ "- 1"]) (simp add: word_order.not_eq_extremum)
  have cnt: "hm_count P (hm_insert pid ?r (records t)) \<le> hm_count P (records t) + (if P ?r then 1 else 0)"
    for P
    using hm_count_insert [OF wf(1), of P pid ?r] hm_count_remove [OF wf(1), of P pid] by simp
  have "ledger_ok (track now pid d t) e" for e
    using led [of e] cnt [of "active_for e"] cnt [of "failed_for e"] inc
    by (cases "e = d")
      (auto simp: ledger_ok_def track_def Let_def active_for_def failed_for_def)
  with wf show ?thesis by (simp add: delivery_inv_def track_def)
qed

text \<open>
  Changing the status of one record and the statistics of its destination keeps the ledger when
  the counters take up what the record gives off.
\<close>

abbreviation unit_if :: "bool \<Rightarrow> nat" where
  "unit_if b \<equiv> (if b then 1 else 0)"

lemma ledger_change:
  assumes inv: "delivery_inv t" and r: "hm_get (records t) pid = Some r"
    and dest: "dr_dest r' = dr_dest r"
    and wf': "hm_wf m'"
    and other: "\<And>e. e \<noteq> dr_dest r \<Longrightarrow> stats_of m' e = stats_of (dest_stats t) e"
    and att: "attempted (stats_of m' (dr_dest r)) = attempted (stats_of (dest_stats t) (dr_dest r))"
    and bal: "unat (acknowledged (stats_of m' (dr_dest r))) + unat (failed (stats_of m' (dr_dest r))) +
        unit_if (status_active (dr_status r')) \<le>
      unat (acknowledged (stats_of (dest_stats t) (dr_dest r))) +
        unat (failed (stats_of (dest_stats t) (dr_dest r))) + unit_if (status_active (dr_status r))"
    and fl: "unat (failed (stats_of (dest_stats t) (dr_dest r))) + unit_if (status_failed (dr_status r')) \<le>
      unat (failed (stats_of m' (dr_dest r))) + unit_if (status_failed (dr_status r))"
  shows "delivery_inv (t\<lparr>records := hm_insert pid r' (records t), dest_stats := m'\<rparr>)"
proof -
  have wf: "hm_wf (records t)" and led: "\<And>e. ledger_ok t e"
    using inv by (auto simp: delivery_inv_def)
  note rep = hm_count_replace [OF wf r, where r' = r']
  have "ledger_ok (t\<lparr>records := hm_insert pid r' (records t), dest_stats := m'\<rparr>) e" for e
  proof (cases "e = dr_dest r")
    case True
    with led [of e] rep [of "active_for e"] rep [of "failed_for e"] att bal fl dest show ?thesis
      by (auto simp: ledger_ok_def Let_def active_for_def failed_for_def split: if_splits)
  next
    case False
    with led [of e] rep [of "active_for e"] rep [of "failed_for e"] other [OF False] dest show ?thesis
      by (auto simp: ledger_ok_def Let_def active_for_def failed_for_def)
  qed
  with wf wf' show ?thesis by (simp add: delivery_inv_def)
qed

lemma delivery_invD:
  assumes "delivery_inv t"
  shows "hm_wf (records t)" "hm_wf (dest_stats t)" "ledger_ok t d"
  using assms by (auto simp: delivery_inv_def)

lemma ledger_incs:
  assumes "delivery_inv t" "hm_get (records t) pid = Some r" "status_active (dr_status r)"
  shows "unat (acknowledged (stats_of (dest_stats t) (dr_dest r)) + 1) =
      Suc (unat (acknowledged (stats_of (dest_stats t) (dr_dest r))))"
    and "unat (failed (stats_of (dest_stats t) (dr_dest r)) + 1) =
      Suc (unat (failed (stats_of (dest_stats t) (dr_dest r))))"
  using ledger_attempted_bound [OF delivery_invD(3) [OF assms(1)], of "dr_dest r"]
    hm_count_pos [OF delivery_invD(1) [OF assms(1)] assms(2), of "active_for (dr_dest r)"] assms(3)
  by (auto simp: active_for_def)

lemma ledger_sent:
  assumes "delivery_inv t" "pid_active pid t"
  shows "delivery_inv (mark_sent now pid t)"
proof (cases "hm_get (records t) pid")
  case None
  with assms show ?thesis by (simp add: mark_sent_def)
next
  case (Some r)
  with assms(2) have act: "status_active (dr_status r)" by (simp add: pid_active_def)
  then have "\<not> status_failed (dr_status r)" using status_exclusive(1) by blast
  with act have "delivery_inv (t\<lparr>records := hm_insert pid (r\<lparr>dr_status := Sent now\<rparr>) (records t),
      dest_stats := dest_stats t\<rparr>)"
    using assms(1) Some by (intro ledger_change [OF assms(1) Some]) (auto simp: delivery_invD)
  with Some show ?thesis by (simp add: mark_sent_def)
qed

lemma ledger_fail_status:
  assumes "delivery_inv t" "hm_get (records t) pid = Some r" "status_active (dr_status r)"
    and "status_failed st"
  shows "delivery_inv (t\<lparr>records := hm_insert pid (r\<lparr>dr_status := st\<rparr>) (records t),
    dest_stats := stats_upd (dr_dest r) (\<lambda>s. s\<lparr>failed := failed s + 1\<rparr>) (dest_stats t)\<rparr>)"
  using assms(3,4) status_exclusive(1) [of st] status_exclusive(1) [of "dr_status r"]
    ledger_incs(2) [OF assms(1-3)]
  by (intro ledger_change [OF assms(1,2)]) (auto simp: delivery_invD [OF assms(1)])

lemma ledger_fail:
  "delivery_inv t \<Longrightarrow> pid_active pid t \<Longrightarrow> delivery_inv (mark_failed pid reason t)"
  by (auto simp: mark_failed_def pid_active_def intro: ledger_fail_status split: option.splits)

lemma ledger_expire:
  "delivery_inv t \<Longrightarrow> pid_active pid t \<Longrightarrow> delivery_inv (mark_expired pid t)"
  by (auto simp: mark_expired_def pid_active_def intro: ledger_fail_status split: option.splits)

lemma ledger_retry: "delivery_inv t \<Longrightarrow> delivery_inv (record_retry pid t)"
  unfolding record_retry_def
  by (auto intro!: ledger_change simp: delivery_invD split: option.splits)

lemma ledger_ack:
  assumes "delivery_inv t"
  shows "delivery_inv (mark_acknowledged now pid hops t)"
proof (cases "hm_get (records t) pid")
  case None
  with assms show ?thesis by (simp add: mark_acknowledged_def)
next
  case (Some r)
  let ?s = "stats_of (dest_stats t) (dr_dest r)"
  have wf: "hm_wf (records t)" and led: "ledger_ok t (dr_dest r)"
    using delivery_invD [OF assms] by auto
  consider (acked) "status_acknowledged (dr_status r)"
    | (act) "status_active (dr_status r)" "\<not> status_failed (dr_status r)"
        "\<not> status_acknowledged (dr_status r)"
    | (fail) "status_failed (dr_status r)" "\<not> status_active (dr_status r)"
        "\<not> status_acknowledged (dr_status r)"
    using status_exclusive [of "dr_status r"] by blast
  then show ?thesis
  proof cases
    case acked
    with Some assms show ?thesis by (simp add: mark_acknowledged_def)
  next
    case act
    with ledger_incs(1) [OF assms Some act(1)] show ?thesis
      unfolding mark_acknowledged_def
      by (auto simp: Some Let_def delivery_invD [OF assms] intro!: ledger_change [OF assms Some])
  next
    case fail
    have pos: "0 < unat (failed ?s)"
      using led hm_count_pos [OF wf Some, of "failed_for (dr_dest r)"] fail(1)
      by (auto simp: ledger_ok_def Let_def failed_for_def)
    then have "unat (acknowledged ?s) < unat (attempted ?s)"
      using led by (auto simp: ledger_ok_def Let_def)
    then have "unat (acknowledged ?s + 1) = Suc (unat (acknowledged ?s))"
      by (intro unat_inc [where y = "attempted ?s"]) (simp add: word_less_nat_alt)
    with fail pos show ?thesis
      unfolding mark_acknowledged_def
      by (auto simp: Some Let_def delivery_invD [OF assms] unat_saturating_sub
          intro!: ledger_change [OF assms Some])
  qed
qed

lemma ledger_prune:
  assumes "delivery_inv t"
  shows "delivery_inv (prune_completed now age t)"
proof -
  have "ledger_ok (prune_completed now age t) d" for d
    using delivery_invD(3) [OF assms, of d]
      hm_count_retain_le [of "active_for d" "\<lambda>_ r. status_active (dr_status r) \<or> now - dr_created r < age"
        "records t"]
      hm_count_retain_le [of "failed_for d" "\<lambda>_ r. status_active (dr_status r) \<or> now - dr_created r < age"
        "records t"]
    by (auto simp: ledger_ok_def prune_completed_def Let_def)
  with delivery_invD [OF assms] show ?thesis by (simp add: delivery_inv_def prune_completed_def)
qed

subsection \<open>Expiry of stale records\<close>

definition stale :: "instant \<Rightarrow> duration \<Rightarrow> delivery_record \<Rightarrow> bool" where
  "stale now max_age r \<longleftrightarrow> status_active (dr_status r) \<and> now - dr_created r \<ge> max_age"

lemma expire_loop_records:
  "fst (expire_loop now age rs m) =
     hm_map_values (\<lambda>r. if stale now age r then r\<lparr>dr_status := Expired\<rparr> else r) rs"
  "snd (snd (expire_loop now age rs m)) = map fst (filter (stale now age \<circ> snd) rs)"
  by (induction now age rs m rule: expire_loop.induct)
    (auto simp: stale_def hm_map_values_def Let_def split: prod.splits)

lemma expire_loop_stats:
  "stats_of (fst (snd (expire_loop now age rs m))) d =
    (stats_of m d)\<lparr>failed := failed (stats_of m d) +
       word_of_nat (hm_count (\<lambda>r. dr_dest r = d \<and> stale now age r) rs)\<rparr>"
  by (induction now age rs m rule: expire_loop.induct)
    (auto simp: stale_def Let_def split: prod.splits)

lemma hm_wf_expire_loop: "hm_wf m \<Longrightarrow> hm_wf (fst (snd (expire_loop now age rs m)))"
  by (induction now age rs m rule: expire_loop.induct) (auto simp: Let_def split: prod.splits)

lemma hm_count_expire:
  "hm_count (active_for d) (hm_map_values (\<lambda>r. if stale now age r then r\<lparr>dr_status := Expired\<rparr> else r) rs) +
     hm_count (\<lambda>r. dr_dest r = d \<and> stale now age r) rs = hm_count (active_for d) rs"
  "hm_count (failed_for d) (hm_map_values (\<lambda>r. if stale now age r then r\<lparr>dr_status := Expired\<rparr> else r) rs) =
     hm_count (failed_for d) rs + hm_count (\<lambda>r. dr_dest r = d \<and> stale now age r) rs"
  using status_exclusive(1)
  by (induction rs; force simp: hm_map_values_def active_for_def failed_for_def stale_def)+

lemma ledger_expire_stale:
  assumes "delivery_inv t"
  shows "delivery_inv (snd (expire_stale now age t))"
proof -
  let ?loop = "expire_loop now age (records t) (dest_stats t)"
  let ?k = "\<lambda>d. hm_count (\<lambda>r. dr_dest r = d \<and> stale now age r) (records t)"
  have t': "snd (expire_stale now age t) =
      t\<lparr>records := fst ?loop, dest_stats := fst (snd ?loop)\<rparr>"
    by (simp add: expire_stale_def case_prod_beta)
  have "ledger_ok (snd (expire_stale now age t)) d" for d
  proof -
    have led: "ledger_ok t d" by (rule delivery_invD(3) [OF assms])
    have bound: "unat (failed (stats_of (dest_stats t) d)) + hm_count (active_for d) (records t) < 2 ^ 64"
      using led unsigned_less [of "attempted (stats_of (dest_stats t) d)", where ?'a = nat]
      by (auto simp: ledger_ok_def Let_def)
    have stats: "stats_of (fst (snd ?loop)) d = (stats_of (dest_stats t) d)
        \<lparr>failed := failed (stats_of (dest_stats t) d) + word_of_nat (?k d)\<rparr>"
      by (rule expire_loop_stats)
    have "?k d \<le> hm_count (active_for d) (records t)"
      using hm_count_expire(1) [of d now age "records t"] by simp
    with bound have "unat (failed (stats_of (dest_stats t) d) + word_of_nat (?k d)) =
        unat (failed (stats_of (dest_stats t) d)) + ?k d"
      by (simp add: unat_word_ariths unat_of_nat)
    with led hm_count_expire [of d now age "records t"] show ?thesis
      by (auto simp: t' ledger_ok_def Let_def stats expire_loop_records)
  qed
  with delivery_invD [OF assms] show ?thesis
    by (simp add: delivery_inv_def t' hm_wf_expire_loop expire_loop_records)
qed

lemma delivery_inv_new [simp, intro]: "delivery_inv delivery_new"
  by (simp add: delivery_inv_def delivery_new_def ledger_ok_def stats_of_def dest_stats_default_def)

interpretation delivery: guarded_component delivery_inv delivery_step
proof unfold_locales
  show "delivery_inv s \<Longrightarrow> delivery_inv (delivery_step op s)" for op s
    by (cases op)
      (simp_all add: ledger_track ledger_sent ledger_ack ledger_fail ledger_expire ledger_retry
        ledger_prune ledger_expire_stale)
qed

lemma success_rate_le_1:
  "unat (acknowledged s) \<le> unat (attempted s) \<Longrightarrow>
     (case success_rate s of None \<Rightarrow> True | Some q \<Rightarrow> 0 \<le> q \<and> q \<le> 1)"
proof (cases "attempted s > 0")
  case True
  have frac: "0 \<le> (of_nat n / of_nat m :: rat) \<and> (of_nat n / of_nat m :: rat) \<le> 1"
    if "n \<le> m" "0 < m" for n m :: nat
    using that by simp
  assume "unat (acknowledged s) \<le> unat (attempted s)"
  from frac [OF this] True show ?thesis
    by (simp only: success_rate_def if_True option.case word_less_nat_alt unat_0)
next
  case False
  then show ?thesis by (simp add: success_rate_def)
qed

lemma retained_after_maintenance:
  assumes "now1 \<le> now2" and "hm_wf (records t)"
    and "hm_get (records (prune_completed now2 age (snd (expire_stale now1 age t)))) pid = Some r"
  shows "now1 - dr_created r < age"
proof -
  let ?rs = "hm_map_values (\<lambda>r. if stale now1 age r then r\<lparr>dr_status := Expired\<rparr> else r) (records t)"
  have "records (snd (expire_stale now1 age t)) = ?rs"
    by (simp add: expire_stale_def case_prod_beta expire_loop_records)
  with assms(2,3) have "hm_get ?rs pid = Some r"
    and keep: "status_active (dr_status r) \<or> now2 - dr_created r < age"
    by (auto simp: prune_completed_def hm_get_retain simp del: hm_get_map_values
        split: option.splits if_splits)
  then obtain r0 where r0: "r = (if stale now1 age r0 then r0\<lparr>dr_status := Expired\<rparr> else r0)"
    by auto
  show ?thesis
  proof (cases "status_active (dr_status r)")
    case True
    with r0 have "r = r0" "\<not> stale now1 age r0" by (auto split: if_splits)
    with True show ?thesis by (simp add: stale_def not_le)
  next
    case False
    with keep assms(1) show ?thesis by linarith
  qed
qed

subsection \<open>Properties\<close>

text \<open>
  The per-destination statistics are a ledger: in every state disciplined use of
  the tracker can reach (a message is marked sent, failed or expired only while active),
  acknowledged and failed messages together never exceed the attempts, so the success rate is a
  fraction between 0 and 1, and a late acknowledgement of a failed message moves it from one
  column to the other rather than counting it twice.
\<close>

theorem delivery_ledger_sound:
  "unat (acknowledged (stats_of (dest_stats (fold delivery_step ops delivery_new)) d)) +
     unat (failed (stats_of (dest_stats (fold delivery_step ops delivery_new)) d))
     \<le> unat (attempted (stats_of (dest_stats (fold delivery_step ops delivery_new)) d)) \<and>
   (case success_rate (stats_of (dest_stats (fold delivery_step ops delivery_new)) d) of
      None \<Rightarrow> True | Some q \<Rightarrow> 0 \<le> q \<and> q \<le> 1)"
proof -
  let ?t = "fold delivery_step ops delivery_new"
  have "ledger_ok ?t d"
    using delivery.run_inv [OF delivery_inv_new, of ops] by (rule delivery_invD(3))
  then have le: "unat (acknowledged (stats_of (dest_stats ?t) d)) +
      unat (failed (stats_of (dest_stats ?t) d)) \<le> unat (attempted (stats_of (dest_stats ?t) d))"
    by (auto simp: ledger_ok_def Let_def)
  moreover have "unat (acknowledged (stats_of (dest_stats ?t) d))
      \<le> unat (attempted (stats_of (dest_stats ?t) d))"
    using le by linarith
  ultimately show ?thesis using success_rate_le_1 by blast
qed

text \<open>
  Duplicate acknowledgements are harmless: once a message is acknowledged, further
  acknowledgements, at any time and with any hop count, change neither its record nor
  the statistics.
\<close>

lemma mark_acknowledged_idempotent:
  "mark_acknowledged now' pid hops' (mark_acknowledged now pid hops t) =
   mark_acknowledged now pid hops t"
  by (cases "hm_get (records t) pid") (auto simp: mark_acknowledged_def Let_def)

end
