(* ===== verification/Store_Forward.thy ===== *)
theory Store_Forward
  imports Mesh_Types Interfaces
begin

section \<open>Store and forward\<close>

text \<open>
  \<open>kerykeion/src/store_forward.rs\<close>: bounded queues of messages for destinations that
  are offline. \<open>BoundedQueue\<close> holds a single deque and is modelled by the list. The JSON
  printer and parser of snapshots are the parameters \<open>to_json\<close> and \<open>from_json\<close>.
\<close>

subsection \<open>Model\<close>

definition MAX_DESTINATIONS :: usize where
  "MAX_DESTINATIONS = 256"

record stored_message =
  sm_packet_bytes :: bytes
  sm_packet_id :: u32
  sm_dest :: u32
  sm_portnum :: int
  sm_priority :: int
  sm_stored_at_ms :: u64
  sm_ttl_secs :: u64
  sm_delivery_attempts :: u8

record store_forward_config =
  sfc_enabled :: bool
  sfc_max_queue_per_dest :: usize
  sfc_message_ttl_secs :: u64

definition store_forward_config_default :: store_forward_config where
  "store_forward_config_default =
     \<lparr>sfc_enabled = False, sfc_max_queue_per_dest = 16, sfc_message_ttl_secs = 3600\<rparr>"

record store_forward =
  sf_queues :: "(node_num, stored_message list) hash_map"
  sf_config :: store_forward_config

definition store_forward_new :: "store_forward_config \<Rightarrow> store_forward" where
  "store_forward_new config = \<lparr>sf_queues = [], sf_config = config\<rparr>"

abbreviation sf_cap :: "store_forward \<Rightarrow> usize" where
  "sf_cap s \<equiv> sfc_max_queue_per_dest (sf_config s)"

definition queue_of :: "node_num \<Rightarrow> store_forward \<Rightarrow> stored_message list" where
  "queue_of dest s = (case hm_get (sf_queues s) dest of None \<Rightarrow> [] | Some q \<Rightarrow> q)"

fun min_priority :: "stored_message list \<Rightarrow> int" where
  "min_priority [] = 0"
| "min_priority [m] = sm_priority m"
| "min_priority (m # ms) = min (sm_priority m) (min_priority ms)"

definition store ::
    "node_num \<Rightarrow> stored_message \<Rightarrow> store_forward \<Rightarrow> (mesh_error + unit) \<times> store_forward" where
  "store dest msg s =
     (if \<not> hm_contains dest (sf_queues s) \<and> length (sf_queues s) \<ge> MAX_DESTINATIONS
      then (Inl (QueueFull dest), s)
      else
        let queue = queue_of dest s;
            put = (\<lambda>q. s\<lparr>sf_queues := hm_insert dest q (sf_queues s)\<rparr>)
        in if length queue \<ge> sf_cap s
           then if sm_priority msg > min_priority queue
                then case position (\<lambda>m. sm_priority m = min_priority queue) queue of
                       Some pos \<Rightarrow> (Inr (), put (remove_at pos queue @ [msg]))
                     | None \<Rightarrow> (Inr (), put (queue @ [msg]))
                else (Inl (QueueFull dest), put queue)
           else (Inr (), put (queue @ [msg])))"

definition drain_for :: "node_num \<Rightarrow> store_forward \<Rightarrow> stored_message list \<times> store_forward" where
  "drain_for dest s = (queue_of dest s, s\<lparr>sf_queues := hm_remove dest (sf_queues s)\<rparr>)"

definition sm_unexpired :: "u64 \<Rightarrow> stored_message \<Rightarrow> bool" where
  "sm_unexpired now_ms m \<longleftrightarrow>
     now_ms < saturating_add (sm_stored_at_ms m) (saturating_mul (sm_ttl_secs m) 1000)"

definition prune_expired :: "u64 \<Rightarrow> store_forward \<Rightarrow> store_forward" where
  "prune_expired now_ms s =
     s\<lparr>sf_queues := hm_retain (\<lambda>_ q. q \<noteq> [])
         (hm_map_values (filter (sm_unexpired now_ms)) (sf_queues s))\<rparr>"

definition queue_depth :: "node_num \<Rightarrow> store_forward \<Rightarrow> usize" where
  "queue_depth dest s = (case hm_get (sf_queues s) dest of None \<Rightarrow> 0 | Some q \<Rightarrow> length q)"

definition total_stored :: "store_forward \<Rightarrow> usize" where
  "total_stored s = sum_list (map (length \<circ> snd) (sf_queues s))"

definition destination_count :: "store_forward \<Rightarrow> usize" where
  "destination_count s = length (sf_queues s)"

definition sf_serialize ::
    "((u32, stored_message list) hash_map \<Rightarrow> bytes option) \<Rightarrow> store_forward \<Rightarrow> mesh_error + bytes" where
  "sf_serialize to_json s =
     (case to_json (map (\<lambda>(k, v). (k, v)) (sf_queues s)) of
        None \<Rightarrow> Inl StoreForwardSerde | Some bs \<Rightarrow> Inr bs)"

definition sf_deserialize ::
    "(bytes \<Rightarrow> (u32, stored_message list) hash_map option) \<Rightarrow> bytes \<Rightarrow> store_forward \<Rightarrow>
       (mesh_error + unit) \<times> store_forward" where
  "sf_deserialize from_json data s =
     (case from_json data of
        None \<Rightarrow> (Inl StoreForwardSerde, s)
      | Some raw \<Rightarrow>
          if length raw > MAX_DESTINATIONS
          then (Inl (StoreForwardOverCapacity (length raw) MAX_DESTINATIONS), s)
          else (Inr (), s\<lparr>sf_queues := raw\<rparr>))"

text \<open>
  The bounds the component advertises. With a configured queue length of zero a queue still holds
  the one message whose priority is positive, hence the \<open>max 1\<close>.
\<close>

definition sf_inv :: "store_forward \<Rightarrow> bool" where
  "sf_inv s \<longleftrightarrow>
     hm_wf (sf_queues s) \<and> length (sf_queues s) \<le> MAX_DESTINATIONS \<and>
     (\<forall>(d, q) \<in> set (sf_queues s). length q \<le> max 1 (sf_cap s))"

datatype sf_op =
    SFStore node_num stored_message
  | SFDrain node_num
  | SFPrune u64

fun sf_step :: "sf_op \<Rightarrow> store_forward \<Rightarrow> store_forward" where
  "sf_step (SFStore d m) s = snd (store d m s)"
| "sf_step (SFDrain d) s = snd (drain_for d s)"
| "sf_step (SFPrune now) s = prune_expired now s"

subsection \<open>The least priority in a queue\<close>

lemma min_priority_in: "q \<noteq> [] \<Longrightarrow> min_priority q \<in> sm_priority ` set q"
  by (induction q rule: min_priority.induct) (auto simp: min_def)

lemma min_priority_le: "m \<in> set q \<Longrightarrow> min_priority q \<le> sm_priority m"
  by (induction q rule: min_priority.induct) (auto simp: min_def)

lemma min_priority_position:
  "q \<noteq> [] \<Longrightarrow> \<exists>pos. position (\<lambda>m. sm_priority m = min_priority q) q = Some pos"
proof (rule ccontr)
  assume "q \<noteq> []" "\<nexists>pos. position (\<lambda>m. sm_priority m = min_priority q) q = Some pos"
  then have "\<forall>m \<in> set q. sm_priority m \<noteq> min_priority q" by (simp flip: position_None_iff)
  with min_priority_in [OF \<open>q \<noteq> []\<close>] show False by auto
qed

subsection \<open>What \<open>store\<close> does\<close>

lemma queue_of_put [simp]:
  "queue_of d (s\<lparr>sf_queues := hm_insert dest q (sf_queues s)\<rparr>) = (if d = dest then q else queue_of d s)"
  by (simp add: queue_of_def)

definition admits :: "node_num \<Rightarrow> store_forward \<Rightarrow> bool" where
  "admits dest s \<longleftrightarrow> hm_contains dest (sf_queues s) \<or> length (sf_queues s) < MAX_DESTINATIONS"

lemma store_room:
  "admits dest s \<Longrightarrow> length (queue_of dest s) < sf_cap s \<Longrightarrow>
     store dest msg s =
       (Inr (), s\<lparr>sf_queues := hm_insert dest (queue_of dest s @ [msg]) (sf_queues s)\<rparr>)"
  by (auto simp: store_def admits_def Let_def)

lemma store_evict:
  assumes "admits dest s" "sf_cap s \<le> length (queue_of dest s)" "queue_of dest s \<noteq> []"
    "min_priority (queue_of dest s) < sm_priority msg"
  shows "\<exists>pos. pos < length (queue_of dest s) \<and>
    sm_priority (queue_of dest s ! pos) = min_priority (queue_of dest s) \<and>
    (\<forall>j < pos. sm_priority (queue_of dest s ! j) \<noteq> min_priority (queue_of dest s)) \<and>
    store dest msg s = (Inr (), s\<lparr>sf_queues :=
      hm_insert dest (remove_at pos (queue_of dest s) @ [msg]) (sf_queues s)\<rparr>)"
proof -
  obtain pos where pos: "position (\<lambda>m. sm_priority m = min_priority (queue_of dest s)) (queue_of dest s) = Some pos"
    using min_priority_position [OF assms(3)] by blast
  then have "store dest msg s = (Inr (), s\<lparr>sf_queues :=
      hm_insert dest (remove_at pos (queue_of dest s) @ [msg]) (sf_queues s)\<rparr>)"
    using assms by (auto simp: store_def admits_def Let_def)
  with pos show ?thesis
    unfolding position_Some_iff by blast
qed

lemma store_refuse:
  "admits dest s \<Longrightarrow> sf_cap s \<le> length (queue_of dest s) \<Longrightarrow>
     sm_priority msg \<le> min_priority (queue_of dest s) \<Longrightarrow>
     store dest msg s =
       (Inl (QueueFull dest), s\<lparr>sf_queues := hm_insert dest (queue_of dest s) (sf_queues s)\<rparr>)"
  by (auto simp: store_def admits_def Let_def)

lemma store_no_slot: "\<not> admits dest s \<Longrightarrow> store dest msg s = (Inl (QueueFull dest), s)"
  by (simp add: store_def admits_def not_less)

lemma store_zero_cap:
  "admits dest s \<Longrightarrow> sf_cap s = 0 \<Longrightarrow> queue_of dest s = [] \<Longrightarrow> 0 < sm_priority msg \<Longrightarrow>
     store dest msg s = (Inr (), s\<lparr>sf_queues := hm_insert dest [msg] (sf_queues s)\<rparr>)"
  by (auto simp: store_def admits_def Let_def)

lemma store_cases:
  obtains (no_slot) "\<not> admits dest s" "store dest msg s = (Inl (QueueFull dest), s)"
  | (put) r q where "admits dest s"
      "store dest msg s = (r, s\<lparr>sf_queues := hm_insert dest q (sf_queues s)\<rparr>)"
      "length q \<le> max (length (queue_of dest s)) (max 1 (sf_cap s))"
proof (cases "admits dest s")
  case False
  then show ?thesis using no_slot store_no_slot by blast
next
  case adm: True
  show ?thesis
  proof (cases "length (queue_of dest s) < sf_cap s")
    case True
    show ?thesis by (rule put [OF adm store_room [OF adm True]]) (use True in simp)
  next
    case full: False
    show ?thesis
    proof (cases "min_priority (queue_of dest s) < sm_priority msg")
      case False
      with full show ?thesis by (intro put [OF adm store_refuse [OF adm]]) auto
    next
      case high: True
      show ?thesis
      proof (cases "queue_of dest s = []")
        case True
        with full high show ?thesis by (intro put [OF adm store_zero_cap [OF adm]]) auto
      next
        case False
        with store_evict [OF adm _ False high] full obtain pos where
          "pos < length (queue_of dest s)"
          "store dest msg s = (Inr (), s\<lparr>sf_queues :=
             hm_insert dest (remove_at pos (queue_of dest s) @ [msg]) (sf_queues s)\<rparr>)"
          by (auto simp: not_less)
        then show ?thesis by (intro put [OF adm]) auto
      qed
    qed
  qed
qed

text \<open>
  How a queue takes in a message: at its end while there is room, else in exchange for the
  first of its messages of least priority, which must be less urgent.
\<close>

definition takes_in :: "usize \<Rightarrow> stored_message \<Rightarrow> stored_message list \<Rightarrow> stored_message list \<Rightarrow> bool" where
  "takes_in cap msg q q' \<longleftrightarrow>
     (if length q < cap \<or> q = [] then q' = q @ [msg]
      else \<exists>xs victim ys. q = xs @ victim # ys \<and> q' = xs @ ys @ [msg] \<and> sm_priority victim < sm_priority msg \<and>
             (\<forall>m \<in> set xs. sm_priority victim < sm_priority m) \<and> (\<forall>m \<in> set ys. sm_priority victim \<le> sm_priority m))"

text \<open>Why a queue refuses one: it is full of messages that are no less urgent.\<close>

definition refuses :: "usize \<Rightarrow> stored_message \<Rightarrow> stored_message list \<Rightarrow> bool" where
  "refuses cap msg q \<longleftrightarrow>
     cap \<le> length q \<and> (if q = [] then sm_priority msg \<le> 0 else \<forall>m \<in> set q. sm_priority msg \<le> sm_priority m)"

lemma takes_in_evict:
  assumes "cap \<le> length q" "pos < length q" "sm_priority (q ! pos) = min_priority q"
    "\<forall>j < pos. sm_priority (q ! j) \<noteq> min_priority q" "min_priority q < sm_priority msg"
  shows "takes_in cap msg q (remove_at pos q @ [msg])"
proof -
  have "q = take pos q @ q ! pos # drop (Suc pos) q" using assms(2) by (simp add: id_take_nth_drop)
  moreover have "sm_priority (q ! pos) < sm_priority m" if m: "m \<in> set (take pos q)" for m
  proof -
    from m obtain j where "j < pos" "m = q ! j" using assms(2) by (auto simp: in_set_conv_nth)
    moreover have "min_priority q \<le> sm_priority m" using m by (intro min_priority_le) (auto dest: in_set_takeD)
    ultimately show ?thesis using assms(3,4) by force
  qed
  moreover have "sm_priority (q ! pos) \<le> sm_priority m" if "m \<in> set (drop (Suc pos) q)" for m
    using that assms(3) by (auto intro: min_priority_le dest: in_set_dropD)
  moreover have "\<not> (length q < cap \<or> q = [])" using assms(1,2) by auto
  ultimately show ?thesis
    unfolding takes_in_def if_not_P [OF \<open>\<not> (length q < cap \<or> q = [])\<close>] using assms(3,5)
    by (intro exI [of _ "take pos q"] exI [of _ "q ! pos"] exI [of _ "drop (Suc pos) q"]) (simp add: remove_at_def)
qed

lemma store_outcome:
  "case store dest msg s of
     (Inl e, s') \<Rightarrow> e = QueueFull dest \<and> queue_of d s' = queue_of d s \<and>
       (\<not> admits dest s \<or> refuses (sf_cap s) msg (queue_of dest s))
   | (Inr _, s') \<Rightarrow> takes_in (sf_cap s) msg (queue_of dest s) (queue_of dest s') \<and>
       (d = dest \<or> queue_of d s' = queue_of d s)"
proof (cases "admits dest s")
  case adm: True
  show ?thesis
  proof (cases "length (queue_of dest s) < sf_cap s")
    case True
    with adm show ?thesis by (simp add: store_room takes_in_def)
  next
    case full: False
    show ?thesis
    proof (cases "min_priority (queue_of dest s) < sm_priority msg")
      case False
      then have "refuses (sf_cap s) msg (queue_of dest s)"
        using full min_priority_le [of _ "queue_of dest s"] by (force simp: refuses_def)
      with adm full False show ?thesis by (simp add: store_refuse not_less)
    next
      case high: True
      show ?thesis
      proof (cases "queue_of dest s = []")
        case True
        with adm full high show ?thesis by (simp add: store_zero_cap takes_in_def)
      next
        case False
        with store_evict [OF adm _ False high] full obtain pos where pos: "pos < length (queue_of dest s)"
          "sm_priority (queue_of dest s ! pos) = min_priority (queue_of dest s)"
          "\<forall>j < pos. sm_priority (queue_of dest s ! j) \<noteq> min_priority (queue_of dest s)"
          and st: "store dest msg s = (Inr (), s\<lparr>sf_queues :=
             hm_insert dest (remove_at pos (queue_of dest s) @ [msg]) (sf_queues s)\<rparr>)"
          by (auto simp: not_less)
        from takes_in_evict [OF _ pos high, of "sf_cap s"] full show ?thesis by (simp add: st not_less)
      qed
    qed
  qed
qed (simp add: store_no_slot)

lemma takes_in_last: "takes_in cap msg q q' \<Longrightarrow> \<exists>xs. q' = xs @ [msg]"
  by (auto simp: takes_in_def split: if_splits)

subsection \<open>The invariant\<close>

lemma queue_of_bound: "sf_inv s \<Longrightarrow> length (queue_of d s) \<le> max 1 (sf_cap s)"
  by (auto simp: queue_of_def sf_inv_def dest!: hm_get_in split: option.splits)

lemma sf_inv_put:
  assumes "sf_inv s" "admits dest s" "length q \<le> max 1 (sf_cap s)"
  shows "sf_inv (s\<lparr>sf_queues := hm_insert dest q (sf_queues s)\<rparr>)"
  using assms set_hm_insert_subset [of dest q "sf_queues s"]
  by (fastforce simp: sf_inv_def admits_def length_hm_insert)

lemma sf_inv_store [inv_intros]: "sf_inv s \<Longrightarrow> sf_inv (snd (store d m s))"
  by (rule store_cases [where dest = d and s = s and msg = m]) (auto intro!: sf_inv_put dest: queue_of_bound [of s d])

lemma sf_inv_drain [inv_intros]: "sf_inv s \<Longrightarrow> sf_inv (snd (drain_for d s))"
  using set_hm_remove_subset [of d "sf_queues s"]
  by (auto simp: drain_for_def sf_inv_def intro: le_trans [OF length_hm_remove_le])

lemma sf_inv_prune [inv_intros]:
  assumes "sf_inv s"
  shows "sf_inv (prune_expired now s)"
proof -
  let ?m = "hm_map_values (filter (sm_unexpired now)) (sf_queues s)"
  have "length (hm_retain (\<lambda>_ q. q \<noteq> []) ?m) \<le> MAX_DESTINATIONS"
    using assms length_hm_retain_le [of "\<lambda>_ q. q \<noteq> []" ?m] by (simp add: sf_inv_def)
  moreover have "length q \<le> max 1 (sf_cap s)" if q: "(d, q) \<in> set ?m" for d q
  proof -
    from q obtain q0 where "(d, q0) \<in> set (sf_queues s)" "q = filter (sm_unexpired now) q0"
      by (auto simp: hm_map_values_def)
    with assms have "length q0 \<le> max 1 (sf_cap s)" "length q \<le> length q0"
      by (auto simp: sf_inv_def)
    then show ?thesis by linarith
  qed
  ultimately show ?thesis
    using assms by (auto simp: prune_expired_def sf_inv_def set_hm_retain)
qed

lemma sf_inv_new [simp, intro]: "sf_inv (store_forward_new config)"
  by (simp add: sf_inv_def store_forward_new_def)

lemma sf_config_store [simp]: "sf_config (snd (store d m s)) = sf_config s"
  by (rule store_cases [where dest = d and s = s and msg = m]) auto

interpretation sf_dests: bounded_component sf_inv sf_step "\<lambda>s. length (sf_queues s)" "\<lambda>_. MAX_DESTINATIONS"
proof unfold_locales
  show "sf_inv s \<Longrightarrow> sf_inv (sf_step op s)" for op s
    by (cases op) (auto intro!: inv_intros)
qed (auto simp: sf_inv_def)

interpretation sf_queues: bounded_component sf_inv sf_step "\<lambda>s. length (queue_of d s)" "\<lambda>s. max 1 (sf_cap s)"
  for d
proof unfold_locales
  show "max 1 (sf_cap (sf_step op s)) = max 1 (sf_cap s)" for op s
    by (cases op) (auto simp: drain_for_def prune_expired_def)
qed (rule queue_of_bound)

definition store_opt :: "node_num \<Rightarrow> stored_message \<Rightarrow> store_forward \<Rightarrow> store_forward option" where
  "store_opt dest m s = (case store dest m s of (Inl _, _) \<Rightarrow> None | (Inr _, s') \<Rightarrow> Some s')"

definition sf_room :: "node_num \<Rightarrow> store_forward \<Rightarrow> nat" where
  "sf_room dest s = (if admits dest s then sf_cap s - length (queue_of dest s) else 0)"

lemma admits_put [simp]: "admits dest (s\<lparr>sf_queues := hm_insert dest q (sf_queues s)\<rparr>)"
  by (simp add: admits_def hm_contains_def)

interpretation sf_sink: bounded_sink "\<lambda>_. True" "store_opt dest" "sf_room dest"
    "\<lambda>s. mset (queue_of dest s)" for dest
  by unfold_locales (auto simp: store_opt_def sf_room_def store_room split: if_splits)

lemma store_all_room:
  assumes "admits dest s" and "length (queue_of dest s) + length ms \<le> sf_cap s"
  shows "fold (\<lambda>m s. snd (store dest m s)) ms s =
      (if ms = [] then s
       else s\<lparr>sf_queues := hm_insert dest (queue_of dest s @ ms) (sf_queues s)\<rparr>)"
  using assms
proof (induction ms arbitrary: s)
  case Nil
  then show ?case by simp
next
  case (Cons m ms)
  let ?s = "s\<lparr>sf_queues := hm_insert dest (queue_of dest s @ [m]) (sf_queues s)\<rparr>"
  have "snd (store dest m s) = ?s"
    using Cons.prems by (subst store_room) auto
  moreover have "hm_insert dest q (hm_insert dest q' m') = hm_insert dest q m'" for q q' m'
    by (simp add: update_nonempty)
  ultimately show ?case
    using Cons.IH [of ?s] Cons.prems by auto
qed

lemma total_stored_bound: "sf_inv s \<Longrightarrow> total_stored s \<le> MAX_DESTINATIONS * max 1 (sf_cap s)"
proof -
  assume inv: "sf_inv s"
  then have "\<forall>x \<in> set (sf_queues s). (length \<circ> snd) x \<le> max 1 (sf_cap s)"
    by (auto simp: sf_inv_def)
  then have "total_stored s \<le> length (sf_queues s) * max 1 (sf_cap s)"
    unfolding total_stored_def by (rule sum_list_map_le)
  also have "\<dots> \<le> MAX_DESTINATIONS * max 1 (sf_cap s)"
    using inv by (intro mult_right_mono) (auto simp: sf_inv_def)
  finally show ?thesis .
qed

lemma store_full_spec:
  assumes adm: "admits dest s" and full: "sf_cap s \<le> length (queue_of dest s)"
    and ne: "queue_of dest s \<noteq> []"
  shows "if \<exists>m \<in> set (queue_of dest s). sm_priority m < sm_priority msg
    then \<exists>pre victim post s'. queue_of dest s = pre @ victim # post \<and>
           store dest msg s = (Inr (), s') \<and> queue_of dest s' = pre @ post @ [msg] \<and>
           sm_priority victim < sm_priority msg \<and>
           (\<forall>m \<in> set pre. sm_priority victim < sm_priority m) \<and>
           (\<forall>m \<in> set post. sm_priority victim \<le> sm_priority m)
    else \<exists>s'. store dest msg s = (Inl (QueueFull dest), s') \<and> queue_of dest s' = queue_of dest s"
proof (cases "min_priority (queue_of dest s) < sm_priority msg")
  case True
  let ?q = "queue_of dest s"
  obtain pos where pos: "pos < length ?q" "sm_priority (?q ! pos) = min_priority ?q"
    "\<forall>j < pos. sm_priority (?q ! j) \<noteq> min_priority ?q"
    "store dest msg s = (Inr (), s\<lparr>sf_queues := hm_insert dest (remove_at pos ?q @ [msg]) (sf_queues s)\<rparr>)"
    using store_evict [OF adm full ne True] by blast
  have split: "?q = take pos ?q @ ?q ! pos # drop (Suc pos) ?q"
    by (rule id_take_nth_drop [OF pos(1)])
  have pre: "\<forall>m \<in> set (take pos ?q). sm_priority (?q ! pos) < sm_priority m"
  proof
    fix m assume "m \<in> set (take pos ?q)"
    then obtain j where "j < pos" "m = ?q ! j" "j < length ?q" by (auto simp: in_set_conv_nth)
    with pos min_priority_le [of m ?q] show "sm_priority (?q ! pos) < sm_priority m"
      by (metis nth_mem order_le_neq_trans)
  qed
  have post: "\<forall>m \<in> set (drop (Suc pos) ?q). sm_priority (?q ! pos) \<le> sm_priority m"
    using pos min_priority_le [of _ ?q] by (auto dest: in_set_dropD)
  have lower: "\<exists>m \<in> set ?q. sm_priority m < sm_priority msg"
    using min_priority_in [OF ne] True by auto
  have victim: "sm_priority (?q ! pos) < sm_priority msg" using pos(2) True by simp
  show ?thesis
    unfolding if_P [OF lower]
    by (intro exI conjI, rule split, rule pos(4), simp add: remove_at_def, rule victim, rule pre, rule post)
next
  case False
  then have "\<not> (\<exists>m \<in> set (queue_of dest s). sm_priority m < sm_priority msg)"
    using min_priority_le [of _ "queue_of dest s"] by force
  with store_refuse [OF adm full] False show ?thesis by simp
qed

lemma queue_of_prune:
  "hm_wf (sf_queues s) \<Longrightarrow> queue_of d (prune_expired now s) = filter (sm_unexpired now) (queue_of d s)"
  by (auto simp: queue_of_def prune_expired_def hm_get_retain hm_get_map_values split: option.splits)

subsection \<open>Properties\<close>

text \<open>
  The store is bounded whatever is stored into it: after any sequence of store, drain and
  prune operations on a new store there are at most 256 destinations, each with at most the
  configured number of messages (one, when zero is configured), and the total is at most their product.
\<close>

theorem store_forward_bounded:
  "let s = fold sf_step ops (store_forward_new config); cap = max 1 (sfc_max_queue_per_dest config)
   in destination_count s \<le> 256 \<and> queue_depth d s \<le> cap \<and> total_stored s \<le> 256 * cap"
proof -
  let ?s = "fold sf_step ops (store_forward_new config)"
  have new: "sf_inv (store_forward_new config)" by simp
  have cap: "max 1 (sf_cap ?s) = max 1 (sfc_max_queue_per_dest config)"
    using sf_queues.run_capacity [of ops "store_forward_new config"]
    by (simp add: store_forward_new_def)
  have "queue_depth d ?s = length (queue_of d ?s)"
    by (simp add: queue_depth_def queue_of_def split: option.splits)
  then show ?thesis
    using sf_dests.run_bound [OF new, of ops] queue_of_bound [OF sf_dests.run_inv [OF new], of d ops]
      total_stored_bound [OF sf_dests.run_inv [OF new], of ops]
    unfolding cap by (simp add: Let_def destination_count_def MAX_DESTINATIONS_def)
qed

text \<open>
  Storing into a full queue evicts at most one message, and never one that matters as
  much: if some stored message has a strictly lower priority than the new one, the oldest among those
  of least priority is dropped and the new one appended, all others keeping their order; otherwise
  the call reports a full queue and the queue is as before.
\<close>

theorem store_evicts_least_priority:
  assumes "hm_contains dest (sf_queues s)" and "sf_cap s \<le> length (queue_of dest s)"
    and "queue_of dest s \<noteq> []"
  shows "if \<exists>m \<in> set (queue_of dest s). sm_priority m < sm_priority msg
    then \<exists>pre victim post s'. queue_of dest s = pre @ victim # post \<and>
           store dest msg s = (Inr (), s') \<and> queue_of dest s' = pre @ post @ [msg] \<and>
           sm_priority victim < sm_priority msg \<and>
           (\<forall>m \<in> set pre. sm_priority victim < sm_priority m) \<and>
           (\<forall>m \<in> set post. sm_priority victim \<le> sm_priority m)
    else \<exists>s'. store dest msg s = (Inl (QueueFull dest), s') \<and> queue_of dest s' = queue_of dest s"
proof -
  have "admits dest s" using assms(1) by (simp add: admits_def)
  from store_full_spec [OF this assms(2,3)] show ?thesis .
qed

definition witness_stored :: "u32 \<Rightarrow> int \<Rightarrow> stored_message" where
  "witness_stored pid prio =
     \<lparr>sm_packet_bytes = [], sm_packet_id = pid, sm_dest = 7, sm_portnum = 1, sm_priority = prio,
      sm_stored_at_ms = 1000, sm_ttl_secs = 60, sm_delivery_attempts = 0\<rparr>"

definition witness_store :: store_forward where
  "witness_store =
     \<lparr>sf_queues = [(7, [witness_stored 1 70, witness_stored 2 10, witness_stored 3 10])],
      sf_config = \<lparr>sfc_enabled = True, sfc_max_queue_per_dest = 3, sfc_message_ttl_secs = 60\<rparr>\<rparr>"

text \<open>
  Pruning is exact, also at the ends of the 64-bit clock: each queue keeps, in order, the messages
  whose expiry (storage time plus TTL in milliseconds, both capped at the largest 64-bit value)
  lies after the given time, and no destination is left with an empty queue.
\<close>

lemma prune_expired_exact:
  assumes "hm_wf (sf_queues s)"
  shows "queue_of d (prune_expired now s) =
      filter (\<lambda>m. unat now < min (2 ^ 64 - 1)
                (unat (sm_stored_at_ms m) + min (2 ^ 64 - 1) (unat (sm_ttl_secs m) * 1000)))
        (queue_of d s) \<and>
    d \<notin> {d. hm_get (sf_queues (prune_expired now s)) d = Some []}"
proof
  have "sm_unexpired now m \<longleftrightarrow> unat now < min (2 ^ 64 - 1)
        (unat (sm_stored_at_ms m) + min (2 ^ 64 - 1) (unat (sm_ttl_secs m) * 1000))" for m
    by (simp add: sm_unexpired_def word_less_nat_alt unat_saturating_add unat_saturating_mul min.commute conj_commute)
  then show "queue_of d (prune_expired now s) =
      filter (\<lambda>m. unat now < min (2 ^ 64 - 1)
                (unat (sm_stored_at_ms m) + min (2 ^ 64 - 1) (unat (sm_ttl_secs m) * 1000)))
        (queue_of d s)"
    unfolding queue_of_prune [OF assms] by presburger
  show "d \<notin> {d. hm_get (sf_queues (prune_expired now s)) d = Some []}"
    using assms by (auto simp: prune_expired_def hm_get_retain split: option.splits if_splits)
qed

text \<open>
  A snapshot restores every queue. If parsing undoes printing (up to the unspecified order of
  map entries), then restoring the snapshot of a store within its bounds succeeds and gives
  back, for every destination, the same messages in the same order; the restored store is
  within the bounds again when its configuration allows as much.
\<close>

theorem store_snapshot_roundtrip:
  assumes json: "\<And>m bs. to_json m = Some bs \<Longrightarrow> hm_wf m \<Longrightarrow>
      \<exists>m'. from_json bs = Some m' \<and> hm_wf m' \<and> hm_get m' = hm_get m"
    and "sf_inv s" and "sf_serialize to_json s = Inr bs" and "sf_config fresh = sf_config s"
  shows "\<exists>s'. sf_deserialize from_json bs fresh = (Inr (), s') \<and> sf_inv s' \<and>
    (\<forall>d. queue_of d s' = queue_of d s)"
proof -
  have wf: "hm_wf (sf_queues s)" and len: "length (sf_queues s) \<le> MAX_DESTINATIONS"
    using assms(2) by (auto simp: sf_inv_def)
  have "to_json (sf_queues s) = Some bs"
    using assms(3) by (auto simp: sf_serialize_def case_prod_beta split: option.splits)
  from json [OF this wf] obtain m' where m': "from_json bs = Some m'" "hm_wf m'"
    "hm_get m' = hm_get (sf_queues s)" by blast
  let ?s = "fresh\<lparr>sf_queues := m'\<rparr>"
  have "length m' = length (sf_queues s)"
    using hm_length_eq [OF m'(2) wf m'(3)] .
  moreover have "length q \<le> max 1 (sf_cap s)" if "(d, q) \<in> set m'" for d q
  proof -
    have "hm_get (sf_queues s) d = Some q"
      using that m' by (simp add: hm_wf_def map_of_is_SomeI flip: m'(3))
    then have "(d, q) \<in> set (sf_queues s)" by (rule map_of_SomeD)
    with assms(2) show ?thesis by (auto simp: sf_inv_def)
  qed
  ultimately have "sf_deserialize from_json bs fresh = (Inr (), ?s)" "sf_inv ?s"
    using m' len assms(4) by (auto simp: sf_deserialize_def sf_inv_def)
  moreover have "\<forall>d. queue_of d ?s = queue_of d s"
    using m' by (simp add: queue_of_def)
  ultimately show ?thesis by blast
qed

end
