(* ===== verification/Mesh_Router.thy ===== *)
theory Mesh_Router
  imports Outbound_Queue Delivery_Tracker Store_Forward "HOL-Library.Sublist"
begin

section \<open>The message router\<close>

text \<open>
  \<open>kerykeion/src/router.rs\<close>, the outbound send path over the outbound queue, the store-and-forward
  queues and the delivery tracker, and the flush tick of \<open>collector.rs\<close> that drives it.
  The protobuf printer and parser of packets are the parameters \<open>enc\<close> and \<open>dec\<close>. Every reading
  of a clock is an argument; loops that read the clock take the readings as a function of the
  number of the reading.
\<close>

subsection \<open>Model\<close>

record mesh_router =
  mr_outbound :: outbound_queue
  mr_store_forward :: store_forward
  mr_delivery :: delivery_tracker
  mr_ack_timeout :: duration
  mr_sf_ttl_secs :: u64
  mr_record_max_age :: duration

record send_options =
  so_want_ack :: bool
  so_priority :: priority
  so_ttl_secs :: u64

definition send_options_with_config :: "outbound_config \<Rightarrow> send_options" where
  "send_options_with_config config =
     \<lparr>so_want_ack = False, so_priority = PDefault, so_ttl_secs = oc_store_forward_ttl_secs config\<rparr>"

definition router_with_config ::
    "outbound_queue \<Rightarrow> store_forward \<Rightarrow> delivery_tracker \<Rightarrow> outbound_config \<Rightarrow> mesh_router" where
  "router_with_config q sf t config =
     \<lparr>mr_outbound = q, mr_store_forward = sf, mr_delivery = t,
      mr_ack_timeout = from_secs (oc_ack_timeout_secs config),
      mr_sf_ttl_secs = oc_store_forward_ttl_secs config,
      mr_record_max_age = from_secs (oc_delivery_record_max_age_secs config)\<rparr>"

definition router_new :: "outbound_queue \<Rightarrow> store_forward \<Rightarrow> delivery_tracker \<Rightarrow> mesh_router" where
  "router_new q sf t = router_with_config q sf t outbound_config_default"

definition packet_portnum :: "mesh_packet \<Rightarrow> int" where
  "packet_portnum p = (case mp_payload_variant p of Some (Decoded d) \<Rightarrow> d_portnum d | _ \<Rightarrow> 0)"

definition stored_for :: "(mesh_packet \<Rightarrow> bytes) \<Rightarrow> u64 \<Rightarrow> mesh_packet \<Rightarrow> send_options \<Rightarrow> stored_message" where
  "stored_for enc now_ms packet options =
     \<lparr>sm_packet_bytes = enc packet, sm_packet_id = mp_id packet, sm_dest = mp_to packet,
      sm_portnum = packet_portnum packet, sm_priority = priority_i32 (so_priority options),
      sm_stored_at_ms = now_ms, sm_ttl_secs = so_ttl_secs options, sm_delivery_attempts = 0\<rparr>"

definition send ::
    "(mesh_packet \<Rightarrow> bytes) \<Rightarrow> instant \<Rightarrow> u64 \<Rightarrow> instant \<Rightarrow> mesh_packet \<Rightarrow> bool \<Rightarrow> send_options \<Rightarrow>
       mesh_router \<Rightarrow> (mesh_error + packet_id) \<times> mesh_router" where
  "send enc now now_ms now' packet reachable options r =
     (let pid = mp_id packet; dest = mp_to packet in
      if reachable then
        case enqueue \<lparr>pm_packet = packet, pm_created = now, pm_ttl = from_secs (so_ttl_secs options),
                      pm_priority = so_priority options, pm_retries = 0\<rparr> (mr_outbound r) of
          (Inl _, q) \<Rightarrow> (Inl (QueueFull dest), r\<lparr>mr_outbound := q\<rparr>)
        | (Inr _, q) \<Rightarrow>
            (Inr pid, r\<lparr>mr_outbound := q, mr_delivery := track now' pid dest (mr_delivery r)\<rparr>)
      else
        case store dest (stored_for enc now_ms packet options) (mr_store_forward r) of
          (Inl e, sf) \<Rightarrow> (Inl e, r\<lparr>mr_store_forward := sf\<rparr>)
        | (Inr _, sf) \<Rightarrow>
            (Inr pid, r\<lparr>mr_store_forward := sf, mr_delivery := track now' pid dest (mr_delivery r)\<rparr>))"

definition router_handle_ack :: "instant \<Rightarrow> packet_id \<Rightarrow> u8 option \<Rightarrow> mesh_router \<Rightarrow> mesh_router" where
  "router_handle_ack now pid hops r =
     r\<lparr>mr_outbound := snd (outbound_handle_ack pid (mr_outbound r)),
       mr_delivery := mark_acknowledged now pid hops (mr_delivery r)\<rparr>"

definition router_handle_nak :: "packet_id \<Rightarrow> routing_error \<Rightarrow> mesh_router \<Rightarrow> mesh_router" where
  "router_handle_nak pid e r =
     (case outbound_handle_nak pid (mr_outbound r) of (retried, q) \<Rightarrow>
        r\<lparr>mr_outbound := q,
          mr_delivery := (if retried then record_retry pid (mr_delivery r)
                          else mark_failed pid (DFNak e) (mr_delivery r))\<rparr>)"

fun timeout_loop :: "packet_id list \<Rightarrow> mesh_router \<Rightarrow> packet_id list \<times> mesh_router" where
  "timeout_loop [] r = ([], r)"
| "timeout_loop (pid # ids) r =
     (case retry pid (mr_outbound r) of (retried, q) \<Rightarrow>
        if retried
        then timeout_loop ids (r\<lparr>mr_outbound := q, mr_delivery := record_retry pid (mr_delivery r)\<rparr>)
        else let (fails, r') = timeout_loop ids
               (r\<lparr>mr_outbound := q, mr_delivery := mark_failed pid DFMaxRetries (mr_delivery r)\<rparr>)
             in (pid # fails, r'))"

definition process_timeouts :: "instant \<Rightarrow> mesh_router \<Rightarrow> packet_id list \<times> mesh_router" where
  "process_timeouts now r = timeout_loop (check_timeouts now (mr_outbound r)) r"

definition run_maintenance ::
    "instant \<Rightarrow> instant \<Rightarrow> u64 \<Rightarrow> instant \<Rightarrow> mesh_router \<Rightarrow> packet_id list \<times> mesh_router" where
  "run_maintenance now1 now2 now_ms now3 r =
     (let (expired, t) = expire_stale now1 (mr_record_max_age r) (mr_delivery r) in
      (expired,
       r\<lparr>mr_delivery := prune_completed now2 (mr_record_max_age r) t,
         mr_store_forward := prune_expired now_ms (mr_store_forward r),
         mr_outbound := drain_expired now3 (mr_outbound r)\<rparr>))"

definition restored :: "instant \<Rightarrow> mesh_packet \<Rightarrow> stored_message \<Rightarrow> pending_message" where
  "restored now packet msg =
     \<lparr>pm_packet = packet, pm_created = now, pm_ttl = from_secs (sm_ttl_secs msg),
      pm_priority = priority_or_default (sm_priority msg), pm_retries = 0\<rparr>"

fun flush_stored ::
    "(bytes \<Rightarrow> mesh_packet option) \<Rightarrow> (nat \<Rightarrow> instant) \<Rightarrow> nat \<Rightarrow> stored_message list \<Rightarrow>
       outbound_queue \<Rightarrow> outbound_queue" where
  "flush_stored dec clock i [] q = q"
| "flush_stored dec clock i (msg # ms) q =
     (case dec (sm_packet_bytes msg) of
        None \<Rightarrow> flush_stored dec clock i ms q
      | Some packet \<Rightarrow>
          case enqueue (restored (clock i) packet msg) q of
            (Inl _, q') \<Rightarrow> q'
          | (Inr _, q') \<Rightarrow> flush_stored dec clock (Suc i) ms q')"

definition node_came_online ::
    "(bytes \<Rightarrow> mesh_packet option) \<Rightarrow> (nat \<Rightarrow> instant) \<Rightarrow> node_num \<Rightarrow> mesh_router \<Rightarrow> mesh_router" where
  "node_came_online dec clock dest r =
     (let (stored, sf) = drain_for dest (mr_store_forward r);
          n = min (length stored) (remaining_capacity (mr_outbound r));
          q = flush_stored dec clock 0 (take n stored) (mr_outbound r);
          sf' = fold (\<lambda>msg s. snd (store dest msg s)) (drop n stored) sf
      in r\<lparr>mr_outbound := q, mr_store_forward := sf'\<rparr>)"

definition router_next_to_send ::
    "instant \<Rightarrow> instant \<Rightarrow> mesh_router \<Rightarrow> pending_message option \<times> mesh_router" where
  "router_next_to_send now now' r =
     (case next_to_send now (mr_outbound r) of
        (None, q) \<Rightarrow> (None, r\<lparr>mr_outbound := q\<rparr>)
      | (Some msg, q) \<Rightarrow>
          (Some msg, r\<lparr>mr_outbound := q,
             mr_delivery := mark_sent now' (mp_id (pm_packet msg)) (mr_delivery r)\<rparr>))"

definition track_sent :: "instant \<Rightarrow> pending_message \<Rightarrow> mesh_router \<Rightarrow> mesh_router" where
  "track_sent now msg r =
     r\<lparr>mr_outbound := track_inflight now msg (mr_ack_timeout r) (mr_outbound r)\<rparr>"

text \<open>
  One tick of \<open>run_router_flush\<close>. Send errors are logged and otherwise ignored, so the tick does
  not depend on the connection; what it hands to the radio is its first result. The router's lock
  is released between the pops and each \<open>track_sent\<close>; the tick is modelled without
  other tasks in those gaps.
\<close>

function router_drain ::
    "(nat \<Rightarrow> instant) \<Rightarrow> nat \<Rightarrow> mesh_router \<Rightarrow> pending_message list \<times> mesh_router" where
  "router_drain clock i r =
     (case router_next_to_send (clock i) (clock (Suc i)) r of
        (None, r') \<Rightarrow> ([], r')
      | (Some msg, r') \<Rightarrow>
          (case router_drain clock (Suc (Suc i)) r' of (msgs, r'') \<Rightarrow> (msg # msgs, r'')))"
  by pat_completeness auto

lemma router_next_Some:
  assumes "router_next_to_send now now' r = (Some m, r')"
  shows "\<exists>q. next_to_send now (mr_outbound r) = (Some m, q) \<and>
    r' = r\<lparr>mr_outbound := q, mr_delivery := mark_sent now' (mp_id (pm_packet m)) (mr_delivery r)\<rparr>"
  using assms by (auto simp: router_next_to_send_def split: prod.splits option.splits)

lemma router_next_shrinks:
  "(Some m, r') = router_next_to_send now now' r \<Longrightarrow>
     length (pending (mr_outbound r')) < length (pending (mr_outbound r))"
  by (auto dest!: sym [of "(Some m, r')"] router_next_Some next_to_send_Some(4))

termination router_drain
  by (relation "measure (\<lambda>(clock, i, r). length (pending (mr_outbound r)))")
    (auto dest: router_next_shrinks)

fun track_all :: "(nat \<Rightarrow> instant) \<Rightarrow> nat \<Rightarrow> pending_message list \<Rightarrow> mesh_router \<Rightarrow> mesh_router" where
  "track_all clock i [] r = r"
| "track_all clock i (m # ms) r = track_all clock (Suc i) ms (track_sent (clock i) m r)"

definition flush_tick ::
    "(nat \<Rightarrow> instant) \<Rightarrow> u64 \<Rightarrow> mesh_router \<Rightarrow> mesh_packet list \<times> mesh_router" where
  "flush_tick clock now_ms r =
     (let (_, r1) = process_timeouts (clock 0) r;
          (_, r2) = run_maintenance (clock 1) (clock 2) now_ms (clock 3) r1;
          (msgs, r3) = router_drain clock 4 r2
      in (map pm_packet msgs, track_all clock (4 + 2 * length msgs) msgs r3))"

text \<open>The operations other tasks call, as steps of a run.\<close>

datatype router_op =
    RSend instant u64 instant mesh_packet bool send_options
  | RAck instant packet_id "u8 option"
  | RNak packet_id routing_error
  | ROnline "nat \<Rightarrow> instant" node_num
  | RTick "nat \<Rightarrow> instant" u64

fun router_step ::
    "(mesh_packet \<Rightarrow> bytes) \<Rightarrow> (bytes \<Rightarrow> mesh_packet option) \<Rightarrow> router_op \<Rightarrow> mesh_router \<Rightarrow> mesh_router" where
  "router_step enc dec (RSend now now_ms now' p reach opts) r = snd (send enc now now_ms now' p reach opts r)"
| "router_step enc dec (RAck now pid hops) r = router_handle_ack now pid hops r"
| "router_step enc dec (RNak pid e) r = router_handle_nak pid e r"
| "router_step enc dec (ROnline clock dest) r = node_came_online dec clock dest r"
| "router_step enc dec (RTick clock now_ms) r = snd (flush_tick clock now_ms r)"

text \<open>What the three parts keep under any use of the router.\<close>

definition router_inv :: "mesh_router \<Rightarrow> bool" where
  "router_inv r \<longleftrightarrow>
     outbound_inv (mr_outbound r) \<and> sf_inv (mr_store_forward r) \<and>
     hm_wf (records (mr_delivery r)) \<and> hm_wf (dest_stats (mr_delivery r))"

declare router_drain.simps [simp del]

subsection \<open>Every operation keeps the invariant\<close>

lemma max_retries_simps [simp]:
  "max_retries (snd (enqueue m q)) = max_retries q" "max_retries (snd (next_to_send now q)) = max_retries q"
  by (auto simp: enqueue_def next_to_send_def Let_def split: prod.splits)

lemma tracker_wf [simp]:
  assumes "hm_wf (records t)" "hm_wf (dest_stats t)"
  shows "hm_wf (records (track now pid d t))" "hm_wf (dest_stats (track now pid d t))"
    "hm_wf (records (mark_sent now pid t))" "hm_wf (dest_stats (mark_sent now pid t))"
    "hm_wf (records (mark_acknowledged now pid hops t))" "hm_wf (dest_stats (mark_acknowledged now pid hops t))"
    "hm_wf (records (mark_failed pid e t))" "hm_wf (dest_stats (mark_failed pid e t))"
    "hm_wf (records (record_retry pid t))" "hm_wf (dest_stats (record_retry pid t))"
    "hm_wf (records (prune_completed now age t))" "hm_wf (dest_stats (prune_completed now age t))"
    "hm_wf (records (snd (expire_stale now age t)))" "hm_wf (dest_stats (snd (expire_stale now age t)))"
  using assms hm_wf_expire_loop [OF assms(2), of now age "records t"]
    expire_loop_records(1) [of now age "records t" "dest_stats t"]
  by (auto simp: track_def mark_sent_def mark_acknowledged_def mark_failed_def record_retry_def
      prune_completed_def expire_stale_def Let_def split: option.splits prod.splits)

lemma router_inv_send [inv_intros]:
  "router_inv r \<Longrightarrow> router_inv (snd (send enc now now_ms now' p reach opts r))"
  using outbound_inv_enqueue [of "mr_outbound r" "\<lparr>pm_packet = p, pm_created = now,
      pm_ttl = from_secs (so_ttl_secs opts), pm_priority = so_priority opts, pm_retries = 0\<rparr>"]
    sf_inv_store [of "mr_store_forward r" "mp_to p" "stored_for enc now_ms p opts"]
  by (auto simp: send_def Let_def router_inv_def split: prod.splits sum.splits)

lemma router_inv_ack [inv_intros]: "router_inv r \<Longrightarrow> router_inv (router_handle_ack now pid hops r)"
  by (auto simp: router_handle_ack_def router_inv_def intro: outbound_inv_ack)

lemma router_inv_nak [inv_intros]: "router_inv r \<Longrightarrow> router_inv (router_handle_nak pid e r)"
  using outbound_inv_retry [of "mr_outbound r" pid]
  by (auto simp: router_handle_nak_def outbound_handle_nak_def router_inv_def split: prod.splits)

lemma router_inv_timeout_loop: "router_inv r \<Longrightarrow> router_inv (snd (timeout_loop ids r))"
proof (induction ids r rule: timeout_loop.induct)
  case (2 pid ids r)
  obtain b q where q: "retry pid (mr_outbound r) = (b, q)" by fastforce
  then have "outbound_inv q"
    using outbound_inv_retry [of "mr_outbound r" pid] 2(3) by (simp add: router_inv_def)
  with 2(3) have
    "router_inv (r\<lparr>mr_outbound := q, mr_delivery := record_retry pid (mr_delivery r)\<rparr>)"
    "router_inv (r\<lparr>mr_outbound := q, mr_delivery := mark_failed pid DFMaxRetries (mr_delivery r)\<rparr>)"
    by (simp_all add: router_inv_def)
  with 2(1,2) q show ?case by (auto split: prod.splits)
qed simp

lemma router_inv_timeouts [inv_intros]: "router_inv r \<Longrightarrow> router_inv (snd (process_timeouts now r))"
  by (simp add: process_timeouts_def router_inv_timeout_loop)

lemma router_inv_maintenance [inv_intros]:
  "router_inv r \<Longrightarrow> router_inv (snd (run_maintenance now1 now2 now_ms now3 r))"
  by (auto simp: run_maintenance_def router_inv_def case_prod_beta intro: inv_intros)

lemma outbound_inv_flush_stored:
  "outbound_inv q \<Longrightarrow> outbound_inv (flush_stored dec clock i ms q)"
proof (induction dec clock i ms q rule: flush_stored.induct)
  case (2 dec clock i msg ms q)
  have "outbound_inv (snd (enqueue (restored now p msg) q))" for now p
    using 2(3) by (rule outbound_inv_enqueue) (simp add: restored_def)
  with 2 show ?case by (auto split: option.splits prod.splits sum.splits) (metis snd_conv)+
qed simp

lemma sf_inv_store_all: "sf_inv s \<Longrightarrow> sf_inv (fold (\<lambda>m s. snd (store dest m s)) ms s)"
  by (induction ms arbitrary: s) (auto intro: sf_inv_store)

lemma router_inv_online [inv_intros]:
  "router_inv r \<Longrightarrow> router_inv (node_came_online dec clock dest r)"
  using sf_inv_drain [of "mr_store_forward r" dest]
  by (auto simp: node_came_online_def router_inv_def Let_def case_prod_beta
      intro!: outbound_inv_flush_stored sf_inv_store_all)

lemma router_inv_next:
  "router_inv r \<Longrightarrow> router_inv (snd (router_next_to_send now now' r))"
  using outbound_inv_next [of "mr_outbound r" now]
  by (auto simp: router_next_to_send_def router_inv_def split: prod.splits option.splits)

abbreviation limits :: "mesh_router \<Rightarrow> usize \<times> usize \<times> u8 \<times> store_forward_config" where
  "limits r \<equiv> (max_inflight (mr_outbound r), max_pending (mr_outbound r), max_retries (mr_outbound r),
     sf_config (mr_store_forward r))"

lemma router_inv_drain:
  "router_inv r \<Longrightarrow> router_drain clock i r = (msgs, r') \<Longrightarrow>
     router_inv r' \<and> max_retries (mr_outbound r') = max_retries (mr_outbound r) \<and>
     (\<forall>m \<in> set msgs. pm_retries m \<le> max_retries (mr_outbound r))"
proof (induction clock i r arbitrary: msgs r' rule: router_drain.induct)
  case (1 clock i r)
  obtain m r1 where n: "router_next_to_send (clock i) (clock (Suc i)) r = (m, r1)" by fastforce
  have inv: "router_inv r1" using router_inv_next [OF 1(2), of "clock i" "clock (Suc i)"] n by simp
  have mx: "max_retries (mr_outbound r1) = max_retries (mr_outbound r)"
    using n max_retries_simps(2) [of "clock i" "mr_outbound r"]
    by (auto simp: router_next_to_send_def simp del: max_retries_simps split: prod.splits option.splits)
  show ?case
  proof (cases m)
    case None
    with 1(3) n inv mx show ?thesis by (auto simp: router_drain.simps [of clock i r])
  next
    case (Some m')
    obtain ms r2 where d: "router_drain clock (Suc (Suc i)) r1 = (ms, r2)" by fastforce
    have "m' \<in> set (pending (mr_outbound r))"
      using n Some by (auto dest!: router_next_Some next_to_send_Some(1))
    with 1(2) have "pm_retries m' \<le> max_retries (mr_outbound r)"
      by (auto simp: router_inv_def intro: outbound_invD(4))
    with 1(1) [OF n [symmetric] Some inv d] 1(3) n Some d mx show ?thesis
      by (auto simp: router_drain.simps [of clock i r])
  qed
qed

lemma router_inv_track_all:
  "router_inv r \<Longrightarrow> \<forall>m \<in> set msgs. pm_retries m \<le> max_retries (mr_outbound r) \<Longrightarrow>
     router_inv (track_all clock i msgs r)"
proof (induction msgs arbitrary: i r)
  case (Cons m ms)
  have "router_inv (track_sent (clock i) m r)"
    using Cons.prems by (auto simp: track_sent_def router_inv_def intro: outbound_inv_track)
  moreover have "max_retries (mr_outbound (track_sent (clock i) m r)) = max_retries (mr_outbound r)"
    by (simp add: track_sent_def track_inflight_def)
  ultimately show ?case using Cons by auto
qed simp

lemma router_inv_tick [inv_intros]:
  assumes "router_inv r"
  shows "router_inv (snd (flush_tick clock now_ms r))"
proof -
  let ?r2 = "snd (run_maintenance (clock 1) (clock 2) now_ms (clock 3) (snd (process_timeouts (clock 0) r)))"
  obtain msgs r3 where d: "router_drain clock 4 ?r2 = (msgs, r3)" by fastforce
  have "router_inv ?r2" using assms by (intro inv_intros)
  from router_inv_drain [OF this d] show ?thesis
    using d by (auto simp: flush_tick_def case_prod_beta intro!: router_inv_track_all)
qed

interpretation router: guarded_component router_inv "router_step enc dec" for enc dec
proof unfold_locales
  show "router_inv r \<Longrightarrow> router_inv (router_step enc dec op r)" for op r
    by (cases op) (auto intro!: inv_intros)
qed

subsection \<open>Limits never change\<close>

abbreviation q_limits :: "outbound_queue \<Rightarrow> usize \<times> usize \<times> u8" where
  "q_limits q \<equiv> (max_inflight q, max_pending q, max_retries q)"

lemma q_limits_ops:
  "q_limits (snd (enqueue m q)) = q_limits q"
  "q_limits (snd (next_to_send now q)) = q_limits q"
  "q_limits (snd (retry pid q)) = q_limits q"
  "q_limits (snd (outbound_handle_ack pid q)) = q_limits q"
  "q_limits (drain_expired now q) = q_limits q"
  by (auto simp: enqueue_def next_to_send_def retry_def outbound_handle_ack_def drain_expired_def
      Let_def split: prod.splits option.splits)

lemma limits_send: "limits (snd (send enc now now_ms now' p reach opts r)) = limits r"
  using q_limits_ops(1) [of "\<lparr>pm_packet = p, pm_created = now,
      pm_ttl = from_secs (so_ttl_secs opts), pm_priority = so_priority opts, pm_retries = 0\<rparr>" "mr_outbound r"]
    sf_config_store [of "mp_to p" "stored_for enc now_ms p opts" "mr_store_forward r"]
  by (auto simp: send_def Let_def simp del: sf_config_store max_retries_simps split: prod.splits sum.splits)

lemma limits_timeout_loop: "limits (snd (timeout_loop ids r)) = limits r"
proof (induction ids r rule: timeout_loop.induct)
  case (2 pid ids r)
  obtain b q where q: "retry pid (mr_outbound r) = (b, q)" by fastforce
  then have "q_limits q = q_limits (mr_outbound r)"
    using q_limits_ops(3) [of pid "mr_outbound r"] by simp
  with 2 q show ?case by (auto split: prod.splits)
qed simp

lemma limits_flush_stored: "q_limits (flush_stored dec clock i ms q) = q_limits q"
proof (induction dec clock i ms q rule: flush_stored.induct)
  case (2 dec clock i msg ms q)
  then show ?case
    using q_limits_ops(1) [of "restored (clock i) _ msg" q]
    by (auto simp del: max_retries_simps split: option.splits prod.splits sum.splits) (metis snd_conv)+
qed simp

lemma limits_store_all: "sf_config (fold (\<lambda>m s. snd (store dest m s)) ms s) = sf_config s"
  by (induction ms arbitrary: s) auto

lemma limits_drain: "limits (snd (router_drain clock i r)) = limits r"
proof (induction clock i r rule: router_drain.induct)
  case (1 clock i r)
  obtain m r1 where n: "router_next_to_send (clock i) (clock (Suc i)) r = (m, r1)" by fastforce
  then have "limits r1 = limits r"
    using q_limits_ops(2) [of "clock i" "mr_outbound r"]
    by (auto simp: router_next_to_send_def simp del: max_retries_simps split: prod.splits option.splits)
  with 1 n show ?case by (auto simp: router_drain.simps [of clock i r] split: option.splits prod.splits)
qed

lemma limits_track_all: "limits (track_all clock i ms r) = limits r"
  by (induction ms arbitrary: i r) (auto simp: track_sent_def track_inflight_def)

lemmas limits_eqs =
  q_limits_ops [unfolded prod.inject] limits_send [unfolded prod.inject]
  limits_timeout_loop [unfolded prod.inject] limits_flush_stored [unfolded prod.inject]
  limits_drain [unfolded prod.inject] limits_track_all [unfolded prod.inject] limits_store_all

lemma limits_tick: "limits (snd (flush_tick clock now_ms r)) = limits r"
  by (simp add: flush_tick_def case_prod_beta process_timeouts_def run_maintenance_def limits_eqs
      prune_expired_def)

lemma limits_step: "limits (router_step enc dec op r) = limits r"
  by (cases op)
    (simp_all add: limits_eqs limits_tick [unfolded prod.inject] router_handle_ack_def
      router_handle_nak_def outbound_handle_nak_def node_came_online_def case_prod_beta drain_for_def
      Let_def)

lemma limits_run: "limits (fold (router_step enc dec) ops r) = limits r"
  by (induction ops arbitrary: r) (simp_all add: limits_step del: prod.inject)

interpretation router_outbound: bounded_component router_inv "router_step enc dec"
    "\<lambda>r. length (pending (mr_outbound r))" "\<lambda>r. max_pending (mr_outbound r)" for enc dec
  by unfold_locales (use limits_step in \<open>auto simp: router_inv_def outbound_invD\<close>)

subsection \<open>Moving stored messages to the outbound queue\<close>

text \<open>
  The stored messages whose bytes parse, with their packets; and the messages they become in the
  outbound queue, each with its own reading of the clock.
\<close>

definition parsed :: "(bytes \<Rightarrow> mesh_packet option) \<Rightarrow> stored_message list \<Rightarrow> (mesh_packet \<times> stored_message) list" where
  "parsed dec ms = List.map_filter (\<lambda>m. map_option (\<lambda>p. (p, m)) (dec (sm_packet_bytes m))) ms"

fun queued_again :: "(nat \<Rightarrow> instant) \<Rightarrow> nat \<Rightarrow> (mesh_packet \<times> stored_message) list \<Rightarrow> pending_message list" where
  "queued_again clock i [] = []"
| "queued_again clock i ((p, m) # ps) =
     \<lparr>pm_packet = p, pm_created = clock i, pm_ttl = from_secs (sm_ttl_secs m),
      pm_priority = priority_or_default (sm_priority m), pm_retries = 0\<rparr> # queued_again clock (Suc i) ps"

lemma parsed_simps [simp]:
  "parsed dec [] = []"
  "parsed dec (m # ms) = (case dec (sm_packet_bytes m) of None \<Rightarrow> parsed dec ms | Some p \<Rightarrow> (p, m) # parsed dec ms)"
  by (simp_all add: parsed_def map_filter_simps split: option.splits)

lemma parsed_append [simp]: "parsed dec (xs @ ys) = parsed dec xs @ parsed dec ys"
  by (induction xs) (auto split: option.splits)

lemma queued_again_mem:
  "(p, m) \<in> set ps \<Longrightarrow> \<exists>x \<in> set (queued_again clock i ps). pm_packet x = p \<and> pm_ttl x = from_secs (sm_ttl_secs m) \<and>
     pm_priority x = priority_or_default (sm_priority m) \<and> pm_retries x = 0"
  by (induction clock i ps rule: queued_again.induct) auto

lemma flush_stored_room:
  "length (pending q) + length ms \<le> max_pending q \<Longrightarrow> sorted_wrt (\<lambda>a b. pm_rank b \<le> pm_rank a) (pending q) \<Longrightarrow>
     flush_stored dec clock i ms q =
       q\<lparr>pending := sort_key (\<lambda>m. - pm_rank m) (pending q @ queued_again clock i (parsed dec ms))\<rparr>"
proof (induction dec clock i ms q rule: flush_stored.induct)
  case (1 dec clock i q)
  then show ?case by (simp add: sort_key_pending)
next
  case (2 dec clock i msg ms q)
  show ?case
  proof (cases "dec (sm_packet_bytes msg)")
    case None
    with 2(1) [OF None] 2(3,4) show ?thesis by simp
  next
    case (Some p)
    let ?m = "restored (clock i) p msg"
    let ?q = "q\<lparr>pending := insert_at (enqueue_pos ?m (pending q)) ?m (pending q)\<rparr>"
    have e: "enqueue ?m q = (Inr (), ?q)" using 2(3) by (simp add: enqueue_ok)
    from 2(2) [OF Some e [symmetric] refl] 2(3,4) Some e show ?thesis
      by (simp add: enqueue_sorted sort_key_enqueue restored_def)
  qed
qed

lemma online_moves:
  assumes inv: "router_inv r" and cap: "0 < sf_cap (mr_store_forward r)"
    and q: "queue_of dest (mr_store_forward r) = stored"
    and n: "n = min (length stored) (remaining_capacity (mr_outbound r))"
    and r'_def: "r' = node_came_online dec clock dest r"
  shows "mr_outbound r' = (mr_outbound r)\<lparr>pending := sort_key (\<lambda>m. - pm_rank m)
      (pending (mr_outbound r) @ queued_again clock 0 (parsed dec (take n stored)))\<rparr>"
    and "queue_of d (mr_store_forward r') =
      (if d = dest then drop n stored else queue_of d (mr_store_forward r))"
    and "mr_delivery r' = mr_delivery r"
proof -
  let ?sf = "mr_store_forward r"
  let ?sf1 = "?sf\<lparr>sf_queues := hm_remove dest (sf_queues ?sf)\<rparr>"
  have r': "r' = r\<lparr>mr_outbound := flush_stored dec clock 0 (take n stored) (mr_outbound r),
      mr_store_forward := fold (\<lambda>msg s. snd (store dest msg s)) (drop n stored) ?sf1\<rparr>"
    by (simp add: r'_def node_came_online_def drain_for_def q n Let_def)
  have "length (pending (mr_outbound r)) + length (take n stored) \<le> max_pending (mr_outbound r)"
    using inv by (auto simp: n remaining_capacity_def router_inv_def dest: outbound_invD(2))
  from flush_stored_room [OF this] show "mr_outbound r' = (mr_outbound r)\<lparr>pending := sort_key (\<lambda>m. - pm_rank m)
      (pending (mr_outbound r) @ queued_again clock 0 (parsed dec (take n stored)))\<rparr>"
    using inv by (simp add: r' router_inv_def outbound_invD(1))
  have q1: "queue_of d ?sf1 = (if d = dest then [] else queue_of d ?sf)" for d
    by (simp add: queue_of_def)
  show "queue_of d (mr_store_forward r') = (if d = dest then drop n stored else queue_of d ?sf)"
  proof (cases "stored = []")
    case True
    then show ?thesis by (simp add: r' q1)
  next
    case False
    then have "hm_contains dest (sf_queues ?sf)"
      using q by (auto simp: queue_of_def hm_contains_def split: option.splits)
    then have "length (hm_remove dest (sf_queues ?sf)) < MAX_DESTINATIONS"
      using inv by (auto simp: router_inv_def sf_inv_def length_hm_remove MAX_DESTINATIONS_def hm_contains_def
          split: option.splits if_splits)
    then have "admits dest ?sf1" by (simp add: admits_def)
    moreover have "length (queue_of dest ?sf1) + length (drop n stored) \<le> sf_cap ?sf1"
      using inv cap q queue_of_bound [of ?sf dest] by (auto simp: q1 router_inv_def)
    ultimately show ?thesis
      by (auto simp: r' store_all_room q1) (simp_all add: queue_of_def)
  qed
  show "mr_delivery r' = mr_delivery r" by (simp add: r')
qed

subsection \<open>Timeouts\<close>

text \<open>What a timeout does to the record of a message that has one.\<close>

definition timed_out_record :: "bool \<Rightarrow> delivery_record \<Rightarrow> delivery_record" where
  "timed_out_record given_up rec =
     (if given_up then rec\<lparr>dr_status := Failed DFMaxRetries\<rparr> else rec\<lparr>dr_retries := dr_retries rec + 1\<rparr>)"

lemma records_timeout:
  "hm_get (records (mark_failed pid DFMaxRetries t)) i =
     (if i = pid then map_option (timed_out_record True) (hm_get (records t) pid) else hm_get (records t) i)"
  "hm_get (records (record_retry pid t)) i =
     (if i = pid then map_option (timed_out_record False) (hm_get (records t) pid) else hm_get (records t) i)"
  by (auto simp: mark_failed_def record_retry_def timed_out_record_def split: option.splits)

definition again :: "outbound_queue \<Rightarrow> packet_id list \<Rightarrow> pending_message list" where
  "again q ids = map (\<lambda>pid. requeued (the (hm_get (inflight q) pid))) ids"

lemma again_simps [simp]:
  "again q [] = []" "again q (i # ids) = requeued (the (hm_get (inflight q) i)) # again q ids"
  by (simp_all add: again_def)

lemma again_cong:
  "(\<And>i. i \<in> set ids \<Longrightarrow> hm_get (inflight q) i = hm_get (inflight q') i) \<Longrightarrow> again q ids = again q' ids"
  by (simp add: again_def)

definition timeout_post :: "packet_id list \<Rightarrow> packet_id list \<Rightarrow> mesh_router \<Rightarrow> mesh_router \<Rightarrow> bool" where
  "timeout_post ids fails r r' \<longleftrightarrow>
     set fails \<subseteq> set ids \<and>
     hm_get (inflight (mr_outbound r')) = hm_get (inflight (mr_outbound r)) |` (- set ids) \<and>
     pending (mr_outbound r') =
       sort_key (\<lambda>m. - pm_rank m) (pending (mr_outbound r) @ again (mr_outbound r) (filter (\<lambda>i. i \<notin> set fails) ids)) \<and>
     (\<forall>i \<in> set ids. let m = the (hm_get (inflight (mr_outbound r)) i) in
        if i \<in> set fails then max_retries (mr_outbound r) \<le> im_retries m \<or> max_pending (mr_outbound r) \<le> length (pending (mr_outbound r'))
        else im_retries m < max_retries (mr_outbound r)) \<and>
     (\<forall>i. hm_get (records (mr_delivery r')) i =
        (if i \<in> set ids then map_option (timed_out_record (i \<in> set fails)) (hm_get (records (mr_delivery r)) i)
         else hm_get (records (mr_delivery r)) i)) \<and>
     limits r' = limits r \<and> mr_store_forward r' = mr_store_forward r"

lemma timeout_loop_spec:
  assumes "outbound_inv (mr_outbound r)" "distinct ids"
    "\<forall>pid \<in> set ids. hm_get (inflight (mr_outbound r)) pid \<noteq> None"
    "timeout_loop ids r = (fails, r')"
  shows "timeout_post ids fails r r'"
  using assms
proof (induction ids r arbitrary: fails r' rule: timeout_loop.induct)
  case (1 r)
  then show ?case by (auto simp: timeout_post_def sort_key_pending outbound_invD(1) restrict_map_def)
next
  case (2 pid ids r)
  let ?q = "mr_outbound r"
  from 2(5) obtain m where m: "hm_get (inflight ?q) pid = Some m" by auto
  let ?q1 = "?q\<lparr>inflight := hm_remove pid (inflight ?q)\<rparr>"
  let ?q2 = "?q1\<lparr>pending := insert_at (enqueue_pos (requeued m) (pending ?q)) (requeued m) (pending ?q)\<rparr>"
  let ?ok = "im_retries m < max_retries ?q \<and> length (pending ?q) < max_pending ?q"
  have inv: "outbound_inv (snd (retry pid ?q))" using 2(3) by (rule outbound_inv_retry)
  have sorted: "sorted_wrt (\<lambda>a b. pm_rank b \<le> pm_rank a) (pending ?q)" using 2(3) by (rule outbound_invD)
  have others: "i \<noteq> pid" if "i \<in> set ids" for i using that 2(4) by auto
  have restr: "((hm_get (inflight ?q))(pid := None)) |` (- set ids) = hm_get (inflight ?q) |` (- set (pid # ids))"
    by (auto simp: restrict_map_def)
  show ?case
  proof (cases ?ok)
    case True
    then have rt: "retry pid ?q = (True, ?q2)" using retry_cases(1) [OF 2(3) m] by simp
    let ?r = "r\<lparr>mr_outbound := ?q2, mr_delivery := record_retry pid (mr_delivery r)\<rparr>"
    have loop: "timeout_loop ids ?r = (fails, r')" using 2(6) rt by simp
    have pre: "outbound_inv (mr_outbound ?r)" "distinct ids"
      "\<forall>i \<in> set ids. hm_get (inflight (mr_outbound ?r)) i \<noteq> None"
      using inv rt 2(4,5) others by auto
    note IH = 2(1) [OF rt [symmetric] TrueI pre loop]
    have "pid \<notin> set fails" using IH others by (auto simp: timeout_post_def)
    moreover have "again (mr_outbound ?r) (filter (\<lambda>i. i \<notin> set fails) ids) = again ?q (filter (\<lambda>i. i \<notin> set fails) ids)"
      by (rule again_cong) (auto dest: others)
    ultimately show ?thesis
      using IH m True others restr sorted
      by (auto simp: timeout_post_def records_timeout sort_key_enqueue Let_def)
  next
    case False
    then have rt: "retry pid ?q = (False, ?q1)" using retry_cases(2) [OF 2(3) m] by blast
    let ?r = "r\<lparr>mr_outbound := ?q1, mr_delivery := mark_failed pid DFMaxRetries (mr_delivery r)\<rparr>"
    obtain fs where loop: "timeout_loop ids ?r = (fs, r')" and fails: "fails = pid # fs"
      using 2(6) rt by (auto split: prod.splits)
    have pre: "outbound_inv (mr_outbound ?r)" "distinct ids"
      "\<forall>i \<in> set ids. hm_get (inflight (mr_outbound ?r)) i \<noteq> None"
      using inv rt 2(4,5) others by auto
    have nf: "\<not> False" by simp
    note IH = 2(2) [OF rt [symmetric] nf pre loop]
    have "filter (\<lambda>i. i \<notin> set fails) (pid # ids) = filter (\<lambda>i. i \<notin> set fs) ids" using others by (auto simp: fails intro: filter_cong)
    moreover have "again (mr_outbound ?r) (filter (\<lambda>i. i \<notin> set fs) ids) = again ?q (filter (\<lambda>i. i \<notin> set fs) ids)"
      by (rule again_cong) (auto dest: others)
    moreover have "length (pending ?q) \<le> length (pending (mr_outbound r'))" using IH by (simp add: timeout_post_def)
    ultimately show ?thesis
      using IH m False others restr
      by (auto simp: timeout_post_def records_timeout Let_def fails)
  qed
qed

subsection \<open>A stored message waits\<close>

lemma store_forward_timeout_loop: "mr_store_forward (snd (timeout_loop ids r)) = mr_store_forward r"
  by (induction ids arbitrary: r) (auto simp: case_prod_beta)

lemma store_forward_drain: "mr_store_forward (snd (router_drain clock i r)) = mr_store_forward r"
proof (induction clock i r rule: router_drain.induct)
  case (1 clock i r)
  obtain m r1 where n: "router_next_to_send (clock i) (clock (Suc i)) r = (m, r1)" by fastforce
  then have "mr_store_forward r1 = mr_store_forward r"
    by (auto simp: router_next_to_send_def split: prod.splits option.splits)
  with 1 n show ?case by (auto simp: router_drain.simps [of clock i r] split: option.splits prod.splits)
qed

lemma store_forward_track_all: "mr_store_forward (track_all clock i ms r) = mr_store_forward r"
  by (induction ms arbitrary: i r) (auto simp: track_sent_def)

lemma queue_of_tick:
  assumes "router_inv r"
  shows "queue_of d (mr_store_forward (snd (flush_tick clock now_ms r))) =
    filter (sm_unexpired now_ms) (queue_of d (mr_store_forward r))"
proof -
  have "hm_wf (sf_queues (mr_store_forward r))" using assms by (simp add: router_inv_def sf_inv_def)
  then show ?thesis
    by (simp add: flush_tick_def case_prod_beta process_timeouts_def run_maintenance_def store_forward_timeout_loop
        store_forward_drain store_forward_track_all queue_of_prune)
qed

text \<open>The operations that leave the last message stored for a destination where it is.\<close>

fun spares :: "node_num \<Rightarrow> stored_message \<Rightarrow> router_op \<Rightarrow> bool" where
  "spares dest msg (RSend now now_ms now' p reach opts) \<longleftrightarrow> reach \<or> mp_to p \<noteq> dest"
| "spares dest msg (RAck now pid hops) \<longleftrightarrow> True"
| "spares dest msg (RNak pid e) \<longleftrightarrow> True"
| "spares dest msg (ROnline clock d) \<longleftrightarrow> d \<noteq> dest"
| "spares dest msg (RTick clock now_ms) \<longleftrightarrow> sm_unexpired now_ms msg"

lemma queue_of_send_other:
  "reach \<or> mp_to p \<noteq> d \<Longrightarrow>
     queue_of d (mr_store_forward (snd (send enc now now_ms now' p reach opts r))) = queue_of d (mr_store_forward r)"
  using store_outcome [where dest = "mp_to p" and msg = "stored_for enc now_ms p opts"
      and s = "mr_store_forward r" and d = d]
  by (auto simp: send_def Let_def split: prod.splits sum.splits)

lemma spared_step:
  assumes "router_inv r" "0 < sf_cap (mr_store_forward r)" "spares dest msg op"
    "queue_of dest (mr_store_forward r) = xs @ [msg]"
  shows "\<exists>ys. queue_of dest (mr_store_forward (router_step enc dec op r)) = ys @ [msg]"
proof (cases op)
  case (RSend now now_ms now' p reach opts)
  with assms(3,4) queue_of_send_other [of reach p dest] show ?thesis by auto
next
  case (ROnline clock d)
  then show ?thesis
    using assms online_moves(2) [OF assms(1,2) refl refl refl, where dest = d and d = dest] by simp
next
  case (RTick clock now_ms)
  then show ?thesis using assms queue_of_tick [OF assms(1), of dest clock now_ms] by simp
qed (use assms in \<open>auto simp: router_handle_ack_def router_handle_nak_def split: prod.splits\<close>)

lemma spared_run:
  "router_inv r \<Longrightarrow> 0 < sf_cap (mr_store_forward r) \<Longrightarrow> \<forall>op \<in> set ops. spares dest msg op \<Longrightarrow>
     queue_of dest (mr_store_forward r) = xs @ [msg] \<Longrightarrow>
     \<exists>ys. queue_of dest (mr_store_forward (fold (router_step enc dec) ops r)) = ys @ [msg]"
proof (induction ops arbitrary: r xs)
  case (Cons op ops)
  obtain ys where ys: "queue_of dest (mr_store_forward (router_step enc dec op r)) = ys @ [msg]"
    using spared_step [OF Cons.prems(1,2) _ Cons.prems(4), of op enc dec] Cons.prems(3) by auto
  have "router_inv (router_step enc dec op r)" using Cons.prems(1) by (rule router.step_inv)
  moreover have "sf_cap (mr_store_forward (router_step enc dec op r)) = sf_cap (mr_store_forward r)"
    using limits_step [of enc dec op r] by simp
  ultimately show ?case using Cons.IH [OF _ _ _ ys] Cons.prems(2,3) by simp
qed simp

subsection \<open>Properties\<close>

text \<open>
  Whatever sequence of sends, acknowledgements, refusals, reachability events and flush ticks a
  router goes through, its queues keep their invariants and bounds: never more pending messages than
  configured, never more than 256 store-and-forward destinations nor more messages for one
  of them than configured.
\<close>

theorem router_run_bounded:
  "let r = fold (router_step enc dec) ops
             (router_with_config (outbound_with_config c) (store_forward_new sc) delivery_new c)
   in router_inv r \<and> pending_count (mr_outbound r) \<le> oc_max_pending c \<and>
      destination_count (mr_store_forward r) \<le> 256 \<and>
      length (queue_of d (mr_store_forward r)) \<le> max 1 (sfc_max_queue_per_dest sc)"
proof -
  let ?start = "router_with_config (outbound_with_config c) (store_forward_new sc) delivery_new c"
  let ?r = "fold (router_step enc dec) ops ?start"
  have inv0: "router_inv ?start"
    by (simp add: router_inv_def router_with_config_def delivery_new_def)
  have inv: "router_inv ?r" by (rule router.run_inv [OF inv0])
  have "limits ?r = limits ?start" by (rule limits_run)
  then have "sf_config (mr_store_forward ?r) = sc" "max_pending (mr_outbound ?r) = oc_max_pending c"
    by (simp_all add: router_with_config_def outbound_with_config_def store_forward_new_def)
  moreover have "length (pending (mr_outbound ?r)) \<le> max_pending (mr_outbound ?start)"
    by (rule router_outbound.run_bound [OF inv0])
  moreover have "sf_inv (mr_store_forward ?r)" using inv by (simp add: router_inv_def)
  moreover have "max_pending (mr_outbound ?start) = oc_max_pending c"
    by (simp add: router_with_config_def outbound_with_config_def)
  ultimately show ?thesis
    using inv queue_of_bound [of "mr_store_forward ?r" d]
    by (auto simp: Let_def pending_count_def destination_count_def sf_inv_def MAX_DESTINATIONS_def)
qed


text \<open>
  C12. A send is all or nothing. If it fails, the error names the destination, nothing is queued, stored or
  tracked, and the reason is that the outbound queue is full (reachable destination), or that the destination
  would be one too many or its queue is full of messages that are no less urgent (unreachable destination). If it succeeds it
  returns the packet's id and opens a fresh record for it, no other delivery record changes, and the
  message is in exactly one place, once: inserted by priority, behind its equals, into the otherwise unchanged outbound queue
  when the destination is reachable; at the end of the destination's stored queue when it is not, where at most
  one message makes room for it, the first of those of least priority, and the queues of other destinations stay as they are.
\<close>

theorem send_all_or_nothing:
  assumes "router_inv r"
  shows "case send enc now now_ms now' p reach opts r of
     (Inl e, r') \<Rightarrow>
       e = QueueFull (mp_to p) \<and> mr_outbound r' = mr_outbound r \<and> mr_delivery r' = mr_delivery r \<and>
       queue_of d (mr_store_forward r') = queue_of d (mr_store_forward r) \<and>
       (if reach then length (pending (mr_outbound r)) = max_pending (mr_outbound r)
        else \<not> admits (mp_to p) (mr_store_forward r) \<or>
             refuses (sf_cap (mr_store_forward r)) (stored_for enc now_ms p opts) (queue_of (mp_to p) (mr_store_forward r)))
   | (Inr pid, r') \<Rightarrow>
       pid = mp_id p \<and>
       hm_get (records (mr_delivery r')) i =
         (if i = pid then Some \<lparr>dr_status = Queued, dr_dest = mp_to p, dr_created = now', dr_retries = 0\<rparr>
          else hm_get (records (mr_delivery r)) i) \<and>
       (if reach
        then mr_store_forward r' = mr_store_forward r \<and>
             mr_outbound r' = (mr_outbound r)\<lparr>pending := sort_key (\<lambda>m. - pm_rank m) (pending (mr_outbound r) @
               [\<lparr>pm_packet = p, pm_created = now, pm_ttl = from_secs (so_ttl_secs opts),
                 pm_priority = so_priority opts, pm_retries = 0\<rparr>])\<rparr>
        else mr_outbound r' = mr_outbound r \<and>
             (d = mp_to p \<or> queue_of d (mr_store_forward r') = queue_of d (mr_store_forward r)) \<and>
             takes_in (sf_cap (mr_store_forward r))
               \<lparr>sm_packet_bytes = enc p, sm_packet_id = mp_id p, sm_dest = mp_to p,
                sm_portnum = packet_portnum p, sm_priority = priority_i32 (so_priority opts),
                sm_stored_at_ms = now_ms, sm_ttl_secs = so_ttl_secs opts, sm_delivery_attempts = 0\<rparr>
               (queue_of (mp_to p) (mr_store_forward r)) (queue_of (mp_to p) (mr_store_forward r')))"
proof (cases reach)
  case True
  have inv: "outbound_inv (mr_outbound r)" using assms by (simp add: router_inv_def)
  show ?thesis
  proof (cases "length (pending (mr_outbound r)) < max_pending (mr_outbound r)")
    case room: True
    with True show ?thesis
      by (simp add: send_def Let_def enqueue_ok track_def enqueue_is_sort [OF outbound_invD(1) [OF inv]])
  next
    case False
    with True outbound_invD(2) [OF inv] show ?thesis by (simp add: send_def Let_def enqueue_full)
  qed
next
  case False
  then show ?thesis
    using store_outcome [where dest = "mp_to p" and msg = "stored_for enc now_ms p opts"
        and s = "mr_store_forward r" and d = d]
    by (auto simp: send_def Let_def track_def stored_for_def split: prod.splits sum.splits)
qed

definition witness_router :: mesh_router where
  "witness_router = router_new
     ((outbound_with_config outbound_config_default)\<lparr>max_pending := 3, pending := [witness_pending 9 PDefault]\<rparr>)
     witness_store delivery_new"

lemma witness_router_inv: "router_inv witness_router"
  by (simp add: router_inv_def witness_router_def router_new_def router_with_config_def outbound_inv_def
      outbound_with_config_def outbound_config_default_def witness_pending_def delivery_new_def
      sf_inv_def witness_store_def hm_wf_def MAX_DESTINATIONS_def)

lemma witness_router_simps [simp]:
  "mr_store_forward witness_router = witness_store" "mr_delivery witness_router = delivery_new"
  "pending (mr_outbound witness_router) = [witness_pending 9 PDefault]" "max_pending (mr_outbound witness_router) = 3"
  "queue_of 7 witness_store = [witness_stored 1 70, witness_stored 2 10, witness_stored 3 10]"
  "sf_cap witness_store = 3"
  by (simp_all add: witness_router_def router_new_def router_with_config_def witness_store_def queue_of_def)

text \<open>The stored queue of node 7 is full; an urgent message takes the place of the older of the two least urgent ones.\<close>

theorem send_all_or_nothing_witness:
  "router_inv witness_router \<and>
   (\<exists>r' msg. send (\<lambda>_. [1]) 0 1000 0 ((witness_packet 5 64)\<lparr>mp_to := 7\<rparr>) False
      \<lparr>so_want_ack = True, so_priority = PReliable, so_ttl_secs = 60\<rparr> witness_router = (Inr 5, r') \<and> sm_packet_id msg = 5 \<and>
      queue_of 7 (mr_store_forward r') = [witness_stored 1 70, witness_stored 3 10, msg])"
proof -
  let ?p = "(witness_packet 5 64)\<lparr>mp_to := 7\<rparr>" and ?o = "\<lparr>so_want_ack = True, so_priority = PReliable, so_ttl_secs = 60\<rparr>"
  obtain r' where s: "send (\<lambda>_. [1]) 0 1000 0 ?p False ?o witness_router = (Inr 5, r')"
    by (simp add: send_def Let_def store_def hm_contains_def stored_for_def witness_stored_def witness_packet_def witness_store_def
        queue_of_def)
  define msg where "msg = \<lparr>sm_packet_bytes = [1 :: u8], sm_packet_id = 5, sm_dest = 7, sm_portnum = packet_portnum ?p,
    sm_priority = 70, sm_stored_at_ms = 1000, sm_ttl_secs = 60, sm_delivery_attempts = 0\<rparr>"
  have msg: "sm_packet_id msg = 5" "sm_priority msg = 70"
    "takes_in 3 msg [witness_stored 1 70, witness_stored 2 10, witness_stored 3 10] (queue_of 7 (mr_store_forward r'))"
    using send_all_or_nothing [OF witness_router_inv, where enc = "\<lambda>_. [1]" and now = 0 and now_ms = 1000 and now' = 0 and p = ?p
        and reach = False and opts = ?o and d = 0 and i = 0] s by (simp_all add: msg_def witness_packet_def)
  from msg(3) obtain xs victim ys where
    v: "[witness_stored 1 70, witness_stored 2 10, witness_stored 3 10] = xs @ victim # ys"
      "queue_of 7 (mr_store_forward r') = xs @ ys @ [msg]" "sm_priority victim < 70" "\<forall>m \<in> set xs. sm_priority victim < sm_priority m"
    by (auto simp: takes_in_def msg(2))
  have "queue_of 7 (mr_store_forward r') = [witness_stored 1 70, witness_stored 3 10, msg]"
    using v by (auto simp: Cons_eq_append_conv witness_stored_def)
  with s msg(1) witness_router_inv show ?thesis by blast
qed

text \<open>
  C15. What a node coming online does to the router, exactly. With \<open>n\<close> the number of its stored messages that the outbound
  queue has room for, the first \<open>n\<close> of them, in the order they were stored and without those whose bytes no longer parse,
  join the outbound queue by priority and behind their equals, each with its own packet, TTL and priority
  and no retries; the others stay stored in their order. Nothing else changes: not the messages in flight, not the
  queues of other destinations, not the delivery records. Only a message whose bytes do not parse is dropped.
\<close>

theorem node_came_online_loses_nothing:
  assumes "router_inv r" and "0 < sf_cap (mr_store_forward r)"
    and "n = min (length (queue_of dest (mr_store_forward r))) (remaining_capacity (mr_outbound r))"
    and "r' = node_came_online dec clock dest r"
  shows "mr_outbound r' = (mr_outbound r)\<lparr>pending := sort_key (\<lambda>m. - pm_rank m) (pending (mr_outbound r) @
      queued_again clock 0 (parsed dec (take n (queue_of dest (mr_store_forward r)))))\<rparr> \<and>
    queue_of d (mr_store_forward r') =
      (if d = dest then drop n (queue_of dest (mr_store_forward r)) else queue_of d (mr_store_forward r)) \<and>
    mr_delivery r' = mr_delivery r"
  using online_moves [OF assms(1,2) refl assms(3,4)] by auto

text \<open>Two of three stored messages fit: one overtakes the queued message, the other goes behind it.\<close>

theorem node_came_online_loses_nothing_witness:
  "router_inv witness_router \<and>
   (let r' = node_came_online (\<lambda>_. Some (witness_packet 5 64)) (\<lambda>i. 100 + i) 7 witness_router in
    map (\<lambda>m. (mp_id (pm_packet m), pm_priority m, pm_created m)) (pending (mr_outbound r')) =
      [(5, PReliable, 100), (9, PDefault, 10), (5, PBackground, 101)] \<and>
    queue_of 7 (mr_store_forward r') = [witness_stored 3 10])"
proof -
  have n: "2 = min (length (queue_of 7 (mr_store_forward witness_router))) (remaining_capacity (mr_outbound witness_router))"
    by (simp add: remaining_capacity_def)
  have cap: "0 < sf_cap (mr_store_forward witness_router)" by simp
  show ?thesis
    using node_came_online_loses_nothing [OF witness_router_inv cap n refl, where dec = "\<lambda>_. Some (witness_packet 5 64)"
        and clock = "\<lambda>i. 100 + i" and d = 7] witness_router_inv
    by (simp add: Let_def witness_stored_def witness_pending_def witness_packet_def priority_or_default_def priority_try_from_def
        numeral_2_eq_2)
qed

text \<open>
  C9. Store and forward delivers the packet that was sent. Suppose the stored queues have room for at least one message, a
  packet is sent to an unreachable destination and accepted, and the parser undoes the printer on it. Let then any operations of
  the router happen, except another message stored for that destination, the destination coming online, or a tick
  after the message has expired. When the destination then comes online and the messages stored for it fit into the
  outbound queue, that very packet is in the outbound queue with the priority and TTL of the send, and nothing
  is left stored for the destination; if they do not all fit, as many leave as do, in order, and the packet
  is still stored.
\<close>

theorem offline_send_is_forwarded:
  assumes "router_inv r" and "0 < sf_cap (mr_store_forward r)"
    and "send enc now now_ms now' p False opts r = (Inr pid, r1)"
    and "dec (enc p) = Some p"
    and "\<forall>op \<in> set ops. spares (mp_to p) (stored_for enc now_ms p opts) op"
    and "r2 = fold (router_step enc dec) ops r1"
    and "waiting = queue_of (mp_to p) (mr_store_forward r2)" and "room = remaining_capacity (mr_outbound r2)"
    and "r3 = node_came_online dec clock (mp_to p) r2"
  shows "if length waiting \<le> room
    then (\<exists>m \<in> set (pending (mr_outbound r3)). pm_packet m = p \<and>
        pm_priority m = so_priority opts \<and> pm_ttl m = from_secs (so_ttl_secs opts) \<and> pm_retries m = 0) \<and>
      queue_of (mp_to p) (mr_store_forward r3) = []
    else queue_of (mp_to p) (mr_store_forward r3) = drop room waiting \<and>
      stored_for enc now_ms p opts \<in> set (queue_of (mp_to p) (mr_store_forward r3))"
proof -
  let ?s = "stored_for enc now_ms p opts"
  have inv1: "router_inv r1" and cap1: "sf_cap (mr_store_forward r1) = sf_cap (mr_store_forward r)"
    using router_inv_send [OF assms(1), of enc now now_ms now' p False opts]
      limits_send [of enc now now_ms now' p False opts r] assms(3) by simp_all
  have "takes_in (sf_cap (mr_store_forward r)) ?s (queue_of (mp_to p) (mr_store_forward r)) (queue_of (mp_to p) (mr_store_forward r1))"
    using store_outcome [where dest = "mp_to p" and msg = ?s and s = "mr_store_forward r"] assms(3)
    by (auto simp: send_def Let_def split: prod.splits sum.splits)
  from takes_in_last [OF this] obtain xs where "queue_of (mp_to p) (mr_store_forward r1) = xs @ [?s]" by blast
  from spared_run [OF inv1 _ assms(5) this, of enc dec] obtain ys where w: "waiting = ys @ [?s]"
    using assms(2,6,7) cap1 by auto
  have inv2: "router_inv r2" and cap2: "0 < sf_cap (mr_store_forward r2)"
    using router.run_inv [OF inv1, of enc dec ops] limits_run [of enc dec ops r1] cap1 assms(2,6) by simp_all
  note moves = online_moves [OF inv2 cap2 assms(7) [symmetric] _ assms(9), of "min (length waiting) room", OF
      arg_cong [where f = "min (length waiting)", OF assms(8)]]
  show ?thesis
  proof (cases "length waiting \<le> room")
    case True
    have "(p, ?s) \<in> set (parsed dec waiting)" using assms(4) by (simp add: w stored_for_def)
    from queued_again_mem [OF this, of clock 0] True moves(1,2) show ?thesis
      by (force simp: stored_for_def)
  next
    case False
    then show ?thesis using moves(2) [of "mp_to p"] by (auto simp: w)
  qed
qed

theorem offline_send_is_forwarded_witness:
  "\<exists>r1 r2. send (\<lambda>_. [1]) 0 1000 0 ((witness_packet 5 64)\<lparr>mp_to := 8\<rparr>) False
       (send_options_with_config outbound_config_default) witness_router = (Inr 5, r1) \<and>
     r2 = router_handle_ack 0 9 None r1 \<and>
     (\<exists>m \<in> set (pending (mr_outbound (node_came_online
        (\<lambda>_. Some ((witness_packet 5 64)\<lparr>mp_to := 8\<rparr>)) (\<lambda>_. 0) 8 r2))).
        pm_packet m = (witness_packet 5 64)\<lparr>mp_to := 8\<rparr>)"
proof -
  let ?p = "(witness_packet 5 64)\<lparr>mp_to := 8\<rparr>"
  let ?o = "send_options_with_config outbound_config_default"
  let ?r2 = "router_handle_ack 0 9 None"
  obtain r1 where s: "send (\<lambda>_. [1]) 0 1000 0 ?p False ?o witness_router = (Inr 5, r1)"
    and l: "length (queue_of (mp_to ?p) (mr_store_forward (?r2 r1))) \<le> remaining_capacity (mr_outbound (?r2 r1))"
    by (simp add: send_def witness_router_def router_new_def router_with_config_def witness_store_def
        store_def Let_def MAX_DESTINATIONS_def hm_contains_def queue_of_def remaining_capacity_def
        witness_packet_def router_handle_ack_def outbound_handle_ack_def)
  have cap: "0 < sf_cap (mr_store_forward witness_router)" by simp
  show ?thesis
    using offline_send_is_forwarded [OF witness_router_inv cap s _ _ refl refl refl refl, of "\<lambda>_. Some ?p" "[RAck 0 9 None]" "\<lambda>_. 0"]
      s l by (auto simp: witness_packet_def)
qed

text \<open>
  C16. What handling timeouts does, exactly. No overdue message stays in flight and the others do. Every overdue message is
  either reported as failed, which happens only if it has no retries left or the outbound queue is full in the end, or it had
  retries left and joins the outbound queue, once, by priority and behind its equals, with one more retry; nothing
  else joins or leaves the outbound queue. The delivery record of an overdue message says that it failed, or counts the retry; every
  other record, the stored messages and all limits stay as they were.
\<close>

theorem process_timeouts_complete:
  assumes "router_inv r" and "process_timeouts now r = (fails, r')"
    and "overdue = filter (\<lambda>(_, m). has_timed_out now m) (inflight (mr_outbound r))"
  shows "hm_get (inflight (mr_outbound r')) pid =
      (case hm_get (inflight (mr_outbound r)) pid of
         None \<Rightarrow> None | Some m \<Rightarrow> if has_timed_out now m then None else Some m) \<and>
    set fails \<subseteq> fst ` set overdue \<and>
    (\<forall>(i, m) \<in> set overdue.
       if i \<in> set fails then im_retries m = max_retries (mr_outbound r) \<or> length (pending (mr_outbound r')) = max_pending (mr_outbound r)
       else im_retries m < max_retries (mr_outbound r)) \<and>
    pending (mr_outbound r') = sort_key (\<lambda>m. - pm_rank m) (pending (mr_outbound r) @
      map (\<lambda>(_, m). \<lparr>pm_packet = im_packet m, pm_created = im_created m, pm_ttl = im_ttl m,
          pm_priority = priority_or_default (mp_priority (im_packet m)), pm_retries = im_retries m + 1\<rparr>)
        (filter (\<lambda>(i, _). i \<notin> set fails) overdue)) \<and>
    hm_get (records (mr_delivery r')) pid =
      (if pid \<in> fst ` set overdue
       then map_option (\<lambda>rec. if pid \<in> set fails then rec\<lparr>dr_status := Failed DFMaxRetries\<rparr>
                              else rec\<lparr>dr_retries := dr_retries rec + 1\<rparr>) (hm_get (records (mr_delivery r)) pid)
       else hm_get (records (mr_delivery r)) pid) \<and>
    mr_store_forward r' = mr_store_forward r \<and>
    max_pending (mr_outbound r') = max_pending (mr_outbound r) \<and> max_retries (mr_outbound r') = max_retries (mr_outbound r)"
proof -
  let ?q = "mr_outbound r" and ?ids = "check_timeouts now (mr_outbound r)"
  have inv: "outbound_inv ?q" and wf: "hm_wf (inflight ?q)"
    using assms(1) outbound_invD(3) by (auto simp: router_inv_def)
  have idsdef: "?ids = map fst overdue" by (simp add: check_timeouts_def assms(3))
  have get: "hm_get (inflight ?q) i = Some m" if "(i, m) \<in> set overdue" for i m
    using that wf by (auto simp: assms(3) hm_wf_def)
  have dist: "distinct ?ids" using wf by (simp add: idsdef assms(3) hm_wf_def distinct_map_filter)
  have pre: "\<forall>i \<in> set ?ids. hm_get (inflight ?q) i \<noteq> None" by (auto simp: idsdef dest: get)
  have loop: "timeout_loop ?ids r = (fails, r')" using assms(2) by (simp add: process_timeouts_def)
  note post = timeout_loop_spec [OF inv dist pre loop, unfolded timeout_post_def Let_def]
  have inv': "outbound_inv (mr_outbound r')"
    using router_inv_timeouts [OF assms(1), of now] assms(2) by (simp add: router_inv_def)
  have requeue: "again ?q (filter (\<lambda>i. i \<notin> set fails) ?ids) =
      map (\<lambda>(_, m). requeued m) (filter (\<lambda>(i, _). i \<notin> set fails) overdue)"
    by (auto simp: idsdef again_def filter_map comp_def case_prod_unfold get intro!: map_cong filter_cong)
  have "pid \<in> set ?ids \<longleftrightarrow> (\<exists>m. hm_get (inflight ?q) pid = Some m \<and> has_timed_out now m)"
    using wf by (force simp: check_timeouts_def hm_wf_def dest: map_of_SomeD)
  with post have "hm_get (inflight (mr_outbound r')) pid =
      (case hm_get (inflight ?q) pid of None \<Rightarrow> None | Some m \<Rightarrow> if has_timed_out now m then None else Some m)"
    by (simp add: restrict_map_def split: option.splits)
  moreover have "\<forall>(i, m) \<in> set overdue.
      if i \<in> set fails then im_retries m = max_retries ?q \<or> length (pending (mr_outbound r')) = max_pending ?q
      else im_retries m < max_retries ?q"
  proof (intro ballI, clarify)
    fix i m assume im: "(i, m) \<in> set overdue"
    then have "i \<in> set ?ids" by (force simp: idsdef)
    with post get [OF im] outbound_invD(7) [OF inv get [OF im]] outbound_invD(2) [OF inv'] show
      "if i \<in> set fails then im_retries m = max_retries ?q \<or> length (pending (mr_outbound r')) = max_pending ?q
       else im_retries m < max_retries ?q"
      by (auto dest!: bspec [of _ _ i] split: if_splits)
  qed
  moreover have "timed_out_record b = (\<lambda>rec. if b then rec\<lparr>dr_status := Failed DFMaxRetries\<rparr>
      else rec\<lparr>dr_retries := dr_retries rec + 1\<rparr>)" for b
    by (simp add: fun_eq_iff timed_out_record_def)
  moreover have "fst ` set overdue = set ?ids" by (simp add: idsdef)
  ultimately show ?thesis using post by (simp add: requeue requeued_def)
qed

definition witness_overdue :: mesh_router where
  "witness_overdue = router_new witness_inflight (store_forward_new store_forward_config_default) delivery_new"

text \<open>The one message in flight is overdue and has retries left; it is queued again.\<close>

theorem process_timeouts_complete_witness:
  "router_inv witness_overdue \<and>
   hm_get (inflight (mr_outbound (snd (process_timeouts 60 witness_overdue)))) 9 = None \<and>
   map (\<lambda>m. (mp_id (pm_packet m), pm_retries m)) (pending (mr_outbound (snd (process_timeouts 60 witness_overdue)))) = [(9, 1)]"
proof -
  have inv: "router_inv witness_overdue"
    unfolding witness_overdue_def router_new_def router_with_config_def witness_inflight_def
    by (auto simp: router_inv_def delivery_new_def witness_pending_def intro!: outbound_inv_track)
  obtain fails r' where p: "process_timeouts 60 witness_overdue = (fails, r')" by fastforce
  let ?m = "\<lparr>im_packet = witness_packet 9 70, im_created = 10, im_ttl = 100, im_sent_at = 20, im_retries = 0, im_max_retries = 5,
    im_ack_timeout = 30\<rparr>"
  have q: "inflight (mr_outbound witness_overdue) = [(9, ?m)]" "pending (mr_outbound witness_overdue) = []"
    "max_retries (mr_outbound witness_overdue) = 5" "max_pending (mr_outbound witness_overdue) = 1024"
    by (simp_all add: witness_overdue_def router_new_def router_with_config_def witness_inflight_def
        track_inflight_def witness_pending_def witness_packet_def outbound_with_config_def outbound_config_default_def)
  show ?thesis
    using process_timeouts_complete [OF inv p refl, of 9] inv p q
    by (auto simp: has_timed_out_def witness_packet_def split: if_splits)
qed

text \<open>
  One maintenance pass bounds everything the router retains: afterwards no delivery record is
  older than the configured age, each store-and-forward queue is what it was without its expired messages,
  and the outbound queue is what it was without the expired ones, pending and inflight.
\<close>

theorem run_maintenance_retention:
  assumes "router_inv r" and "now1 \<le> now2"
    and "run_maintenance now1 now2 now_ms now3 r = (expired, r')"
  shows "(case hm_get (records (mr_delivery r')) pid of
       None \<Rightarrow> True | Some rec \<Rightarrow> now1 - dr_created rec < mr_record_max_age r) \<and>
    queue_of d (mr_store_forward r') = filter (sm_unexpired now_ms) (queue_of d (mr_store_forward r)) \<and>
    pending (mr_outbound r') = filter (\<lambda>m. \<not> pm_is_expired now3 m) (pending (mr_outbound r)) \<and>
    hm_get (inflight (mr_outbound r')) pid =
      (case hm_get (inflight (mr_outbound r)) pid of
         None \<Rightarrow> None | Some m \<Rightarrow> if im_is_expired now3 m then None else Some m)"
proof -
  have r': "r' = r\<lparr>mr_delivery := prune_completed now2 (mr_record_max_age r)
        (snd (expire_stale now1 (mr_record_max_age r) (mr_delivery r))),
      mr_store_forward := prune_expired now_ms (mr_store_forward r),
      mr_outbound := drain_expired now3 (mr_outbound r)\<rparr>"
    using assms(3) by (auto simp: run_maintenance_def case_prod_beta)
  have wf: "hm_wf (records (mr_delivery r))" "hm_wf (sf_queues (mr_store_forward r))"
    "hm_wf (inflight (mr_outbound r))"
    using assms(1) by (auto simp: router_inv_def sf_inv_def outbound_inv_def)
  show ?thesis
    using retained_after_maintenance [OF assms(2) wf(1)] queue_of_prune [OF wf(2)]
    by (auto simp: r' drain_expired_def hm_get_retain [OF wf(3)] split: option.splits)
qed

lemma router_drain_open:
  assumes "length (inflight (mr_outbound r)) < max_inflight (mr_outbound r)"
    and "router_drain clock i r = (msgs, r')"
  shows "pending (mr_outbound r') = [] \<and> inflight (mr_outbound r') = inflight (mr_outbound r) \<and>
    subseq msgs (pending (mr_outbound r)) \<and>
    ((\<forall>j. clock j \<le> t) \<longrightarrow> (\<forall>m \<in> set (pending (mr_outbound r)). pm_is_expired t m \<or> m \<in> set msgs))"
  using assms
proof (induction clock i r arbitrary: msgs r' rule: router_drain.induct)
  case (1 clock i r)
  let ?q = "mr_outbound r"
  obtain m q where n: "next_to_send (clock i) ?q = (m, q)" by fastforce
  have p: "pop_unexpired (clock i) (pending ?q) = (m, pending q)" and i: "inflight q = inflight ?q"
    and mx: "max_inflight q = max_inflight ?q"
    using n 1(2) by (auto simp: next_to_send_def split: prod.splits)
  have late: "pm_is_expired t d" if "pm_is_expired (clock i) d" "\<forall>j. clock j \<le> t" for d
    using that by (auto simp: pm_is_expired_def intro: le_trans diff_le_mono)
  show ?case
  proof (cases m)
    case None
    then have "pending q = []" "\<forall>d \<in> set (pending ?q). pm_is_expired (clock i) d"
      using p by (auto simp: pop_unexpired_None)
    moreover have "msgs = []" "r' = r\<lparr>mr_outbound := q\<rparr>"
      using 1(3) n None by (auto simp: router_drain.simps [of clock i r] router_next_to_send_def)
    ultimately show ?thesis using late i by auto
  next
    case (Some m')
    let ?r1 = "r\<lparr>mr_outbound := q,
      mr_delivery := mark_sent (clock (Suc i)) (mp_id (pm_packet m')) (mr_delivery r)\<rparr>"
    have nx: "router_next_to_send (clock i) (clock (Suc i)) r = (Some m', ?r1)"
      using n Some by (simp add: router_next_to_send_def)
    obtain ms where d: "router_drain clock (Suc (Suc i)) ?r1 = (ms, r')" and ms: "msgs = m' # ms"
      using 1(3) nx by (auto simp: router_drain.simps [of clock i r] split: prod.splits)
    have "length (inflight (mr_outbound ?r1)) < max_inflight (mr_outbound ?r1)"
      using 1(2) i mx by simp
    note IH = 1(1) [OF nx [symmetric] refl this d]
    obtain dead where dead: "pending ?q = dead @ m' # pending q" "\<forall>d \<in> set dead. pm_is_expired (clock i) d"
      using next_to_send_Some(4) [of "clock i" ?q m' q] n Some by auto
    have "subseq msgs (pending ?q)"
      using IH by (auto simp: ms dead(1) intro: list_emb_append2)
    with IH dead late show ?thesis by (auto simp: ms i)
  qed
qed

lemma router_drain_closed:
  assumes "max_inflight (mr_outbound r) \<le> length (inflight (mr_outbound r))"
  shows "router_drain clock i r = ([], r)"
  using assms by (simp add: router_drain.simps router_next_to_send_def next_to_send_def)

lemma track_all_outbound:
  "pending (mr_outbound (track_all clock i ms r)) = pending (mr_outbound r) \<and>
   (\<forall>pid. hm_contains pid (inflight (mr_outbound (track_all clock i ms r))) \<longleftrightarrow>
      hm_contains pid (inflight (mr_outbound r)) \<or> pid \<in> (\<lambda>m. mp_id (pm_packet m)) ` set ms)"
  by (induction ms arbitrary: i r) (auto simp: track_sent_def track_inflight_def hm_contains_def)

text \<open>
  What a flush tick puts on the air. With \<open>r2\<close> the router after timeouts and maintenance: if
  the inflight table is full nothing is sent and the queue is kept; otherwise the queue is emptied, what is sent
  are queued messages in queue order, every message not yet expired at the end of the tick is
  among them, and each is awaiting its acknowledgement afterwards.
\<close>

theorem flush_tick_sends:
  assumes "\<And>j. clock j \<le> t"
    and "r2 = snd (run_maintenance (clock 1) (clock 2) now_ms (clock 3) (snd (process_timeouts (clock 0) r)))"
    and "flush_tick clock now_ms r = (sent, r')"
  shows "if length (inflight (mr_outbound r2)) < max_inflight (mr_outbound r2)
    then \<exists>msgs. sent = map pm_packet msgs \<and> subseq msgs (pending (mr_outbound r2)) \<and>
      pending (mr_outbound r') = [] \<and>
      (\<forall>m \<in> set (pending (mr_outbound r2)). pm_is_expired t m \<or> m \<in> set msgs) \<and>
      (\<forall>p \<in> set sent. hm_contains (mp_id p) (inflight (mr_outbound r')))
    else sent = [] \<and> r' = r2"
proof -
  obtain msgs r3 where d: "router_drain clock 4 r2 = (msgs, r3)" by fastforce
  have tick: "sent = map pm_packet msgs" "r' = track_all clock (4 + 2 * length msgs) msgs r3"
    using assms(2,3) d by (auto simp: flush_tick_def case_prod_beta)
  show ?thesis
  proof (cases "length (inflight (mr_outbound r2)) < max_inflight (mr_outbound r2)")
    case True
    from router_drain_open [OF True d, of t] assms(1) have
      "pending (mr_outbound r3) = []" "subseq msgs (pending (mr_outbound r2))"
      "\<forall>m \<in> set (pending (mr_outbound r2)). pm_is_expired t m \<or> m \<in> set msgs" by auto
    with True tick track_all_outbound [of clock "4 + 2 * length msgs" msgs r3] show ?thesis
      by (auto intro!: exI [of _ msgs])
  next
    case False
    with d tick show ?thesis by (simp add: router_drain_closed)
  qed
qed

definition witness_flush :: mesh_router where
  "witness_flush = router_new
     ((outbound_with_config outbound_config_default)
        \<lparr>max_inflight := 1, pending := [witness_pending 1 PDefault, witness_pending 2 PDefault]\<rparr>)
     (store_forward_new store_forward_config_default) delivery_new"

lemma witness_flush_maintained:
  "snd (run_maintenance 20 20 0 20 (snd (process_timeouts 20 witness_flush))) = witness_flush"
  by (simp add: witness_flush_def router_new_def router_with_config_def outbound_with_config_def
      process_timeouts_def check_timeouts_def run_maintenance_def expire_stale_def delivery_new_def
      prune_completed_def prune_expired_def drain_expired_def store_forward_new_def hm_retain_def
      hm_map_values_def witness_pending_def pm_is_expired_def)

lemma witness_flush_drained:
  "router_drain (\<lambda>_. 20) 4 witness_flush =
     ([witness_pending 1 PDefault, witness_pending 2 PDefault],
      witness_flush\<lparr>mr_outbound := (mr_outbound witness_flush)\<lparr>pending := []\<rparr>\<rparr>)"
  by (simp add: router_drain.simps router_next_to_send_def next_to_send_def witness_flush_def router_new_def
      router_with_config_def outbound_with_config_def outbound_config_default_def pm_is_expired_def
      witness_pending_def mark_sent_def delivery_new_def)

text \<open>
  The limit on inflight messages is checked only when a message is popped, and a tick pops all it
  will send before it tracks any: with a limit of one, a tick over two queued messages leaves
  two inflight.
\<close>

theorem flush_tick_exceeds_max_inflight:
  "router_inv witness_flush \<and> inflight_count (mr_outbound witness_flush) = 0 \<and>
   max_inflight (mr_outbound (snd (flush_tick (\<lambda>_. 20) 0 witness_flush))) = 1 \<and>
   inflight_count (mr_outbound (snd (flush_tick (\<lambda>_. 20) 0 witness_flush))) = 2"
proof -
  have "router_inv witness_flush"
    by (simp add: witness_flush_def router_new_def router_with_config_def router_inv_def outbound_inv_def
        outbound_with_config_def outbound_config_default_def witness_pending_def delivery_new_def)
  moreover have "snd (flush_tick (\<lambda>_. 20) 0 witness_flush) =
      track_all (\<lambda>_. 20) 8 [witness_pending 1 PDefault, witness_pending 2 PDefault]
        (witness_flush\<lparr>mr_outbound := (mr_outbound witness_flush)\<lparr>pending := []\<rparr>\<rparr>)"
    by (simp add: flush_tick_def case_prod_beta witness_flush_maintained witness_flush_drained)
  ultimately show ?thesis
    by (simp add: track_sent_def track_inflight_def inflight_count_def witness_flush_def router_new_def
        router_with_config_def outbound_with_config_def witness_pending_def witness_packet_def)
qed

definition trace_start :: mesh_router where
  "trace_start = router_new (outbound_with_config outbound_config_default)
     (store_forward_new store_forward_config_default) delivery_new"

definition trace_sent :: mesh_router where
  "trace_sent = snd (flush_tick (\<lambda>_. 1) 0
     (snd (send (\<lambda>_. []) 0 0 0 (witness_packet 5 64) True
        (send_options_with_config outbound_config_default) trace_start)))"

lemmas router_eval =
  send_def enqueue_def insert_at_def track_def router_new_def router_with_config_def
  outbound_with_config_def outbound_config_default_def store_forward_new_def delivery_new_def
  send_options_with_config_def from_secs_def flush_tick_def process_timeouts_def check_timeouts_def
  has_timed_out_def run_maintenance_def expire_stale_def prune_completed_def prune_expired_def
  drain_expired_def pm_is_expired_def im_is_expired_def hm_retain_def hm_map_values_def
  router_drain.simps router_next_to_send_def next_to_send_def mark_sent_def track_sent_def
  track_inflight_def stats_upd_def stats_of_def dest_stats_default_def Let_def

lemma trace_sent_eval:
  "trace_sent = \<lparr>
     mr_outbound = \<lparr>pending = [],
       inflight = [(5, \<lparr>im_packet = witness_packet 5 64, im_created = 0, im_ttl = 3600000000000,
         im_sent_at = 1, im_retries = 0, im_max_retries = 5, im_ack_timeout = 30000000000\<rparr>)],
       max_inflight = 8, max_pending = 1024, max_retries = 5\<rparr>,
     mr_store_forward = \<lparr>sf_queues = [], sf_config = store_forward_config_default\<rparr>,
     mr_delivery = \<lparr>records = [(5, \<lparr>dr_status = Sent 1, dr_dest = 2, dr_created = 0, dr_retries = 0\<rparr>)],
       dest_stats = [(2, \<lparr>attempted = 1, acknowledged = 0, failed = 0, latency_sum_ms = 0, total_retries = 0\<rparr>)]\<rparr>,
     mr_ack_timeout = 30000000000, mr_sf_ttl_secs = 3600, mr_record_max_age = 7200000000000\<rparr>"
  by (simp add: trace_sent_def trace_start_def router_eval witness_packet_def)

text \<open>
  The delivery statistics are not a ledger under the router. A message whose retry is queued when its
  acknowledgement arrives is marked sent again by the next tick, and a second acknowledgement counts
  again: one attempt, two acknowledgements, a success rate of 2. And a refusal that arrives after the
  acknowledgement turns a delivered message into a failed one: one attempt counted both as
  acknowledged and as failed.
\<close>

theorem router_counts_delivery_twice:
  "map_option success_rate (stats_for 2 (mr_delivery
     (router_handle_ack 4 5 None (snd (flush_tick (\<lambda>_. 3) 0
        (router_handle_ack 2 5 None (router_handle_nak 5 GotNak trace_sent))))))) = Some (Some 2) \<and>
   (\<exists>s. stats_for 2 (mr_delivery (router_handle_nak 5 GotNak (router_handle_ack 2 5 None trace_sent))) = Some s \<and>
      attempted s = 1 \<and> acknowledged s = 1 \<and> failed s = 1)"
  by (simp add: trace_sent_eval router_handle_nak_def outbound_handle_nak_def retry_def requeued_def
      router_handle_ack_def outbound_handle_ack_def mark_acknowledged_def record_retry_def mark_failed_def
      stats_for_def success_rate_def router_eval witness_packet_def priority_or_default_def
      priority_try_from_def)

end
