(* ===== verification/Node_Db.thy ===== *)
theory Node_Db
  imports Mesh_Types Interfaces
begin

section \<open>Node database\<close>

text \<open>
  \<open>kerykeion/src/node_db.rs\<close>: the nodes heard on the mesh, bounded because the sender of
  a packet is an unauthenticated claim, and \<open>classify_node_state\<close> of \<open>discovery.rs\<close>. A
  \<open>jiff::Timestamp\<close> is represented by what its \<open>as_millisecond\<close> returns, the only reading of it that
  is ever made; \<open>jiff::Timestamp::from_second\<close> is a parameter where it is used. Degrees are doubles
  (theory \<open>Float_Model\<close>).
\<close>

subsection \<open>Model\<close>

type_synonym timestamp = int

record user_info =
  ui_id :: string
  ui_long_name :: string
  ui_short_name :: string
  ui_hw_model :: u32
  ui_is_licensed :: bool

record node_position =
  np_latitude :: f64
  np_longitude :: f64
  np_altitude :: "int option"
  np_timestamp :: "timestamp option"

record device_metrics =
  dm_battery_level :: "u32 option"
  dm_voltage :: "f32 option"
  dm_channel_utilization :: "f32 option"
  dm_air_util_tx :: "f32 option"

record mesh_node =
  mn_num :: node_num
  mn_user :: "user_info option"
  mn_position :: "node_position option"
  mn_metrics :: "device_metrics option"
  mn_last_heard :: "timestamp option"
  mn_snr :: "f32 option"
  mn_hop_count :: "u8 option"

definition elapsed_since_heard :: "timestamp \<Rightarrow> mesh_node \<Rightarrow> duration option" where
  "elapsed_since_heard now node =
     map_option (\<lambda>last_heard. from_millis (word_of_int (i64_saturating_sub now last_heard)))
       (mn_last_heard node)"

record node_db =
  nodes :: "(node_num, mesh_node) hash_map"
  my_node :: "node_num option"

definition node_db_new :: node_db where
  "node_db_new = \<lparr>nodes = [], my_node = None\<rparr>"

definition heard_key :: "mesh_node \<Rightarrow> int" where
  "heard_key node = (case mn_last_heard node of None \<Rightarrow> - (2 ^ 63) | Some t \<Rightarrow> t)"

definition evict_stalest :: "node_db \<Rightarrow> node_db" where
  "evict_stalest db =
     (case min_by_key (\<lambda>(_, node). heard_key node)
             (filter (\<lambda>(num, _). Some num \<noteq> my_node db) (nodes db)) of
        None \<Rightarrow> db
      | Some (victim, _) \<Rightarrow> db\<lparr>nodes := hm_remove victim (nodes db)\<rparr>)"

definition node_insert :: "mesh_node \<Rightarrow> node_db \<Rightarrow> node_db" where
  "node_insert node db =
     (let db' = (if \<not> hm_contains (mn_num node) (nodes db) \<and> length (nodes db) \<ge> MAX_LIVE_NODES
                 then evict_stalest db else db)
      in db'\<lparr>nodes := hm_insert (mn_num node) node (nodes db')\<rparr>)"

definition node_get :: "node_num \<Rightarrow> node_db \<Rightarrow> mesh_node option" where
  "node_get num db = hm_get (nodes db) num"

definition node_remove :: "node_num \<Rightarrow> node_db \<Rightarrow> mesh_node option \<times> node_db" where
  "node_remove num db = (hm_get (nodes db) num, db\<lparr>nodes := hm_remove num (nodes db)\<rparr>)"

definition node_len :: "node_db \<Rightarrow> usize" where
  "node_len db = length (nodes db)"

definition set_my_node :: "node_num \<Rightarrow> node_db \<Rightarrow> node_db" where
  "set_my_node num db = db\<lparr>my_node := Some num\<rparr>"

datatype node_state = Active | Stale | Offline | Removed

text \<open>
  A duration is unbounded here. In Rust the products panic beyond the largest \<open>Duration\<close>, that is for a time-out configured to more
  than \<open>2 ^ 64 div 3\<close> seconds.
\<close>

definition classify_node_state :: "duration \<Rightarrow> duration \<Rightarrow> node_state" where
  "classify_node_state elapsed stale_timeout =
     (if elapsed < stale_timeout then Active
      else if elapsed < stale_timeout * 2 then Stale
      else if elapsed < stale_timeout * 3 then Offline
      else Removed)"

text \<open>The table is keyed by node number and within its bound.\<close>

definition node_db_inv :: "node_db \<Rightarrow> bool" where
  "node_db_inv db \<longleftrightarrow>
     hm_wf (nodes db) \<and> (\<forall>(num, node) \<in> set (nodes db). mn_num node = num) \<and>
     length (nodes db) \<le> MAX_LIVE_NODES"

datatype node_op = NInsert mesh_node | NRemove node_num | NSetMine node_num

fun node_step :: "node_op \<Rightarrow> node_db \<Rightarrow> node_db" where
  "node_step (NInsert node) db = node_insert node db"
| "node_step (NRemove num) db = snd (node_remove num db)"
| "node_step (NSetMine num) db = set_my_node num db"

subsection \<open>Eviction\<close>

lemma evict_victim:
  assumes inv: "node_db_inv db" and full: "length (nodes db) \<ge> MAX_LIVE_NODES"
  obtains victim vnode where "evict_stalest db = db\<lparr>nodes := hm_remove victim (nodes db)\<rparr>"
    "hm_get (nodes db) victim = Some vnode" "Some victim \<noteq> my_node db"
    "\<And>num node. hm_get (nodes db) num = Some node \<Longrightarrow> Some num \<noteq> my_node db \<Longrightarrow>
       heard_key vnode \<le> heard_key node"
proof -
  let ?P = "\<lambda>(num, node :: mesh_node). Some num \<noteq> my_node db"
  let ?c = "filter ?P (nodes db)"
  have wf: "distinct (map fst (nodes db))" using inv by (simp add: node_db_inv_def hm_wf_def)
  have "?c \<noteq> []"
  proof
    assume none: "?c = []"
    then have mine: "Some (fst x) = my_node db" if "x \<in> set (nodes db)" for x
      using that by (fastforce simp: filter_empty_conv)
    have "fst ` set (nodes db) \<subseteq> {the (my_node db)}"
    proof (rule image_subsetI)
      fix x assume "x \<in> set (nodes db)"
      from mine [OF this, symmetric] show "fst x \<in> {the (my_node db)}" by simp
    qed
    from card_mono [OF _ this] have "card (fst ` set (nodes db)) \<le> 1" by simp
    then have "length (nodes db) \<le> 1"
      using distinct_card [OF wf] by simp
    with full show False by (simp add: MAX_LIVE_NODES_def)
  qed
  then obtain v where v: "min_by_key (\<lambda>(_, node). heard_key node) ?c = Some v"
    using min_by_key_None_iff [of "\<lambda>(_, node). heard_key node" ?c]
    by (cases "min_by_key (\<lambda>(_, node). heard_key node) ?c") simp_all
  obtain victim vnode where vv: "v = (victim, vnode)" by fastforce
  have in_c: "(victim, vnode) \<in> set ?c" using min_by_key_in [OF v] vv by simp
  show ?thesis
  proof (rule that)
    show "evict_stalest db = db\<lparr>nodes := hm_remove victim (nodes db)\<rparr>"
      using v vv by (simp add: evict_stalest_def)
    show "hm_get (nodes db) victim = Some vnode" "Some victim \<noteq> my_node db"
      using in_c wf by auto
    show "heard_key vnode \<le> heard_key node"
      if "hm_get (nodes db) num = Some node" "Some num \<noteq> my_node db" for num node
      using min_by_key_le [OF v, of "(num, node)"] that vv by (auto dest: map_of_SomeD)
  qed
qed

lemma evict_inv:
  assumes "node_db_inv db" "length (nodes db) \<ge> MAX_LIVE_NODES"
  shows "node_db_inv (evict_stalest db)" "length (nodes (evict_stalest db)) < MAX_LIVE_NODES"
    "my_node (evict_stalest db) = my_node db"
proof -
  obtain victim vnode where e: "evict_stalest db = db\<lparr>nodes := hm_remove victim (nodes db)\<rparr>"
    and v: "hm_get (nodes db) victim = Some vnode"
    using evict_victim [OF assms] by metis
  have wf: "hm_wf (nodes db)" using assms(1) by (simp add: node_db_inv_def)
  have "length (hm_remove victim (nodes db)) = length (nodes db) - 1"
    using v by (simp add: length_hm_remove [OF wf] hm_contains_def)
  with e assms show "node_db_inv (evict_stalest db)" "length (nodes (evict_stalest db)) < MAX_LIVE_NODES"
    "my_node (evict_stalest db) = my_node db"
    using set_hm_remove_subset [of victim "nodes db"]
    by (auto simp: node_db_inv_def MAX_LIVE_NODES_def)
qed

lemma node_db_inv_put:
  "node_db_inv db \<Longrightarrow> hm_contains (mn_num node) (nodes db) \<or> length (nodes db) < MAX_LIVE_NODES \<Longrightarrow>
     node_db_inv (db\<lparr>nodes := hm_insert (mn_num node) node (nodes db)\<rparr>)"
  using set_hm_insert_subset [of "mn_num node" node "nodes db"]
  by (fastforce simp: node_db_inv_def length_hm_insert)

lemma node_db_inv_insert [inv_intros]: "node_db_inv db \<Longrightarrow> node_db_inv (node_insert node db)"
  by (auto simp: node_insert_def Let_def evict_inv intro!: node_db_inv_put)

lemma node_db_inv_remove [inv_intros]: "node_db_inv db \<Longrightarrow> node_db_inv (snd (node_remove num db))"
  using set_hm_remove_subset [of num "nodes db"]
  by (auto simp: node_remove_def node_db_inv_def intro: le_trans [OF length_hm_remove_le])

lemma node_db_inv_mine [inv_intros]: "node_db_inv db \<Longrightarrow> node_db_inv (set_my_node num db)"
  by (simp add: set_my_node_def node_db_inv_def)

lemma node_db_inv_new [simp, intro]: "node_db_inv node_db_new"
  by (simp add: node_db_inv_def node_db_new_def)

lemma node_get_insert_same [simp]: "node_get (mn_num node) (node_insert node db) = Some node"
  by (simp add: node_get_def node_insert_def Let_def)

lemma my_node_insert [simp]: "my_node (node_insert node db) = my_node db"
  by (simp add: node_insert_def evict_stalest_def Let_def split: option.splits prod.splits)

interpretation node_db: bounded_component node_db_inv node_step "\<lambda>db. length (nodes db)" "\<lambda>_. MAX_LIVE_NODES"
proof unfold_locales
  show "node_db_inv db \<Longrightarrow> node_db_inv (node_step op db)" for op db
    by (cases op) (auto intro!: inv_intros)
qed (auto simp: node_db_inv_def)

subsection \<open>Properties\<close>

text \<open>
  However many identities peers announce, the database holds at most 4096 nodes, each filed
  under its own number.
\<close>

lemma node_db_bounded:
  "node_len (fold node_step ops node_db_new) \<le> 4096 \<and>
   (case node_get num (fold node_step ops node_db_new) of None \<Rightarrow> True | Some node \<Rightarrow> mn_num node = num)"
  using node_db.run_bound [OF node_db_inv_new, of ops] node_db.run_inv [OF node_db_inv_new, of ops]
  by (auto simp: node_len_def node_get_def MAX_LIVE_NODES_def node_db_inv_def
      split: option.splits dest: map_of_SomeD)

text \<open>
  Inserting a node never costs the local radio its own record and evicts at most one
  other: a victim is removed only when the number is new and the table full, and no remaining node other
  than the local radio was heard less recently. Every other record is unchanged.
\<close>

theorem node_insert_evicts_stalest:
  assumes "node_db_inv db" and "db' = node_insert node db"
  shows "node_get (mn_num node) db' = Some node \<and>
    (if hm_contains (mn_num node) (nodes db) \<or> node_len db < MAX_LIVE_NODES
     then \<forall>num. num = mn_num node \<or> node_get num db' = node_get num db
     else \<exists>victim vnode. node_get victim db = Some vnode \<and> Some victim \<noteq> my_node db \<and>
            node_get victim db' = None \<and>
            (\<forall>num. num = mn_num node \<or> num = victim \<or> node_get num db' = node_get num db) \<and>
            (\<forall>num n. node_get num db = Some n \<and> Some num \<noteq> my_node db \<longrightarrow>
               heard_key vnode \<le> heard_key n))"
proof (cases "hm_contains (mn_num node) (nodes db) \<or> node_len db < MAX_LIVE_NODES")
  case True
  with assms(2) show ?thesis
    by (auto simp: node_insert_def node_get_def node_len_def)
next
  case False
  then have fresh: "hm_get (nodes db) (mn_num node) = None" and full: "MAX_LIVE_NODES \<le> length (nodes db)"
    by (auto simp: hm_contains_def node_len_def)
  obtain victim vnode where v: "evict_stalest db = db\<lparr>nodes := hm_remove victim (nodes db)\<rparr>"
    "hm_get (nodes db) victim = Some vnode" "Some victim \<noteq> my_node db"
    "\<And>num n. hm_get (nodes db) num = Some n \<Longrightarrow> Some num \<noteq> my_node db \<Longrightarrow>
       heard_key vnode \<le> heard_key n"
    using evict_victim [OF assms(1) full] by metis
  have "db' = db\<lparr>nodes := hm_insert (mn_num node) node (hm_remove victim (nodes db))\<rparr>"
    using assms(2) fresh full v(1) by (simp add: node_insert_def Let_def hm_contains_def)
  with False fresh v show ?thesis
    by (auto simp: node_get_def intro!: exI [of _ victim] exI [of _ vnode])
qed

definition witness_node :: "node_num \<Rightarrow> timestamp option \<Rightarrow> mesh_node" where
  "witness_node num heard =
     \<lparr>mn_num = num, mn_user = None, mn_position = None, mn_metrics = None, mn_last_heard = heard,
      mn_snr = None, mn_hop_count = None\<rparr>"

text \<open>
  The age of a node is exact to the millisecond while its last report lies in the past, and its
  state follows from it; but a report from the future, be it one millisecond, wraps the
  subtraction around and classifies the node as removed.
\<close>

theorem node_age_exact_or_wraps:
  assumes "mn_last_heard node = Some t" and "\<bar>now - t\<bar> < 2 ^ 63" and "0 < stale" and "stale \<le> 2 ^ 61 * 1000000"
  shows "if t \<le> now
    then elapsed_since_heard now node = Some (nat (now - t) * 1000000)
    else map_option (\<lambda>e. classify_node_state e stale) (elapsed_since_heard now node) = Some Removed"
proof (cases "t \<le> now")
  case True
  then have "i64_saturating_sub now t = now - t" "nat (now - t) < 2 ^ 64"
    using assms(2) by (simp_all add: i64_saturating_sub_def)
  then have "unat (word_of_int (i64_saturating_sub now t) :: u64) = nat (now - t)"
    using True unat_word_of_int_nat [of "now - t", where ?'a = 64] by (simp del: of_int_diff)
  with True assms(1) show ?thesis
    by (simp add: elapsed_since_heard_def from_millis_def)
next
  case False
  let ?d = "i64_saturating_sub now t"
  have d: "?d = now - t" "- (2 ^ 63) \<le> ?d" "?d < 0"
    using assms(2) False by (simp_all add: i64_saturating_sub_def)
  have "2 ^ 63 \<le> unat (word_of_int ?d :: u64)"
    by (rule unat_word_of_int_neg [OF d(2,3)])
  then have "2 ^ 63 * 1000000 \<le> from_millis (word_of_int ?d)"
    unfolding from_millis_def by (rule mult_right_mono) simp
  moreover have "stale * 3 \<le> 2 ^ 63 * 1000000" using assms(4) by simp
  ultimately have old: "stale * 3 \<le> from_millis (word_of_int ?d)" by (rule order_trans [rotated])
  have "classify_node_state (from_millis (word_of_int ?d)) stale = Removed"
    using old by (auto simp: classify_node_state_def)
  with False assms(1) show ?thesis by (simp add: elapsed_since_heard_def)
qed

end
