(* ===== verification/Handshake.thy ===== *)
theory Handshake
  imports Node_Db
begin

section \<open>Config handshake\<close>

text \<open>
  \<open>kerykeion/src/handshake.rs\<close>: the exchange that starts a session with a radio. What
  \<open>conn.recv()\<close> yields before the deadline is the list \<open>inbox\<close> of frames and errors; running out
  of it means the deadline passed. The random \<open>want_config_id\<close> and the outcome of the first
  send are arguments, \<open>jiff::Timestamp::from_second\<close> is the parameter \<open>from_second\<close>.
\<close>

subsection \<open>Model\<close>

record user_proto =
  up_id :: string
  up_long_name :: string
  up_short_name :: string
  up_hw_model :: int
  up_is_licensed :: bool

record position_proto =
  pp_latitude_i :: int
  pp_longitude_i :: int
  pp_altitude :: int
  pp_time :: u32

record node_info =
  ni_num :: u32
  ni_user :: "user_proto option"
  ni_position :: "position_proto option"
  ni_snr :: f32
  ni_last_heard :: u32
  ni_hops_away :: u32

record channel =
  ch_index :: int

datatype from_radio =
    FrPacket mesh_packet
  | FrMyInfo u32
  | FrNodeInfo node_info
  | FrConfigCompleteId u32
  | FrRebooted bool
  | FrChannel channel

record handshake_result =
  hr_my_node_num :: node_num
  hr_channels :: "channel list"
  hr_known_nodes :: "mesh_node list"

definition u32_try_from :: "int \<Rightarrow> u32 option" where
  "u32_try_from i = (if 0 \<le> i \<and> i < 2 ^ 32 then Some (word_of_int i) else None)"

definition hw_model_of :: "int \<Rightarrow> u32" where
  "hw_model_of i = (case u32_try_from i of None \<Rightarrow> 0 | Some m \<Rightarrow> m)"

definition degrees :: "int \<Rightarrow> f64" where
  "degrees i = f64_mul round64 (Fin (of_int i)) (round64 (1 / 10 ^ 7))"

definition node_info_to_mesh_node :: "(int \<Rightarrow> timestamp option) \<Rightarrow> node_info \<Rightarrow> mesh_node" where
  "node_info_to_mesh_node from_second ni =
     \<lparr>mn_num = ni_num ni,
      mn_user = map_option (\<lambda>u. \<lparr>ui_id = up_id u, ui_long_name = up_long_name u,
        ui_short_name = up_short_name u, ui_hw_model = hw_model_of (up_hw_model u),
        ui_is_licensed = up_is_licensed u\<rparr>) (ni_user ni),
      mn_position = map_option (\<lambda>p. \<lparr>np_latitude = degrees (pp_latitude_i p),
        np_longitude = degrees (pp_longitude_i p),
        np_altitude = (if pp_altitude p \<noteq> 0 then Some (pp_altitude p) else None),
        np_timestamp = from_second (uint (pp_time p))\<rparr>) (ni_position ni),
      mn_metrics = None,
      mn_last_heard = (if ni_last_heard ni \<noteq> 0 then from_second (uint (ni_last_heard ni)) else None),
      mn_snr = (if f32_is_zero (ni_snr ni) then None else Some (ni_snr ni)),
      mn_hop_count = Some (ucast (ni_hops_away ni))\<rparr>"

fun handshake_loop ::
    "(int \<Rightarrow> timestamp option) \<Rightarrow> u32 \<Rightarrow> (mesh_error + from_radio option) list \<Rightarrow>
       node_num option \<Rightarrow> channel list \<Rightarrow> mesh_node list \<Rightarrow> node_db \<Rightarrow>
       (mesh_error + node_num option \<times> channel list \<times> mesh_node list) \<times> node_db" where
  "handshake_loop from_second want [] mine channels known db =
     (Inl (HandshakeFailed (ConfigDumpTimedOut want)), db)"
| "handshake_loop from_second want (Inl e # inbox) mine channels known db = (Inl e, db)"
| "handshake_loop from_second want (Inr None # inbox) mine channels known db =
     handshake_loop from_second want inbox mine channels known db"
| "handshake_loop from_second want (Inr (Some (FrMyInfo num)) # inbox) mine channels known db =
     handshake_loop from_second want inbox (Some num) channels known (set_my_node num db)"
| "handshake_loop from_second want (Inr (Some (FrNodeInfo ni)) # inbox) mine channels known db =
     (let node = node_info_to_mesh_node from_second ni in
      handshake_loop from_second want inbox mine channels
        (if length known < MAX_LIVE_NODES then known @ [node] else known) (node_insert node db))"
| "handshake_loop from_second want (Inr (Some (FrChannel ch)) # inbox) mine channels known db =
     handshake_loop from_second want inbox mine
       (if length channels < unat MAX_CHANNELS then channels @ [ch] else channels) known db"
| "handshake_loop from_second want (Inr (Some (FrConfigCompleteId i)) # inbox) mine channels known db =
     (if i = want then (Inr (mine, channels, known), db)
      else handshake_loop from_second want inbox mine channels known db)"
| "handshake_loop from_second want (Inr (Some (FrPacket _)) # inbox) mine channels known db =
     handshake_loop from_second want inbox mine channels known db"
| "handshake_loop from_second want (Inr (Some (FrRebooted _)) # inbox) mine channels known db =
     (Inl (HandshakeFailed RebootedDuringHandshake), db)"

definition handshake_with_config ::
    "(int \<Rightarrow> timestamp option) \<Rightarrow> u32 \<Rightarrow> mesh_error + unit \<Rightarrow> (mesh_error + from_radio option) list \<Rightarrow>
       node_db \<Rightarrow> (mesh_error + handshake_result) \<times> node_db" where
  "handshake_with_config from_second want sent inbox db =
     (case sent of
        Inl e \<Rightarrow> (Inl e, db)
      | Inr _ \<Rightarrow>
          case handshake_loop from_second want inbox None [] [] db of
            (Inl e, db') \<Rightarrow> (Inl e, db')
          | (Inr (None, _, _), db') \<Rightarrow> (Inl (HandshakeFailed NoMyNodeInfo), db')
          | (Inr (Some num, channels, known), db') \<Rightarrow>
              (Inr \<lparr>hr_my_node_num = num, hr_channels = channels, hr_known_nodes = known\<rparr>, db'))"

subsection \<open>Reading the dump\<close>

text \<open>
  The part of the inbox before the end of the dump, and what a specification reads off it: the
  frames up to the first matching \<open>config_complete_id\<close>, provided neither an error nor a reboot comes first.
\<close>

fun dump_of :: "u32 \<Rightarrow> (mesh_error + from_radio option) list \<Rightarrow> from_radio option list option" where
  "dump_of want [] = None"
| "dump_of want (Inl e # inbox) = None"
| "dump_of want (Inr f # inbox) =
     (if f = Some (FrConfigCompleteId want) then Some []
      else case f of Some (FrRebooted _) \<Rightarrow> None | _ \<Rightarrow> map_option ((#) f) (dump_of want inbox))"

fun my_infos :: "from_radio option list \<Rightarrow> node_num list" where
  "my_infos [] = []"
| "my_infos (Some (FrMyInfo num) # fs) = num # my_infos fs"
| "my_infos (_ # fs) = my_infos fs"

fun node_infos :: "from_radio option list \<Rightarrow> node_info list" where
  "node_infos [] = []"
| "node_infos (Some (FrNodeInfo ni) # fs) = ni # node_infos fs"
| "node_infos (_ # fs) = node_infos fs"

fun channels_of :: "from_radio option list \<Rightarrow> channel list" where
  "channels_of [] = []"
| "channels_of (Some (FrChannel ch) # fs) = ch # channels_of fs"
| "channels_of (_ # fs) = channels_of fs"

definition last_or :: "'a option \<Rightarrow> 'a list \<Rightarrow> 'a option" where
  "last_or d xs = (if xs = [] then d else Some (last xs))"

lemma last_or_simps [simp]:
  "last_or d [] = d" "last_or d (x # xs) = last_or (Some x) xs"
  by (simp_all add: last_or_def)

lemma take_snoc_bound:
  "take n (xs @ x # ys) = take n ((if length xs < n then xs @ [x] else xs) @ ys)"
  if "length xs \<le> n"
  using that by (cases "length xs < n") (auto simp: take_Cons')

lemma handshake_loop_dump:
  assumes "length channels \<le> unat MAX_CHANNELS" "length known \<le> MAX_LIVE_NODES"
  shows "case dump_of want inbox of
      None \<Rightarrow> \<exists>e db'. handshake_loop fs want inbox mine channels known db = (Inl e, db')
    | Some dump \<Rightarrow> \<exists>db'. handshake_loop fs want inbox mine channels known db =
        (Inr (last_or mine (my_infos dump), take (unat MAX_CHANNELS) (channels @ channels_of dump),
           take MAX_LIVE_NODES (known @ map (node_info_to_mesh_node fs) (node_infos dump))), db')"
  using assms
  by (induction fs want inbox mine channels known db rule: handshake_loop.induct)
    (auto simp: Let_def take_snoc_bound split: option.splits if_splits)

lemma handshake_loop_db:
  "node_db_inv db \<Longrightarrow> node_db_inv (snd (handshake_loop fs want inbox mine channels known db))"
  by (induction fs want inbox mine channels known db rule: handshake_loop.induct)
    (auto simp: Let_def node_db_inv_insert node_db_inv_mine)

lemma handshake_loop_mine:
  "handshake_loop fs want inbox mine channels known db = (Inr (Some num, cs, ks), db') \<Longrightarrow>
     mine = None \<or> my_node db = mine \<Longrightarrow> my_node db' = Some num"
  by (induction fs want inbox mine channels known db rule: handshake_loop.induct)
    (auto simp: Let_def set_my_node_def split: if_splits)

subsection \<open>Properties\<close>

text \<open>
  C21. The handshake succeeds exactly when the radio completes the dump it was asked for, before any
  error, reboot or the deadline, and has said who it is; the result then names the last
  identity it gave, its first 8 channels and its first 4096 nodes in the order received, however much more it sends.
\<close>

theorem handshake_result_exact:
  "case dump_of want inbox of
     None \<Rightarrow> \<exists>e db'. handshake_with_config fs want (Inr ()) inbox db = (Inl e, db')
   | Some dump \<Rightarrow> \<exists>db'. handshake_with_config fs want (Inr ()) inbox db =
       (if my_infos dump = [] then Inl (HandshakeFailed NoMyNodeInfo)
        else Inr \<lparr>hr_my_node_num = last (my_infos dump), hr_channels = take 8 (channels_of dump),
               hr_known_nodes = take 4096 (map (node_info_to_mesh_node fs) (node_infos dump))\<rparr>, db')"
proof (cases "dump_of want inbox")
  case None
  with handshake_loop_dump [where channels = "[]" and known = "[]" and want = want and inbox = inbox
      and fs = fs and mine = None and db = db] show ?thesis
    by (auto simp: handshake_with_config_def)
next
  case (Some dump)
  with handshake_loop_dump [where channels = "[]" and known = "[]" and want = want and inbox = inbox
      and fs = fs and mine = None and db = db] obtain db' where
    "handshake_loop fs want inbox None [] [] db =
       (Inr (last_or None (my_infos dump), take 8 (channels_of dump),
          take 4096 (map (node_info_to_mesh_node fs) (node_infos dump))), db')"
    by (auto simp: MAX_CHANNELS_def MAX_LIVE_NODES_def)
  with Some show ?thesis by (simp add: handshake_with_config_def last_or_def)
qed

text \<open>
  Whatever the radio sends, the node database stays within its invariant and bound; and after
  a successful handshake it knows the local node under the number the handshake returns.
\<close>

lemma handshake_keeps_node_db:
  assumes "node_db_inv db" and "handshake_with_config fs want sent inbox db = (r, db')"
  shows "node_db_inv db' \<and>
    (case r of Inl _ \<Rightarrow> True | Inr res \<Rightarrow> my_node db' = Some (hr_my_node_num res))"
proof (cases sent)
  case (Inl e)
  with assms show ?thesis by (auto simp: handshake_with_config_def)
next
  case (Inr u)
  obtain l db1 where l: "handshake_loop fs want inbox None [] [] db = (l, db1)" by fastforce
  have "node_db_inv db1" using handshake_loop_db [OF assms(1), of fs want inbox None "[]" "[]"] l by simp
  with assms(2) Inr l show ?thesis
    by (auto simp: handshake_with_config_def dest: handshake_loop_mine split: sum.splits option.splits prod.splits)
qed

text \<open>
  A reported hop count is stored modulo 256, so that a node reported 256 hops away is recorded as
  a direct neighbour, which no packet with the same hop distance would be.
\<close>

theorem node_info_hops_truncated:
  "mn_hop_count (node_info_to_mesh_node fs (ni\<lparr>ni_hops_away := 256\<rparr>)) = Some 0 \<and>
   hop_count_from_wire 256 0 = None"
  by (simp add: node_info_to_mesh_node_def hop_count_from_wire_def u8_try_from_def)

end
