(* ===== verification/Mesh_Topology.thy ===== *)
theory Mesh_Topology
  imports Mesh_Types Interfaces "HOL-Library.Option_ord"
begin

section \<open>Mesh topology\<close>

text \<open>
  \<open>kerykeion/src/topology.rs\<close>: the directed graph of radio links. The graph container is petgraph's
  \<open>StableGraph\<close>: its operations are the parameter \<open>G\<close>, a record of type \<open>stable_graph\<close>, and
  \<open>stable_graph_laws G\<close> states what petgraph documents about them. Its two path algorithms,
  \<open>astar\<close> and \<open>dijkstra\<close>, and the JSON printer and parser are parameters of the functions that call
  them. \<open>None\<close> as the result of an operation is a panic (\<open>add_edge\<close> with an index that is not in the
  graph) or a loop that does not end.
\<close>

subsection \<open>The graph container\<close>

record link_quality =
  lq_snr :: f32
  lq_last_observed :: instant
  lq_packet_count :: u32

record ('n, 'e) edge_ref =
  er_id :: 'e
  er_source :: 'n
  er_target :: 'n
  er_weight :: link_quality

datatype direction = Outgoing | Incoming

record ('g, 'n, 'e) stable_graph =
  sg_new :: 'g
  sg_add_node :: "node_num \<Rightarrow> 'g \<Rightarrow> 'n \<times> 'g"
  sg_remove_node :: "'n \<Rightarrow> 'g \<Rightarrow> 'g"
  sg_node_weight :: "'g \<Rightarrow> 'n \<Rightarrow> node_num option"
  sg_add_edge :: "'n \<Rightarrow> 'n \<Rightarrow> link_quality \<Rightarrow> 'g \<Rightarrow> 'g option"
  sg_remove_edge :: "'e \<Rightarrow> 'g \<Rightarrow> 'g"
  sg_set_edge_weight :: "'e \<Rightarrow> link_quality \<Rightarrow> 'g \<Rightarrow> 'g"
  sg_edge_references :: "'g \<Rightarrow> ('n, 'e) edge_ref list"
  sg_edges_directed :: "'g \<Rightarrow> 'n \<Rightarrow> direction \<Rightarrow> ('n, 'e) edge_ref list"
  sg_edges_connecting :: "'g \<Rightarrow> 'n \<Rightarrow> 'n \<Rightarrow> ('n, 'e) edge_ref list"
  sg_edge_indices :: "'g \<Rightarrow> 'e list"
  sg_edge_endpoints :: "'g \<Rightarrow> 'e \<Rightarrow> ('n \<times> 'n) option"
  sg_edge_weight :: "'g \<Rightarrow> 'e \<Rightarrow> link_quality option"
  sg_edge_count :: "'g \<Rightarrow> usize"

abbreviation edges :: "('g, 'n, 'e) stable_graph \<Rightarrow> 'g \<Rightarrow> ('n, 'e) edge_ref set" where
  "edges G g \<equiv> set (sg_edge_references G g)"

text \<open>
  What the documentation of petgraph promises. Iterators yield each edge once; indices identify nodes and
  edges and stay valid until removal; removing a node removes its edges.
\<close>

definition law_new :: "('g, 'n, 'e) stable_graph \<Rightarrow> bool" where
  "law_new G \<longleftrightarrow>
     (\<forall>n. sg_node_weight G (sg_new G) n = None) \<and> sg_edge_references G (sg_new G) = []"

definition law_add_node :: "('g, 'n, 'e) stable_graph \<Rightarrow> bool" where
  "law_add_node G \<longleftrightarrow>
     (\<forall>w g n g'. sg_add_node G w g = (n, g') \<longrightarrow>
        sg_node_weight G g n = None \<and> sg_node_weight G g' = (sg_node_weight G g)(n \<mapsto> w) \<and>
        edges G g' = edges G g)"

definition law_remove_node :: "('g, 'n, 'e) stable_graph \<Rightarrow> bool" where
  "law_remove_node G \<longleftrightarrow>
     (\<forall>n g. sg_node_weight G (sg_remove_node G n g) = (sg_node_weight G g)(n := None) \<and>
        edges G (sg_remove_node G n g) = {r \<in> edges G g. er_source r \<noteq> n \<and> er_target r \<noteq> n})"

definition law_add_edge :: "('g, 'n, 'e) stable_graph \<Rightarrow> bool" where
  "law_add_edge G \<longleftrightarrow>
     (\<forall>a b w g. sg_node_weight G g a \<noteq> None \<and> sg_node_weight G g b \<noteq> None \<longrightarrow>
        (\<exists>g' e. sg_add_edge G a b w g = Some g' \<and> e \<notin> er_id ` edges G g \<and>
           sg_node_weight G g' = sg_node_weight G g \<and>
           edges G g' = insert \<lparr>er_id = e, er_source = a, er_target = b, er_weight = w\<rparr> (edges G g)))"

definition law_remove_edge :: "('g, 'n, 'e) stable_graph \<Rightarrow> bool" where
  "law_remove_edge G \<longleftrightarrow>
     (\<forall>e g. sg_node_weight G (sg_remove_edge G e g) = sg_node_weight G g \<and>
        edges G (sg_remove_edge G e g) = {r \<in> edges G g. er_id r \<noteq> e})"

definition law_set_weight :: "('g, 'n, 'e) stable_graph \<Rightarrow> bool" where
  "law_set_weight G \<longleftrightarrow>
     (\<forall>e w g. sg_node_weight G (sg_set_edge_weight G e w g) = sg_node_weight G g \<and>
        edges G (sg_set_edge_weight G e w g) =
          (\<lambda>r. if er_id r = e then r\<lparr>er_weight := w\<rparr> else r) ` edges G g)"

definition law_views :: "('g, 'n, 'e) stable_graph \<Rightarrow> bool" where
  "law_views G \<longleftrightarrow>
     (\<forall>g. inj_on er_id (edges G g) \<and> distinct (sg_edge_references G g) \<and>
        (\<forall>n. set (sg_edges_directed G g n Outgoing) = {r \<in> edges G g. er_source r = n}) \<and>
        (\<forall>n. set (sg_edges_directed G g n Incoming) = {r \<in> edges G g. er_target r = n}) \<and>
        (\<forall>a b. set (sg_edges_connecting G g a b) = {r \<in> edges G g. er_source r = a \<and> er_target r = b}) \<and>
        distinct (sg_edge_indices G g) \<and> set (sg_edge_indices G g) = er_id ` edges G g)"

definition law_lookup :: "('g, 'n, 'e) stable_graph \<Rightarrow> bool" where
  "law_lookup G \<longleftrightarrow>
     (\<forall>g. (\<forall>e a b. sg_edge_endpoints G g e = Some (a, b) \<longleftrightarrow>
           (\<exists>r \<in> edges G g. er_id r = e \<and> er_source r = a \<and> er_target r = b)) \<and>
        (\<forall>e w. sg_edge_weight G g e = Some w \<longleftrightarrow> (\<exists>r \<in> edges G g. er_id r = e \<and> er_weight r = w)) \<and>
        sg_edge_count G g = length (sg_edge_references G g))"

definition stable_graph_laws :: "('g, 'n, 'e) stable_graph \<Rightarrow> bool" where
  "stable_graph_laws G \<longleftrightarrow>
     law_new G \<and> law_add_node G \<and> law_remove_node G \<and> law_add_edge G \<and> law_remove_edge G \<and>
     law_set_weight G \<and> law_views G \<and> law_lookup G"

subsection \<open>Model\<close>

definition is_stale :: "instant \<Rightarrow> link_quality \<Rightarrow> bool" where
  "is_stale cutoff w \<longleftrightarrow> lq_last_observed w < cutoff"

record ('g, 'n) mesh_topology =
  graph :: 'g
  node_index :: "(node_num, 'n) hash_map"

definition topology_new :: "('g, 'n, 'e) stable_graph \<Rightarrow> ('g, 'n) mesh_topology" where
  "topology_new G = \<lparr>graph = sg_new G, node_index = []\<rparr>"

definition max_opt :: "nat list \<Rightarrow> nat option" where
  "max_opt xs = (if xs = [] then None else Some (Max (set xs)))"

definition freshness :: "('g, 'n, 'e) stable_graph \<Rightarrow> 'g \<Rightarrow> 'n \<Rightarrow> instant option" where
  "freshness G g idx =
     max_opt (map (lq_last_observed \<circ> er_weight)
       (sg_edges_directed G g idx Incoming @ sg_edges_directed G g idx Outgoing))"

definition evict_coldest_node ::
    "('g, 'n, 'e) stable_graph \<Rightarrow> node_num list \<Rightarrow> ('g, 'n) mesh_topology \<Rightarrow> ('g, 'n) mesh_topology" where
  "evict_coldest_node G protect t =
     (case min_by_key (\<lambda>(_, idx). freshness G (graph t) idx)
             (filter (\<lambda>(num, _). num \<notin> set protect) (node_index t)) of
        None \<Rightarrow> t
      | Some (num, idx) \<Rightarrow>
          t\<lparr>node_index := hm_remove num (node_index t), graph := sg_remove_node G idx (graph t)\<rparr>)"

definition add_node_protecting ::
    "('g, 'n, 'e) stable_graph \<Rightarrow> node_num \<Rightarrow> node_num list \<Rightarrow> ('g, 'n) mesh_topology \<Rightarrow>
       'n \<times> ('g, 'n) mesh_topology" where
  "add_node_protecting G node protect t =
     (case hm_get (node_index t) node of
        Some idx \<Rightarrow> (idx, t)
      | None \<Rightarrow>
          let t1 = (if length (node_index t) \<ge> MAX_LIVE_NODES then evict_coldest_node G protect t else t);
              (idx, g) = sg_add_node G node (graph t1)
          in (idx, t1\<lparr>graph := g, node_index := hm_insert node idx (node_index t1)\<rparr>))"

definition add_node ::
    "('g, 'n, 'e) stable_graph \<Rightarrow> node_num \<Rightarrow> ('g, 'n) mesh_topology \<Rightarrow> 'n \<times> ('g, 'n) mesh_topology" where
  "add_node G node t = add_node_protecting G node [] t"

definition evict_coldest_edge :: "('g, 'n, 'e) stable_graph \<Rightarrow> 'g \<Rightarrow> 'g" where
  "evict_coldest_edge G g =
     (case min_by_key snd (List.map_filter
             (\<lambda>idx. map_option (\<lambda>w. (idx, lq_last_observed w)) (sg_edge_weight G g idx))
             (sg_edge_indices G g)) of
        None \<Rightarrow> g
      | Some (idx, _) \<Rightarrow> sg_remove_edge G idx g)"

definition update_link ::
    "('g, 'n, 'e) stable_graph \<Rightarrow> instant \<Rightarrow> node_num \<Rightarrow> node_num \<Rightarrow> f32 \<Rightarrow> ('g, 'n) mesh_topology \<Rightarrow>
       ('g, 'n) mesh_topology option" where
  "update_link G now from to snr t =
     (if \<not> f32_is_finite snr then Some t
      else
        let (from_idx, t1) = add_node_protecting G from [to] t;
            (to_idx, t2) = add_node_protecting G to [from] t1;
            g = graph t2
        in case sg_edges_connecting G g from_idx to_idx of
             e # _ \<Rightarrow>
               (case sg_edge_weight G g (er_id e) of
                  None \<Rightarrow> Some t2
                | Some w \<Rightarrow> Some (t2\<lparr>graph := sg_set_edge_weight G (er_id e)
                    \<lparr>lq_snr = snr, lq_last_observed = now,
                     lq_packet_count = saturating_add (lq_packet_count w) 1\<rparr> g\<rparr>))
           | [] \<Rightarrow>
               let g' = (if sg_edge_count G g \<ge> MAX_LIVE_LINKS then evict_coldest_edge G g else g)
               in map_option (\<lambda>g''. t2\<lparr>graph := g''\<rparr>)
                    (sg_add_edge G from_idx to_idx
                       \<lparr>lq_snr = snr, lq_last_observed = now, lq_packet_count = 1\<rparr> g'))"

definition checked_sub_instant :: "instant \<Rightarrow> duration \<Rightarrow> instant option" where
  "checked_sub_instant now d = (if d \<le> now then Some (now - d) else None)"

definition node_is_stale :: "('g, 'n, 'e) stable_graph \<Rightarrow> instant \<Rightarrow> 'g \<Rightarrow> 'n \<Rightarrow> bool" where
  "node_is_stale G cutoff g idx \<longleftrightarrow>
     \<not> list_ex (\<lambda>e. \<not> is_stale cutoff (er_weight e))
         (sg_edges_directed G g idx Incoming @ sg_edges_directed G g idx Outgoing)"

definition remove_tracked ::
    "('g, 'n, 'e) stable_graph \<Rightarrow> node_num \<Rightarrow> ('g, 'n) mesh_topology \<Rightarrow> ('g, 'n) mesh_topology" where
  "remove_tracked G num t =
     (case hm_get (node_index t) num of
        None \<Rightarrow> t
      | Some idx \<Rightarrow>
          t\<lparr>node_index := hm_remove num (node_index t), graph := sg_remove_node G idx (graph t)\<rparr>)"

definition remove_stale_nodes ::
    "('g, 'n, 'e) stable_graph \<Rightarrow> instant \<Rightarrow> duration \<Rightarrow> ('g, 'n) mesh_topology \<Rightarrow> ('g, 'n) mesh_topology" where
  "remove_stale_nodes G now timeout t =
     (case checked_sub_instant now timeout of
        None \<Rightarrow> t
      | Some cutoff \<Rightarrow>
          fold (remove_tracked G)
            (map fst (filter (\<lambda>(_, idx). node_is_stale G cutoff (graph t) idx) (node_index t))) t)"

definition remove_stale_links ::
    "('g, 'n, 'e) stable_graph \<Rightarrow> instant \<Rightarrow> duration \<Rightarrow> ('g, 'n) mesh_topology \<Rightarrow> ('g, 'n) mesh_topology" where
  "remove_stale_links G now timeout t =
     (case checked_sub_instant now timeout of
        None \<Rightarrow> t
      | Some cutoff \<Rightarrow>
          t\<lparr>graph := fold (sg_remove_edge G)
              (filter (\<lambda>idx. case sg_edge_weight G (graph t) idx of None \<Rightarrow> False | Some w \<Rightarrow> is_stale cutoff w)
                 (sg_edge_indices G (graph t))) (graph t)\<rparr>)"

definition neighbors ::
    "('g, 'n, 'e) stable_graph \<Rightarrow> node_num \<Rightarrow> ('g, 'n) mesh_topology \<Rightarrow> (node_num \<times> link_quality) list" where
  "neighbors G node t =
     (case hm_get (node_index t) node of
        None \<Rightarrow> []
      | Some idx \<Rightarrow> List.map_filter
          (\<lambda>e. map_option (\<lambda>num. (num, er_weight e)) (sg_node_weight G (graph t) (er_target e)))
          (sg_edges_directed G (graph t) idx Outgoing))"

definition hop_count ::
    "('g \<Rightarrow> 'n \<Rightarrow> 'n option \<Rightarrow> (('n, 'e) edge_ref \<Rightarrow> u32) \<Rightarrow> ('n \<rightharpoonup> u32)) \<Rightarrow>
       node_num \<Rightarrow> node_num \<Rightarrow> ('g, 'n) mesh_topology \<Rightarrow> u8 option" where
  "hop_count dijkstra from to t =
     (case (hm_get (node_index t) from, hm_get (node_index t) to) of
        (Some from_idx, Some to_idx) \<Rightarrow>
          (case dijkstra (graph t) from_idx (Some to_idx) (\<lambda>_. 1) to_idx of
             None \<Rightarrow> None
           | Some hops \<Rightarrow> u8_try_from hops)
      | _ \<Rightarrow> None)"

partial_function (option) cc_visit ::
    "('g, 'n, 'e) stable_graph \<Rightarrow> 'g \<Rightarrow> nat \<Rightarrow> 'n list \<Rightarrow> ('n, nat) hash_map \<Rightarrow> node_num list \<Rightarrow>
       (('n, nat) hash_map \<times> node_num list) option" where
  "cc_visit G g comp_id stack component grp =
     (case stack of
        [] \<Rightarrow> Some (component, grp)
      | cur # rest \<Rightarrow>
          if hm_contains cur component then cc_visit G g comp_id rest component grp
          else
            let component' = hm_insert cur comp_id component;
                grp' = (case sg_node_weight G g cur of None \<Rightarrow> grp | Some num \<Rightarrow> grp @ [num]);
                out = filter (\<lambda>n. \<not> hm_contains n component') (map er_target (sg_edges_directed G g cur Outgoing));
                inc = filter (\<lambda>n. \<not> hm_contains n component') (map er_source (sg_edges_directed G g cur Incoming))
            in cc_visit G g comp_id (rev inc @ rev out @ rest) component' grp')"

fun cc_outer ::
    "('g, 'n, 'e) stable_graph \<Rightarrow> 'g \<Rightarrow> 'n list \<Rightarrow> ('n, nat) hash_map \<Rightarrow> node_num list list \<Rightarrow>
       (('n, nat) hash_map \<times> node_num list list) option" where
  "cc_outer G g [] component components = Some (component, components)"
| "cc_outer G g (idx # idxs) component components =
     (if hm_contains idx component then cc_outer G g idxs component components
      else case cc_visit G g (length components) [idx] component [] of
             None \<Rightarrow> None
           | Some (component', grp) \<Rightarrow>
               cc_outer G g idxs component' (if grp = [] then components else components @ [grp]))"

fun cc_singletons ::
    "('g, 'n, 'e) stable_graph \<Rightarrow> 'g \<Rightarrow> 'n list \<Rightarrow> ('n, nat) hash_map \<Rightarrow> node_num list list \<Rightarrow> node_num list list" where
  "cc_singletons G g [] component components = components"
| "cc_singletons G g (idx # idxs) component components =
     (if hm_contains idx component then cc_singletons G g idxs component components
      else case sg_node_weight G g idx of
             None \<Rightarrow> cc_singletons G g idxs component components
           | Some num \<Rightarrow>
               cc_singletons G g idxs (hm_insert idx (length components) component) (components @ [[num]]))"

definition connected_components ::
    "('g, 'n, 'e) stable_graph \<Rightarrow> ('g, 'n) mesh_topology \<Rightarrow> node_num list list option" where
  "connected_components G t =
     (if node_index t = [] then Some []
      else map_option (\<lambda>(component, components).
             cc_singletons G (graph t) (map snd (node_index t)) component components)
           (cc_outer G (graph t) (map snd (node_index t)) [] []))"

definition is_partitioned ::
    "('g, 'n, 'e) stable_graph \<Rightarrow> node_num \<Rightarrow> node_num \<Rightarrow> ('g, 'n) mesh_topology \<Rightarrow> bool option" where
  "is_partitioned G node server t =
     (if \<not> hm_contains node (node_index t) \<or> \<not> hm_contains server (node_index t) then Some True
      else map_option (\<lambda>cs. \<not> list_ex (\<lambda>grp. node \<in> set grp \<and> server \<in> set grp) cs)
             (connected_components G t))"

definition node_count :: "('g, 'n) mesh_topology \<Rightarrow> usize" where
  "node_count t = length (node_index t)"

definition edge_count :: "('g, 'n, 'e) stable_graph \<Rightarrow> ('g, 'n) mesh_topology \<Rightarrow> usize" where
  "edge_count G t = sg_edge_count G (graph t)"

definition contains_node :: "node_num \<Rightarrow> ('g, 'n) mesh_topology \<Rightarrow> bool" where
  "contains_node node t = hm_contains node (node_index t)"

text \<open>
  The invariant. Node numbers and graph indices correspond one to one, edges join nodes of the
  graph, there is at most one edge from a node to another, and both bounds hold.
\<close>

definition topo_inv :: "('g, 'n, 'e) stable_graph \<Rightarrow> ('g, 'n) mesh_topology \<Rightarrow> bool" where
  "topo_inv G t \<longleftrightarrow>
     hm_wf (node_index t) \<and>
     (\<forall>num idx. hm_get (node_index t) num = Some idx \<longleftrightarrow> sg_node_weight G (graph t) idx = Some num) \<and>
     (\<forall>r \<in> edges G (graph t). sg_node_weight G (graph t) (er_source r) \<noteq> None \<and>
        sg_node_weight G (graph t) (er_target r) \<noteq> None) \<and>
     inj_on (\<lambda>r. (er_source r, er_target r)) (edges G (graph t)) \<and>
     node_count t \<le> MAX_LIVE_NODES \<and> edge_count G t \<le> MAX_LIVE_LINKS"

subsection \<open>The laws, one by one\<close>

lemma laws_new:
  "stable_graph_laws G \<Longrightarrow> sg_node_weight G (sg_new G) n = None"
  "stable_graph_laws G \<Longrightarrow> sg_edge_references G (sg_new G) = []"
  unfolding stable_graph_laws_def law_new_def by simp_all

lemma laws_add_node:
  assumes "stable_graph_laws G" "sg_add_node G w g = (n, g')"
  shows "sg_node_weight G g n = None" "sg_node_weight G g' = (sg_node_weight G g)(n \<mapsto> w)"
    "edges G g' = edges G g"
  using assms unfolding stable_graph_laws_def law_add_node_def by simp_all

lemma laws_remove_node:
  assumes "stable_graph_laws G"
  shows "sg_node_weight G (sg_remove_node G n g) = (sg_node_weight G g)(n := None)"
    "edges G (sg_remove_node G n g) = {r \<in> edges G g. er_source r \<noteq> n \<and> er_target r \<noteq> n}"
  using assms unfolding stable_graph_laws_def law_remove_node_def by simp_all

lemma laws_add_edge:
  assumes "stable_graph_laws G" "sg_node_weight G g a \<noteq> None" "sg_node_weight G g b \<noteq> None"
  obtains g' e where "sg_add_edge G a b w g = Some g'" "e \<notin> er_id ` edges G g"
    "sg_node_weight G g' = sg_node_weight G g"
    "edges G g' = insert \<lparr>er_id = e, er_source = a, er_target = b, er_weight = w\<rparr> (edges G g)"
  using assms unfolding stable_graph_laws_def law_add_edge_def by metis

lemma laws_remove_edge:
  assumes "stable_graph_laws G"
  shows "sg_node_weight G (sg_remove_edge G e g) = sg_node_weight G g"
    "edges G (sg_remove_edge G e g) = {r \<in> edges G g. er_id r \<noteq> e}"
  using assms unfolding stable_graph_laws_def law_remove_edge_def by simp_all

lemma laws_set_weight:
  assumes "stable_graph_laws G"
  shows "sg_node_weight G (sg_set_edge_weight G e w g) = sg_node_weight G g"
    "edges G (sg_set_edge_weight G e w g) =
       (\<lambda>r. if er_id r = e then r\<lparr>er_weight := w\<rparr> else r) ` edges G g"
  using assms unfolding stable_graph_laws_def law_set_weight_def by simp_all

lemma laws_views:
  assumes "stable_graph_laws G"
  shows "inj_on er_id (edges G g)" "distinct (sg_edge_references G g)"
    "set (sg_edges_directed G g n Outgoing) = {r \<in> edges G g. er_source r = n}"
    "set (sg_edges_directed G g n Incoming) = {r \<in> edges G g. er_target r = n}"
    "set (sg_edges_connecting G g a b) = {r \<in> edges G g. er_source r = a \<and> er_target r = b}"
    "distinct (sg_edge_indices G g)" "set (sg_edge_indices G g) = er_id ` edges G g"
  using assms unfolding stable_graph_laws_def law_views_def by simp_all

lemma laws_lookup:
  assumes "stable_graph_laws G"
  shows "sg_edge_endpoints G g e = Some (a, b) \<longleftrightarrow>
      (\<exists>r \<in> edges G g. er_id r = e \<and> er_source r = a \<and> er_target r = b)"
    "sg_edge_weight G g e = Some w \<longleftrightarrow> (\<exists>r \<in> edges G g. er_id r = e \<and> er_weight r = w)"
    "sg_edge_count G g = length (sg_edge_references G g)"
  using assms unfolding stable_graph_laws_def law_lookup_def by simp_all

lemma edge_count_card: "stable_graph_laws G \<Longrightarrow> sg_edge_count G g = card (edges G g)"
  by (simp add: laws_lookup distinct_card laws_views)

lemma edge_count_mono:
  "stable_graph_laws G \<Longrightarrow> edges G g \<subseteq> edges G g' \<Longrightarrow> sg_edge_count G g \<le> sg_edge_count G g'"
  by (simp add: edge_count_card card_mono)

lemma edge_weight_of: "stable_graph_laws G \<Longrightarrow> r \<in> edges G g \<Longrightarrow> sg_edge_weight G g (er_id r) = Some (er_weight r)"
  by (auto simp: laws_lookup)

subsection \<open>Keeping the invariant\<close>

lemma topo_invD:
  assumes "topo_inv G t"
  shows "hm_wf (node_index t)"
    "hm_get (node_index t) num = Some idx \<longleftrightarrow> sg_node_weight G (graph t) idx = Some num"
    "r \<in> edges G (graph t) \<Longrightarrow> sg_node_weight G (graph t) (er_source r) \<noteq> None"
    "r \<in> edges G (graph t) \<Longrightarrow> sg_node_weight G (graph t) (er_target r) \<noteq> None"
    "inj_on (\<lambda>r. (er_source r, er_target r)) (edges G (graph t))"
    "length (node_index t) \<le> MAX_LIVE_NODES" "sg_edge_count G (graph t) \<le> MAX_LIVE_LINKS"
  using assms by (auto simp: topo_inv_def node_count_def edge_count_def)

lemma topo_inv_new: "stable_graph_laws G \<Longrightarrow> topo_inv G (topology_new G)"
  by (simp add: topo_inv_def topology_new_def laws_new node_count_def edge_count_def laws_lookup)

lemma topo_inv_fewer_edges:
  assumes "stable_graph_laws G" "topo_inv G t" "sg_node_weight G g = sg_node_weight G (graph t)"
    "edges G g \<subseteq> edges G (graph t)"
  shows "topo_inv G (t\<lparr>graph := g\<rparr>)"
  using assms(2-4) edge_count_mono [OF assms(1,4)]
  by (auto simp: topo_inv_def node_count_def edge_count_def intro: inj_on_subset)

lemma topo_inv_remove:
  assumes L: "stable_graph_laws G" and inv: "topo_inv G t" and num: "hm_get (node_index t) num = Some idx"
  shows "topo_inv G (t\<lparr>node_index := hm_remove num (node_index t), graph := sg_remove_node G idx (graph t)\<rparr>)"
    "length (hm_remove num (node_index t)) < length (node_index t)"
proof -
  let ?g = "sg_remove_node G idx (graph t)"
  have w: "sg_node_weight G (graph t) idx = Some num" using topo_invD(2) [OF inv] num by blast
  have iff: "(hm_get (hm_remove num (node_index t)) m = Some i) = (sg_node_weight G ?g i = Some m)" for m i
    using topo_invD(2) [OF inv, of m i] topo_invD(2) [OF inv, of num i] w num
    by (auto simp: laws_remove_node(1) [OF L])
  have sub: "edges G ?g \<subseteq> edges G (graph t)" by (auto simp: laws_remove_node(2) [OF L])
  have len: "length (hm_remove num (node_index t)) = length (node_index t) - 1"
    using topo_invD(1) [OF inv] num by (simp add: length_hm_remove hm_contains_def)
  have "length (node_index t) > 0" using num by (cases "node_index t") auto
  with len show "length (hm_remove num (node_index t)) < length (node_index t)" by simp
  have "inj_on (\<lambda>r. (er_source r, er_target r)) (edges G ?g)"
    using topo_invD(5) [OF inv] sub by (rule inj_on_subset)
  moreover have "sg_edge_count G ?g \<le> MAX_LIVE_LINKS"
    using edge_count_mono [OF L sub] topo_invD(7) [OF inv] by simp
  moreover have "sg_node_weight G ?g (er_source r) \<noteq> None \<and> sg_node_weight G ?g (er_target r) \<noteq> None"
    if "r \<in> edges G ?g" for r
    using that topo_invD(3,4) [OF inv, of r] by (simp add: laws_remove_node [OF L])
  ultimately show "topo_inv G (t\<lparr>node_index := hm_remove num (node_index t), graph := ?g\<rparr>)"
    using topo_invD(1,6) [OF inv] len iff by (simp add: topo_inv_def node_count_def edge_count_def)
qed

lemma evict_coldest_node_spec:
  assumes L: "stable_graph_laws G" and inv: "topo_inv G t"
    and full: "MAX_LIVE_NODES \<le> length (node_index t)" and few: "length protect \<le> 1"
  shows "topo_inv G (evict_coldest_node G protect t)"
    "length (node_index (evict_coldest_node G protect t)) < MAX_LIVE_NODES"
    "p \<in> set protect \<Longrightarrow> hm_get (node_index (evict_coldest_node G protect t)) p = hm_get (node_index t) p"
    "hm_get (node_index t) n = None \<Longrightarrow> hm_get (node_index (evict_coldest_node G protect t)) n = None"
proof -
  let ?P = "\<lambda>(num, idx :: 'b). num \<notin> set protect"
  let ?k = "\<lambda>(_, idx). freshness G (graph t) idx"
  have dist: "distinct (map fst (node_index t))" using topo_invD(1) [OF inv] by (simp add: hm_wf_def)
  have "filter ?P (node_index t) \<noteq> []"
  proof
    assume "filter ?P (node_index t) = []"
    then have "fst ` set (node_index t) \<subseteq> set protect" by (auto simp: filter_empty_conv)
    from card_mono [OF _ this] have "length (node_index t) \<le> card (set protect)"
      using distinct_card [OF dist] by simp
    also have "\<dots> \<le> 1" using few card_length [of protect] by simp
    finally show False using full by (simp add: MAX_LIVE_NODES_def)
  qed
  then obtain v where v: "min_by_key ?k (filter ?P (node_index t)) = Some v"
    using min_by_key_None_iff [of ?k "filter ?P (node_index t)"]
    by (cases "min_by_key ?k (filter ?P (node_index t))") simp_all
  obtain num idx where vv: "v = (num, idx)" by fastforce
  have "(num, idx) \<in> set (node_index t)" "num \<notin> set protect"
    using min_by_key_in [OF v] vv by auto
  then have get: "hm_get (node_index t) num = Some idx" and np: "num \<notin> set protect"
    using dist by simp_all
  have e: "evict_coldest_node G protect t =
      t\<lparr>node_index := hm_remove num (node_index t), graph := sg_remove_node G idx (graph t)\<rparr>"
    using v vv by (simp add: evict_coldest_node_def)
  show "topo_inv G (evict_coldest_node G protect t)"
    using topo_inv_remove(1) [OF L inv get] e by simp
  show "length (node_index (evict_coldest_node G protect t)) < MAX_LIVE_NODES"
    using topo_inv_remove(2) [OF L inv get] e topo_invD(6) [OF inv] by simp
  show "p \<in> set protect \<Longrightarrow> hm_get (node_index (evict_coldest_node G protect t)) p = hm_get (node_index t) p"
    using np e by auto
  show "hm_get (node_index t) n = None \<Longrightarrow> hm_get (node_index (evict_coldest_node G protect t)) n = None"
    using e by auto
qed

lemma topo_inv_add:
  assumes L: "stable_graph_laws G" and inv: "topo_inv G t" and new: "hm_get (node_index t) node = None"
    and room: "length (node_index t) < MAX_LIVE_NODES" and add: "sg_add_node G node (graph t) = (idx, g)"
  shows "topo_inv G (t\<lparr>graph := g, node_index := hm_insert node idx (node_index t)\<rparr>)"
proof -
  have iff: "(hm_get (hm_insert node idx (node_index t)) m = Some i) = (sg_node_weight G g i = Some m)" for m i
    using topo_invD(2) [OF inv, of m i] topo_invD(2) [OF inv, of m idx] new laws_add_node(1) [OF L add]
    by (auto simp: laws_add_node(2) [OF L add])
  have "sg_edge_count G g = sg_edge_count G (graph t)"
    by (simp add: edge_count_card [OF L] laws_add_node(3) [OF L add])
  with iff room new topo_invD [OF inv] show ?thesis
    by (auto simp: topo_inv_def node_count_def edge_count_def laws_add_node [OF L add] length_hm_insert hm_contains_def)
qed

lemma add_node_protecting_spec:
  assumes L: "stable_graph_laws G" and inv: "topo_inv G t" and few: "length protect \<le> 1"
    and add: "add_node_protecting G node protect t = (idx, t')"
  shows "topo_inv G t'" "hm_get (node_index t') node = Some idx"
    "p \<in> set protect \<Longrightarrow> hm_get (node_index t) p = Some i \<Longrightarrow> hm_get (node_index t') p = Some i"
proof -
  have "topo_inv G t' \<and> hm_get (node_index t') node = Some idx \<and>
    (p \<in> set protect \<longrightarrow> hm_get (node_index t) p = Some i \<longrightarrow> hm_get (node_index t') p = Some i)"
  proof (cases "hm_get (node_index t) node")
    case (Some j)
    with add inv show ?thesis by (auto simp: add_node_protecting_def)
  next
    case None
    let ?t = "if length (node_index t) \<ge> MAX_LIVE_NODES then evict_coldest_node G protect t else t"
    obtain j g where a: "sg_add_node G node (graph ?t) = (j, g)" by fastforce
    have t': "idx = j" "t' = ?t\<lparr>graph := g, node_index := hm_insert node j (node_index ?t)\<rparr>"
      using add None a by (auto simp: add_node_protecting_def Let_def split: prod.splits)
    have t: "topo_inv G ?t" "length (node_index ?t) < MAX_LIVE_NODES" "hm_get (node_index ?t) node = None"
      using evict_coldest_node_spec(1,2,4) [OF L inv _ few] inv None by (auto simp: not_le)
    have keep: "hm_get (node_index ?t) p = hm_get (node_index t) p" if "p \<in> set protect"
      using evict_coldest_node_spec(3) [OF L inv _ few that] by auto
    show ?thesis
      using topo_inv_add [OF L t(1,3,2) a] keep None by (auto simp: t')
  qed
  then show "topo_inv G t'" "hm_get (node_index t') node = Some idx"
    "p \<in> set protect \<Longrightarrow> hm_get (node_index t) p = Some i \<Longrightarrow> hm_get (node_index t') p = Some i"
    by blast+
qed

lemma add_two_nodes:
  assumes L: "stable_graph_laws G" and inv: "topo_inv G t"
    and a: "add_node_protecting G from [to] t = (i, t1)" and b: "add_node_protecting G to [from] t1 = (j, t2)"
  shows "topo_inv G t2" "sg_node_weight G (graph t2) i = Some from" "sg_node_weight G (graph t2) j = Some to"
proof -
  note A = add_node_protecting_spec [OF L inv _ a] and B = add_node_protecting_spec [OF L A(1) _ b]
  show "topo_inv G t2" using B(1) by simp
  from topo_invD(2) [OF this] A(2) B(2,3) show
    "sg_node_weight G (graph t2) i = Some from" "sg_node_weight G (graph t2) j = Some to" by force+
qed

lemma topo_inv_set_weight:
  assumes L: "stable_graph_laws G" and inv: "topo_inv G t"
  shows "topo_inv G (t\<lparr>graph := sg_set_edge_weight G e w (graph t)\<rparr>)"
proof -
  define f where "f = (\<lambda>r :: ('b, 'c) edge_ref. if er_id r = e then r\<lparr>er_weight := w\<rparr> else r)"
  let ?E = "edges G (graph t)"
  have id: "er_id (f r) = er_id r" "er_source (f r) = er_source r" "er_target (f r) = er_target r" for r
    by (simp_all add: f_def)
  have "inj_on f ?E"
  proof (rule inj_onI)
    fix x y assume xy: "x \<in> ?E" "y \<in> ?E" "f x = f y"
    from xy(3) have "er_id (f x) = er_id (f y)" by (rule arg_cong)
    then have "er_id x = er_id y" unfolding id .
    with xy(1,2) show "x = y" by (intro inj_onD [OF laws_views(1) [OF L]])
  qed
  then have card: "card (f ` ?E) = card ?E" by (rule card_image)
  have "inj_on ((\<lambda>r. (er_source r, er_target r)) \<circ> f) ?E"
    using topo_invD(5) [OF inv] by (simp add: o_def id)
  then have "inj_on (\<lambda>r. (er_source r, er_target r)) (f ` ?E)" by (rule inj_on_imageI)
  moreover have "edges G (sg_set_edge_weight G e w (graph t)) = f ` ?E"
    unfolding f_def by (rule laws_set_weight(2) [OF L])
  ultimately show ?thesis
    using card inv
    by (auto simp: topo_inv_def node_count_def edge_count_def edge_count_card [OF L] laws_set_weight(1) [OF L] id)
qed

lemma topo_inv_add_edge:
  assumes L: "stable_graph_laws G" and inv: "topo_inv G t" and room: "sg_edge_count G (graph t) < MAX_LIVE_LINKS"
    and ends: "sg_node_weight G (graph t) i = Some from" "sg_node_weight G (graph t) j = Some to"
    and new: "\<And>r. r \<in> edges G (graph t) \<Longrightarrow> (er_source r, er_target r) \<noteq> (i, j)"
  obtains g e where "sg_add_edge G i j w (graph t) = Some g" "topo_inv G (t\<lparr>graph := g\<rparr>)"
    "sg_node_weight G g = sg_node_weight G (graph t)"
    "edges G g = insert \<lparr>er_id = e, er_source = i, er_target = j, er_weight = w\<rparr> (edges G (graph t))"
proof -
  obtain g e where g: "sg_add_edge G i j w (graph t) = Some g" "e \<notin> er_id ` edges G (graph t)"
    "sg_node_weight G g = sg_node_weight G (graph t)"
    "edges G g = insert \<lparr>er_id = e, er_source = i, er_target = j, er_weight = w\<rparr> (edges G (graph t))"
    using laws_add_edge [OF L, of "graph t" i j w] ends by auto
  have "inj_on (\<lambda>r. (er_source r, er_target r)) (edges G g)"
    unfolding g(4) inj_on_insert using topo_invD(5) [OF inv] new by fastforce
  moreover have "card (edges G g) \<le> Suc (card (edges G (graph t)))"
    unfolding g(4) by (simp add: card_insert_if)
  then have "sg_edge_count G g \<le> MAX_LIVE_LINKS"
    using room by (simp add: edge_count_card [OF L])
  ultimately have "topo_inv G (t\<lparr>graph := g\<rparr>)"
    using topo_invD [OF inv] ends g by (auto simp: topo_inv_def node_count_def edge_count_def)
  with g that show thesis by blast
qed

lemma evict_coldest_edge_spec:
  assumes L: "stable_graph_laws G" and some: "0 < sg_edge_count G g"
  shows "edges G (evict_coldest_edge G g) \<subset> edges G g"
    "sg_node_weight G (evict_coldest_edge G g) = sg_node_weight G g"
proof -
  let ?xs = "List.map_filter (\<lambda>idx. map_option (\<lambda>w. (idx, lq_last_observed w)) (sg_edge_weight G g idx))
    (sg_edge_indices G g)"
  have xs: "set ?xs = (\<lambda>r. (er_id r, lq_last_observed (er_weight r))) ` edges G g"
    using edge_weight_of [OF L] by (force simp: map_filter_def laws_views(7) [OF L])
  have "edges G g \<noteq> {}" using some by (auto simp: edge_count_card [OF L])
  then have "?xs \<noteq> []" using xs by (metis image_is_empty set_empty)
  then obtain v where v: "min_by_key snd ?xs = Some v"
    using min_by_key_None_iff [of snd ?xs] by (cases "min_by_key snd ?xs") simp_all
  then obtain r where r: "r \<in> edges G g" "v = (er_id r, lq_last_observed (er_weight r))"
    using min_by_key_in [OF v] xs by auto
  then have "evict_coldest_edge G g = sg_remove_edge G (er_id r) g"
    using v by (simp add: evict_coldest_edge_def)
  with r show "edges G (evict_coldest_edge G g) \<subset> edges G g"
    "sg_node_weight G (evict_coldest_edge G g) = sg_node_weight G g"
    by (auto simp: laws_remove_edge [OF L])
qed

text \<open>Recording one observation between two nodes that are in the graph.\<close>

definition has_link ::
    "('g, 'n, 'e) stable_graph \<Rightarrow> node_num \<Rightarrow> node_num \<Rightarrow> (link_quality \<Rightarrow> bool) \<Rightarrow> ('g, 'n) mesh_topology \<Rightarrow> bool" where
  "has_link G from to P t \<longleftrightarrow>
     (\<exists>r \<in> edges G (graph t). sg_node_weight G (graph t) (er_source r) = Some from \<and>
        sg_node_weight G (graph t) (er_target r) = Some to \<and> P (er_weight r))"

lemma set_weight_link:
  assumes L: "stable_graph_laws G" and inv: "topo_inv G t"
    and ends: "sg_node_weight G (graph t) i = Some from" "sg_node_weight G (graph t) j = Some to"
    and e: "sg_edges_connecting G (graph t) i j = e # es"
  shows "sg_edge_weight G (graph t) (er_id e) = Some (er_weight e)"
    "has_link G from to ((=) w) (t\<lparr>graph := sg_set_edge_weight G (er_id e) w (graph t)\<rparr>)"
proof -
  have "e \<in> set (sg_edges_connecting G (graph t) i j)" by (simp add: e)
  then have *: "e \<in> edges G (graph t)" "er_source e = i" "er_target e = j"
    by (auto simp: laws_views(5) [OF L])
  then show "sg_edge_weight G (graph t) (er_id e) = Some (er_weight e)" by (simp add: edge_weight_of [OF L])
  have "e\<lparr>er_weight := w\<rparr> \<in> edges G (sg_set_edge_weight G (er_id e) w (graph t))"
    using *(1) by (auto simp: laws_set_weight(2) [OF L] intro!: image_eqI [of _ _ e])
  then show "has_link G from to ((=) w) (t\<lparr>graph := sg_set_edge_weight G (er_id e) w (graph t)\<rparr>)"
    using * ends unfolding has_link_def
    by (intro bexI [of _ "e\<lparr>er_weight := w\<rparr>"]) (simp_all add: laws_set_weight(1) [OF L])
qed

lemma has_link_mono: "has_link G a b P t \<Longrightarrow> (\<And>w. P w \<Longrightarrow> Q w) \<Longrightarrow> has_link G a b Q t"
  unfolding has_link_def by blast

lemma update_link_spec:
  assumes L: "stable_graph_laws G" and inv: "topo_inv G t"
  shows "\<exists>t'. update_link G now from to snr t = Some t' \<and> topo_inv G t' \<and>
    (if f32_is_finite snr then has_link G from to (\<lambda>w. lq_snr w = snr \<and> lq_last_observed w = now) t' else t' = t)"
proof (cases "f32_is_finite snr")
  case False
  with inv show ?thesis by (simp add: update_link_def)
next
  case True
  obtain i t1 where a: "add_node_protecting G from [to] t = (i, t1)" by fastforce
  obtain j t2 where b: "add_node_protecting G to [from] t1 = (j, t2)" by fastforce
  note T = add_two_nodes [OF L inv a b]
  show ?thesis
  proof (cases "sg_edges_connecting G (graph t2) i j")
    case (Cons e es)
    let ?w = "\<lparr>lq_snr = snr, lq_last_observed = now,
      lq_packet_count = saturating_add (lq_packet_count (er_weight e)) 1\<rparr>"
    note W = set_weight_link(1) [OF L T Cons] set_weight_link(2) [OF L T Cons, of ?w]
    have "update_link G now from to snr t = Some (t2\<lparr>graph := sg_set_edge_weight G (er_id e) ?w (graph t2)\<rparr>)"
      using True a b Cons W(1) by (simp add: update_link_def)
    moreover have "has_link G from to (\<lambda>w. lq_snr w = snr \<and> lq_last_observed w = now)
        (t2\<lparr>graph := sg_set_edge_weight G (er_id e) ?w (graph t2)\<rparr>)"
      by (rule has_link_mono [OF W(2)]) auto
    ultimately show ?thesis
      using True topo_inv_set_weight [OF L T(1)] by simp
  next
    case Nil
    let ?g = "if sg_edge_count G (graph t2) \<ge> MAX_LIVE_LINKS then evict_coldest_edge G (graph t2) else graph t2"
    let ?w = "\<lparr>lq_snr = snr, lq_last_observed = now, lq_packet_count = 1\<rparr>"
    have sub: "edges G ?g \<subseteq> edges G (graph t2)" and nw: "sg_node_weight G ?g = sg_node_weight G (graph t2)"
      using evict_coldest_edge_spec [OF L, of "graph t2"] by (auto simp: MAX_LIVE_LINKS_def split: if_splits)
    have room: "sg_edge_count G ?g < MAX_LIVE_LINKS"
      using evict_coldest_edge_spec(1) [OF L, of "graph t2"] topo_invD(7) [OF T(1)]
        psubset_card_mono [of "edges G (graph t2)" "edges G (evict_coldest_edge G (graph t2))"]
      by (auto simp: edge_count_card [OF L] MAX_LIVE_LINKS_def)
    have inv': "topo_inv G (t2\<lparr>graph := ?g\<rparr>)" by (rule topo_inv_fewer_edges [OF L T(1) nw sub])
    have "(er_source r, er_target r) \<noteq> (i, j)" if "r \<in> edges G ?g" for r
      using Nil sub that laws_views(5) [OF L, of "graph t2" i j] by auto
    note new = this
    have ends: "sg_node_weight G (graph (t2\<lparr>graph := ?g\<rparr>)) i = Some from"
      "sg_node_weight G (graph (t2\<lparr>graph := ?g\<rparr>)) j = Some to"
      using T(2,3) nw by simp_all
    have room': "sg_edge_count G (graph (t2\<lparr>graph := ?g\<rparr>)) < MAX_LIVE_LINKS" using room by simp
    obtain g e where g: "sg_add_edge G i j ?w ?g = Some g" "topo_inv G (t2\<lparr>graph := g\<rparr>)"
      "sg_node_weight G g = sg_node_weight G (graph t2)"
      "edges G g = insert \<lparr>er_id = e, er_source = i, er_target = j, er_weight = ?w\<rparr> (edges G ?g)"
      by (rule topo_inv_add_edge [OF L inv' room' ends]) (use new nw in auto)
    have "update_link G now from to snr t = Some (t2\<lparr>graph := g\<rparr>)"
      using True a b Nil g(1) by (simp add: update_link_def Let_def)
    moreover have "has_link G from to (\<lambda>w. lq_snr w = snr \<and> lq_last_observed w = now) (t2\<lparr>graph := g\<rparr>)"
      unfolding has_link_def using g T(2,3) by simp
    ultimately show ?thesis using True g(2) by simp
  qed
qed

subsection \<open>Connected components\<close>

definition adj :: "('g, 'n, 'e) stable_graph \<Rightarrow> 'g \<Rightarrow> 'n \<Rightarrow> 'n \<Rightarrow> bool" where
  "adj G g u v \<longleftrightarrow> (\<exists>r \<in> edges G g. er_source r = u \<and> er_target r = v \<or> er_source r = v \<and> er_target r = u)"

definition reach :: "('g, 'n, 'e) stable_graph \<Rightarrow> 'g \<Rightarrow> 'n \<Rightarrow> 'n set" where
  "reach G g u = {v. (adj G g)\<^sup>*\<^sup>* u v}"

definition nums :: "('g, 'n, 'e) stable_graph \<Rightarrow> 'g \<Rightarrow> 'n set \<Rightarrow> node_num set" where
  "nums G g S = {num. \<exists>u \<in> S. sg_node_weight G g u = Some num}"

definition adj_closed :: "('g, 'n, 'e) stable_graph \<Rightarrow> 'g \<Rightarrow> 'n set \<Rightarrow> bool" where
  "adj_closed G g S \<longleftrightarrow> (\<forall>u \<in> S. \<forall>v. adj G g u v \<longrightarrow> v \<in> S)"

lemma adj_sym: "adj G g u v \<Longrightarrow> adj G g v u"
  by (auto simp: adj_def)

lemma reach_sym: "(adj G g)\<^sup>*\<^sup>* u v \<Longrightarrow> (adj G g)\<^sup>*\<^sup>* v u"
proof (induction rule: rtranclp_induct)
  case (step y z)
  then show ?case by (meson adj_sym converse_rtranclp_into_rtranclp)
qed simp

lemma reach_refl [simp]: "u \<in> reach G g u"
  by (simp add: reach_def)

lemma reach_step: "v \<in> reach G g u \<Longrightarrow> adj G g v w \<Longrightarrow> w \<in> reach G g u"
  by (simp add: reach_def rtranclp.rtrancl_into_rtrancl)

lemma reach_eq: "v \<in> reach G g u \<Longrightarrow> reach G g v = reach G g u"
  by (auto simp: reach_def dest: reach_sym intro: rtranclp_trans)

lemma closed_reach:
  assumes "adj_closed G g S" "v \<in> S" "w \<in> reach G g v"
  shows "w \<in> S"
proof -
  have "(adj G g)\<^sup>*\<^sup>* v w" using assms(3) by (simp add: reach_def)
  then show ?thesis using assms(1,2) by induction (auto simp: adj_closed_def)
qed

lemma closed_disjoint: "adj_closed G g S \<Longrightarrow> u \<notin> S \<Longrightarrow> reach G g u \<inter> S = {}"
  using closed_reach [of G g S] by (auto simp: reach_def dest: reach_sym)

lemma nums_Un: "nums G g (A \<union> B) = nums G g A \<union> nums G g B"
  by (auto simp: nums_def)

lemma nums_insert:
  "nums G g (insert u S) = (case sg_node_weight G g u of None \<Rightarrow> nums G g S | Some num \<Rightarrow> insert num (nums G g S))"
  by (auto simp: nums_def split: option.splits)

definition weights_inj :: "('g, 'n, 'e) stable_graph \<Rightarrow> 'g \<Rightarrow> bool" where
  "weights_inj G g \<longleftrightarrow> (\<forall>u v num. sg_node_weight G g u = Some num \<longrightarrow> sg_node_weight G g v = Some num \<longrightarrow> u = v)"

lemma weights_injD:
  "weights_inj G g \<Longrightarrow> sg_node_weight G g u = Some num \<Longrightarrow> sg_node_weight G g v = Some num \<Longrightarrow> u = v"
  by (simp add: weights_inj_def)

abbreviation hm_dom :: "('k, 'v) hash_map \<Rightarrow> 'k set" where
  "hm_dom m \<equiv> {k. hm_contains k m}"

lemma finite_hm_dom [simp]: "finite (hm_dom m)"
proof -
  have "hm_dom m = dom (hm_get m)" by (auto simp: hm_contains_def)
  then show ?thesis by (simp add: finite_dom_map_of)
qed

lemma hm_contains_insert [simp]: "hm_contains k (hm_insert k' v m) \<longleftrightarrow> k = k' \<or> hm_contains k m"
  by (simp add: hm_contains_def)

definition endpoints :: "('g, 'n, 'e) stable_graph \<Rightarrow> 'g \<Rightarrow> 'n set" where
  "endpoints G g = er_source ` edges G g \<union> er_target ` edges G g"

lemma finite_endpoints [simp]: "finite (endpoints G g)"
  by (simp add: endpoints_def)

text \<open>
  The state of a visit that started at \<open>start\<close> with the indices \<open>S\<close> already assigned: \<open>W\<close> is what it has assigned itself.
\<close>

definition visit_inv ::
    "('g, 'n, 'e) stable_graph \<Rightarrow> 'g \<Rightarrow> 'n \<Rightarrow> 'n set \<Rightarrow> 'n set \<Rightarrow> 'n list \<Rightarrow> ('n, nat) hash_map \<Rightarrow>
       node_num list \<Rightarrow> bool" where
  "visit_inv G g start S W stack component grp \<longleftrightarrow>
     hm_dom component = S \<union> W \<and> W \<subseteq> reach G g start \<and> set stack \<subseteq> reach G g start \<and>
     start \<in> W \<union> set stack \<and> (\<forall>w \<in> W. \<forall>v. adj G g w v \<longrightarrow> v \<in> W \<union> set stack) \<and>
     distinct grp \<and> set grp = nums G g W"

lemma cc_visit_steps:
  "cc_visit G g c [] component grp = Some (component, grp)"
  "hm_contains cur component \<Longrightarrow> cc_visit G g c (cur # rest) component grp = cc_visit G g c rest component grp"
  "\<not> hm_contains cur component \<Longrightarrow> cc_visit G g c (cur # rest) component grp =
     cc_visit G g c
       (rev (filter (\<lambda>n. \<not> hm_contains n (hm_insert cur c component)) (map er_source (sg_edges_directed G g cur Incoming))) @
        rev (filter (\<lambda>n. \<not> hm_contains n (hm_insert cur c component)) (map er_target (sg_edges_directed G g cur Outgoing))) @ rest)
       (hm_insert cur c component)
       (case sg_node_weight G g cur of None \<Rightarrow> grp | Some num \<Rightarrow> grp @ [num])"
  by (subst cc_visit.simps; simp add: Let_def)+

lemma visit_inv_skip:
  "visit_inv G g start S W (cur # rest) component grp \<Longrightarrow> cur \<in> W \<Longrightarrow>
     visit_inv G g start S W rest component grp"
  by (auto simp: visit_inv_def)

lemma visit_inv_step:
  assumes L: "stable_graph_laws G" and V: "visit_inv G g start S W (cur # rest) component grp"
    and cur: "\<not> hm_contains cur component" and disj: "reach G g start \<inter> S = {}"
    and inj: "weights_inj G g"
    and new: "set new = {v. adj G g cur v \<and> \<not> hm_contains v (hm_insert cur c component)}"
  shows "visit_inv G g start S (insert cur W) (new @ rest) (hm_insert cur c component)
    (case sg_node_weight G g cur of None \<Rightarrow> grp | Some num \<Rightarrow> grp @ [num])"
proof -
  have dom: "hm_dom component = S \<union> W" and W: "W \<subseteq> reach G g start" and curR: "cur \<in> reach G g start"
    using V by (auto simp: visit_inv_def)
  have curW: "cur \<notin> S \<union> W" using cur dom by blast
  have step: "v \<in> insert cur W \<union> set (new @ rest)" if "w \<in> insert cur W" "adj G g w v" for w v
  proof (cases "w = cur")
    case True
    have "v \<in> reach G g start" using reach_step [OF curR] that True by simp
    then have "v \<notin> S" using disj by blast
    show ?thesis
    proof (cases "hm_contains v (hm_insert cur c component)")
      case True
      then have "v = cur \<or> v \<in> S \<union> W" using dom by auto
      with \<open>v \<notin> S\<close> show ?thesis by auto
    next
      case False
      with new that True show ?thesis by auto
    qed
  next
    case False
    with V that have "v \<in> W \<union> set (cur # rest)" by (auto simp: visit_inv_def)
    then show ?thesis by auto
  qed
  have "num \<notin> set grp" if n: "sg_node_weight G g cur = Some num" for num
  proof
    assume "num \<in> set grp"
    then obtain u where "u \<in> W" "sg_node_weight G g u = Some num"
      using V by (auto simp: visit_inv_def nums_def)
    with weights_injD [OF inj n] curW show False by auto
  qed
  then have "distinct (case sg_node_weight G g cur of None \<Rightarrow> grp | Some num \<Rightarrow> grp @ [num])"
    "set (case sg_node_weight G g cur of None \<Rightarrow> grp | Some num \<Rightarrow> grp @ [num]) = nums G g (insert cur W)"
    using V by (auto simp: visit_inv_def nums_insert split: option.splits)
  moreover have "set new \<subseteq> reach G g start" using new reach_step [OF curR] by auto
  moreover have "hm_dom (hm_insert cur c component) = S \<union> insert cur W" using dom by auto
  ultimately show ?thesis
    using V step curR by (auto simp: visit_inv_def)
qed

lemma cc_visit_spec:
  assumes L: "stable_graph_laws G" and disj: "reach G g start \<inter> S = {}"
    and inj: "weights_inj G g"
    and V: "visit_inv G g start S W stack component grp"
  shows "\<exists>component' grp'. cc_visit G g c stack component grp = Some (component', grp') \<and>
    hm_dom component' = S \<union> reach G g start \<and> distinct grp' \<and> set grp' = nums G g (reach G g start)"
  using V
proof (induction "(stack, component)" arbitrary: stack component grp W
    rule: wf_induct_rule [OF wf_measures [of "[\<lambda>(stack, component).
      card ((endpoints G g \<union> set stack) - hm_dom component), \<lambda>(stack, component). length stack]"]])
  case less: (1 stack component grp W)
  let ?U = "\<lambda>stack component. (endpoints G g \<union> set stack) - hm_dom component"
  show ?case
  proof (cases stack)
    case Nil
    have "adj_closed G g W" "start \<in> W" "W \<subseteq> reach G g start"
      using less(2) Nil by (auto simp: visit_inv_def adj_closed_def)
    then have "W = reach G g start" using closed_reach by fast
    with less(2) Nil show ?thesis by (auto simp: visit_inv_def cc_visit_steps)
  next
    case (Cons cur rest)
    show ?thesis
    proof (cases "hm_contains cur component")
      case True
      have "cur \<in> W" using less(2) Cons True disj by (auto simp: visit_inv_def)
      then have V': "visit_inv G g start S W rest component grp"
        using visit_inv_skip less(2) Cons by metis
      have "?U rest component \<subseteq> ?U stack component" using Cons by auto
      then have "card (?U rest component) \<le> card (?U stack component)" by (intro card_mono) auto
      then have "((rest, component), (stack, component)) \<in> measures [\<lambda>(stack, component).
          card (?U stack component), \<lambda>(stack, component). length stack]"
        using Cons by auto
      from less(1) [OF this V'] show ?thesis
        using Cons True by (simp add: cc_visit_steps)
    next
      case False
      let ?c = "hm_insert cur c component"
      define new where "new =
        rev (filter (\<lambda>n. \<not> hm_contains n ?c) (map er_source (sg_edges_directed G g cur Incoming))) @
        rev (filter (\<lambda>n. \<not> hm_contains n ?c) (map er_target (sg_edges_directed G g cur Outgoing)))"
      have new: "set new = {v. adj G g cur v \<and> \<not> hm_contains v ?c}"
        by (auto simp: new_def adj_def laws_views(3,4) [OF L])
      have Vc: "visit_inv G g start S W (cur # rest) component grp" using less(2) Cons by simp
      have V': "visit_inv G g start S (insert cur W) (new @ rest) ?c
          (case sg_node_weight G g cur of None \<Rightarrow> grp | Some num \<Rightarrow> grp @ [num])"
        by (rule visit_inv_step [OF L Vc False disj inj new])
      have "set new \<subseteq> endpoints G g" by (auto simp: new adj_def endpoints_def)
      then have "?U (new @ rest) ?c \<subset> ?U stack component"
        using Cons False by auto
      then have "card (?U (new @ rest) ?c) < card (?U stack component)" by (intro psubset_card_mono) auto
      then have "((new @ rest, ?c), (stack, component)) \<in> measures [\<lambda>(stack, component).
          card (?U stack component), \<lambda>(stack, component). length stack]" by simp
      from less(1) [OF this V'] show ?thesis
        using Cons False by (simp add: cc_visit_steps new_def)
    qed
  qed
qed

text \<open>A list of groups that partitions the indices \<open>S\<close> into whole components.\<close>

definition partitions ::
    "('g, 'n, 'e) stable_graph \<Rightarrow> 'g \<Rightarrow> 'n set \<Rightarrow> node_num list list \<Rightarrow> bool" where
  "partitions G g S cs \<longleftrightarrow>
     distinct (concat cs) \<and> [] \<notin> set cs \<and> set (concat cs) = nums G g S \<and>
     (\<forall>c \<in> set cs. \<exists>u \<in> S. set c = nums G g (reach G g u))"

lemma adj_closed_Un_reach: "adj_closed G g S \<Longrightarrow> adj_closed G g (S \<union> reach G g u)"
  by (auto simp: adj_closed_def intro: reach_step)

lemma visit_inv_start:
  "hm_dom component = S \<Longrightarrow> visit_inv G g idx S {} [idx] component []"
  by (simp add: visit_inv_def nums_def)

lemma nums_disjoint: "weights_inj G g \<Longrightarrow> A \<inter> B = {} \<Longrightarrow> nums G g A \<inter> nums G g B = {}"
  by (auto simp: nums_def dest: weights_injD)

lemma partitions_add:
  assumes P: "partitions G g S cs" and R: "reach G g idx \<inter> S = {}" "distinct c" "c \<noteq> []"
    "set c = nums G g (reach G g idx)" and inj: "weights_inj G g"
  shows "partitions G g (S \<union> reach G g idx) (cs @ [c])"
proof -
  have "set c \<inter> set (concat cs) = {}"
    using nums_disjoint [OF inj R(1)] P R(4) by (simp only: partitions_def)
  moreover have "\<exists>u \<in> S \<union> reach G g idx. set c' = nums G g (reach G g u)" if "c' \<in> set cs \<or> c' = c" for c'
  proof (cases "c' = c")
    case True
    with R(4) show ?thesis by (intro bexI [of _ idx]) simp_all
  next
    case False
    with that P obtain u where "u \<in> S" "set c' = nums G g (reach G g u)" by (auto simp: partitions_def)
    then show ?thesis by blast
  qed
  ultimately show ?thesis
    using P R(2-4) unfolding partitions_def nums_Un
    by (simp only: concat_append concat.simps append_Nil2 distinct_append set_append list.set Un_insert_right
        sup_bot_right insert_iff Ball_def) blast
qed

lemma cc_outer_spec:
  assumes L: "stable_graph_laws G" and inj: "weights_inj G g"
  shows "hm_dom component = S \<Longrightarrow> adj_closed G g S \<Longrightarrow> partitions G g S cs \<Longrightarrow>
    \<forall>idx \<in> set idxs. sg_node_weight G g idx \<noteq> None \<Longrightarrow>
    \<exists>component' cs' S'. cc_outer G g idxs component cs = Some (component', cs') \<and>
      hm_dom component' = S' \<and> partitions G g S' cs' \<and> S \<union> set idxs \<subseteq> S' \<and>
      S' \<subseteq> S \<union> \<Union> (reach G g ` set idxs)"
proof (induction idxs arbitrary: component S cs)
  case Nil
  then show ?case by auto
next
  case (Cons idx idxs)
  show ?case
  proof (cases "hm_contains idx component")
    case True
    from Cons.IH [OF Cons.prems(1-3)] Cons.prems(4) obtain component' cs' S' where
      "cc_outer G g idxs component cs = Some (component', cs')" "hm_dom component' = S'"
      "partitions G g S' cs'" "S \<union> set idxs \<subseteq> S'" "S' \<subseteq> S \<union> \<Union> (reach G g ` set idxs)" by auto
    with True Cons.prems(1) show ?thesis by auto
  next
    case False
    then have disj: "reach G g idx \<inter> S = {}"
      using closed_disjoint [OF Cons.prems(2)] Cons.prems(1) by auto
    obtain c1 grp where v: "cc_visit G g (length cs) [idx] component [] = Some (c1, grp)"
      "hm_dom c1 = S \<union> reach G g idx" "distinct grp" "set grp = nums G g (reach G g idx)"
      using cc_visit_spec [OF L disj inj visit_inv_start [OF Cons.prems(1)], of "length cs"]
      by blast
    obtain num where "sg_node_weight G g idx = Some num" using Cons.prems(4) by auto
    then have "num \<in> nums G g (reach G g idx)" by (auto simp: nums_def intro: bexI [OF _ reach_refl])
    then have ne: "grp \<noteq> []" using v(4) by auto
    have P: "partitions G g (S \<union> reach G g idx) (cs @ [grp])"
      by (rule partitions_add [OF Cons.prems(3) disj v(3) ne v(4) inj])
    from Cons.IH [OF v(2) adj_closed_Un_reach [OF Cons.prems(2)] P] Cons.prems(4)
    obtain component' cs' S' where o:
      "cc_outer G g idxs c1 (cs @ [grp]) = Some (component', cs')" "hm_dom component' = S'"
      "partitions G g S' cs'" "S \<union> reach G g idx \<union> set idxs \<subseteq> S'"
      "S' \<subseteq> S \<union> reach G g idx \<union> \<Union> (reach G g ` set idxs)" by auto
    have "idx \<in> S'" using o(4) reach_refl by (rule subsetD [OF _ UnI1 [OF UnI2]])
    with o have "S \<union> set (idx # idxs) \<subseteq> S'" "S' \<subseteq> S \<union> \<Union> (reach G g ` set (idx # idxs))" by auto
    moreover have "cc_outer G g (idx # idxs) component cs = Some (component', cs')"
      using False v(1) ne o(1) by simp
    ultimately show ?thesis using o(2,3) by blast
  qed
qed

lemma cc_singletons_assigned:
  "\<forall>idx \<in> set idxs. hm_contains idx component \<Longrightarrow> cc_singletons G g idxs component cs = cs"
  by (induction idxs) auto

text \<open>Two nodes are linked when there is an edge between them, in either direction.\<close>

definition linked :: "('g, 'n, 'e) stable_graph \<Rightarrow> ('g, 'n) mesh_topology \<Rightarrow> node_num \<Rightarrow> node_num \<Rightarrow> bool" where
  "linked G t a b \<longleftrightarrow> has_link G a b (\<lambda>_. True) t \<or> has_link G b a (\<lambda>_. True) t"

lemma topo_inj:
  "topo_inv G t \<Longrightarrow> sg_node_weight G (graph t) u = Some num \<Longrightarrow> sg_node_weight G (graph t) v = Some num \<Longrightarrow> u = v"
  using topo_invD(2) [of G t num u] topo_invD(2) [of G t num v] by simp

lemma linked_adj:
  assumes "topo_inv G t" "sg_node_weight G (graph t) u = Some a" "linked G t a b"
  shows "\<exists>v. adj G (graph t) u v \<and> sg_node_weight G (graph t) v = Some b"
proof -
  from assms(3) obtain r where r: "r \<in> edges G (graph t)"
    "sg_node_weight G (graph t) (er_source r) = Some a \<and> sg_node_weight G (graph t) (er_target r) = Some b \<or>
     sg_node_weight G (graph t) (er_source r) = Some b \<and> sg_node_weight G (graph t) (er_target r) = Some a"
    by (auto simp: linked_def has_link_def)
  then have "er_source r = u \<and> sg_node_weight G (graph t) (er_target r) = Some b \<or>
      er_target r = u \<and> sg_node_weight G (graph t) (er_source r) = Some b"
    using topo_inj [OF assms(1,2)] by metis
  with r(1) show ?thesis by (auto simp: adj_def)
qed

lemma adj_linked:
  assumes "topo_inv G t" "sg_node_weight G (graph t) u = Some a" "adj G (graph t) u v"
  shows "\<exists>b. sg_node_weight G (graph t) v = Some b \<and> linked G t a b"
proof -
  from assms(3) obtain r where r: "r \<in> edges G (graph t)"
    "er_source r = u \<and> er_target r = v \<or> er_source r = v \<and> er_target r = u" by (auto simp: adj_def)
  obtain b where b: "sg_node_weight G (graph t) v = Some b"
    using topo_invD(3,4) [OF assms(1) r(1)] r(2) by auto
  with r assms(2) show ?thesis
    by (auto simp: linked_def has_link_def intro: bexI [OF _ r(1)])
qed

lemma reach_linked:
  assumes "topo_inv G t" "sg_node_weight G (graph t) u = Some a"
  shows "b \<in> nums G (graph t) (reach G (graph t) u) \<longleftrightarrow> (linked G t)\<^sup>*\<^sup>* a b"
proof
  assume "b \<in> nums G (graph t) (reach G (graph t) u)"
  then obtain v where v: "(adj G (graph t))\<^sup>*\<^sup>* u v" "sg_node_weight G (graph t) v = Some b"
    by (auto simp: nums_def reach_def)
  have "\<exists>c. sg_node_weight G (graph t) v = Some c \<and> (linked G t)\<^sup>*\<^sup>* a c"
    using v(1)
  proof (induction rule: rtranclp_induct)
    case base
    with assms(2) show ?case by auto
  next
    case (step y z)
    then obtain c where "sg_node_weight G (graph t) y = Some c" "(linked G t)\<^sup>*\<^sup>* a c" by auto
    with adj_linked [OF assms(1) this(1) step(2)] show ?case by (auto intro: rtranclp.rtrancl_into_rtrancl)
  qed
  with v(2) show "(linked G t)\<^sup>*\<^sup>* a b" by auto
next
  assume "(linked G t)\<^sup>*\<^sup>* a b"
  then have "\<exists>v. (adj G (graph t))\<^sup>*\<^sup>* u v \<and> sg_node_weight G (graph t) v = Some b"
  proof (induction rule: rtranclp_induct)
    case base
    with assms(2) show ?case by auto
  next
    case (step y z)
    then obtain v where "(adj G (graph t))\<^sup>*\<^sup>* u v" "sg_node_weight G (graph t) v = Some y" by auto
    with linked_adj [OF assms(1) this(2) step(2)] show ?case by (auto intro: rtranclp.rtrancl_into_rtrancl)
  qed
  then show "b \<in> nums G (graph t) (reach G (graph t) u)" by (auto simp: nums_def reach_def)
qed

lemma connected_components_spec:
  assumes L: "stable_graph_laws G" and inv: "topo_inv G t"
  shows "\<exists>cs. connected_components G t = Some cs \<and> distinct (concat cs) \<and> [] \<notin> set cs \<and>
    set (concat cs) = {num. contains_node num t} \<and>
    (\<forall>c \<in> set cs. \<forall>a \<in> set c. \<forall>b. b \<in> set c \<longleftrightarrow> (linked G t)\<^sup>*\<^sup>* a b)"
proof (cases "node_index t = []")
  case True
  then show ?thesis by (simp add: connected_components_def contains_node_def hm_contains_def)
next
  case False
  let ?g = "graph t" and ?idxs = "map snd (node_index t)"
  have idx: "idx \<in> set ?idxs \<longleftrightarrow> (\<exists>num. sg_node_weight G ?g idx = Some num)" for idx
  proof -
    have "idx \<in> set ?idxs \<longleftrightarrow> (\<exists>num. hm_get (node_index t) num = Some idx)"
      using topo_invD(1) [OF inv] by (force simp: hm_wf_def dest: map_of_SomeD)
    then show ?thesis using topo_invD(2) [OF inv] by simp
  qed
  have weights: "weights_inj G ?g" using topo_inj [OF inv] by (auto simp: weights_inj_def)
  have tracked: "\<forall>i \<in> set ?idxs. sg_node_weight G ?g i \<noteq> None" using idx by blast
  have start: "hm_dom ([] :: ('b, nat) hash_map) = {}" "adj_closed G ?g {}" "partitions G ?g {} []"
    by (simp_all add: hm_contains_def adj_closed_def partitions_def nums_def)
  obtain component cs S where o: "cc_outer G ?g ?idxs [] [] = Some (component, cs)"
    "hm_dom component = S" "partitions G ?g S cs" "set ?idxs \<subseteq> S" "S \<subseteq> \<Union> (reach G ?g ` set ?idxs)"
    using cc_outer_spec [OF L weights start, of ?idxs] tracked by auto
  have "cc_singletons G ?g ?idxs component cs = cs"
    using o(2,4) by (intro cc_singletons_assigned) auto
  then have cc: "connected_components G t = Some cs"
    using False o(1) by (simp add: connected_components_def)
  have "nums G ?g S = {num. contains_node num t}"
  proof -
    have "num \<in> nums G ?g S \<longleftrightarrow> contains_node num t" for num
    proof
      show "contains_node num t" if "num \<in> nums G ?g S"
        using that topo_invD(2) [OF inv, of num] by (auto simp: nums_def contains_node_def hm_contains_def)
      assume "contains_node num t"
      then obtain i where "sg_node_weight G ?g i = Some num"
        using topo_invD(2) [OF inv, of num] by (auto simp: contains_node_def hm_contains_def)
      moreover from this have "i \<in> S" using idx [of i] o(4) by blast
      ultimately show "num \<in> nums G ?g S" by (auto simp: nums_def)
    qed
    then show ?thesis by blast
  qed
  moreover have "b \<in> set c \<longleftrightarrow> (linked G t)\<^sup>*\<^sup>* a b" if c: "c \<in> set cs" and a: "a \<in> set c" for c a b
  proof -
    obtain u where u: "set c = nums G ?g (reach G ?g u)" using o(3) c by (auto simp: partitions_def)
    then obtain v where v: "v \<in> reach G ?g u" "sg_node_weight G ?g v = Some a"
      using a by (auto simp: nums_def)
    then show ?thesis using reach_linked [OF inv v(2)] reach_eq [OF v(1)] u by simp
  qed
  ultimately show ?thesis
    using cc o(3) unfolding partitions_def by blast
qed

subsection \<open>Removing stale links and nodes\<close>

lemma fold_remove_edge:
  assumes L: "stable_graph_laws G"
  shows "sg_node_weight G (fold (sg_remove_edge G) es g) = sg_node_weight G g \<and>
    edges G (fold (sg_remove_edge G) es g) = {r \<in> edges G g. er_id r \<notin> set es}"
proof (induction es arbitrary: g)
  case (Cons e es)
  then show ?case by (auto simp: laws_remove_edge [OF L])
qed simp

lemma remove_stale_links_edges:
  assumes L: "stable_graph_laws G" and now: "timeout \<le> now"
  shows "edges G (graph (remove_stale_links G now timeout t)) =
      {r \<in> edges G (graph t). \<not> is_stale (now - timeout) (er_weight r)}"
    "sg_node_weight G (graph (remove_stale_links G now timeout t)) = sg_node_weight G (graph t)"
    "node_index (remove_stale_links G now timeout t) = node_index t"
proof -
  let ?es = "filter (\<lambda>idx. case sg_edge_weight G (graph t) idx of None \<Rightarrow> False | Some w \<Rightarrow> is_stale (now - timeout) w)
    (sg_edge_indices G (graph t))"
  have "er_id r \<in> set ?es \<longleftrightarrow> is_stale (now - timeout) (er_weight r)" if "r \<in> edges G (graph t)" for r
    using that edge_weight_of [OF L that] by (simp add: laws_views(7) [OF L])
  then show "edges G (graph (remove_stale_links G now timeout t)) =
      {r \<in> edges G (graph t). \<not> is_stale (now - timeout) (er_weight r)}"
    using fold_remove_edge [OF L, of ?es "graph t"] now
    by (auto simp: remove_stale_links_def checked_sub_instant_def)
  show "sg_node_weight G (graph (remove_stale_links G now timeout t)) = sg_node_weight G (graph t)"
    "node_index (remove_stale_links G now timeout t) = node_index t"
    using fold_remove_edge [OF L, of ?es "graph t"] now
    by (simp_all add: remove_stale_links_def checked_sub_instant_def)
qed

lemma remove_stale_links_inv:
  assumes L: "stable_graph_laws G" and inv: "topo_inv G t"
  shows "topo_inv G (remove_stale_links G now timeout t)"
proof (cases "timeout \<le> now")
  case True
  have "remove_stale_links G now timeout t = t\<lparr>graph := graph (remove_stale_links G now timeout t)\<rparr>"
    using True by (simp add: remove_stale_links_def checked_sub_instant_def)
  moreover have "topo_inv G (t\<lparr>graph := graph (remove_stale_links G now timeout t)\<rparr>)"
    by (rule topo_inv_fewer_edges [OF L inv]) (auto simp: remove_stale_links_edges [OF L True])
  ultimately show ?thesis by metis
next
  case False
  with inv show ?thesis by (simp add: remove_stale_links_def checked_sub_instant_def)
qed

lemma fold_remove_tracked:
  assumes L: "stable_graph_laws G" and inv: "topo_inv G t"
  shows "topo_inv G (fold (remove_tracked G) ns t) \<and>
    (\<forall>num. hm_get (node_index (fold (remove_tracked G) ns t)) num =
       (if num \<in> set ns then None else hm_get (node_index t) num)) \<and>
    edges G (graph (fold (remove_tracked G) ns t)) = {r \<in> edges G (graph t).
       (\<forall>n \<in> set ns. sg_node_weight G (graph t) (er_source r) \<noteq> Some n \<and>
          sg_node_weight G (graph t) (er_target r) \<noteq> Some n)}"
  using inv
proof (induction ns arbitrary: t)
  case (Cons n ns)
  show ?case
  proof (cases "hm_get (node_index t) n")
    case None
    then have "sg_node_weight G (graph t) i \<noteq> Some n" for i using topo_invD(2) [OF Cons.prems, of n i] by auto
    with None Cons.IH [OF Cons.prems] show ?thesis by (auto simp: remove_tracked_def)
  next
    case (Some idx)
    let ?t = "t\<lparr>node_index := hm_remove n (node_index t), graph := sg_remove_node G idx (graph t)\<rparr>"
    have w: "sg_node_weight G (graph t) i = Some n \<longleftrightarrow> i = idx" for i
      using topo_invD(2) [OF Cons.prems, of n i] Some by auto
    have "remove_tracked G n t = ?t" using Some by (simp add: remove_tracked_def)
    moreover note Cons.IH [OF topo_inv_remove(1) [OF L Cons.prems Some]]
    ultimately show ?thesis by (auto simp: laws_remove_node [OF L] w)
  qed
qed simp

lemma node_is_stale_iff:
  "stable_graph_laws G \<Longrightarrow> node_is_stale G cutoff g idx \<longleftrightarrow>
     (\<forall>r \<in> edges G g. er_source r = idx \<or> er_target r = idx \<longrightarrow> is_stale cutoff (er_weight r))"
  by (auto simp: node_is_stale_def list_ex_iff laws_views)

text \<open>A node is alive when some link of it, in either direction, is recent.\<close>

definition alive ::
    "('g, 'n, 'e) stable_graph \<Rightarrow> instant \<Rightarrow> ('g, 'n) mesh_topology \<Rightarrow> node_num \<Rightarrow> bool" where
  "alive G cutoff t num \<longleftrightarrow>
     (\<exists>m. has_link G num m (\<lambda>w. \<not> is_stale cutoff w) t \<or> has_link G m num (\<lambda>w. \<not> is_stale cutoff w) t)"

lemma alive_iff:
  assumes L: "stable_graph_laws G" and inv: "topo_inv G t" and idx: "sg_node_weight G (graph t) idx = Some num"
  shows "alive G cutoff t num \<longleftrightarrow> \<not> node_is_stale G cutoff (graph t) idx"
proof
  assume "alive G cutoff t num"
  then obtain r where r: "r \<in> edges G (graph t)" "\<not> is_stale cutoff (er_weight r)"
    "sg_node_weight G (graph t) (er_source r) = Some num \<or> sg_node_weight G (graph t) (er_target r) = Some num"
    unfolding alive_def has_link_def by blast
  then have "er_source r = idx \<or> er_target r = idx" using topo_inj [OF inv _ idx] by blast
  with r show "\<not> node_is_stale G cutoff (graph t) idx" unfolding node_is_stale_iff [OF L] by blast
next
  assume "\<not> node_is_stale G cutoff (graph t) idx"
  then obtain r where r: "r \<in> edges G (graph t)" "er_source r = idx \<or> er_target r = idx"
    "\<not> is_stale cutoff (er_weight r)" unfolding node_is_stale_iff [OF L] by blast
  obtain a b where "sg_node_weight G (graph t) (er_source r) = Some a"
    "sg_node_weight G (graph t) (er_target r) = Some b"
    using topo_invD(3,4) [OF inv r(1)] by blast
  with r idx show "alive G cutoff t num" unfolding alive_def has_link_def by force
qed

lemma remove_stale_nodes_spec:
  assumes L: "stable_graph_laws G" and inv: "topo_inv G t" and now: "timeout \<le> now"
  shows "topo_inv G (remove_stale_nodes G now timeout t)"
    "contains_node num (remove_stale_nodes G now timeout t) \<longleftrightarrow>
       contains_node num t \<and> alive G (now - timeout) t num"
    "r \<in> edges G (graph t) \<Longrightarrow> \<not> is_stale (now - timeout) (er_weight r) \<Longrightarrow>
       r \<in> edges G (graph (remove_stale_nodes G now timeout t))"
proof -
  let ?c = "now - timeout"
  let ?ns = "map fst (filter (\<lambda>(_, idx). node_is_stale G ?c (graph t) idx) (node_index t))"
  have eq: "remove_stale_nodes G now timeout t = fold (remove_tracked G) ?ns t"
    using now by (simp add: remove_stale_nodes_def checked_sub_instant_def)
  note F = fold_remove_tracked [OF L inv, of ?ns]
  have ns: "n \<in> set ?ns \<longleftrightarrow> (\<exists>idx. sg_node_weight G (graph t) idx = Some n \<and> node_is_stale G ?c (graph t) idx)" for n
  proof -
    have "n \<in> set ?ns \<longleftrightarrow> (\<exists>idx. hm_get (node_index t) n = Some idx \<and> node_is_stale G ?c (graph t) idx)"
      using topo_invD(1) [OF inv] by (force simp: hm_wf_def dest: map_of_SomeD)
    then show ?thesis using topo_invD(2) [OF inv] by simp
  qed
  show "topo_inv G (remove_stale_nodes G now timeout t)" using F by (simp add: eq)
  show "contains_node num (remove_stale_nodes G now timeout t) \<longleftrightarrow> contains_node num t \<and> alive G ?c t num"
  proof (cases "hm_get (node_index t) num")
    case None
    with F show ?thesis by (simp add: eq contains_node_def hm_contains_def)
  next
    case (Some idx)
    then have idx: "sg_node_weight G (graph t) idx = Some num" using topo_invD(2) [OF inv] by blast
    have "num \<in> set ?ns \<longleftrightarrow> node_is_stale G ?c (graph t) idx"
      unfolding ns using idx by (auto dest: topo_inj [OF inv _ idx])
    moreover have "hm_get (node_index (fold (remove_tracked G) ?ns t)) num =
        (if num \<in> set ?ns then None else Some idx)" using F Some by simp
    ultimately show ?thesis
      using Some alive_iff [OF L inv idx] unfolding eq contains_node_def hm_contains_def by auto
  qed
  show "r \<in> edges G (graph (remove_stale_nodes G now timeout t))"
    if r: "r \<in> edges G (graph t)" "\<not> is_stale ?c (er_weight r)"
  proof -
    have "sg_node_weight G (graph t) (er_source r) \<noteq> Some n \<and> sg_node_weight G (graph t) (er_target r) \<noteq> Some n"
      if n: "n \<in> set ?ns" for n
    proof -
      obtain idx where i: "sg_node_weight G (graph t) idx = Some n" "node_is_stale G ?c (graph t) idx"
        using n unfolding ns by blast
      then have "er_source r \<noteq> idx" "er_target r \<noteq> idx" using r unfolding node_is_stale_iff [OF L] by auto
      then show ?thesis using topo_inj [OF inv _ i(1)] by blast
    qed
    then show ?thesis using F r(1) unfolding eq by blast
  qed
qed

end
