(* ===== verification/List_Graph.thy ===== *)
theory List_Graph
  imports Mesh_Topology "HOL-Library.DAList"
begin

section \<open>A graph container that satisfies the laws\<close>

text \<open>
  An instance of \<open>stable_graph\<close> by association lists with distinct keys, on which
  \<open>stable_graph_laws\<close> is proved. It shows that the laws can hold together and serves
  the theorems about the topology as a concrete input.
\<close>

type_synonym list_graph_state = "(nat, node_num) alist \<times> (nat, nat \<times> nat \<times> link_quality) alist"

definition fresh_key :: "(nat, 'v) alist \<Rightarrow> nat" where
  "fresh_key m = Suc (sum_list (map fst (DAList.impl_of m)))"

definition lg_ref :: "nat \<times> nat \<times> nat \<times> link_quality \<Rightarrow> (nat, nat) edge_ref" where
  "lg_ref = (\<lambda>(e, a, b, w). \<lparr>er_id = e, er_source = a, er_target = b, er_weight = w\<rparr>)"

definition lg_refs :: "list_graph_state \<Rightarrow> (nat, nat) edge_ref list" where
  "lg_refs g = map lg_ref (DAList.impl_of (snd g))"

definition list_graph :: "(list_graph_state, nat, nat) stable_graph" where
  "list_graph =
     \<lparr>sg_new = (DAList.empty, DAList.empty),
      sg_add_node = (\<lambda>w g. (fresh_key (fst g), (DAList.update (fresh_key (fst g)) w (fst g), snd g))),
      sg_remove_node = (\<lambda>n g. (DAList.delete n (fst g),
        DAList.filter (\<lambda>(e, a, b, w). a \<noteq> n \<and> b \<noteq> n) (snd g))),
      sg_node_weight = (\<lambda>g. DAList.lookup (fst g)),
      sg_add_edge = (\<lambda>a b w g.
        if DAList.lookup (fst g) a = None \<or> DAList.lookup (fst g) b = None then None
        else Some (fst g, DAList.update (fresh_key (snd g)) (a, b, w) (snd g))),
      sg_remove_edge = (\<lambda>e g. (fst g, DAList.filter (\<lambda>(e', _). e' \<noteq> e) (snd g))),
      sg_set_edge_weight = (\<lambda>e w g. (fst g, DAList.map_entry e (\<lambda>(a, b, _). (a, b, w)) (snd g))),
      sg_edge_references = lg_refs,
      sg_edges_directed = (\<lambda>g n d. filter (\<lambda>r. (case d of Outgoing \<Rightarrow> er_source r | Incoming \<Rightarrow> er_target r) = n) (lg_refs g)),
      sg_edges_connecting = (\<lambda>g a b. filter (\<lambda>r. er_source r = a \<and> er_target r = b) (lg_refs g)),
      sg_edge_indices = (\<lambda>g. map er_id (lg_refs g)),
      sg_edge_endpoints = (\<lambda>g e. map_option (\<lambda>(a, b, _). (a, b)) (DAList.lookup (snd g) e)),
      sg_edge_weight = (\<lambda>g e. map_option (\<lambda>(_, _, w). w) (DAList.lookup (snd g) e)),
      sg_edge_count = (\<lambda>g. length (lg_refs g))\<rparr>"

lemma impl_distinct: "distinct (map fst (DAList.impl_of m))"
  using impl_of [of m] by simp

lemma key_less_fresh: "(k, v) \<in> set (DAList.impl_of m) \<Longrightarrow> k < fresh_key m"
  using member_le_sum_list [of k "map fst (DAList.impl_of m)"] by (force simp: fresh_key_def)

lemma lookup_iff: "DAList.lookup m k = Some v \<longleftrightarrow> (k, v) \<in> set (DAList.impl_of m)"
  using impl_distinct [of m] by (simp add: DAList.lookup_def)

lemma lookup_fresh: "DAList.lookup m (fresh_key m) = None"
proof (rule ccontr)
  assume "DAList.lookup m (fresh_key m) \<noteq> None"
  then obtain v where "(fresh_key m, v) \<in> set (DAList.impl_of m)" by (auto simp: lookup_iff)
  from key_less_fresh [OF this] show False by simp
qed

lemma set_impl_update:
  "DAList.lookup m k = None \<Longrightarrow> set (DAList.impl_of (DAList.update k v m)) = insert (k, v) (set (DAList.impl_of m))"
proof (intro set_eqI)
  fix x assume "DAList.lookup m k = None"
  then have "DAList.lookup (DAList.update k v m) (fst x) = Some (snd x) \<longleftrightarrow>
      x = (k, v) \<or> DAList.lookup m (fst x) = Some (snd x)"
    by (cases x) (auto simp: DAList.lookup_def DAList.update.rep_eq update_conv')
  then show "x \<in> set (DAList.impl_of (DAList.update k v m)) \<longleftrightarrow> x \<in> insert (k, v) (set (DAList.impl_of m))"
    by (simp add: lookup_iff)
qed

lemma set_impl_map_entry:
  "set (DAList.impl_of (DAList.map_entry k f m)) =
     (\<lambda>(k', v). if k' = k then (k', f v) else (k', v)) ` set (DAList.impl_of m)"
proof (intro set_eqI)
  fix x :: "'a \<times> 'b"
  obtain a b where x: "x = (a, b)" by fastforce
  have "x \<in> set (DAList.impl_of (DAList.map_entry k f m)) \<longleftrightarrow>
      DAList.lookup (DAList.map_entry k f m) a = Some b"
    by (simp add: x lookup_iff)
  also have "\<dots> \<longleftrightarrow> (\<exists>b'. DAList.lookup m a = Some b' \<and> b = (if a = k then f b' else b'))"
    by (cases "map_of (DAList.impl_of m) a")
      (auto simp: DAList.lookup_def DAList.map_entry.rep_eq map_of_map_entry simp del: map_of_eq_Some_iff)
  also have "\<dots> \<longleftrightarrow> x \<in> (\<lambda>(k', v). if k' = k then (k', f v) else (k', v)) ` set (DAList.impl_of m)"
    unfolding x lookup_iff image_iff Bex_def split_paired_Ex by (auto split: if_splits)
  finally show "x \<in> set (DAList.impl_of (DAList.map_entry k f m)) \<longleftrightarrow>
      x \<in> (\<lambda>(k', v). if k' = k then (k', f v) else (k', v)) ` set (DAList.impl_of m)" .
qed

lemma lg_ref_simps [simp]:
  "er_id (lg_ref x) = fst x" "er_source (lg_ref x) = fst (snd x)" "er_target (lg_ref x) = fst (snd (snd x))"
  "er_weight (lg_ref x) = snd (snd (snd x))"
  by (simp_all add: lg_ref_def case_prod_beta)

lemma lg_ref_inj: "inj lg_ref"
  by (rule injI) (auto simp: lg_ref_def split: prod.splits)

lemma lg_ids: "map er_id (lg_refs g) = map fst (DAList.impl_of (snd g))"
  by (simp add: lg_refs_def)

lemma lg_lookup: "DAList.lookup (snd g) e = Some (a, b, w) \<longleftrightarrow>
    \<lparr>er_id = e, er_source = a, er_target = b, er_weight = w\<rparr> \<in> set (lg_refs g)"
proof -
  have "\<lparr>er_id = e, er_source = a, er_target = b, er_weight = w\<rparr> = lg_ref (e, a, b, w)"
    by (simp add: lg_ref_def)
  then show ?thesis
    using inj_image_mem_iff [OF lg_ref_inj, of "(e, a, b, w)" "set (DAList.impl_of (snd g))"]
    by (simp only: lookup_iff lg_refs_def set_map)
qed

lemma list_graph_laws: "stable_graph_laws list_graph"
proof -
  have 1: "law_new list_graph"
    by (simp add: law_new_def list_graph_def lg_refs_def DAList.empty.rep_eq DAList.lookup_def)
  have 2: "law_add_node list_graph"
    by (auto simp: law_add_node_def list_graph_def lookup_fresh lg_refs_def)
  have 3: "law_remove_node list_graph"
    by (auto simp: law_remove_node_def list_graph_def lg_refs_def DAList.filter.rep_eq)
  have 4: "law_add_edge list_graph"
  proof -
    have "fresh_key (snd g) \<notin> er_id ` set (lg_refs g)" for g
      using key_less_fresh [of _ _ "snd g"] by (fastforce simp: lg_refs_def)
    moreover have "set (lg_refs (n, DAList.update (fresh_key m) (a, b, w) m)) =
        insert \<lparr>er_id = fresh_key m, er_source = a, er_target = b, er_weight = w\<rparr> (set (lg_refs (n, m)))" for n m a b w
      by (simp add: lg_refs_def set_impl_update [OF lookup_fresh] lg_ref_def)
    ultimately show ?thesis
      by (auto simp: law_add_edge_def list_graph_def intro!: exI [of _ "fresh_key _"])
  qed
  have 5: "law_remove_edge list_graph"
    by (auto simp: law_remove_edge_def list_graph_def lg_refs_def DAList.filter.rep_eq)
  have 6: "law_set_weight list_graph"
  proof -
    have "set (lg_refs (n, DAList.map_entry e (\<lambda>(a, b, _). (a, b, w)) m)) =
        (\<lambda>r. if er_id r = e then r\<lparr>er_weight := w\<rparr> else r) ` set (lg_refs (n, m))" for n e w m
      unfolding lg_refs_def snd_conv set_map set_impl_map_entry image_image
      by (rule image_cong) (auto simp: lg_ref_def)
    then show ?thesis by (simp add: law_set_weight_def list_graph_def)
  qed
  have 7: "law_views list_graph"
  proof -
    have "inj_on er_id (set (lg_refs g))" "distinct (lg_refs g)" "distinct (map er_id (lg_refs g))" for g
      using impl_distinct [of "snd g"] distinct_map [of er_id "lg_refs g"] by (simp_all add: lg_ids)
    then show ?thesis by (auto simp: law_views_def list_graph_def)
  qed
  have 8: "law_lookup list_graph"
  proof -
    have "(\<exists>r \<in> set (lg_refs g). er_id r = e \<and> er_source r = a \<and> er_target r = b) \<longleftrightarrow>
        (\<exists>w. DAList.lookup (snd g) e = Some (a, b, w))" for g e a b
      unfolding lg_lookup by (metis edge_ref.surjective old.unit.exhaust edge_ref.select_convs)
    moreover have "(\<exists>r \<in> set (lg_refs g). er_id r = e \<and> er_weight r = w) \<longleftrightarrow>
        (\<exists>a b. DAList.lookup (snd g) e = Some (a, b, w))" for g e w
      unfolding lg_lookup by (metis edge_ref.surjective old.unit.exhaust edge_ref.select_convs)
    ultimately show ?thesis
      by (auto simp: law_lookup_def list_graph_def)
  qed
  from 1 2 3 4 5 6 7 8 show ?thesis by (simp add: stable_graph_laws_def)
qed

end
