(* ===== verification/Topology_Snapshot.thy ===== *)
theory Topology_Snapshot
  imports List_Graph
begin

section \<open>Topology snapshots and the properties of the topology\<close>

text \<open>
  The persistence part of \<open>kerykeion/src/topology.rs\<close> (\<open>save_to_bytes\<close>, \<open>load_from_bytes\<close>) and the properties
  of the topology as a whole. The JSON printer and parser are parameters.
\<close>

subsection \<open>Model\<close>

record link_snapshot =
  ls_from :: node_num
  ls_to :: node_num
  ls_snr :: f32
  ls_packet_count :: u32

record topology_snapshot =
  ts_nodes :: "node_num list"
  ts_links :: "link_snapshot list"

definition link_snapshot_of ::
    "('g, 'n, 'e) stable_graph \<Rightarrow> 'g \<Rightarrow> 'e \<Rightarrow> link_snapshot option" where
  "link_snapshot_of G g idx =
     (case sg_edge_endpoints G g idx of
        None \<Rightarrow> None
      | Some (src, dst) \<Rightarrow>
          (case (sg_node_weight G g src, sg_node_weight G g dst, sg_edge_weight G g idx) of
             (Some from, Some to, Some w) \<Rightarrow>
               Some \<lparr>ls_from = from, ls_to = to, ls_snr = lq_snr w, ls_packet_count = lq_packet_count w\<rparr>
           | _ \<Rightarrow> None))"

definition snapshot_of ::
    "('g, 'n, 'e) stable_graph \<Rightarrow> ('g, 'n) mesh_topology \<Rightarrow> topology_snapshot" where
  "snapshot_of G t =
     \<lparr>ts_nodes = map fst (node_index t),
      ts_links = List.map_filter (link_snapshot_of G (graph t)) (sg_edge_indices G (graph t))\<rparr>"

definition save_to_bytes ::
    "('g, 'n, 'e) stable_graph \<Rightarrow> (topology_snapshot \<Rightarrow> bytes option) \<Rightarrow> ('g, 'n) mesh_topology \<Rightarrow>
       mesh_error + bytes" where
  "save_to_bytes G to_json t =
     (case to_json (snapshot_of G t) of None \<Rightarrow> Inl TopologySnapshot | Some bs \<Rightarrow> Inr bs)"

definition restore_link ::
    "('g, 'n, 'e) stable_graph \<Rightarrow> instant \<Rightarrow> link_snapshot \<Rightarrow> ('g, 'n) mesh_topology \<Rightarrow>
       ('g, 'n) mesh_topology option" where
  "restore_link G now link t =
     (let (from_idx, t1) = add_node_protecting G (ls_from link) [ls_to link] t;
          (to_idx, t2) = add_node_protecting G (ls_to link) [ls_from link] t1;
          g = graph t2
      in case sg_edges_connecting G g from_idx to_idx of
           e # _ \<Rightarrow>
             (case sg_edge_weight G g (er_id e) of
                None \<Rightarrow> Some t2
              | Some w \<Rightarrow> Some (t2\<lparr>graph := sg_set_edge_weight G (er_id e)
                  (w\<lparr>lq_snr := ls_snr link,
                     lq_packet_count := saturating_add (lq_packet_count w) (ls_packet_count link)\<rparr>) g\<rparr>))
         | [] \<Rightarrow>
             map_option (\<lambda>g'. t2\<lparr>graph := g'\<rparr>)
               (sg_add_edge G from_idx to_idx
                  \<lparr>lq_snr = ls_snr link, lq_last_observed = now, lq_packet_count = ls_packet_count link\<rparr> g))"

fun restore_links ::
    "('g, 'n, 'e) stable_graph \<Rightarrow> (nat \<Rightarrow> instant) \<Rightarrow> nat \<Rightarrow> link_snapshot list \<Rightarrow> ('g, 'n) mesh_topology \<Rightarrow>
       ('g, 'n) mesh_topology option" where
  "restore_links G clock i [] t = Some t"
| "restore_links G clock i (link # links) t =
     (case restore_link G (clock i) link t of
        None \<Rightarrow> None
      | Some t' \<Rightarrow> restore_links G clock (Suc i) links t')"

definition load_from_bytes ::
    "('g, 'n, 'e) stable_graph \<Rightarrow> (bytes \<Rightarrow> topology_snapshot option) \<Rightarrow> (nat \<Rightarrow> instant) \<Rightarrow> bytes \<Rightarrow>
       (mesh_error + ('g, 'n) mesh_topology) option" where
  "load_from_bytes G from_json clock data =
     (case from_json data of
        None \<Rightarrow> Some (Inl TopologySnapshot)
      | Some snapshot \<Rightarrow>
          map_option Inr (restore_links G clock 0 (take MAX_LIVE_LINKS (ts_links snapshot))
            (fold (\<lambda>node t. snd (add_node G node t)) (take MAX_LIVE_NODES (ts_nodes snapshot))
               (topology_new G))))"

subsection \<open>Restoring\<close>

lemma add_node_edges:
  assumes L: "stable_graph_laws G" and add: "add_node_protecting G node protect t = (idx, t')"
  shows "edges G (graph t') \<subseteq> edges G (graph t)"
proof (cases "hm_get (node_index t) node")
  case (Some i)
  with add show ?thesis by (auto simp: add_node_protecting_def)
next
  case None
  let ?t = "if length (node_index t) \<ge> MAX_LIVE_NODES then evict_coldest_node G protect t else t"
  obtain g where a: "sg_add_node G node (graph ?t) = (idx, g)" "graph t' = g"
    using add None by (auto simp: add_node_protecting_def Let_def split: prod.splits)
  have "edges G (graph ?t) \<subseteq> edges G (graph t)"
    by (auto simp: evict_coldest_node_def laws_remove_node [OF L] split: option.splits prod.splits if_splits)
  with laws_add_node(3) [OF L a(1)] a(2) show ?thesis by simp
qed

lemma restore_link_spec:
  assumes L: "stable_graph_laws G" and inv: "topo_inv G t" and room: "edge_count G t < MAX_LIVE_LINKS"
  shows "\<exists>t'. restore_link G now link t = Some t' \<and> topo_inv G t' \<and> edge_count G t' \<le> Suc (edge_count G t)"
proof -
  obtain i t1 where a: "add_node_protecting G (ls_from link) [ls_to link] t = (i, t1)" by fastforce
  obtain j t2 where b: "add_node_protecting G (ls_to link) [ls_from link] t1 = (j, t2)" by fastforce
  note T = add_two_nodes [OF L inv a b]
  have "edges G (graph t2) \<subseteq> edges G (graph t)"
    using add_node_edges [OF L a] add_node_edges [OF L b] by blast
  then have count: "sg_edge_count G (graph t2) \<le> edge_count G t"
    using edge_count_mono [OF L] by (simp add: edge_count_def)
  show ?thesis
  proof (cases "sg_edges_connecting G (graph t2) i j")
    case (Cons e es)
    let ?w = "(er_weight e)\<lparr>lq_snr := ls_snr link,
      lq_packet_count := saturating_add (lq_packet_count (er_weight e)) (ls_packet_count link)\<rparr>"
    have "restore_link G now link t = Some (t2\<lparr>graph := sg_set_edge_weight G (er_id e) ?w (graph t2)\<rparr>)"
      using a b Cons set_weight_link(1) [OF L T Cons] by (simp add: restore_link_def)
    moreover have "card (edges G (sg_set_edge_weight G (er_id e) ?w (graph t2))) \<le> card (edges G (graph t2))"
      unfolding laws_set_weight(2) [OF L] by (rule card_image_le) simp
    ultimately show ?thesis
      using topo_inv_set_weight [OF L T(1)] count by (simp add: edge_count_def edge_count_card [OF L])
  next
    case Nil
    let ?w = "\<lparr>lq_snr = ls_snr link, lq_last_observed = now, lq_packet_count = ls_packet_count link\<rparr>"
    have none: "(er_source r, er_target r) \<noteq> (i, j)" if r: "r \<in> edges G (graph t2)" for r
    proof
      assume "(er_source r, er_target r) = (i, j)"
      with r have "r \<in> set (sg_edges_connecting G (graph t2) i j)" unfolding laws_views(5) [OF L] by simp
      with Nil show False by simp
    qed
    have "sg_edge_count G (graph t2) < MAX_LIVE_LINKS" using count room by simp
    from topo_inv_add_edge [OF L T(1) this T(2,3) none, of ?w] obtain g e where g: "sg_add_edge G i j ?w (graph t2) = Some g" "topo_inv G (t2\<lparr>graph := g\<rparr>)"
      "edges G g = insert \<lparr>er_id = e, er_source = i, er_target = j, er_weight = ?w\<rparr> (edges G (graph t2))"
      by blast
    have "restore_link G now link t = Some (t2\<lparr>graph := g\<rparr>)"
      using a b Nil g(1) by (simp add: restore_link_def)
    moreover have "card (edges G g) \<le> Suc (card (edges G (graph t2)))" by (simp add: g(3) card_insert_if)
    ultimately show ?thesis using g(2) count by (simp add: edge_count_def edge_count_card [OF L])
  qed
qed

lemma restore_links_spec:
  assumes L: "stable_graph_laws G"
  shows "topo_inv G t \<Longrightarrow> edge_count G t + length links \<le> MAX_LIVE_LINKS \<Longrightarrow>
    \<exists>t'. restore_links G clock i links t = Some t' \<and> topo_inv G t'"
proof (induction links arbitrary: i t)
  case (Cons link links)
  obtain t1 where "restore_link G (clock i) link t = Some t1" "topo_inv G t1" "edge_count G t1 \<le> Suc (edge_count G t)"
    using restore_link_spec [OF L Cons.prems(1)] Cons.prems(2) by fastforce
  with Cons.IH [of t1 "Suc i"] Cons.prems(2) show ?case by auto
qed simp

lemma fold_add_node:
  assumes L: "stable_graph_laws G"
  shows "topo_inv G t \<Longrightarrow> topo_inv G (fold (\<lambda>n t. snd (add_node G n t)) ns t) \<and>
    edges G (graph (fold (\<lambda>n t. snd (add_node G n t)) ns t)) \<subseteq> edges G (graph t)"
proof (induction ns arbitrary: t)
  case (Cons n ns)
  obtain idx t1 where a: "add_node_protecting G n [] t = (idx, t1)" by fastforce
  have "topo_inv G t1" using add_node_protecting_spec(1) [OF L Cons.prems _ a] by simp
  with Cons.IH [of t1] add_node_edges [OF L a] a show ?case by (auto simp: add_node_def)
qed simp

lemma load_spec:
  assumes L: "stable_graph_laws G" and json: "from_json data = Some snapshot"
  shows "\<exists>t. load_from_bytes G from_json clock data = Some (Inr t) \<and> topo_inv G t"
proof -
  let ?t = "fold (\<lambda>n t. snd (add_node G n t)) (take MAX_LIVE_NODES (ts_nodes snapshot)) (topology_new G)"
  have "topo_inv G ?t" "edges G (graph ?t) \<subseteq> edges G (graph (topology_new G))"
    using fold_add_node [OF L topo_inv_new [OF L]] by blast+
  then have "topo_inv G ?t" "edge_count G ?t = 0"
    by (simp_all add: topology_new_def laws_new [OF L] edge_count_def edge_count_card [OF L])
  then show ?thesis
    using restore_links_spec [OF L, of ?t "take MAX_LIVE_LINKS (ts_links snapshot)" clock 0]
    by (auto simp: load_from_bytes_def json)
qed

subsection \<open>Restoring what was saved\<close>

lemma add_node_room:
  assumes L: "stable_graph_laws G" and inv: "topo_inv G t"
    and room: "contains_node n t \<or> node_count t < MAX_LIVE_NODES"
    and t': "t' = snd (add_node G n t)"
  shows "topo_inv G t'" "contains_node m t' \<longleftrightarrow> m = n \<or> contains_node m t"
    "node_count t' \<le> Suc (node_count t)" "edges G (graph t') \<subseteq> edges G (graph t)"
proof -
  obtain idx where a: "add_node_protecting G n [] t = (idx, t')" using t' by (cases "add_node G n t") (auto simp: add_node_def)
  show "topo_inv G t'" using add_node_protecting_spec(1) [OF L inv _ a] by simp
  show "edges G (graph t') \<subseteq> edges G (graph t)" by (rule add_node_edges [OF L a])
  show "contains_node m t' \<longleftrightarrow> m = n \<or> contains_node m t" "node_count t' \<le> Suc (node_count t)"
    using a room by (auto simp: add_node_protecting_def contains_node_def hm_contains_def node_count_def
        length_hm_insert Let_def split: option.splits prod.splits if_splits)
qed

lemma fold_add_node_room:
  assumes L: "stable_graph_laws G"
  shows "topo_inv G t \<Longrightarrow> node_count t + length ns \<le> MAX_LIVE_NODES \<Longrightarrow>
    contains_node m (fold (\<lambda>n t. snd (add_node G n t)) ns t) \<longleftrightarrow> m \<in> set ns \<or> contains_node m t"
proof (induction ns arbitrary: t)
  case (Cons n ns)
  have room: "contains_node n t \<or> node_count t < MAX_LIVE_NODES" using Cons.prems(2) by simp
  note A = add_node_room [OF L Cons.prems(1) room refl]
  have "node_count (snd (add_node G n t)) + length ns \<le> MAX_LIVE_NODES" using A(3) Cons.prems(2) by simp
  from Cons.IH [OF A(1) this] A(2) show ?case by auto
qed simp

lemma restore_link_fresh:
  assumes L: "stable_graph_laws G" and inv: "topo_inv G t" and room: "edge_count G t < MAX_LIVE_LINKS"
    and ends: "contains_node (ls_from link) t" "contains_node (ls_to link) t"
    and new: "\<not> has_link G (ls_from link) (ls_to link) (\<lambda>_. True) t"
  shows "\<exists>t'. restore_link G now link t = Some t' \<and> topo_inv G t' \<and> node_index t' = node_index t \<and>
    edge_count G t' \<le> Suc (edge_count G t) \<and>
    (\<forall>a b P. has_link G a b P t' \<longleftrightarrow> has_link G a b P t \<or> a = ls_from link \<and> b = ls_to link \<and>
       P \<lparr>lq_snr = ls_snr link, lq_last_observed = now, lq_packet_count = ls_packet_count link\<rparr>)"
proof -
  let ?w = "\<lparr>lq_snr = ls_snr link, lq_last_observed = now, lq_packet_count = ls_packet_count link\<rparr>"
  obtain i where i: "hm_get (node_index t) (ls_from link) = Some i"
    using ends(1) by (auto simp: contains_node_def hm_contains_def)
  obtain j where j: "hm_get (node_index t) (ls_to link) = Some j"
    using ends(2) by (auto simp: contains_node_def hm_contains_def)
  have w: "sg_node_weight G (graph t) i = Some (ls_from link)" "sg_node_weight G (graph t) j = Some (ls_to link)"
    using i j topo_invD(2) [OF inv] by blast+
  have none: "(er_source r, er_target r) \<noteq> (i, j)" if "r \<in> edges G (graph t)" for r
    using new w that by (auto simp: has_link_def)
  then have "set (sg_edges_connecting G (graph t) i j) = {}" unfolding laws_views(5) [OF L] by auto
  then have conn: "sg_edges_connecting G (graph t) i j = []" by simp
  obtain g e where g: "sg_add_edge G i j ?w (graph t) = Some g" "topo_inv G (t\<lparr>graph := g\<rparr>)"
    "sg_node_weight G g = sg_node_weight G (graph t)"
    "edges G g = insert \<lparr>er_id = e, er_source = i, er_target = j, er_weight = ?w\<rparr> (edges G (graph t))"
    using topo_inv_add_edge [OF L inv _ w, of ?w] room none unfolding edge_count_def by blast
  have "restore_link G now link t = Some (t\<lparr>graph := g\<rparr>)"
    using i j conn g(1) by (simp add: restore_link_def add_node_protecting_def)
  moreover have "card (edges G g) \<le> Suc (card (edges G (graph t)))" by (simp add: g(4) card_insert_if)
  moreover have "has_link G a b P (t\<lparr>graph := g\<rparr>) \<longleftrightarrow>
      has_link G a b P t \<or> a = ls_from link \<and> b = ls_to link \<and> P ?w" for a b P
    using w by (auto simp: has_link_def g(3,4))
  ultimately show ?thesis
    using g(2) by (simp add: edge_count_def edge_count_card [OF L])
qed

lemma restore_links_fresh:
  assumes L: "stable_graph_laws G"
  shows "topo_inv G t \<Longrightarrow> edge_count G t + length links \<le> MAX_LIVE_LINKS \<Longrightarrow>
    \<forall>l \<in> set links. contains_node (ls_from l) t \<and> contains_node (ls_to l) t \<Longrightarrow>
    distinct (map (\<lambda>l. (ls_from l, ls_to l)) links) \<Longrightarrow>
    \<forall>l \<in> set links. \<not> has_link G (ls_from l) (ls_to l) (\<lambda>_. True) t \<Longrightarrow>
    \<exists>t'. restore_links G clock i links t = Some t' \<and> topo_inv G t' \<and> node_index t' = node_index t \<and>
      (\<forall>a b s c. has_link G a b (\<lambda>w. lq_snr w = s \<and> lq_packet_count w = c) t' \<longleftrightarrow>
         has_link G a b (\<lambda>w. lq_snr w = s \<and> lq_packet_count w = c) t \<or>
         \<lparr>ls_from = a, ls_to = b, ls_snr = s, ls_packet_count = c\<rparr> \<in> set links)"
proof (induction links arbitrary: i t)
  case (Cons l links)
  obtain t1 where t1: "restore_link G (clock i) l t = Some t1" "topo_inv G t1" "node_index t1 = node_index t"
    "edge_count G t1 \<le> Suc (edge_count G t)"
    "\<And>a b P. has_link G a b P t1 \<longleftrightarrow> has_link G a b P t \<or> a = ls_from l \<and> b = ls_to l \<and>
       P \<lparr>lq_snr = ls_snr l, lq_last_observed = clock i, lq_packet_count = ls_packet_count l\<rparr>"
    using restore_link_fresh [OF L Cons.prems(1), of l "clock i"] Cons.prems(2-5) by auto
  have "edge_count G t1 + length links \<le> MAX_LIVE_LINKS" using t1(4) Cons.prems(2) by simp
  moreover have "\<forall>l' \<in> set links. contains_node (ls_from l') t1 \<and> contains_node (ls_to l') t1"
    using Cons.prems(3) t1(3) by (simp add: contains_node_def)
  moreover have "distinct (map (\<lambda>l. (ls_from l, ls_to l)) links)" using Cons.prems(4) by simp
  moreover have "\<forall>l' \<in> set links. \<not> has_link G (ls_from l') (ls_to l') (\<lambda>_. True) t1"
  proof
    fix l' assume l': "l' \<in> set links"
    then have "(ls_from l', ls_to l') \<noteq> (ls_from l, ls_to l)" using Cons.prems(4)
      by (metis (no_types, lifting) distinct.simps(2) image_eqI list.set_map list.simps(9))
    with l' Cons.prems(5) show "\<not> has_link G (ls_from l') (ls_to l') (\<lambda>_. True) t1" by (simp add: t1(5))
  qed
  ultimately obtain t' where t': "restore_links G clock (Suc i) links t1 = Some t'" "topo_inv G t'"
    "node_index t' = node_index t1"
    "\<And>a b s c. has_link G a b (\<lambda>w. lq_snr w = s \<and> lq_packet_count w = c) t' \<longleftrightarrow>
       has_link G a b (\<lambda>w. lq_snr w = s \<and> lq_packet_count w = c) t1 \<or>
       \<lparr>ls_from = a, ls_to = b, ls_snr = s, ls_packet_count = c\<rparr> \<in> set links"
    using Cons.IH [OF t1(2)] by blast
  have "(\<lparr>ls_from = a, ls_to = b, ls_snr = s, ls_packet_count = c\<rparr> = l) \<longleftrightarrow>
      a = ls_from l \<and> b = ls_to l \<and> ls_snr l = s \<and> ls_packet_count l = c" for a b s c
    by (cases l) auto
  then show ?case using t1 t' by auto
qed simp

subsection \<open>What a snapshot records\<close>

lemma link_snapshot_of_edge:
  assumes L: "stable_graph_laws G" and inv: "topo_inv G t" and r: "r \<in> edges G (graph t)"
  shows "\<exists>a b. sg_node_weight G (graph t) (er_source r) = Some a \<and> sg_node_weight G (graph t) (er_target r) = Some b \<and>
    link_snapshot_of G (graph t) (er_id r) =
      Some \<lparr>ls_from = a, ls_to = b, ls_snr = lq_snr (er_weight r), ls_packet_count = lq_packet_count (er_weight r)\<rparr>"
proof -
  have "sg_edge_endpoints G (graph t) (er_id r) = Some (er_source r, er_target r)"
    using r by (auto simp: laws_lookup(1) [OF L])
  with edge_weight_of [OF L r] topo_invD(3,4) [OF inv r] show ?thesis
    by (auto simp: link_snapshot_of_def)
qed

lemma in_map_filter: "y \<in> set (List.map_filter f xs) \<longleftrightarrow> (\<exists>x \<in> set xs. f x = Some y)"
  by (induction xs) (auto simp: map_filter_simps split: option.splits)

lemma snapshot_links:
  assumes L: "stable_graph_laws G" and inv: "topo_inv G t"
  shows "\<lparr>ls_from = a, ls_to = b, ls_snr = s, ls_packet_count = c\<rparr> \<in> set (ts_links (snapshot_of G t)) \<longleftrightarrow>
    has_link G a b (\<lambda>w. lq_snr w = s \<and> lq_packet_count w = c) t"
  (is "?l \<in> _ \<longleftrightarrow> ?R")
proof -
  have "?l \<in> set (ts_links (snapshot_of G t)) \<longleftrightarrow>
      (\<exists>r \<in> edges G (graph t). link_snapshot_of G (graph t) (er_id r) = Some ?l)"
    by (simp add: snapshot_of_def in_map_filter laws_views(7) [OF L])
  also have "\<dots> \<longleftrightarrow> ?R"
    unfolding has_link_def by (rule bex_cong [OF refl]) (use link_snapshot_of_edge [OF L inv] in fastforce)
  finally show ?thesis .
qed

lemma map_filter_total: "\<forall>x \<in> set xs. f x \<noteq> None \<Longrightarrow> List.map_filter f xs = map (the \<circ> f) xs"
  by (induction xs) (auto simp: map_filter_simps)

lemma snapshot_links_distinct:
  assumes L: "stable_graph_laws G" and inv: "topo_inv G t"
  shows "distinct (map (\<lambda>l. (ls_from l, ls_to l)) (ts_links (snapshot_of G t)))"
    "length (ts_links (snapshot_of G t)) = edge_count G t"
proof -
  let ?f = "link_snapshot_of G (graph t)"
  let ?ids = "sg_edge_indices G (graph t)"
  have tot: "\<forall>x \<in> set ?ids. ?f x \<noteq> None"
    using link_snapshot_of_edge [OF L inv] by (fastforce simp: laws_views(7) [OF L])
  have "inj_on ((\<lambda>l. (ls_from l, ls_to l)) \<circ> (the \<circ> ?f)) (er_id ` edges G (graph t))"
  proof (rule inj_onI)
    fix x y assume xy: "x \<in> er_id ` edges G (graph t)" "y \<in> er_id ` edges G (graph t)"
      and eq: "((\<lambda>l. (ls_from l, ls_to l)) \<circ> (the \<circ> ?f)) x = ((\<lambda>l. (ls_from l, ls_to l)) \<circ> (the \<circ> ?f)) y"
    obtain r where r: "r \<in> edges G (graph t)" "x = er_id r" using xy(1) by blast
    obtain q where q: "q \<in> edges G (graph t)" "y = er_id q" using xy(2) by blast
    have "er_source r = er_source q \<and> er_target r = er_target q"
      using link_snapshot_of_edge [OF L inv r(1)] link_snapshot_of_edge [OF L inv q(1)] eq r(2) q(2) topo_inj [OF inv]
      by auto
    then have "r = q" using topo_invD(5) [OF inv] r(1) q(1) by (auto dest: inj_onD)
    with r q show "x = y" by simp
  qed
  then show "distinct (map (\<lambda>l. (ls_from l, ls_to l)) (ts_links (snapshot_of G t)))"
    by (simp add: snapshot_of_def map_filter_total [OF tot] distinct_map laws_views [OF L])
  have "length ?ids = card (edges G (graph t))"
    using distinct_card [OF laws_views(6) [OF L, of "graph t"]] laws_views(1) [OF L, of "graph t"]
    by (simp add: laws_views(7) [OF L] card_image)
  then show "length (ts_links (snapshot_of G t)) = edge_count G t"
    by (simp add: snapshot_of_def map_filter_total [OF tot] edge_count_def edge_count_card [OF L])
qed

lemma load_snapshot:
  assumes L: "stable_graph_laws G" and inv: "topo_inv G t" and json: "from_json data = Some (snapshot_of G t)"
  shows "\<exists>t'. load_from_bytes G from_json clock data = Some (Inr t') \<and> topo_inv G t' \<and>
    (\<forall>n. contains_node n t' \<longleftrightarrow> contains_node n t) \<and>
    (\<forall>a b s c. has_link G a b (\<lambda>w. lq_snr w = s \<and> lq_packet_count w = c) t' \<longleftrightarrow>
       has_link G a b (\<lambda>w. lq_snr w = s \<and> lq_packet_count w = c) t)"
proof -
  let ?ns = "ts_nodes (snapshot_of G t)" and ?ls = "ts_links (snapshot_of G t)"
  let ?n = "fold (\<lambda>n t. snd (add_node G n t)) ?ns (topology_new G)"
  have len: "length ?ns \<le> MAX_LIVE_NODES" "length ?ls \<le> MAX_LIVE_LINKS"
    using topo_invD(6,7) [OF inv] snapshot_links_distinct(2) [OF L inv] by (simp_all add: snapshot_of_def edge_count_def)
  have n: "topo_inv G ?n" "edges G (graph ?n) = {}"
    using fold_add_node [OF L topo_inv_new [OF L], of ?ns] by (auto simp: topology_new_def laws_new [OF L])
  have "node_count (topology_new G) + length ?ns \<le> MAX_LIVE_NODES"
    using len by (simp add: topology_new_def node_count_def)
  from fold_add_node_room [OF L topo_inv_new [OF L] this]
  have nodes: "contains_node m ?n \<longleftrightarrow> contains_node m t" for m
    by (auto simp: topology_new_def contains_node_def snapshot_of_def hm_contains_def map_of_eq_None_iff)
  have ends: "\<forall>l \<in> set ?ls. contains_node (ls_from l) ?n \<and> contains_node (ls_to l) ?n"
  proof
    fix l assume "l \<in> set ?ls"
    moreover have "l = \<lparr>ls_from = ls_from l, ls_to = ls_to l, ls_snr = ls_snr l, ls_packet_count = ls_packet_count l\<rparr>"
      by simp
    ultimately have "has_link G (ls_from l) (ls_to l) (\<lambda>w. lq_snr w = ls_snr l \<and> lq_packet_count w = ls_packet_count l) t"
      using snapshot_links [OF L inv, of "ls_from l" "ls_to l" "ls_snr l" "ls_packet_count l"] by metis
    then show "contains_node (ls_from l) ?n \<and> contains_node (ls_to l) ?n"
      using topo_invD(2) [OF inv] unfolding nodes by (fastforce simp: has_link_def contains_node_def hm_contains_def)
  qed
  have no: "\<not> has_link G a b P ?n" for a b P by (simp add: has_link_def n(2))
  have "edge_count G ?n + length ?ls \<le> MAX_LIVE_LINKS"
    using len n(2) by (simp add: edge_count_def edge_count_card [OF L])
  from restore_links_fresh [OF L n(1) this ends snapshot_links_distinct(1) [OF L inv], of clock 0] no
  obtain t' where t': "restore_links G clock 0 ?ls ?n = Some t'" "topo_inv G t'" "node_index t' = node_index ?n"
    "\<And>a b s c. has_link G a b (\<lambda>w. lq_snr w = s \<and> lq_packet_count w = c) t' \<longleftrightarrow>
       \<lparr>ls_from = a, ls_to = b, ls_snr = s, ls_packet_count = c\<rparr> \<in> set ?ls" by auto
  have "load_from_bytes G from_json clock data = Some (Inr t')"
    using len t'(1) by (simp add: load_from_bytes_def json)
  moreover have "contains_node m t' \<longleftrightarrow> contains_node m t" for m
    using nodes [of m] t'(3) by (simp add: contains_node_def)
  ultimately show ?thesis using t'(2,4) snapshot_links [OF L inv] by simp
qed

subsection \<open>Histories of the topology\<close>

datatype topo_op =
    AddNode node_num
  | UpdateLink instant node_num node_num f32
  | RemoveStaleNodes instant duration
  | RemoveStaleLinks instant duration

fun topo_step :: "('g, 'n, 'e) stable_graph \<Rightarrow> topo_op \<Rightarrow> ('g, 'n) mesh_topology \<Rightarrow> ('g, 'n) mesh_topology option" where
  "topo_step G (AddNode n) t = Some (snd (add_node G n t))"
| "topo_step G (UpdateLink now from to snr) t = update_link G now from to snr t"
| "topo_step G (RemoveStaleNodes now timeout) t = Some (remove_stale_nodes G now timeout t)"
| "topo_step G (RemoveStaleLinks now timeout) t = Some (remove_stale_links G now timeout t)"

fun topo_run :: "('g, 'n, 'e) stable_graph \<Rightarrow> topo_op list \<Rightarrow> ('g, 'n) mesh_topology \<Rightarrow> ('g, 'n) mesh_topology option" where
  "topo_run G [] t = Some t"
| "topo_run G (x # xs) t = (case topo_step G x t of None \<Rightarrow> None | Some t' \<Rightarrow> topo_run G xs t')"

lemma topo_step_inv:
  assumes L: "stable_graph_laws G" and inv: "topo_inv G t"
  shows "\<exists>t'. topo_step G x t = Some t' \<and> topo_inv G t'"
proof (cases x)
  case (AddNode n)
  with add_node_protecting_spec(1) [OF L inv, of "[]" n] show ?thesis
    by (cases "add_node G n t") (auto simp: add_node_def)
next
  case (UpdateLink now a b s)
  with update_link_spec [OF L inv] show ?thesis by fastforce
next
  case (RemoveStaleNodes now timeout)
  with remove_stale_nodes_spec(1) [OF L inv] inv show ?thesis
    by (cases "timeout \<le> now") (auto simp: remove_stale_nodes_def checked_sub_instant_def)
next
  case (RemoveStaleLinks now timeout)
  with remove_stale_links_inv [OF L inv] show ?thesis by simp
qed

lemma topo_run_inv:
  "stable_graph_laws G \<Longrightarrow> topo_inv G t \<Longrightarrow> \<exists>t'. topo_run G xs t = Some t' \<and> topo_inv G t'"
proof (induction xs arbitrary: t)
  case (Cons x xs)
  with topo_step_inv [of G t x] show ?case by fastforce
qed simp

lemma topo_run_one_link:
  assumes L: "stable_graph_laws G"
  shows "\<exists>t. topo_run G [UpdateLink 5 a b 0] (topology_new G) = Some t \<and> topo_inv G t \<and>
    has_link G a b (\<lambda>w. lq_snr w = 0 \<and> lq_last_observed w = 5) t"
  using update_link_spec [OF L topo_inv_new [OF L], of 5 a b 0]
  by (auto simp: f32_is_finite_def split: if_splits)

subsection \<open>The properties\<close>

text \<open>
  C24. The topology never panics and stays within its bounds. Whatever sequence of node insertions, link updates and stale
  sweeps is run on an empty topology, no operation reaches petgraph's "node index out of bounds" panic, the index map and
  the graph stay in one-to-one correspondence with at most one edge from a node to another, and the node and
  link caps hold.
\<close>

theorem topology_never_panics:
  assumes "stable_graph_laws G"
  shows "\<exists>t. topo_run G ops (topology_new G) = Some t \<and> topo_inv G t"
  by (rule topo_run_inv [OF assms topo_inv_new [OF assms]])

theorem topology_never_panics_witness:
  "stable_graph_laws list_graph \<and>
   (\<exists>t. topo_run list_graph [UpdateLink 5 1 2 0, AddNode 3, RemoveStaleNodes 9 1, UpdateLink 10 2 1 0, RemoveStaleLinks 12 2]
      (topology_new list_graph) = Some t \<and> topo_inv list_graph t)"
  using list_graph_laws topology_never_panics [OF list_graph_laws] by blast

text \<open>
  C6. \<open>connected_components\<close> returns, and what it returns is the partition of the tracked nodes into the classes of the
  undirected reachability relation: every tracked node is in exactly one group, no group is empty, and two nodes share a
  group exactly when a chain of links, in either direction, joins them. \<open>is_partitioned\<close> therefore answers
  whether no such chain exists, for tracked nodes.
\<close>

theorem connected_components_correct:
  assumes "stable_graph_laws G" "topo_inv G t"
  shows "\<exists>cs. connected_components G t = Some cs \<and> distinct (concat cs) \<and> [] \<notin> set cs \<and>
    set (concat cs) = {num. contains_node num t} \<and>
    (\<forall>c \<in> set cs. \<forall>a \<in> set c. \<forall>b. b \<in> set c \<longleftrightarrow> (linked G t)\<^sup>*\<^sup>* a b) \<and>
    (\<forall>a b. contains_node a t \<longrightarrow> contains_node b t \<longrightarrow> is_partitioned G a b t = Some (\<not> (linked G t)\<^sup>*\<^sup>* a b))"
proof -
  obtain cs where cs: "connected_components G t = Some cs" "distinct (concat cs)" "[] \<notin> set cs"
    "set (concat cs) = {num. contains_node num t}"
    "\<forall>c \<in> set cs. \<forall>a \<in> set c. \<forall>b. b \<in> set c \<longleftrightarrow> (linked G t)\<^sup>*\<^sup>* a b"
    using connected_components_spec [OF assms] by blast
  have "is_partitioned G a b t = Some (\<not> (linked G t)\<^sup>*\<^sup>* a b)" if ab: "contains_node a t" "contains_node b t" for a b
  proof -
    obtain c where "c \<in> set cs" "a \<in> set c" using cs(4) ab(1) unfolding set_concat by blast
    then have "list_ex (\<lambda>grp. a \<in> set grp \<and> b \<in> set grp) cs \<longleftrightarrow> (linked G t)\<^sup>*\<^sup>* a b"
      using cs(5) unfolding list_ex_iff by blast
    with ab cs(1) show ?thesis by (simp add: is_partitioned_def contains_node_def)
  qed
  with cs show ?thesis by blast
qed

theorem connected_components_correct_witness:
  "\<exists>t cs. topo_run list_graph [UpdateLink 5 1 2 0] (topology_new list_graph) = Some t \<and>
     stable_graph_laws list_graph \<and> topo_inv list_graph t \<and> has_link list_graph 1 2 (\<lambda>_. True) t \<and>
     connected_components list_graph t = Some cs \<and> distinct (concat cs)"
proof -
  obtain t where t: "topo_run list_graph [UpdateLink 5 1 2 0] (topology_new list_graph) = Some t" "topo_inv list_graph t"
    "has_link list_graph 1 2 (\<lambda>w. lq_snr w = 0 \<and> lq_last_observed w = 5) t"
    using topo_run_one_link [OF list_graph_laws] by blast
  moreover have "has_link list_graph 1 2 (\<lambda>_. True) t" using t(3) by (auto simp: has_link_def)
  ultimately show ?thesis using connected_components_correct [OF list_graph_laws t(2)] list_graph_laws by blast
qed

text \<open>
  The stale sweeps are exact. With a cutoff \<open>now - timeout\<close>, \<open>remove_stale_nodes\<close> keeps precisely the tracked nodes
  that have a link, in either direction, observed since the cutoff, and never drops such a link; \<open>remove_stale_links\<close>
  keeps precisely the links observed since the cutoff and no node disappears.
\<close>

theorem stale_sweeps_exact:
  assumes "stable_graph_laws G" "topo_inv G t" "timeout \<le> now"
  shows "(\<forall>num. contains_node num (remove_stale_nodes G now timeout t) \<longleftrightarrow>
      contains_node num t \<and> alive G (now - timeout) t num) \<and>
    {r \<in> edges G (graph t). \<not> is_stale (now - timeout) (er_weight r)} \<subseteq>
      edges G (graph (remove_stale_nodes G now timeout t)) \<and>
    edges G (graph (remove_stale_links G now timeout t)) =
      {r \<in> edges G (graph t). \<not> is_stale (now - timeout) (er_weight r)} \<and>
    (\<forall>num. contains_node num (remove_stale_links G now timeout t) \<longleftrightarrow> contains_node num t)"
  using remove_stale_nodes_spec(2,3) [OF assms] remove_stale_links_edges [OF assms(1,3)]
  by (auto simp: contains_node_def)

text \<open>
  Snapshots round-trip. When the JSON parser reads back what the printer wrote, loading a saved topology succeeds and
  restores exactly the saved nodes and exactly the saved links with their SNR and packet count (the
  observation times are the load's own), within the caps again. Loading any other bytes is an error or a
  well-formed topology, never a panic.
\<close>

theorem topology_snapshot_roundtrip:
  assumes "stable_graph_laws G" "topo_inv G t"
    and "\<forall>s bs. to_json s = Some bs \<longrightarrow> from_json bs = Some s"
    and "save_to_bytes G to_json t = Inr bs"
  shows "(\<exists>t'. load_from_bytes G from_json clock bs = Some (Inr t') \<and> topo_inv G t' \<and>
      (\<forall>n. contains_node n t' \<longleftrightarrow> contains_node n t) \<and>
      (\<forall>a b s c. has_link G a b (\<lambda>w. lq_snr w = s \<and> lq_packet_count w = c) t' \<longleftrightarrow>
         has_link G a b (\<lambda>w. lq_snr w = s \<and> lq_packet_count w = c) t)) \<and>
    (\<forall>data. load_from_bytes G from_json clock data = Some (Inl TopologySnapshot) \<or>
      (\<exists>t'. load_from_bytes G from_json clock data = Some (Inr t') \<and> topo_inv G t'))"
proof -
  have "from_json bs = Some (snapshot_of G t)"
    using assms(3,4) by (auto simp: save_to_bytes_def split: option.splits)
  moreover have "load_from_bytes G from_json clock data = Some (Inl TopologySnapshot) \<or>
      (\<exists>t'. load_from_bytes G from_json clock data = Some (Inr t') \<and> topo_inv G t')" for data
    using load_spec [OF assms(1)] by (cases "from_json data") (auto simp: load_from_bytes_def)
  ultimately show ?thesis using load_snapshot [OF assms(1,2)] by blast
qed

end
