(* ===== verification/Geo_Signal.thy ===== *)
theory Geo_Signal
  imports Float_Model
begin

section \<open>Signals, coordinates, frequencies\<close>

text \<open>
  The shared vocabulary of the collectors, crate \<open>stoicheion\<close>: \<open>coordinates.rs\<close>, \<open>frequency.rs\<close>,
  \<open>power.rs\<close>, \<open>signal.rs\<close>, \<open>entity.rs\<close> and the newtypes of \<open>id.rs\<close> and \<open>timestamp.rs\<close>. A fresh identifier
  and the time are arguments of the operation that draws them. A JSON value is the
  argument it was made from (\<open>json_arg\<close>).
\<close>

subsection \<open>Coordinates\<close>

datatype datum = Wgs84

record coordinates =
  co_latitude :: f64
  co_longitude :: f64
  co_altitude :: "f64 option"
  co_datum :: datum

datatype coordinates_error =
    LatitudeOutOfRange f64
  | LongitudeOutOfRange f64
  | AltitudeNotFinite f64

definition coordinates_new :: "f64 \<Rightarrow> f64 \<Rightarrow> f64 option \<Rightarrow> coordinates_error + coordinates" where
  "coordinates_new latitude longitude altitude =
     (if \<not> (f64_le (Fin (- 90)) latitude \<and> f64_le latitude (Fin 90)) then Inl (LatitudeOutOfRange latitude)
      else if \<not> (f64_le (Fin (- 180)) longitude \<and> f64_le longitude (Fin 180)) then Inl (LongitudeOutOfRange longitude)
      else case altitude of
             Some alt \<Rightarrow>
               if \<not> f64_is_finite alt then Inl (AltitudeNotFinite alt)
               else Inr \<lparr>co_latitude = latitude, co_longitude = longitude, co_altitude = altitude, co_datum = Wgs84\<rparr>
           | None \<Rightarrow>
               Inr \<lparr>co_latitude = latitude, co_longitude = longitude, co_altitude = altitude, co_datum = Wgs84\<rparr>)"

record coordinates_repr =
  cr_latitude :: f64
  cr_longitude :: f64
  cr_altitude :: "f64 option"
  cr_datum :: datum

definition coordinates_try_from :: "coordinates_repr \<Rightarrow> coordinates_error + coordinates" where
  "coordinates_try_from repr =
     (case coordinates_new (cr_latitude repr) (cr_longitude repr) (cr_altitude repr) of
        Inl e \<Rightarrow> Inl e
      | Inr coords \<Rightarrow> Inr (coords\<lparr>co_datum := cr_datum repr\<rparr>))"

text \<open>Every value of the type lies on the globe.\<close>

definition coordinates_ok :: "coordinates \<Rightarrow> bool" where
  "coordinates_ok c \<longleftrightarrow>
     (\<exists>lat lon. co_latitude c = Fin lat \<and> co_longitude c = Fin lon \<and> \<bar>lat\<bar> \<le> 90 \<and> \<bar>lon\<bar> \<le> 180) \<and>
     (\<forall>alt. co_altitude c = Some alt \<longrightarrow> f64_is_finite alt)"

subsection \<open>Frequencies\<close>

type_synonym frequency = u64

definition freq_khz :: "u64 \<Rightarrow> frequency" where
  "freq_khz value = saturating_mul value 1000"

definition freq_mhz :: "u64 \<Rightarrow> frequency" where
  "freq_mhz value = saturating_mul value 1000000"

definition freq_ghz :: "u64 \<Rightarrow> frequency" where
  "freq_ghz value = saturating_mul value 1000000000"

definition freq_checked_add :: "frequency \<Rightarrow> frequency \<Rightarrow> frequency option" where
  "freq_checked_add a b = checked_add a b"

definition freq_checked_sub :: "frequency \<Rightarrow> frequency \<Rightarrow> frequency option" where
  "freq_checked_sub a b = (if b \<le> a then Some (a - b) else None)"

definition freq_add :: "frequency \<Rightarrow> frequency \<Rightarrow> frequency" where
  "freq_add a b = saturating_add a b"

definition freq_sub :: "frequency \<Rightarrow> frequency \<Rightarrow> frequency" where
  "freq_sub a b = saturating_sub a b"

definition as_f64 :: "u64 \<Rightarrow> f64" where
  "as_f64 n = round64 (of_nat (unat n))"

definition as_khz_f64 :: "frequency \<Rightarrow> f64" where
  "as_khz_f64 f = f64_div round64 (as_f64 f) (Fin 1000)"

definition as_mhz_f64 :: "frequency \<Rightarrow> f64" where
  "as_mhz_f64 f = f64_div round64 (as_f64 f) (Fin 1000000)"

definition as_ghz_f64 :: "frequency \<Rightarrow> f64" where
  "as_ghz_f64 f = f64_div round64 (as_f64 f) (Fin 1000000000)"

subsection \<open>Power\<close>

type_synonym power_dbm = f64

definition power_add :: "power_dbm \<Rightarrow> power_dbm \<Rightarrow> power_dbm" where
  "power_add a b = f64_add round64 a b"

definition power_sub :: "power_dbm \<Rightarrow> power_dbm \<Rightarrow> power_dbm" where
  "power_sub a b = f64_sub round64 a b"

subsection \<open>Signal kinds\<close>

datatype alert_severity = SevLow | SevMedium | SevHigh | SevCritical

datatype tracker_kind = AirTag | SmartTag | Tile | TrackerUnknown

datatype ip_addr = IpV4 u32 | IpV6 "128 word"

datatype rf_detail =
    Transmission frequency power_dbm string frequency
  | Jamming string power_dbm
  | Beacon frequency u32

datatype mesh_detail =
    NodeSeen u32 f32 u8
  | MeshMessage u32 "u32 option" u8
  | MeshPosition u32 coordinates

datatype network_detail =
    Flow ip_addr ip_addr u16 u16 u8
  | DnsQuery string
  | NetAlert u32 alert_severity

datatype proximity_detail =
    Wifi "string option" bytes int u8
  | Ble bytes int "string option"
  | Tracker tracker_kind bytes

datatype gps_detail =
    GpsFix u8 f32 "f32 option"
  | SpoofingSuspected string

datatype environmental_detail =
    Temperature f32
  | Humidity f32
  | Barometric f32

datatype osint_detail =
    FeedItem string string
  | ThreatIndicator string string

datatype signal_kind =
    Rf rf_detail
  | Mesh mesh_detail
  | Network network_detail
  | Proximity proximity_detail
  | Gps gps_detail
  | Environmental environmental_detail
  | Osint osint_detail

subsection \<open>Confidence\<close>

type_synonym confidence = f32

definition confidence_new :: "f32 \<Rightarrow> confidence" where
  "confidence_new value =
     (if f32_is_nan value \<or> f32_is_negative value then 0
      else if f32_gt value 0x3F800000 then 0x3F800000
      else value)"

definition confidence_default :: confidence where
  "confidence_default = 0x3F800000"

subsection \<open>The signal envelope\<close>

type_synonym signal_id = "128 word"
type_synonym device_id = "128 word"

datatype json_arg =
    JString string
  | JUint nat
  | JBool bool
  | JFloat f32
  | JArray "json_arg list"

record geo_signal =
  gs_signal_id :: signal_id
  gs_kind :: signal_kind
  gs_timestamp :: int
  gs_location :: "coordinates option"
  gs_source_device :: "device_id option"
  gs_confidence :: confidence
  gs_metadata :: "(string, json_arg) hash_map"

definition geo_signal_new :: "signal_id \<Rightarrow> signal_kind \<Rightarrow> int \<Rightarrow> coordinates option \<Rightarrow> geo_signal" where
  "geo_signal_new sid kind ts location =
     \<lparr>gs_signal_id = sid, gs_kind = kind, gs_timestamp = ts, gs_location = location, gs_source_device = None,
      gs_confidence = confidence_default, gs_metadata = []\<rparr>"

definition with_device :: "device_id \<Rightarrow> geo_signal \<Rightarrow> geo_signal" where
  "with_device device g = g\<lparr>gs_source_device := Some device\<rparr>"

definition with_confidence :: "confidence \<Rightarrow> geo_signal \<Rightarrow> geo_signal" where
  "with_confidence c g = g\<lparr>gs_confidence := c\<rparr>"

definition with_metadata :: "string \<Rightarrow> json_arg \<Rightarrow> geo_signal \<Rightarrow> geo_signal" where
  "with_metadata key value g = g\<lparr>gs_metadata := hm_insert key value (gs_metadata g)\<rparr>"

subsection \<open>Entities\<close>

datatype entity_kind = EDevice | EPerson | EVehicle | ENetwork | ELocation | EOrganization

record entity =
  en_id :: "128 word"
  en_kind :: entity_kind
  en_name :: "string option"
  en_first_seen :: int
  en_last_seen :: int
  en_attributes :: "(string, json_arg) hash_map"

definition entity_new :: "128 word \<Rightarrow> int \<Rightarrow> entity_kind \<Rightarrow> entity" where
  "entity_new eid now kind =
     \<lparr>en_id = eid, en_kind = kind, en_name = None, en_first_seen = now, en_last_seen = now, en_attributes = []\<rparr>"

definition update_seen :: "int \<Rightarrow> entity \<Rightarrow> entity" where
  "update_seen now e = e\<lparr>en_last_seen := now\<rparr>"

definition set_attribute :: "string \<Rightarrow> json_arg \<Rightarrow> entity \<Rightarrow> entity" where
  "set_attribute key value e = e\<lparr>en_attributes := hm_insert key value (en_attributes e)\<rparr>"

subsection \<open>Lemmas\<close>

lemma f64_within: "f64_le (Fin (- k)) x \<and> f64_le x (Fin k) \<longleftrightarrow> (\<exists>q. x = Fin q \<and> \<bar>q\<bar> \<le> k)"
  by (cases x) (auto simp: f64_le_def f64_eq_def abs_le_iff)

lemma coordinates_new_ok: "coordinates_new lat lon alt = Inr c \<Longrightarrow> coordinates_ok c"
  by (auto simp: coordinates_new_def coordinates_ok_def f64_within split: if_splits option.splits)

lemma coordinates_new_Inr_iff:
  "(\<exists>c. coordinates_new lat lon alt = Inr c) \<longleftrightarrow>
     (\<exists>q. lat = Fin q \<and> \<bar>q\<bar> \<le> 90) \<and> (\<exists>q. lon = Fin q \<and> \<bar>q\<bar> \<le> 180) \<and> (\<forall>a. alt = Some a \<longrightarrow> f64_is_finite a)"
  by (auto simp: coordinates_new_def f64_within split: option.splits)

end
