(* ===== verification/Mesh_Signals.thy ===== *)
theory Mesh_Signals
  imports Node_Db Geo_Signal
begin

section \<open>Mesh events and their signals\<close>

text \<open>
  \<open>kerykeion/src/signals.rs\<close>: the events of the packet processor and the discovery manager, the node an event is about,
  and its conversion to a \<open>GeoSignal\<close>. The identifier and the timestamp of the signal are arguments.
\<close>

subsection \<open>Model\<close>

datatype mesh_event =
    NodeDiscovered node_num "string option" f32 u8
  | NodeOffline node_num
  | PositionUpdate node_num f64 f64 "f32 option"
  | TopologyChange node_num node_num f32
  | LinkDegraded node_num node_num f32 f32
  | PartitionDetected "node_num list list"
  | PartitionHealed "node_num list"
  | GatewayStatusChange node_num bool
  | TelemetryUpdate node_num "u32 option" "f32 option"

fun event_subject :: "mesh_event \<Rightarrow> node_num option" where
  "event_subject (NodeDiscovered node _ _ _) = Some node"
| "event_subject (NodeOffline node) = Some node"
| "event_subject (PositionUpdate node _ _ _) = Some node"
| "event_subject (GatewayStatusChange node _) = Some node"
| "event_subject (TelemetryUpdate node _ _) = Some node"
| "event_subject (TopologyChange from _ _) = Some from"
| "event_subject (LinkDegraded from _ _ _) = Some from"
| "event_subject (PartitionDetected _) = None"
| "event_subject (PartitionHealed _) = None"

definition ok :: "'e + 'a \<Rightarrow> 'a option" where
  "ok r = (case r of Inl _ \<Rightarrow> None | Inr x \<Rightarrow> Some x)"

definition position_location :: "node_position option \<Rightarrow> coordinates option" where
  "position_location pos =
     (case pos of
        None \<Rightarrow> None
      | Some p \<Rightarrow> ok (coordinates_new (np_latitude p) (np_longitude p)
                       (map_option (\<lambda>a. Fin (of_int a)) (np_altitude p))))"

definition convert_node_discovered ::
    "signal_id \<Rightarrow> node_num \<Rightarrow> f32 \<Rightarrow> u8 \<Rightarrow> int \<Rightarrow> coordinates option \<Rightarrow> geo_signal" where
  "convert_node_discovered sid node snr hop_count ts location =
     with_metadata ''event'' (JString ''discovered'')
       (geo_signal_new sid (Mesh (NodeSeen node snr hop_count)) ts location)"

definition convert_node_offline ::
    "signal_id \<Rightarrow> node_num \<Rightarrow> int \<Rightarrow> coordinates option \<Rightarrow> geo_signal" where
  "convert_node_offline sid node ts location =
     with_metadata ''event'' (JString ''offline'')
       (with_confidence (confidence_new 0x3F000000) (geo_signal_new sid (Mesh (NodeSeen node 0 0)) ts location))"

definition convert_position_update ::
    "signal_id \<Rightarrow> node_num \<Rightarrow> f64 \<Rightarrow> f64 \<Rightarrow> f32 option \<Rightarrow> int \<Rightarrow> coordinates option \<Rightarrow> geo_signal" where
  "convert_position_update sid node lat lon alt ts location =
     (case coordinates_new lat lon (map_option f64_of_f32 alt) of
        Inl _ \<Rightarrow> with_metadata ''event'' (JString ''invalid_position'')
                   (geo_signal_new sid (Mesh (NodeSeen node 0 0)) ts location)
      | Inr coords \<Rightarrow> geo_signal_new sid (Mesh (MeshPosition node coords)) ts (Some coords))"

definition convert_topology_change ::
    "signal_id \<Rightarrow> node_num \<Rightarrow> node_num \<Rightarrow> f32 \<Rightarrow> int \<Rightarrow> coordinates option \<Rightarrow> geo_signal" where
  "convert_topology_change sid from to snr ts location =
     with_metadata ''to_node'' (JUint (unat to))
       (with_metadata ''event'' (JString ''topology_change'')
         (geo_signal_new sid (Mesh (NodeSeen from snr 0)) ts location))"

definition convert_link_degraded ::
    "signal_id \<Rightarrow> node_num \<Rightarrow> node_num \<Rightarrow> f32 \<Rightarrow> f32 \<Rightarrow> int \<Rightarrow> coordinates option \<Rightarrow> geo_signal" where
  "convert_link_degraded sid from to old_snr new_snr ts location =
     with_metadata ''old_snr'' (JFloat old_snr)
       (with_metadata ''to_node'' (JUint (unat to))
         (with_metadata ''event'' (JString ''link_degraded'')
           (geo_signal_new sid (Mesh (NodeSeen from new_snr 0)) ts location)))"

definition convert_partition_detected ::
    "signal_id \<Rightarrow> node_num list list \<Rightarrow> int \<Rightarrow> geo_signal" where
  "convert_partition_detected sid components ts =
     with_metadata ''components'' (JArray (map (\<lambda>c. JArray (map (\<lambda>n. JUint (unat n)) c)) components))
       (with_metadata ''event'' (JString ''partition_detected'')
         (with_confidence (confidence_new 0x3F4CCCCD) (geo_signal_new sid (Mesh (NodeSeen 0 0 0)) ts None)))"

definition convert_partition_healed ::
    "signal_id \<Rightarrow> node_num list \<Rightarrow> int \<Rightarrow> geo_signal" where
  "convert_partition_healed sid reunited_nodes ts =
     with_metadata ''reunited_nodes'' (JArray (map (\<lambda>n. JUint (unat n)) reunited_nodes))
       (with_metadata ''event'' (JString ''partition_healed'')
         (geo_signal_new sid (Mesh (NodeSeen 0 0 0)) ts None))"

definition convert_gateway_status ::
    "signal_id \<Rightarrow> node_num \<Rightarrow> bool \<Rightarrow> int \<Rightarrow> coordinates option \<Rightarrow> geo_signal" where
  "convert_gateway_status sid node is_gateway ts location =
     with_metadata ''is_gateway'' (JBool is_gateway)
       (with_metadata ''event'' (JString ''gateway_status'')
         (geo_signal_new sid (Mesh (NodeSeen node 0 0)) ts location))"

definition convert_telemetry ::
    "signal_id \<Rightarrow> node_num \<Rightarrow> u32 option \<Rightarrow> f32 option \<Rightarrow> int \<Rightarrow> coordinates option \<Rightarrow> geo_signal" where
  "convert_telemetry sid node battery_pct voltage ts location =
     (let s0 = with_metadata ''event'' (JString ''telemetry'')
                 (geo_signal_new sid (Mesh (NodeSeen node 0 0)) ts location);
          s1 = (case battery_pct of None \<Rightarrow> s0 | Some pct \<Rightarrow> with_metadata ''battery_pct'' (JUint (unat pct)) s0)
      in case voltage of None \<Rightarrow> s1 | Some v \<Rightarrow> with_metadata ''voltage'' (JFloat v) s1)"

fun mesh_event_to_signal ::
    "signal_id \<Rightarrow> int \<Rightarrow> mesh_event \<Rightarrow> node_position option \<Rightarrow> geo_signal" where
  "mesh_event_to_signal sid ts (NodeDiscovered node _ snr hop_count) pos =
     convert_node_discovered sid node snr hop_count ts (position_location pos)"
| "mesh_event_to_signal sid ts (NodeOffline node) pos =
     convert_node_offline sid node ts (position_location pos)"
| "mesh_event_to_signal sid ts (PositionUpdate node lat lon alt) pos =
     convert_position_update sid node lat lon alt ts (position_location pos)"
| "mesh_event_to_signal sid ts (TopologyChange from to snr) pos =
     convert_topology_change sid from to snr ts (position_location pos)"
| "mesh_event_to_signal sid ts (LinkDegraded from to old_snr new_snr) pos =
     convert_link_degraded sid from to old_snr new_snr ts (position_location pos)"
| "mesh_event_to_signal sid ts (PartitionDetected components) pos =
     convert_partition_detected sid components ts"
| "mesh_event_to_signal sid ts (PartitionHealed reunited_nodes) pos =
     convert_partition_healed sid reunited_nodes ts"
| "mesh_event_to_signal sid ts (GatewayStatusChange node is_gateway) pos =
     convert_gateway_status sid node is_gateway ts (position_location pos)"
| "mesh_event_to_signal sid ts (TelemetryUpdate node battery_pct voltage) pos =
     convert_telemetry sid node battery_pct voltage ts (position_location pos)"

subsection \<open>Where a signal is\<close>

lemma position_location_ok: "position_location p = Some c \<Longrightarrow> coordinates_ok c"
  by (auto simp: position_location_def ok_def coordinates_new_ok split: option.splits sum.splits)

lemmas convert_defs = convert_node_discovered_def convert_node_offline_def convert_position_update_def
  convert_topology_change_def convert_link_degraded_def convert_partition_detected_def
  convert_partition_healed_def convert_gateway_status_def convert_telemetry_def
  with_metadata_def with_confidence_def geo_signal_new_def

lemma signal_location_ok:
  assumes "gs_location (mesh_event_to_signal sid ts e p) = Some c"
  shows "coordinates_ok c"
  using assms
  by (cases e) (auto simp: convert_defs Let_def dest: position_location_ok coordinates_new_ok split: sum.splits option.splits)

end
