(* ===== verification/Packet_Processor.thy ===== *)
theory Packet_Processor
  imports Handshake Mesh_Signals Mesh_Router Topology_Snapshot
begin

section \<open>Packet processing\<close>

text \<open>
  \<open>kerykeion/src/processor.rs\<close>: \<open>PacketProcessor\<close>, which turns every received packet into updates of the node database
  and the topology and into signals, and \<open>RoutingProcessor\<close>, which turns acknowledgements and refusals into
  delivery updates. The protobuf decoders are the fields of a parameter (\<open>payload_codec\<close>); wall-clock readings
  are \<open>ts 0\<close> (passive learning), \<open>ts 1\<close> (the payload handler) and \<open>ts (Suc (Suc i))\<close> (the i-th signal), the monotonic readings of link
  updates are \<open>clock 0, clock 1, \<dots>\<close>. As in the topology, \<open>None\<close> is a panic. The broadcast
  channel is the list of signals sent.
\<close>

subsection \<open>Model\<close>

record device_metrics_proto =
  dp_battery_level :: u32
  dp_voltage :: f32
  dp_channel_utilization :: f32
  dp_air_util_tx :: f32

record telemetry_proto =
  tp_variant :: "device_metrics_proto option"

record neighbor =
  nb_node_id :: u32
  nb_snr :: f32

record neighbor_info =
  nei_node_id :: u32
  nei_neighbors :: "neighbor list"

record route_discovery =
  rd_route :: "u32 list"
  rd_snr_towards :: "int list"
  rd_back :: "u32 list"
  rd_snr_back :: "int list"

record routing_msg =
  rm_error_reason :: "int option"

record payload_codec =
  dec_user :: "bytes \<Rightarrow> user_proto option"
  dec_position :: "bytes \<Rightarrow> position_proto option"
  dec_telemetry :: "bytes \<Rightarrow> telemetry_proto option"
  dec_neighbor_info :: "bytes \<Rightarrow> neighbor_info option"
  dec_route :: "bytes \<Rightarrow> route_discovery option"
  dec_routing :: "bytes \<Rightarrow> routing_msg option"

definition POSITION_APP :: int where "POSITION_APP = 3"
definition NODEINFO_APP :: int where "NODEINFO_APP = 4"
definition ROUTING_APP :: int where "ROUTING_APP = 5"
definition TELEMETRY_APP :: int where "TELEMETRY_APP = 67"
definition TRACEROUTE_APP :: int where "TRACEROUTE_APP = 70"
definition NEIGHBORINFO_APP :: int where "NEIGHBORINFO_APP = 71"

record ('g, 'n) packet_processor =
  pk_node_db :: node_db
  pk_topology :: "('g, 'n) mesh_topology"

definition bare_node :: "node_num \<Rightarrow> mesh_node" where
  "bare_node num = \<lparr>mn_num = num, mn_user = None, mn_position = None, mn_metrics = None,
     mn_last_heard = None, mn_snr = None, mn_hop_count = None\<rparr>"

definition get_or_bare :: "node_num \<Rightarrow> node_db \<Rightarrow> mesh_node" where
  "get_or_bare num db = (case node_get num db of None \<Rightarrow> bare_node num | Some node \<Rightarrow> node)"

definition rx_snr_of :: "mesh_packet \<Rightarrow> f32 option" where
  "rx_snr_of packet = (if f32_is_zero (mp_rx_snr packet) then None else Some (mp_rx_snr packet))"

definition learned_node :: "timestamp \<Rightarrow> mesh_packet \<Rightarrow> mesh_node \<Rightarrow> mesh_node" where
  "learned_node now packet node =
     (let n1 = node\<lparr>mn_last_heard := Some now\<rparr>;
          n2 = (case rx_snr_of packet of None \<Rightarrow> n1 | Some s \<Rightarrow> n1\<lparr>mn_snr := Some s\<rparr>)
      in case hop_count_from_wire (mp_hop_start packet) (mp_hop_limit packet) of
           None \<Rightarrow> n2
         | Some h \<Rightarrow> n2\<lparr>mn_hop_count := Some h\<rparr>)"

definition apply_passive_learning ::
    "('g, 'n, 'e) stable_graph \<Rightarrow> timestamp \<Rightarrow> instant \<Rightarrow> mesh_packet \<Rightarrow> node_num \<Rightarrow>
       ('g, 'n) packet_processor \<Rightarrow> ('g, 'n) packet_processor option" where
  "apply_passive_learning G now clk packet from p =
     (let db = node_insert (learned_node now packet (get_or_bare from (pk_node_db p))) (pk_node_db p);
          p1 = p\<lparr>pk_node_db := db\<rparr>
      in if hop_count_from_wire (mp_hop_start packet) (mp_hop_limit packet) = Some 0
         then case my_node db of
                None \<Rightarrow> Some p1
              | Some mine \<Rightarrow>
                  (case rx_snr_of packet of
                     None \<Rightarrow> Some p1
                   | Some s \<Rightarrow>
                       map_option (\<lambda>t. p1\<lparr>pk_topology := t\<rparr>)
                         (update_link G clk from mine s (pk_topology p1)))
         else Some p1)"

definition unwrap_or :: "'a option \<Rightarrow> 'a \<Rightarrow> 'a" where
  "unwrap_or x d = (case x of None \<Rightarrow> d | Some y \<Rightarrow> y)"

definition handle_nodeinfo ::
    "('g, 'n, 'e) stable_graph \<Rightarrow> payload_codec \<Rightarrow> timestamp \<Rightarrow> node_num \<Rightarrow> bytes \<Rightarrow>
       ('g, 'n) packet_processor \<Rightarrow> ('g, 'n) packet_processor \<times> mesh_event list" where
  "handle_nodeinfo G D now from payload p =
     (case dec_user D payload of
        None \<Rightarrow> (p, [])
      | Some u \<Rightarrow>
          let user = \<lparr>ui_id = up_id u, ui_long_name = up_long_name u, ui_short_name = up_short_name u,
                      ui_hw_model = hw_model_of (up_hw_model u), ui_is_licensed = up_is_licensed u\<rparr>;
              is_new = (case node_get from (pk_node_db p) of None \<Rightarrow> True | Some n \<Rightarrow> mn_user n = None);
              node = (get_or_bare from (pk_node_db p))\<lparr>mn_user := Some user, mn_last_heard := Some now\<rparr>;
              db = node_insert node (pk_node_db p);
              p' = p\<lparr>pk_node_db := db, pk_topology := snd (add_node G from (pk_topology p))\<rparr>;
              known = node_get from db
          in (p', if is_new
                  then [NodeDiscovered from (Some (ui_short_name user))
                          (unwrap_or (Option.bind known mn_snr) 0) (unwrap_or (Option.bind known mn_hop_count) 0)]
                  else []))"

definition handle_position ::
    "payload_codec \<Rightarrow> (int \<Rightarrow> timestamp option) \<Rightarrow> timestamp \<Rightarrow> node_num \<Rightarrow> bytes \<Rightarrow>
       ('g, 'n) packet_processor \<Rightarrow> ('g, 'n) packet_processor \<times> mesh_event list" where
  "handle_position D from_second now from payload p =
     (case dec_position D payload of
        None \<Rightarrow> (p, [])
      | Some pos \<Rightarrow>
          let lat = degrees (pp_latitude_i pos); lon = degrees (pp_longitude_i pos)
          in case coordinates_new lat lon None of
               Inl _ \<Rightarrow> (p, [])
             | Inr _ \<Rightarrow>
                 let alt = (if pp_altitude pos \<noteq> 0 then Some (pp_altitude pos) else None);
                     place = \<lparr>np_latitude = lat, np_longitude = lon, np_altitude = alt,
                              np_timestamp = from_second (uint (pp_time pos))\<rparr>;
                     node = (get_or_bare from (pk_node_db p))\<lparr>mn_position := Some place, mn_last_heard := Some now\<rparr>
                 in (p\<lparr>pk_node_db := node_insert node (pk_node_db p)\<rparr>,
                     [PositionUpdate from lat lon (map_option i32_as_f32 alt)]))"

definition positive :: "f32 \<Rightarrow> f32 option" where
  "positive x = (if f32_gt x 0 then Some x else None)"

definition metrics_of :: "device_metrics_proto \<Rightarrow> device_metrics" where
  "metrics_of dm =
     \<lparr>dm_battery_level = (if dp_battery_level dm > 0 then Some (dp_battery_level dm) else None),
      dm_voltage = positive (dp_voltage dm),
      dm_channel_utilization = positive (dp_channel_utilization dm),
      dm_air_util_tx = positive (dp_air_util_tx dm)\<rparr>"

definition handle_telemetry ::
    "payload_codec \<Rightarrow> timestamp \<Rightarrow> node_num \<Rightarrow> bytes \<Rightarrow>
       ('g, 'n) packet_processor \<Rightarrow> ('g, 'n) packet_processor \<times> mesh_event list" where
  "handle_telemetry D now from payload p =
     (case dec_telemetry D payload of
        None \<Rightarrow> (p, [])
      | Some telem \<Rightarrow>
          (case tp_variant telem of
             None \<Rightarrow> (p, [])
           | Some dm \<Rightarrow>
               let metrics = metrics_of dm;
                   p' = (case node_get from (pk_node_db p) of
                           None \<Rightarrow> p
                         | Some existing \<Rightarrow>
                             p\<lparr>pk_node_db := node_insert
                                 (existing\<lparr>mn_metrics := Some metrics, mn_last_heard := Some now\<rparr>) (pk_node_db p)\<rparr>)
               in (p', [TelemetryUpdate from (dm_battery_level metrics) (dm_voltage metrics)])))"

text \<open>A run of link updates, each at its own reading of the monotonic clock.\<close>

fun update_links ::
    "('g, 'n, 'e) stable_graph \<Rightarrow> (nat \<Rightarrow> instant) \<Rightarrow> nat \<Rightarrow> (node_num \<times> node_num \<times> f32) list \<Rightarrow>
       ('g, 'n) mesh_topology \<Rightarrow> ('g, 'n) mesh_topology option" where
  "update_links G clock i [] t = Some t"
| "update_links G clock i ((from, to, snr) # ls) t =
     (case update_link G (clock i) from to snr t of
        None \<Rightarrow> None
      | Some t' \<Rightarrow> update_links G clock (Suc i) ls t')"

definition link_event :: "node_num \<times> node_num \<times> f32 \<Rightarrow> mesh_event" where
  "link_event l = (case l of (from, to, snr) \<Rightarrow> TopologyChange from to snr)"

definition handle_neighborinfo ::
    "('g, 'n, 'e) stable_graph \<Rightarrow> payload_codec \<Rightarrow> (nat \<Rightarrow> instant) \<Rightarrow> node_num \<Rightarrow> bytes \<Rightarrow>
       ('g, 'n) packet_processor \<Rightarrow> (('g, 'n) packet_processor \<times> mesh_event list) option" where
  "handle_neighborinfo G D clock from payload p =
     (case dec_neighbor_info D payload of
        None \<Rightarrow> Some (p, [])
      | Some ni \<Rightarrow>
          if nei_node_id ni \<noteq> from then Some (p, [])
          else
            let links = map (\<lambda>nb. (from, nb_node_id nb, nb_snr nb)) (nei_neighbors ni)
            in map_option (\<lambda>t. (p\<lparr>pk_topology := t\<rparr>, map link_event links))
                 (update_links G clock 1 links (snd (add_node G from (pk_topology p)))))"

definition hop_snr :: "int list \<Rightarrow> nat \<Rightarrow> f32" where
  "hop_snr snrs i = (if i < length snrs then i32_as_f32 (snrs ! i) else 0)"

definition hops :: "node_num list \<Rightarrow> int list \<Rightarrow> (node_num \<times> node_num \<times> f32) list" where
  "hops path snrs = map (\<lambda>i. (path ! i, path ! Suc i, hop_snr snrs i)) [0..<length path - 1]"

definition handle_traceroute ::
    "('g, 'n, 'e) stable_graph \<Rightarrow> payload_codec \<Rightarrow> (nat \<Rightarrow> instant) \<Rightarrow> node_num \<Rightarrow> mesh_packet \<Rightarrow> bytes \<Rightarrow>
       ('g, 'n) packet_processor \<Rightarrow> (('g, 'n) packet_processor \<times> mesh_event list) option" where
  "handle_traceroute G D clock from packet payload p =
     (case dec_route D payload of
        None \<Rightarrow> Some (p, [])
      | Some route \<Rightarrow>
          let dest = mp_to packet;
              path = from # rd_route route @ [dest];
              forward = hops path (rd_snr_towards route);
              back = (if rd_back route = [] then []
                      else hops (dest # rd_back route @ [from]) (rd_snr_back route));
              t1 = fold (\<lambda>n t. snd (add_node G n t)) path (pk_topology p)
          in map_option (\<lambda>t. (p\<lparr>pk_topology := t\<rparr>, map link_event forward))
               (update_links G clock 1 (forward @ back) t1))"

definition signals_for ::
    "(nat \<Rightarrow> signal_id) \<Rightarrow> (nat \<Rightarrow> timestamp) \<Rightarrow> node_db \<Rightarrow> mesh_event list \<Rightarrow> geo_signal list" where
  "signals_for ids ts db events =
     map (\<lambda>(i, e). mesh_event_to_signal (ids i) (ts (Suc (Suc i))) e
            (Option.bind (Option.bind (event_subject e) (\<lambda>n. node_get n db)) mn_position))
       (enumerate 0 events)"

definition dispatch_payload ::
    "('g, 'n, 'e) stable_graph \<Rightarrow> payload_codec \<Rightarrow> (int \<Rightarrow> timestamp option) \<Rightarrow> (nat \<Rightarrow> timestamp) \<Rightarrow> (nat \<Rightarrow> instant) \<Rightarrow>
       node_num \<Rightarrow> mesh_packet \<Rightarrow> data_msg \<Rightarrow> ('g, 'n) packet_processor \<Rightarrow>
       (('g, 'n) packet_processor \<times> mesh_event list) option" where
  "dispatch_payload G D from_second ts clock from packet decoded p =
     (let payload = d_payload decoded
      in if d_portnum decoded = NODEINFO_APP then Some (handle_nodeinfo G D (ts 1) from payload p)
         else if d_portnum decoded = POSITION_APP then Some (handle_position D from_second (ts 1) from payload p)
         else if d_portnum decoded = TELEMETRY_APP then Some (handle_telemetry D (ts 1) from payload p)
         else if d_portnum decoded = NEIGHBORINFO_APP then handle_neighborinfo G D clock from payload p
         else if d_portnum decoded = TRACEROUTE_APP then handle_traceroute G D clock from packet payload p
         else Some (p, []))"

definition process_mesh_packet ::
    "('g, 'n, 'e) stable_graph \<Rightarrow> payload_codec \<Rightarrow> (int \<Rightarrow> timestamp option) \<Rightarrow> (nat \<Rightarrow> signal_id) \<Rightarrow>
       (nat \<Rightarrow> timestamp) \<Rightarrow> (nat \<Rightarrow> instant) \<Rightarrow> mesh_packet \<Rightarrow> ('g, 'n) packet_processor \<Rightarrow>
       (mesh_event list \<times> geo_signal list \<times> ('g, 'n) packet_processor) option" where
  "process_mesh_packet G D from_second ids ts clock packet p =
     (case claimed_from_wire (mp_from packet) of
        None \<Rightarrow> Some ([], [], p)
      | Some from \<Rightarrow>
          (case apply_passive_learning G (ts 0) (clock 0) packet from p of
             None \<Rightarrow> None
           | Some p1 \<Rightarrow>
               (case mp_payload_variant packet of
                  Some (Decoded decoded) \<Rightarrow>
                    map_option (\<lambda>(p2, events). (events, signals_for ids ts (pk_node_db p2) events, p2))
                      (dispatch_payload G D from_second ts clock from packet decoded p1)
                | _ \<Rightarrow> Some ([], [], p1))))"

subsection \<open>Routing acknowledgements\<close>

datatype routing_result =
    Ack packet_id
  | Nak packet_id routing_error
  | UnknownError packet_id int
  | NotRouting

fun routing_error_i32 :: "routing_error \<Rightarrow> int" where
  "routing_error_i32 RNone = 0"
| "routing_error_i32 NoRoute = 1"
| "routing_error_i32 GotNak = 2"
| "routing_error_i32 Timeout = 3"
| "routing_error_i32 NoInterface = 4"
| "routing_error_i32 MaxRetransmit = 5"
| "routing_error_i32 NoChannel = 6"
| "routing_error_i32 TooLarge = 7"
| "routing_error_i32 NoResponse = 8"
| "routing_error_i32 DutyCycleLimit = 9"
| "routing_error_i32 BadRequest = 32"
| "routing_error_i32 NotAuthorized = 33"

definition routing_error_try_from :: "int \<Rightarrow> routing_error option" where
  "routing_error_try_from code =
     find (\<lambda>e. routing_error_i32 e = code)
       [RNone, NoRoute, GotNak, Timeout, NoInterface, MaxRetransmit, NoChannel, TooLarge, NoResponse,
        DutyCycleLimit, BadRequest, NotAuthorized]"

definition process_routing :: "payload_codec \<Rightarrow> mesh_packet \<Rightarrow> routing_result" where
  "process_routing D packet =
     (case mp_payload_variant packet of
        Some (Decoded data) \<Rightarrow>
          if d_portnum data \<noteq> ROUTING_APP then NotRouting
          else if d_request_id data = 0 then NotRouting
          else (case dec_routing D (d_payload data) of
                  None \<Rightarrow> NotRouting
                | Some msg \<Rightarrow>
                    (case rm_error_reason msg of
                       None \<Rightarrow> NotRouting
                     | Some code \<Rightarrow>
                         (case routing_error_try_from code of
                            Some RNone \<Rightarrow> Ack (d_request_id data)
                          | Some e \<Rightarrow> Nak (d_request_id data) e
                          | None \<Rightarrow> UnknownError (d_request_id data) code)))
      | _ \<Rightarrow> NotRouting)"

fun apply_routing_result ::
    "instant \<Rightarrow> routing_result \<Rightarrow> delivery_tracker \<times> outbound_queue \<Rightarrow> delivery_tracker \<times> outbound_queue" where
  "apply_routing_result now (Ack pid) (d, q) =
     (mark_acknowledged now pid None d, snd (outbound_handle_ack pid q))"
| "apply_routing_result now (Nak pid e) (d, q) =
     (case outbound_handle_nak pid q of
        (retried, q') \<Rightarrow> (if retried then record_retry pid d else mark_failed pid (DFNak e) d, q'))"
| "apply_routing_result now (UnknownError pid code) (d, q) =
     (case outbound_handle_nak pid q of
        (retried, q') \<Rightarrow> (if retried then record_retry pid d else mark_failed pid (DFUnknownNak code) d, q'))"
| "apply_routing_result now NotRouting (d, q) = (d, q)"

subsection \<open>Invariants\<close>

definition processor_inv :: "('g, 'n, 'e) stable_graph \<Rightarrow> ('g, 'n) packet_processor \<Rightarrow> bool" where
  "processor_inv G p \<longleftrightarrow> node_db_inv (pk_node_db p) \<and> topo_inv G (pk_topology p)"

lemma mn_num_bare [simp]: "mn_num (bare_node num) = num"
  by (simp add: bare_node_def)

lemma mn_num_get:
  "node_db_inv db \<Longrightarrow> node_get num db = Some node \<Longrightarrow> mn_num node = num"
  by (auto simp: node_db_inv_def node_get_def dest: map_of_SomeD)

lemma mn_num_get_or_bare [simp]: "node_db_inv db \<Longrightarrow> mn_num (get_or_bare num db) = num"
  by (auto simp: get_or_bare_def mn_num_get split: option.splits)

lemma learned_node_simps [simp]:
  "mn_num (learned_node now packet node) = mn_num node"
  "mn_last_heard (learned_node now packet node) = Some now"
  "mn_position (learned_node now packet node) = mn_position node"
  by (simp_all add: learned_node_def Let_def split: option.splits)

text \<open>What an operation may do to the set of nodes of the topology: add nodes of a given set, and drop any.\<close>

definition grows_by :: "node_num set \<Rightarrow> ('g, 'n) mesh_topology \<Rightarrow> ('g, 'n) mesh_topology \<Rightarrow> bool" where
  "grows_by S t t' \<longleftrightarrow> (\<forall>m. contains_node m t' \<longrightarrow> contains_node m t \<or> m \<in> S)"

lemma grows_by_refl [simp, intro]: "grows_by S t t"
  by (simp add: grows_by_def)

lemma grows_by_trans: "grows_by S t t1 \<Longrightarrow> grows_by S t1 t2 \<Longrightarrow> grows_by S t t2"
  unfolding grows_by_def by blast

lemma grows_by_mono: "grows_by S t t' \<Longrightarrow> S \<subseteq> S' \<Longrightarrow> grows_by S' t t'"
  unfolding grows_by_def by blast

lemma grows_by_add: "n \<in> S \<Longrightarrow> grows_by S t (snd (add_node_protecting G n protect t))"
  by (auto simp: grows_by_def contains_node_def hm_contains_def add_node_protecting_def evict_coldest_node_def Let_def case_prod_beta
      split: option.splits if_splits)

lemma grows_by_update_link:
  assumes "update_link G now a b snr t = Some t'" "a \<in> S" "b \<in> S"
  shows "grows_by S t t'"
proof (cases "f32_is_finite snr")
  case False
  with assms(1) show ?thesis by (simp add: update_link_def)
next
  case True
  let ?t1 = "snd (add_node_protecting G a [b] t)"
  let ?t2 = "snd (add_node_protecting G b [a] ?t1)"
  have "node_index t' = node_index ?t2"
    using assms(1) True by (auto simp: update_link_def Let_def case_prod_beta split: list.splits option.splits)
  then have "grows_by S ?t2 t'" by (simp add: grows_by_def contains_node_def)
  then show ?thesis using grows_by_add assms(2,3) grows_by_trans by metis
qed

lemma grows_by_update_links:
  "update_links G clock i ls t = Some t' \<Longrightarrow> \<forall>(a, b, _) \<in> set ls. a \<in> S \<and> b \<in> S \<Longrightarrow> grows_by S t t'"
proof (induction ls arbitrary: i t)
  case (Cons l ls)
  obtain a b snr where l: "l = (a, b, snr)" by (cases l) auto
  with Cons.prems obtain t1 where "update_link G (clock i) a b snr t = Some t1" "update_links G clock (Suc i) ls t1 = Some t'"
    by (auto split: option.splits)
  with Cons l show ?case by (auto intro: grows_by_trans [OF grows_by_update_link])
qed simp

lemma grows_by_fold_add: "set ns \<subseteq> S \<Longrightarrow> grows_by S t (fold (\<lambda>n t. snd (add_node G n t)) ns t)"
proof (induction ns arbitrary: t)
  case (Cons n ns)
  then have "grows_by S t (snd (add_node G n t))" by (simp add: add_node_def grows_by_add)
  with Cons show ?case by (auto intro: grows_by_trans)
qed simp

lemma hops_ends: "(a, b, snr) \<in> set (hops path snrs) \<Longrightarrow> a \<in> set path \<and> b \<in> set path"
  by (auto simp: hops_def)

text \<open>The nodes a packet names, to the topology: its sender, the local radio, and what its payload lists.\<close>

definition named_nodes :: "payload_codec \<Rightarrow> node_num option \<Rightarrow> node_num \<Rightarrow> mesh_packet \<Rightarrow> node_num set" where
  "named_nodes D mine from packet = {from} \<union> set_option mine \<union>
     (case mp_payload_variant packet of
        Some (Decoded d) \<Rightarrow>
          if d_portnum d = NEIGHBORINFO_APP
          then (case dec_neighbor_info D (d_payload d) of None \<Rightarrow> {} | Some ni \<Rightarrow> set (map nb_node_id (nei_neighbors ni)))
          else if d_portnum d = TRACEROUTE_APP
          then (case dec_route D (d_payload d) of
                  None \<Rightarrow> {} | Some route \<Rightarrow> set (mp_to packet # rd_route route @ rd_back route))
          else {}
      | _ \<Rightarrow> {})"

lemma update_links_inv:
  assumes L: "stable_graph_laws G"
  shows "topo_inv G t \<Longrightarrow> \<exists>t'. update_links G clock i ls t = Some t' \<and> topo_inv G t'"
proof (induction ls arbitrary: i t)
  case (Cons l ls)
  obtain a b s where l: "l = (a, b, s)" by (cases l) auto
  obtain t1 where "update_link G (clock i) a b s t = Some t1" "topo_inv G t1"
    using update_link_spec [OF L Cons.prems] by blast
  with Cons.IH [of t1 "Suc i"] l show ?case by auto
qed simp

lemma add_node_inv:
  assumes L: "stable_graph_laws G" and inv: "topo_inv G t"
  shows "topo_inv G (snd (add_node G n t))"
  using add_node_protecting_spec(1) [OF L inv, of "[]" n] by (cases "add_node G n t") (simp add: add_node_def)

lemma passive_learning_spec:
  assumes L: "stable_graph_laws G" and inv: "processor_inv G p"
  shows "\<exists>p'. apply_passive_learning G now clk packet from p = Some p' \<and> processor_inv G p' \<and>
    pk_node_db p' = node_insert (learned_node now packet (get_or_bare from (pk_node_db p))) (pk_node_db p)"
proof -
  let ?db = "node_insert (learned_node now packet (get_or_bare from (pk_node_db p))) (pk_node_db p)"
  have db: "node_db_inv ?db" using inv by (auto simp: processor_inv_def intro: inv_intros)
  have link: "\<exists>t. update_link G clk from mine s (pk_topology p) = Some t \<and> topo_inv G t" for mine s
    using update_link_spec [OF L, of "pk_topology p" clk "from" mine s] inv by (auto simp: processor_inv_def)
  show ?thesis
  proof (cases "\<exists>mine s. hop_count_from_wire (mp_hop_start packet) (mp_hop_limit packet) = Some 0 \<and>
      my_node ?db = Some mine \<and> rx_snr_of packet = Some s")
    case True
    then obtain mine s where *: "hop_count_from_wire (mp_hop_start packet) (mp_hop_limit packet) = Some 0"
      "my_node ?db = Some mine" "rx_snr_of packet = Some s" by blast
    obtain t where "update_link G clk from mine s (pk_topology p) = Some t" "topo_inv G t" using link by blast
    with * db show ?thesis by (simp add: apply_passive_learning_def Let_def processor_inv_def)
  next
    case False
    then have "apply_passive_learning G now clk packet from p = Some (p\<lparr>pk_node_db := ?db\<rparr>)"
      by (auto simp: apply_passive_learning_def Let_def split: option.splits)
    with db inv show ?thesis by (simp add: processor_inv_def)
  qed
qed

text \<open>What a payload handler may do to the node database: put one record for the sender, or nothing.\<close>

definition touches_only :: "node_num \<Rightarrow> timestamp \<Rightarrow> node_db \<Rightarrow> node_db \<Rightarrow> bool" where
  "touches_only from now db db' \<longleftrightarrow>
     db' = db \<or> (\<exists>node. mn_num node = from \<and> mn_last_heard node = Some now \<and> db' = node_insert node db)"

lemma touches_only_refl [simp, intro]: "touches_only from now db db"
  by (simp add: touches_only_def)

lemma touches_only_insert [intro]:
  "mn_num node = from \<Longrightarrow> mn_last_heard node = Some now \<Longrightarrow> touches_only from now db (node_insert node db)"
  by (auto simp: touches_only_def)

lemma handle_nodeinfo_spec:
  assumes "stable_graph_laws G" "processor_inv G p" "handle_nodeinfo G D now from payload p = (p', events)"
  shows "processor_inv G p'" "touches_only from now (pk_node_db p) (pk_node_db p')"
  using assms
  by (auto simp: handle_nodeinfo_def Let_def processor_inv_def add_node_inv intro!: inv_intros touches_only_insert
      split: option.splits)

lemma handle_position_spec:
  assumes "processor_inv G p" "handle_position D fs now from payload p = (p', events)"
  shows "processor_inv G p'" "touches_only from now (pk_node_db p) (pk_node_db p')"
  using assms
  by (auto simp: handle_position_def Let_def processor_inv_def intro!: inv_intros touches_only_insert
      split: option.splits sum.splits)

lemma handle_telemetry_spec:
  assumes inv: "processor_inv G p" and h: "handle_telemetry D now from payload p = (p', events)"
  shows "processor_inv G p'" "touches_only from now (pk_node_db p) (pk_node_db p')"
proof -
  have "mn_num existing = from" if "node_get from (pk_node_db p) = Some existing" for existing
    using that inv mn_num_get by (auto simp: processor_inv_def)
  with h have "pk_topology p' = pk_topology p \<and> touches_only from now (pk_node_db p) (pk_node_db p')"
    by (auto simp: handle_telemetry_def Let_def intro!: touches_only_insert split: option.splits)
  moreover from this inv have "node_db_inv (pk_node_db p')"
    by (auto simp: touches_only_def processor_inv_def intro: inv_intros)
  ultimately show "processor_inv G p'" "touches_only from now (pk_node_db p) (pk_node_db p')"
    using inv by (auto simp: processor_inv_def)
qed

lemma handle_neighborinfo_spec:
  assumes L: "stable_graph_laws G" and inv: "processor_inv G p"
  shows "\<exists>p' events. handle_neighborinfo G D clock from payload p = Some (p', events) \<and>
    processor_inv G p' \<and> pk_node_db p' = pk_node_db p"
proof -
  have "\<exists>t'. update_links G clock 1 ls (snd (add_node G from (pk_topology p))) = Some t' \<and> topo_inv G t'" for ls
    using update_links_inv [OF L add_node_inv [OF L]] inv by (simp add: processor_inv_def)
  with inv show ?thesis
    by (fastforce simp: handle_neighborinfo_def Let_def processor_inv_def split: option.splits)
qed

lemma handle_traceroute_spec:
  assumes L: "stable_graph_laws G" and inv: "processor_inv G p"
  shows "\<exists>p' events. handle_traceroute G D clock from packet payload p = Some (p', events) \<and>
    processor_inv G p' \<and> pk_node_db p' = pk_node_db p"
proof (cases "dec_route D payload")
  case None
  with inv show ?thesis by (simp add: handle_traceroute_def)
next
  case (Some route)
  have "\<exists>t'. update_links G clock 1 ls (fold (\<lambda>n t. snd (add_node G n t)) path (pk_topology p)) = Some t' \<and>
      topo_inv G t'" for ls path
    using update_links_inv [OF L] fold_add_node [OF L, of "pk_topology p" path] inv by (simp add: processor_inv_def)
  then obtain t' where "update_links G clock 1
      (hops (from # rd_route route @ [mp_to packet]) (rd_snr_towards route) @
       (if rd_back route = [] then [] else hops (mp_to packet # rd_back route @ [from]) (rd_snr_back route)))
      (fold (\<lambda>n t. snd (add_node G n t)) (from # rd_route route @ [mp_to packet]) (pk_topology p)) = Some t'"
    "topo_inv G t'" by blast
  with Some inv show ?thesis
    by (simp only: handle_traceroute_def Let_def processor_inv_def option.case option.map) auto
qed

lemma dispatch_payload_spec:
  assumes L: "stable_graph_laws G" and inv: "processor_inv G p"
  shows "\<exists>p' events. dispatch_payload G D fs ts clock from packet decoded p = Some (p', events) \<and>
    processor_inv G p' \<and> touches_only from (ts 1) (pk_node_db p) (pk_node_db p')"
proof -
  let ?pl = "d_payload decoded"
  define Q where "Q x \<longleftrightarrow> (\<exists>p' events. x = Some (p', events) \<and> processor_inv G p' \<and>
    touches_only from (ts 1) (pk_node_db p) (pk_node_db p'))" for x :: "(('a, 'b) packet_processor \<times> mesh_event list) option"
  have "Q (Some (handle_nodeinfo G D (ts 1) from ?pl p))"
    unfolding Q_def using handle_nodeinfo_spec [OF L inv] by (metis surj_pair)
  moreover have "Q (Some (handle_position D fs (ts 1) from ?pl p))"
    unfolding Q_def using handle_position_spec [OF inv] by (metis surj_pair)
  moreover have "Q (Some (handle_telemetry D (ts 1) from ?pl p))"
    unfolding Q_def using handle_telemetry_spec [OF inv] by (metis surj_pair)
  moreover have "Q (handle_neighborinfo G D clock from ?pl p)"
    unfolding Q_def using handle_neighborinfo_spec [OF L inv] by (metis touches_only_refl)
  moreover have "Q (handle_traceroute G D clock from packet ?pl p)"
    unfolding Q_def using handle_traceroute_spec [OF L inv] by (metis touches_only_refl)
  moreover have "Q (Some (p, []))" using inv by (simp add: Q_def)
  ultimately have "Q (dispatch_payload G D fs ts clock from packet decoded p)"
    by (simp add: dispatch_payload_def Let_def)
  then show ?thesis by (simp add: Q_def)
qed

lemma touches_only_known:
  assumes "touches_only from now db db'" "node_db_inv db" "node_get from db \<noteq> None" "m \<noteq> from"
  shows "node_get m db' = node_get m db"
proof -
  have "hm_contains from (nodes db)" using assms(3) by (auto simp: node_get_def hm_contains_def)
  then have "node_get m (node_insert node db) = node_get m db" if "mn_num node = from" for node
    using that assms(4) by (simp add: node_insert_def node_get_def)
  with assms(1) show ?thesis by (auto simp: touches_only_def)
qed

lemma my_node_touches_only: "touches_only from now db db' \<Longrightarrow> my_node db' = my_node db"
  by (auto simp: touches_only_def)

lemma grows_by_passive:
  assumes "apply_passive_learning G now clk packet from p = Some p'"
  shows "grows_by ({from} \<union> set_option (my_node (pk_node_db p))) (pk_topology p) (pk_topology p')"
  using assms
  by (auto simp: apply_passive_learning_def Let_def intro: grows_by_update_link split: if_splits option.splits)

lemma grows_by_neighborinfo:
  assumes "handle_neighborinfo G D clock from payload p = Some (p', events)"
  shows "grows_by ({from} \<union> (case dec_neighbor_info D payload of None \<Rightarrow> {} | Some ni \<Rightarrow> set (map nb_node_id (nei_neighbors ni))))
    (pk_topology p) (pk_topology p')"
  using assms
  by (auto simp: handle_neighborinfo_def Let_def add_node_def
      intro!: grows_by_trans [OF grows_by_add [of "from"] grows_by_update_links] split: option.splits if_splits)

lemma grows_by_traceroute:
  assumes "handle_traceroute G D clock from packet payload p = Some (p', events)"
  shows "grows_by ({from} \<union> (case dec_route D payload of
      None \<Rightarrow> {} | Some route \<Rightarrow> set (mp_to packet # rd_route route @ rd_back route))) (pk_topology p) (pk_topology p')"
proof (cases "dec_route D payload")
  case None
  with assms show ?thesis by (simp add: handle_traceroute_def)
next
  case (Some route)
  let ?path = "from # rd_route route @ [mp_to packet]" and ?S = "set (from # mp_to packet # rd_route route @ rd_back route)"
  let ?t = "fold (\<lambda>n t. snd (add_node G n t)) ?path (pk_topology p)"
  let ?ret = "if rd_back route = [] then [] else hops (mp_to packet # rd_back route @ [from]) (rd_snr_back route)"
  from assms Some have "update_links G clock 1 (hops ?path (rd_snr_towards route) @ ?ret) ?t = Some (pk_topology p')"
    by (simp only: handle_traceroute_def Let_def option.case) (auto simp del: fold.simps)
  moreover have "\<forall>(a, b, _) \<in> set (hops ?path (rd_snr_towards route) @ ?ret). a \<in> ?S \<and> b \<in> ?S"
    by (auto dest!: hops_ends split: if_splits)
  ultimately have "grows_by ?S ?t (pk_topology p')" by (rule grows_by_update_links)
  moreover have "grows_by ?S (pk_topology p) ?t" by (rule grows_by_fold_add) auto
  ultimately have "grows_by ?S (pk_topology p) (pk_topology p')" by (rule grows_by_trans [rotated])
  then show ?thesis by (rule grows_by_mono) (auto simp: Some)
qed

lemma grows_by_dispatch:
  assumes "dispatch_payload G D fs ts clock from packet decoded p = Some (p', events)"
    and "mp_payload_variant packet = Some (Decoded decoded)"
  shows "grows_by (named_nodes D mine from packet) (pk_topology p) (pk_topology p')"
proof -
  let ?pl = "d_payload decoded" and ?N = "named_nodes D mine from packet"
  have self: "{from} \<subseteq> ?N" by (auto simp: named_nodes_def)
  from assms(1) consider (info) "handle_nodeinfo G D (ts 1) from ?pl p = (p', events)"
    | (place) "handle_position D fs (ts 1) from ?pl p = (p', events)"
    | (telemetry) "handle_telemetry D (ts 1) from ?pl p = (p', events)"
    | (neighbours) "d_portnum decoded = NEIGHBORINFO_APP" "handle_neighborinfo G D clock from ?pl p = Some (p', events)"
    | (trace) "d_portnum decoded = TRACEROUTE_APP" "handle_traceroute G D clock from packet ?pl p = Some (p', events)"
    | (other) "p' = p"
    by (auto simp: dispatch_payload_def Let_def split: if_splits)
  then show ?thesis
  proof cases
    case info
    then have "grows_by {from} (pk_topology p) (pk_topology p')"
      by (auto simp: handle_nodeinfo_def Let_def add_node_def intro!: grows_by_add split: option.splits)
    then show ?thesis using self by (rule grows_by_mono)
  next
    case place
    then have "pk_topology p' = pk_topology p" by (auto simp: handle_position_def Let_def split: option.splits sum.splits)
    then show ?thesis by simp
  next
    case telemetry
    then have "pk_topology p' = pk_topology p" by (auto simp: handle_telemetry_def Let_def split: option.splits)
    then show ?thesis by simp
  next
    case neighbours
    from grows_by_neighborinfo [OF this(2)] show ?thesis
      by (rule grows_by_mono) (simp add: named_nodes_def assms(2) neighbours(1), blast)
  next
    case trace
    have port: "TRACEROUTE_APP \<noteq> NEIGHBORINFO_APP" by (simp add: TRACEROUTE_APP_def NEIGHBORINFO_APP_def)
    from grows_by_traceroute [OF trace(2)] show ?thesis
      by (rule grows_by_mono) (simp add: named_nodes_def assms(2) trace(1) port, blast)
  qed simp
qed

lemma signals_for_located: "g \<in> set (signals_for ids ts db events) \<Longrightarrow> gs_location g = Some c \<Longrightarrow> coordinates_ok c"
  by (auto simp: signals_for_def dest: signal_location_ok)

lemma last_link_recorded:
  assumes L: "stable_graph_laws G" and inv: "topo_inv G t" and fin: "f32_is_finite snr"
  shows "\<exists>t'. update_links G clock i (ls @ [(a, b, snr)]) t = Some t' \<and> topo_inv G t' \<and>
    has_link G a b (\<lambda>w. lq_snr w = snr) t'"
  using inv
proof (induction ls arbitrary: i t)
  case Nil
  obtain t' where "update_link G (clock i) a b snr t = Some t'" "topo_inv G t'"
    "has_link G a b (\<lambda>w. lq_snr w = snr \<and> lq_last_observed w = clock i) t'"
    using update_link_spec [OF L Nil, of "clock i" a b snr] fin by auto
  then show ?case by (auto simp: has_link_def)
next
  case (Cons l ls)
  obtain x y s where l: "l = (x, y, s)" by (cases l) auto
  obtain t1 where "update_link G (clock i) x y s t = Some t1" "topo_inv G t1"
    using update_link_spec [OF L Cons.prems] by blast
  with Cons.IH [of t1 "Suc i"] l show ?case by auto
qed

lemma has_link_nodes:
  assumes "topo_inv G t" "has_link G a b P t"
  shows "contains_node a t" "contains_node b t"
  using assms topo_invD(2) [OF assms(1)] by (fastforce simp: has_link_def contains_node_def hm_contains_def)+

lemma passive_then_touch:
  assumes db: "node_db_inv db" and n: "mn_num n = from" "mn_last_heard n = Some t0" and db1: "db1 = node_insert n db"
    and t: "touches_only from t1 db1 db2"
  shows "\<exists>node. node_get from db2 = Some node \<and> mn_last_heard node \<in> {Some t0, Some t1}"
    and "my_node db2 = my_node db"
    and "if node_get from db \<noteq> None \<or> node_len db < MAX_LIVE_NODES
      then \<forall>m. m \<noteq> from \<longrightarrow> node_get m db2 = node_get m db
      else \<exists>victim vnode. node_get victim db = Some vnode \<and> Some victim \<noteq> my_node db \<and> node_get victim db2 = None \<and>
        (\<forall>m. m \<noteq> from \<and> m \<noteq> victim \<longrightarrow> node_get m db2 = node_get m db) \<and>
        (\<forall>m node. node_get m db = Some node \<and> Some m \<noteq> my_node db \<longrightarrow> heard_key vnode \<le> heard_key node)"
proof -
  have heard: "node_get from db1 = Some n" using n(1) node_get_insert_same [of n db] by (simp add: db1)
  show "\<exists>node. node_get from db2 = Some node \<and> mn_last_heard node \<in> {Some t0, Some t1}"
    using t heard n node_get_insert_same [of _ db1] unfolding touches_only_def by (metis insertCI)
  show "my_node db2 = my_node db" using my_node_touches_only [OF t] by (simp add: db1)
  have "node_db_inv db1" using db unfolding db1 by (rule node_db_inv_insert)
  then have others: "node_get m db2 = node_get m db1" if "m \<noteq> from" for m
    using touches_only_known [OF t _ _ that] heard by simp
  have known: "hm_contains from (nodes db) \<longleftrightarrow> node_get from db \<noteq> None" by (auto simp: node_get_def hm_contains_def)
  show "if node_get from db \<noteq> None \<or> node_len db < MAX_LIVE_NODES
      then \<forall>m. m \<noteq> from \<longrightarrow> node_get m db2 = node_get m db
      else \<exists>victim vnode. node_get victim db = Some vnode \<and> Some victim \<noteq> my_node db \<and> node_get victim db2 = None \<and>
        (\<forall>m. m \<noteq> from \<and> m \<noteq> victim \<longrightarrow> node_get m db2 = node_get m db) \<and>
        (\<forall>m node. node_get m db = Some node \<and> Some m \<noteq> my_node db \<longrightarrow> heard_key vnode \<le> heard_key node)"
  proof (cases "node_get from db \<noteq> None \<or> node_len db < MAX_LIVE_NODES")
    case True
    then show ?thesis using node_insert_evicts_stalest [OF db db1] others by (auto simp: n(1) known)
  next
    case False
    with node_insert_evicts_stalest [OF db db1] obtain victim vnode where v: "node_get victim db = Some vnode"
      "Some victim \<noteq> my_node db" "node_get victim db1 = None" "\<forall>m. m = from \<or> m = victim \<or> node_get m db1 = node_get m db"
      "\<forall>m node. node_get m db = Some node \<and> Some m \<noteq> my_node db \<longrightarrow> heard_key vnode \<le> heard_key node"
      by (auto simp: n(1) known)
    moreover have "victim \<noteq> from" using v(1) False by auto
    ultimately show ?thesis using False others by (intro if_not_P [THEN iffD2, OF False] exI [of _ victim] exI [of _ vnode]) auto
  qed
qed

lemma process_mesh_packet_spec:
  assumes "stable_graph_laws G" "processor_inv G p"
  shows "\<exists>events signals p'. process_mesh_packet G D fs ids ts clock packet p = Some (events, signals, p') \<and>
    processor_inv G p' \<and>
    (case claimed_from_wire (mp_from packet) of
       None \<Rightarrow> events = [] \<and> signals = [] \<and> p' = p
     | Some from \<Rightarrow>
         (\<exists>node. node_get from (pk_node_db p') = Some node \<and> mn_last_heard node \<in> {Some (ts 0), Some (ts 1)}) \<and>
         my_node (pk_node_db p') = my_node (pk_node_db p) \<and>
         (if node_get from (pk_node_db p) \<noteq> None \<or> node_len (pk_node_db p) < MAX_LIVE_NODES
          then \<forall>m. m \<noteq> from \<longrightarrow> node_get m (pk_node_db p') = node_get m (pk_node_db p)
          else \<exists>victim vnode. node_get victim (pk_node_db p) = Some vnode \<and> Some victim \<noteq> my_node (pk_node_db p) \<and>
            node_get victim (pk_node_db p') = None \<and>
            (\<forall>m. m \<noteq> from \<and> m \<noteq> victim \<longrightarrow> node_get m (pk_node_db p') = node_get m (pk_node_db p)) \<and>
            (\<forall>m node. node_get m (pk_node_db p) = Some node \<and> Some m \<noteq> my_node (pk_node_db p) \<longrightarrow>
               heard_key vnode \<le> heard_key node)) \<and>
         (\<forall>m. contains_node m (pk_topology p') \<longrightarrow>
            contains_node m (pk_topology p) \<or> m \<in> named_nodes D (my_node (pk_node_db p)) from packet)) \<and>
    (\<forall>g \<in> set signals. \<forall>c. gs_location g = Some c \<longrightarrow> coordinates_ok c)"
proof (cases "claimed_from_wire (mp_from packet)")
  case None
  with assms show ?thesis by (simp add: process_mesh_packet_def)
next
  case (Some sender)
  let ?n = "learned_node (ts 0) packet (get_or_bare sender (pk_node_db p))"
  let ?names = "named_nodes D (my_node (pk_node_db p)) sender packet"
  obtain p1 where p1: "apply_passive_learning G (ts 0) (clock 0) packet sender p = Some p1" "processor_inv G p1"
    "pk_node_db p1 = node_insert ?n (pk_node_db p)" using passive_learning_spec [OF assms] by blast
  have db: "node_db_inv (pk_node_db p)" using assms(2) by (simp add: processor_inv_def)
  have n: "mn_num ?n = sender" "mn_last_heard ?n = Some (ts 0)" using db by simp_all
  note main = passive_then_touch [OF db n p1(3), of "ts 1"]
  have g1: "grows_by ?names (pk_topology p) (pk_topology p1)"
    using grows_by_passive [OF p1(1)] by (rule grows_by_mono) (auto simp: named_nodes_def)
  show ?thesis
  proof (cases "\<exists>decoded. mp_payload_variant packet = Some (Decoded decoded)")
    case True
    then obtain decoded where d: "mp_payload_variant packet = Some (Decoded decoded)" by blast
    obtain p2 events where p2: "dispatch_payload G D fs ts clock sender packet decoded p1 = Some (p2, events)"
      "processor_inv G p2" "touches_only sender (ts 1) (pk_node_db p1) (pk_node_db p2)"
      using dispatch_payload_spec [OF assms(1) p1(2)] by blast
    have run: "process_mesh_packet G D fs ids ts clock packet p = Some (events, signals_for ids ts (pk_node_db p2) events, p2)"
      using Some p1(1) d p2(1) by (simp add: process_mesh_packet_def)
    have g2: "grows_by ?names (pk_topology p) (pk_topology p2)"
      using g1 grows_by_dispatch [OF p2(1) d] by (rule grows_by_trans)
    have located: "\<forall>g \<in> set (signals_for ids ts (pk_node_db p2) events). \<forall>c. gs_location g = Some c \<longrightarrow> coordinates_ok c"
      using signals_for_located by blast
    show ?thesis
      unfolding run Some option.case
      by (rule exI [of _ events], rule exI [of _ "signals_for ids ts (pk_node_db p2) events"], rule exI [of _ p2])
        (intro conjI refl p2(2) main [OF p2(3)] g2 [unfolded grows_by_def] located)
  next
    case False
    then have run: "process_mesh_packet G D fs ids ts clock packet p = Some ([], [], p1)"
      using Some p1(1) by (auto simp: process_mesh_packet_def split: option.splits payload_variant.splits)
    have none: "\<forall>g \<in> set []. \<forall>c. gs_location g = Some c \<longrightarrow> coordinates_ok c" by simp
    show ?thesis
      unfolding run Some option.case
      by (rule exI [of _ "[]"], rule exI [of _ "[]"], rule exI [of _ p1])
        (intro conjI refl p1(2) main [OF touches_only_refl] g1 [unfolded grows_by_def] none)
  qed
qed

subsection \<open>Properties\<close>

definition witness_processor :: "(list_graph_state, nat) packet_processor" where
  "witness_processor = \<lparr>pk_node_db = node_db_new, pk_topology = topology_new list_graph\<rparr>"

definition witness_codec :: payload_codec where
  "witness_codec =
     \<lparr>dec_user = \<lambda>_. None, dec_position = \<lambda>_. None, dec_telemetry = \<lambda>_. None, dec_neighbor_info = \<lambda>_. None,
      dec_route = \<lambda>_. Some \<lparr>rd_route = [3], rd_snr_towards = [], rd_back = [], rd_snr_back = []\<rparr>,
      dec_routing = \<lambda>_. Some \<lparr>rm_error_reason = Some 0\<rparr>\<rparr>"

definition witness_data :: "int \<Rightarrow> data_msg" where
  "witness_data port = \<lparr>d_portnum = port, d_payload = [], d_want_response = False, d_dest = 0, d_source = 0,
     d_request_id = 5, d_reply_id = 0, d_emoji = []\<rparr>"

definition witness_inbound :: "int \<Rightarrow> mesh_packet" where
  "witness_inbound port = (witness_packet 9 64)
     \<lparr>mp_from := 7, mp_to := BROADCAST_ADDR, mp_payload_variant := Some (Decoded (witness_data port))\<rparr>"

lemma witness_processor_inv: "processor_inv list_graph witness_processor"
  by (simp add: processor_inv_def witness_processor_def topo_inv_new [OF list_graph_laws])

lemma witness_inbound_simps [simp]:
  "claimed_from_wire (mp_from (witness_inbound port)) = Some 7" "mp_to (witness_inbound port) = BROADCAST_ADDR"
  "mp_payload_variant (witness_inbound port) = Some (Decoded (witness_data port))"
  "d_portnum (witness_data port) = port" "d_request_id (witness_data port) = 5" "d_payload (witness_data port) = []"
  by (simp_all add: witness_inbound_def witness_data_def claimed_from_wire_def is_broadcast_def BROADCAST_ADDR_def)


text \<open>
  C10. Processing a packet never panics and keeps the bounds of the node database and of the topology, whatever the packet
  says. A packet whose sender is unset or broadcast has no effect at all. Any other one leaves the sender recorded as just
  heard and the local radio's number as it was; every other record of the node database stays as it was, except that exactly one is evicted if
  the sender was unknown and the table full: not the local radio's, and none heard later than another that stays.
  The topology gains no node but the sender, the local radio, and those that a neighbour list or a traceroute names (the hops, and the destination
  of the packet). Every signal sent that has a location is on the globe.
\<close>

theorem process_mesh_packet_safe:
  assumes "stable_graph_laws G" "processor_inv G p"
  shows "\<exists>events signals p'. process_mesh_packet G D fs ids ts clock packet p = Some (events, signals, p') \<and>
    processor_inv G p' \<and>
    (case claimed_from_wire (mp_from packet) of
       None \<Rightarrow> events = [] \<and> signals = [] \<and> p' = p
     | Some from \<Rightarrow>
         (\<exists>node. node_get from (pk_node_db p') = Some node \<and> mn_last_heard node \<in> {Some (ts 0), Some (ts 1)}) \<and>
         my_node (pk_node_db p') = my_node (pk_node_db p) \<and>
         (if node_get from (pk_node_db p) \<noteq> None \<or> node_len (pk_node_db p) < MAX_LIVE_NODES
          then \<forall>m. m \<noteq> from \<longrightarrow> node_get m (pk_node_db p') = node_get m (pk_node_db p)
          else \<exists>victim vnode. node_get victim (pk_node_db p) = Some vnode \<and> Some victim \<noteq> my_node (pk_node_db p) \<and>
            node_get victim (pk_node_db p') = None \<and>
            (\<forall>m. m \<noteq> from \<and> m \<noteq> victim \<longrightarrow> node_get m (pk_node_db p') = node_get m (pk_node_db p)) \<and>
            (\<forall>m node. node_get m (pk_node_db p) = Some node \<and> Some m \<noteq> my_node (pk_node_db p) \<longrightarrow>
               heard_key vnode \<le> heard_key node)) \<and>
         (\<forall>m. contains_node m (pk_topology p') \<longrightarrow>
            contains_node m (pk_topology p) \<or> m \<in> named_nodes D (my_node (pk_node_db p)) from packet)) \<and>
    (\<forall>g \<in> set signals. \<forall>c. gs_location g = Some c \<longrightarrow> coordinates_ok c)"
  by (rule process_mesh_packet_spec [OF assms])

theorem process_mesh_packet_safe_witness:
  "stable_graph_laws list_graph \<and> processor_inv list_graph witness_processor \<and>
   (\<exists>events signals p' node. process_mesh_packet list_graph witness_codec (\<lambda>_. None) (\<lambda>_. 0) (\<lambda>_. 50) (\<lambda>_. 9)
      (witness_inbound TRACEROUTE_APP) witness_processor = Some (events, signals, p') \<and>
      node_get 7 (pk_node_db p') = Some node \<and> mn_last_heard node = Some 50)"
  using process_mesh_packet_safe [OF list_graph_laws witness_processor_inv, of witness_codec "\<lambda>_. None" "\<lambda>_. 0"
      "\<lambda>_. 50" "\<lambda>_. 9" "witness_inbound TRACEROUTE_APP"] list_graph_laws witness_processor_inv
  by auto

text \<open>
  C17. Only an explicit \<open>NONE\<close> acknowledges. If a routing packet turns the record of a message into an acknowledged one,
  the packet was a decoded \<open>ROUTING_APP\<close> message naming that very message with error code 0; an
  unrecognised code never does.
\<close>

theorem ack_only_on_explicit_none:
  assumes "apply_routing_result now (process_routing D packet) (d, q) = (d', q')"
    and "hm_get (records d) pid = Some r" and "\<not> status_acknowledged (dr_status r)"
    and "hm_get (records d') pid = Some r'" and "status_acknowledged (dr_status r')"
  shows "\<exists>data msg. mp_payload_variant packet = Some (Decoded data) \<and> d_portnum data = ROUTING_APP \<and>
    d_request_id data = pid \<and> pid \<noteq> 0 \<and> dec_routing D (d_payload data) = Some msg \<and> rm_error_reason msg = Some 0"
proof -
  have "process_routing D packet = Ack pid"
    using assms
    by (cases "process_routing D packet")
      (auto simp: mark_acknowledged_def mark_failed_def record_retry_def Let_def split: option.splits if_splits prod.splits)
  then show ?thesis
    by (auto simp: process_routing_def routing_error_try_from_def
        split: option.splits payload_variant.splits if_splits routing_error.splits)
qed

theorem ack_only_on_explicit_none_witness:
  "\<exists>data msg. mp_payload_variant (witness_inbound ROUTING_APP) = Some (Decoded data) \<and> d_portnum data = ROUTING_APP \<and>
     d_request_id data = 5 \<and> (5 :: packet_id) \<noteq> 0 \<and> dec_routing witness_codec (d_payload data) = Some msg \<and>
     rm_error_reason msg = Some 0"
  by (rule ack_only_on_explicit_none [where now = 9 and d = "track 0 5 2 delivery_new" and q = "mr_outbound trace_start"
        and d' = "mark_acknowledged 9 5 None (track 0 5 2 delivery_new)"
        and q' = "snd (outbound_handle_ack 5 (mr_outbound trace_start))"
        and r = "\<lparr>dr_status = Queued, dr_dest = 2, dr_created = 0, dr_retries = 0\<rparr>"
        and r' = "\<lparr>dr_status = Acknowledged 9 None, dr_dest = 2, dr_created = 0, dr_retries = 0\<rparr>"])
    (simp_all add: process_routing_def routing_error_try_from_def witness_codec_def track_def delivery_new_def
      mark_acknowledged_def Let_def)

text \<open>
  Not every write is keyed on the sender. A traceroute payload makes its claimed hops and the packet's destination into
  nodes of the topology without the check the sender passes, so that a traceroute sent to the broadcast address
  files the broadcast address as a node.
\<close>

theorem traceroute_admits_sentinel:
  assumes "stable_graph_laws G" "processor_inv G p"
    and "claimed_from_wire (mp_from packet) \<noteq> None" and "mp_to packet = BROADCAST_ADDR"
    and "mp_payload_variant packet = Some (Decoded decoded)" and "d_portnum decoded = TRACEROUTE_APP"
    and "dec_route D (d_payload decoded) = Some route" and "rd_back route = []" and "rd_snr_towards route = []"
  shows "\<exists>events signals p'. process_mesh_packet G D fs ids ts clock packet p = Some (events, signals, p') \<and>
    contains_node BROADCAST_ADDR (pk_topology p') \<and> claimed_from_wire BROADCAST_ADDR = None"
proof -
  obtain sender where sender: "claimed_from_wire (mp_from packet) = Some sender" using assms(3) by blast
  obtain p1 where p1: "apply_passive_learning G (ts 0) (clock 0) packet sender p = Some p1" "processor_inv G p1"
    using passive_learning_spec [OF assms(1,2)] by blast
  let ?path = "sender # rd_route route @ [BROADCAST_ADDR]"
  let ?t = "fold (\<lambda>n t. snd (add_node G n t)) ?path (pk_topology p1)"
  let ?n = "length (rd_route route)"
  have inv: "topo_inv G ?t" using fold_add_node [OF assms(1), of "pk_topology p1" ?path] p1(2)
    unfolding processor_inv_def by blast
  have "hops ?path [] = map (\<lambda>i. (?path ! i, ?path ! Suc i, hop_snr [] i)) [0..<?n] @ [(?path ! ?n, BROADCAST_ADDR, 0)]"
    by (simp add: hops_def hop_snr_def nth_append)
  then obtain t' where t': "update_links G clock 1 (hops ?path []) ?t = Some t'" "topo_inv G t'"
    "has_link G (?path ! ?n) BROADCAST_ADDR (\<lambda>w. lq_snr w = 0) t'"
    using last_link_recorded [OF assms(1) inv, of 0] by (fastforce simp: f32_is_finite_def)
  have "dispatch_payload G D fs ts clock sender packet decoded p1 =
      Some (p1\<lparr>pk_topology := t'\<rparr>, map link_event (hops ?path []))"
    using assms(4,6-9) t'(1)
    by (simp add: dispatch_payload_def handle_traceroute_def Let_def TRACEROUTE_APP_def NODEINFO_APP_def POSITION_APP_def
        TELEMETRY_APP_def NEIGHBORINFO_APP_def)
  with sender p1(1) assms(5) has_link_nodes(2) [OF t'(2,3)] show ?thesis
    by (simp add: process_mesh_packet_def claimed_from_wire_def is_broadcast_def)
qed

end
