(* ===== verification/Mesh_Collector.thy ===== *)
theory Mesh_Collector
  imports Packet_Processor
begin

section \<open>The collector: receive path and background tasks\<close>

text \<open>
  \<open>kerykeion/src/collector.rs\<close> with the tasks it supervises (\<open>run_router_flush\<close>, \<open>run_discovery\<close> of \<open>discovery.rs\<close>).
  The tasks share the node database, the router and the packet processor behind mutexes; a step of the model is what
  a task does while it holds a lock, and the steps of different tasks interleave freely. The messages the flush task
  has popped and not yet tracked are its own state (\<open>mc_popped\<close>). Sending on the connection and the logging are not modelled;
  what is handed to the connection is the result of the operation.
\<close>

subsection \<open>Model\<close>

record ('g, 'n) collector =
  mc_node_db :: node_db
  mc_router :: mesh_router
  mc_processor :: "('g, 'n) packet_processor"
  mc_popped :: "pending_message list"

definition opt_or :: "'a option \<Rightarrow> 'a option \<Rightarrow> 'a option" where
  "opt_or a b = (case a of None \<Rightarrow> b | Some _ \<Rightarrow> a)"

definition handle_mesh_packet :: "timestamp \<Rightarrow> mesh_packet \<Rightarrow> node_db \<Rightarrow> node_db" where
  "handle_mesh_packet now packet db =
     (case claimed_from_wire (mp_from packet) of
        None \<Rightarrow> db
      | Some num \<Rightarrow>
          let snr = rx_snr_of packet; hop_count = hop_count_from_wire (mp_hop_start packet) (mp_hop_limit packet)
          in case node_get num db of
               Some node \<Rightarrow>
                 node_insert (node\<lparr>mn_snr := opt_or snr (mn_snr node), mn_hop_count := opt_or hop_count (mn_hop_count node),
                                   mn_last_heard := Some now\<rparr>) db
             | None \<Rightarrow>
                 node_insert \<lparr>mn_num = num, mn_user = None, mn_position = None, mn_metrics = None,
                              mn_last_heard = Some now, mn_snr = snr, mn_hop_count = hop_count\<rparr> db)"

definition process_packet ::
    "(int \<Rightarrow> timestamp option) \<Rightarrow> timestamp \<Rightarrow> from_radio option \<Rightarrow> node_db \<Rightarrow> node_db" where
  "process_packet from_second now frame db =
     (case frame of
        Some (FrPacket packet) \<Rightarrow> handle_mesh_packet now packet db
      | Some (FrNodeInfo ni) \<Rightarrow> node_insert (node_info_to_mesh_node from_second ni) db
      | _ \<Rightarrow> db)"

definition dispatch_routing :: "payload_codec \<Rightarrow> instant \<Rightarrow> mesh_packet \<Rightarrow> mesh_router \<Rightarrow> mesh_router" where
  "dispatch_routing D now packet r =
     (let result = process_routing D packet
      in if result = NotRouting then r
         else case apply_routing_result now result (mr_delivery r, mr_outbound r) of
                (d, q) \<Rightarrow> r\<lparr>mr_delivery := d, mr_outbound := q\<rparr>)"

text \<open>The readings of one received frame: wall clock, monotonic clock, fresh signal identifiers.\<close>

record recv_env =
  re_now :: timestamp
  re_ts :: "nat \<Rightarrow> timestamp"
  re_clock :: "nat \<Rightarrow> instant"
  re_ids :: "nat \<Rightarrow> signal_id"
  re_ack_now :: instant

definition dispatch_to_processor ::
    "('g, 'n, 'e) stable_graph \<Rightarrow> payload_codec \<Rightarrow> (int \<Rightarrow> timestamp option) \<Rightarrow> recv_env \<Rightarrow> from_radio option \<Rightarrow>
       ('g, 'n) collector \<Rightarrow> (geo_signal list \<times> ('g, 'n) collector) option" where
  "dispatch_to_processor G D from_second env frame c =
     (case frame of
        Some (FrPacket packet) \<Rightarrow>
          (case process_mesh_packet G D from_second (re_ids env) (re_ts env) (re_clock env) packet (mc_processor c) of
             None \<Rightarrow> None
           | Some (_, signals, p) \<Rightarrow>
               Some (signals, c\<lparr>mc_processor := p, mc_router := dispatch_routing D (re_ack_now env) packet (mc_router c)\<rparr>))
      | Some (FrNodeInfo ni) \<Rightarrow>
          let p = mc_processor c
          in Some ([], c\<lparr>mc_processor :=
               p\<lparr>pk_node_db := node_insert (node_info_to_mesh_node from_second ni) (pk_node_db p)\<rparr>\<rparr>)
      | _ \<Rightarrow> Some ([], c))"

definition receive_frame ::
    "('g, 'n, 'e) stable_graph \<Rightarrow> payload_codec \<Rightarrow> (int \<Rightarrow> timestamp option) \<Rightarrow> recv_env \<Rightarrow> from_radio option \<Rightarrow>
       ('g, 'n) collector \<Rightarrow> (geo_signal list \<times> ('g, 'n) collector) option" where
  "receive_frame G D from_second env frame c =
     dispatch_to_processor G D from_second env frame
       (c\<lparr>mc_node_db := process_packet from_second (re_now env) frame (mc_node_db c)\<rparr>)"

definition adopt_handshake :: "handshake_result \<Rightarrow> node_db \<Rightarrow> node_db" where
  "adopt_handshake result db = fold node_insert (hr_known_nodes result) (set_my_node (hr_my_node_num result) db)"

definition make_processor :: "('g, 'n, 'e) stable_graph \<Rightarrow> node_db \<Rightarrow> ('g, 'n) packet_processor" where
  "make_processor G db = \<lparr>pk_node_db = db, pk_topology = topology_new G\<rparr>"

text \<open>\<open>connect_and_handshake\<close>: what each configured connection came to, \<open>None\<close> if it or its handshake failed.\<close>

definition connect_and_handshake :: "handshake_result option list \<Rightarrow> node_db \<Rightarrow> (mesh_error + nat) \<times> node_db" where
  "connect_and_handshake outcomes db =
     (let results = List.map_filter id outcomes; db' = fold adopt_handshake results db
      in (if results = [] \<and> outcomes \<noteq> [] then Inl (HandshakeFailed (AllConnectionsFailed (length outcomes)))
          else Inr (length results), db'))"

datatype task_outcome = Continue | Shutdown

text \<open>A task's join result: its own result, or \<open>None\<close> if it panicked.\<close>

fun supervise_task_result :: "(mesh_error + unit) option \<Rightarrow> task_outcome" where
  "supervise_task_result (Some (Inr ())) = Continue"
| "supervise_task_result (Some (Inl _)) = Shutdown"
| "supervise_task_result None = Shutdown"

subsection \<open>Discovery\<close>

definition build_traceroute_request :: "node_num \<Rightarrow> to_radio" where
  "build_traceroute_request dest =
     ToPacket \<lparr>mp_from = 0, mp_to = dest, mp_channel = 0,
       mp_payload_variant = Some (Decoded \<lparr>d_portnum = 70, d_payload = [], d_want_response = True, d_dest = 0,
         d_source = 0, d_request_id = 0, d_reply_id = 0, d_emoji = []\<rparr>),
       mp_id = 0, mp_rx_time = 0, mp_rx_snr = 0, mp_hop_limit = 7, mp_want_ack = True, mp_priority = 70,
       mp_rx_rssi = 0, mp_via_mqtt = False, mp_hop_start = 0\<rparr>"

definition send_traceroutes :: "('g, 'n) packet_processor \<Rightarrow> to_radio list" where
  "send_traceroutes p =
     map build_traceroute_request
       (filter (\<lambda>num. Some num \<noteq> my_node (pk_node_db p)) (map fst (nodes (pk_node_db p))))"

definition offline_nodes :: "timestamp \<Rightarrow> duration \<Rightarrow> node_db \<Rightarrow> node_num list" where
  "offline_nodes now stale_timeout db =
     map fst (filter (\<lambda>(_, node). case elapsed_since_heard now node of
                                    None \<Rightarrow> False
                                  | Some elapsed \<Rightarrow> classify_node_state elapsed stale_timeout = Offline)
                (nodes db))"

definition run_stale_detection ::
    "('g, 'n, 'e) stable_graph \<Rightarrow> (nat \<Rightarrow> signal_id) \<Rightarrow> (nat \<Rightarrow> timestamp) \<Rightarrow> instant \<Rightarrow> instant \<Rightarrow> duration \<Rightarrow>
       ('g, 'n) packet_processor \<Rightarrow> (geo_signal list \<times> ('g, 'n) packet_processor) option" where
  "run_stale_detection G ids ts clk1 clk2 stale_timeout p =
     (let db = pk_node_db p;
          off = offline_nodes (ts 0) stale_timeout db;
          offline = signals_for ids ts db (map NodeOffline off);
          t = remove_stale_nodes G clk2 (stale_timeout * 3)
                (remove_stale_links G clk1 (stale_timeout * 3) (pk_topology p));
          k = length off
      in map_option (\<lambda>components.
             (offline @ (if 1 < length components
                then [mesh_event_to_signal (ids k) (ts (Suc (Suc k))) (PartitionDetected components) None] else []),
              p\<lparr>pk_topology := t\<rparr>))
           (connected_components G t))"

subsection \<open>The flush task\<close>

text \<open>The part of a tick under the router's lock, and the tracking of one sent message.\<close>

definition flush_begin :: "(nat \<Rightarrow> instant) \<Rightarrow> u64 \<Rightarrow> mesh_router \<Rightarrow> pending_message list \<times> mesh_router" where
  "flush_begin clock now_ms r =
     (let (_, r1) = process_timeouts (clock 0) r;
          (_, r2) = run_maintenance (clock 1) (clock 2) now_ms (clock 3) r1
      in router_drain clock 4 r2)"

subsection \<open>Interleavings\<close>

inductive collector_step ::
    "('g, 'n, 'e) stable_graph \<Rightarrow> payload_codec \<Rightarrow> (int \<Rightarrow> timestamp option) \<Rightarrow> (mesh_packet \<Rightarrow> bytes) \<Rightarrow>
       ('g, 'n) collector \<Rightarrow> ('g, 'n) collector \<Rightarrow> bool"
  for G D from_second enc where
  recv: "receive_frame G D from_second env frame c = Some (signals, c') \<Longrightarrow> collector_step G D from_second enc c c'"
| stale: "run_stale_detection G ids ts clk1 clk2 stale_timeout (mc_processor c) = Some (signals, p) \<Longrightarrow>
    collector_step G D from_second enc c (c\<lparr>mc_processor := p\<rparr>)"
| flush_pop: "mc_popped c = [] \<Longrightarrow> flush_begin clock now_ms (mc_router c) = (msgs, r) \<Longrightarrow>
    collector_step G D from_second enc c (c\<lparr>mc_router := r, mc_popped := msgs\<rparr>)"
| flush_track: "mc_popped c = msg # msgs \<Longrightarrow>
    collector_step G D from_second enc c (c\<lparr>mc_router := track_sent now msg (mc_router c), mc_popped := msgs\<rparr>)"
| client_send: "send enc now now_ms now' packet reachable options (mc_router c) = (result, r) \<Longrightarrow>
    collector_step G D from_second enc c (c\<lparr>mc_router := r\<rparr>)"

text \<open>\<open>MeshCollector::new\<close>, the handshakes and \<open>make_processor\<close>: the state in which the receive loop starts.\<close>

definition collector_start ::
    "('g, 'n, 'e) stable_graph \<Rightarrow> store_forward_config \<Rightarrow> outbound_config \<Rightarrow> handshake_result option list \<Rightarrow>
       ('g, 'n) collector" where
  "collector_start G sfc outbound_cfg outcomes =
     (let db = snd (connect_and_handshake outcomes node_db_new)
      in \<lparr>mc_node_db = db,
          mc_router = router_with_config (outbound_with_config outbound_cfg) (store_forward_new sfc)
                        delivery_new outbound_cfg,
          mc_processor = make_processor G db, mc_popped = []\<rparr>)"

definition collector_inv :: "('g, 'n, 'e) stable_graph \<Rightarrow> ('g, 'n) collector \<Rightarrow> bool" where
  "collector_inv G c \<longleftrightarrow>
     node_db_inv (mc_node_db c) \<and> router_inv (mc_router c) \<and> processor_inv G (mc_processor c) \<and>
     (\<forall>m \<in> set (mc_popped c). pm_retries m \<le> max_retries (mr_outbound (mc_router c)))"

subsection \<open>Every step keeps the invariant\<close>

lemma node_db_inv_handle [inv_intros]: "node_db_inv db \<Longrightarrow> node_db_inv (handle_mesh_packet now packet db)"
  by (auto simp: handle_mesh_packet_def Let_def intro!: inv_intros split: option.splits)

lemma node_db_inv_process [inv_intros]: "node_db_inv db \<Longrightarrow> node_db_inv (process_packet fs now frame db)"
  by (auto simp: process_packet_def intro!: inv_intros split: option.splits from_radio.splits)

lemma router_inv_routing [inv_intros]: "router_inv r \<Longrightarrow> router_inv (dispatch_routing D now packet r)"
proof (cases "process_routing D packet")
  case (Ack pid)
  assume "router_inv r"
  with Ack show ?thesis
    by (auto simp: dispatch_routing_def Let_def router_inv_def intro: outbound_inv_ack)
next
  case (Nak pid e)
  assume "router_inv r"
  with Nak outbound_inv_retry [of "mr_outbound r" pid] show ?thesis
    by (auto simp: dispatch_routing_def outbound_handle_nak_def Let_def router_inv_def split: prod.splits)
next
  case (UnknownError pid code)
  assume "router_inv r"
  with UnknownError outbound_inv_retry [of "mr_outbound r" pid] show ?thesis
    by (auto simp: dispatch_routing_def outbound_handle_nak_def Let_def router_inv_def split: prod.splits)
next
  case NotRouting
  assume "router_inv r"
  with NotRouting show ?thesis by (simp add: dispatch_routing_def)
qed

lemma limits_routing: "max_retries (mr_outbound (dispatch_routing D now packet r)) = max_retries (mr_outbound r)"
  by (cases "process_routing D packet")
    (auto simp: dispatch_routing_def Let_def case_prod_beta outbound_handle_nak_def limits_eqs)

lemma receive_frame_inv:
  assumes L: "stable_graph_laws G" and inv: "collector_inv G c"
  shows "\<exists>signals c'. receive_frame G D fs env frame c = Some (signals, c') \<and> collector_inv G c' \<and>
    mc_popped c' = mc_popped c"
proof -
  have db: "node_db_inv (process_packet fs (re_now env) frame (mc_node_db c))"
    using inv by (auto simp: collector_inv_def intro: inv_intros)
  show ?thesis
  proof (cases "\<exists>packet. frame = Some (FrPacket packet)")
    case True
    then obtain packet where packet: "frame = Some (FrPacket packet)" by blast
    obtain events signals p' where "process_mesh_packet G D fs (re_ids env) (re_ts env) (re_clock env) packet (mc_processor c) =
        Some (events, signals, p')" "processor_inv G p'"
      using process_mesh_packet_spec [OF L] inv unfolding collector_inv_def by blast
    with packet db inv show ?thesis
      by (auto simp: receive_frame_def dispatch_to_processor_def collector_inv_def limits_routing intro: inv_intros)
  next
    case False
    with db inv show ?thesis
      by (auto simp: receive_frame_def dispatch_to_processor_def collector_inv_def processor_inv_def Let_def intro: inv_intros
          split: option.splits from_radio.splits)
  qed
qed

lemma stale_detection_inv:
  assumes L: "stable_graph_laws G" and inv: "processor_inv G p"
  shows "\<exists>signals p'. run_stale_detection G ids ts clk1 clk2 timeout p = Some (signals, p') \<and> processor_inv G p'"
proof -
  let ?t1 = "remove_stale_links G clk1 (timeout * 3) (pk_topology p)"
  have "topo_inv G ?t1" using remove_stale_links_inv [OF L] inv by (simp add: processor_inv_def)
  then have t: "topo_inv G (remove_stale_nodes G clk2 (timeout * 3) ?t1)"
    using topo_step_inv [OF L, of ?t1 "RemoveStaleNodes clk2 (timeout * 3)"] by simp
  from connected_components_spec [OF L t] obtain cs
    where "connected_components G (remove_stale_nodes G clk2 (timeout * 3) ?t1) = Some cs" by blast
  with t inv show ?thesis by (simp add: run_stale_detection_def Let_def processor_inv_def)
qed

lemma flush_begin_inv:
  assumes "router_inv r" "flush_begin clock now_ms r = (msgs, r')"
  shows "router_inv r' \<and> (\<forall>m \<in> set msgs. pm_retries m \<le> max_retries (mr_outbound r'))"
proof -
  let ?r2 = "snd (run_maintenance (clock 1) (clock 2) now_ms (clock 3) (snd (process_timeouts (clock 0) r)))"
  have "router_inv ?r2" using assms(1) by (intro inv_intros)
  moreover have "router_drain clock 4 ?r2 = (msgs, r')" using assms(2) by (simp add: flush_begin_def case_prod_beta)
  ultimately show ?thesis using router_inv_drain by fastforce
qed

lemma collector_step_inv:
  assumes L: "stable_graph_laws G" and inv: "collector_inv G c" and step: "collector_step G D fs enc c c'"
  shows "collector_inv G c'"
  using step
proof cases
  case (recv env frame signals)
  with receive_frame_inv [OF L inv, of D fs env frame] show ?thesis by simp
next
  case (stale ids ts clk1 clk2 timeout signals p)
  with stale_detection_inv [OF L, of "mc_processor c" ids ts clk1 clk2 timeout] inv show ?thesis
    by (auto simp: collector_inv_def)
next
  case (flush_pop clock now_ms msgs r)
  with flush_begin_inv [of "mc_router c" clock now_ms msgs r] inv show ?thesis by (simp add: collector_inv_def)
next
  case (flush_track msg msgs now)
  then have "router_inv (track_sent now msg (mc_router c))"
    using inv by (auto simp: collector_inv_def track_sent_def router_inv_def intro: outbound_inv_track)
  with flush_track inv show ?thesis
    by (auto simp: collector_inv_def track_sent_def track_inflight_def)
next
  case (client_send now now_ms now' packet reachable options result r)
  have "router_inv r" "max_retries (mr_outbound r) = max_retries (mr_outbound (mc_router c))"
    using router_inv_send [of "mc_router c" enc now now_ms now' packet reachable options]
      limits_send [of enc now now_ms now' packet reachable options "mc_router c"] client_send(2) inv
    by (auto simp: collector_inv_def)
  with client_send inv show ?thesis by (simp add: collector_inv_def)
qed

lemma adopt_handshake_inv: "node_db_inv db \<Longrightarrow> node_db_inv (adopt_handshake result db)"
proof -
  have "node_db_inv db \<Longrightarrow> node_db_inv (fold node_insert ns db)" for ns db
    by (induction ns arbitrary: db) (auto intro: inv_intros)
  then show "node_db_inv db \<Longrightarrow> node_db_inv (adopt_handshake result db)"
    by (simp add: adopt_handshake_def inv_intros)
qed

lemma collector_start_inv:
  assumes L: "stable_graph_laws G"
  shows "collector_inv G (collector_start G sfc outbound_cfg outcomes)"
proof -
  have "node_db_inv (fold adopt_handshake rs db)" if "node_db_inv db" for rs db
    using that by (induction rs arbitrary: db) (auto intro: adopt_handshake_inv)
  then show ?thesis
    by (simp add: collector_start_def connect_and_handshake_def Let_def collector_inv_def make_processor_def
        processor_inv_def topo_inv_new [OF L] router_inv_def router_with_config_def delivery_new_def)
qed

lemma collector_run_inv:
  assumes L: "stable_graph_laws G" and run: "(collector_step G D fs enc)\<^sup>*\<^sup>* c c'" and inv: "collector_inv G c"
  shows "collector_inv G c'"
  using run inv by (induction rule: rtranclp_induct) (auto intro: collector_step_inv [OF L])

subsection \<open>Properties\<close>

text \<open>
  C1. However the receive loop, the flush task, the discovery task and clients of the router interleave, the collector's
  state keeps its invariants (both node databases, the router's queues, the topology), and in every reachable state
  no frame the radio may send and no stale sweep panics.
\<close>

theorem collector_interleavings_safe:
  assumes "stable_graph_laws G"
    and "(collector_step G D fs enc)\<^sup>*\<^sup>* (collector_start G sfc outbound_cfg outcomes) c"
  shows "collector_inv G c \<and>
    (\<forall>env frame. receive_frame G D fs env frame c \<noteq> None) \<and>
    (\<forall>ids ts clk1 clk2 timeout. run_stale_detection G ids ts clk1 clk2 timeout (mc_processor c) \<noteq> None)"
proof -
  have inv: "collector_inv G c" by (rule collector_run_inv [OF assms collector_start_inv [OF assms(1)]])
  have "receive_frame G D fs env frame c \<noteq> None" for env frame
    using receive_frame_inv [OF assms(1) inv, of D fs env frame] by auto
  moreover have "run_stale_detection G ids ts clk1 clk2 timeout (mc_processor c) \<noteq> None" for ids ts clk1 clk2 timeout
    using stale_detection_inv [OF assms(1), of "mc_processor c" ids ts clk1 clk2 timeout] inv
    by (auto simp: collector_inv_def)
  ultimately show ?thesis using inv by blast
qed

theorem collector_interleavings_safe_witness:
  "\<exists>c. (collector_step list_graph witness_codec (\<lambda>_. None) (\<lambda>_. []))\<^sup>*\<^sup>*
      (collector_start list_graph store_forward_config_default outbound_config_default []) c \<and>
    stable_graph_laws list_graph \<and> collector_inv list_graph c \<and>
    receive_frame list_graph witness_codec (\<lambda>_. None)
      \<lparr>re_now = 0, re_ts = \<lambda>_. 0, re_clock = \<lambda>_. 0, re_ids = \<lambda>_. 0, re_ack_now = 0\<rparr>
      (Some (FrPacket (witness_inbound TRACEROUTE_APP))) c \<noteq> None"
  using collector_interleavings_safe [OF list_graph_laws rtranclp.rtrancl_refl, where D = witness_codec
      and fs = "\<lambda>_. None" and sfc = store_forward_config_default and outbound_cfg = outbound_config_default
      and outcomes = "[]"] list_graph_laws
  by blast

text \<open>
  An acknowledgement can outrun the bookkeeping of the message it acknowledges. The flush task tracks a message as inflight only
  after it was handed to the radio; an acknowledgement received in between finds nothing inflight, the
  acknowledged message is then tracked all the same, and when its timeout passes it is transmitted again.
\<close>

theorem early_ack_is_sent_again:
  "let r1 = snd (send (\<lambda>_. []) 0 0 0 (witness_packet 5 64) True
                  (send_options_with_config outbound_config_default) trace_start);
       (popped, r2) = flush_begin (\<lambda>_. 1) 0 r1;
       r3 = dispatch_routing witness_codec 2 (witness_inbound ROUTING_APP) r2;
       r4 = track_sent 3 (hd popped) r3;
       (again, r5) = flush_begin (\<lambda>_. 40000000000) 0 r4
   in map pm_packet popped = [witness_packet 5 64] \<and>
      map_option dr_status (hm_get (records (mr_delivery r4)) 5) = Some (Acknowledged 2 None) \<and>
      map pm_packet again = [witness_packet 5 64]"
  by (simp add: trace_start_def flush_begin_def router_eval witness_packet_def dispatch_routing_def process_routing_def
      routing_error_try_from_def witness_codec_def outbound_handle_ack_def mark_acknowledged_def retry_def requeued_def
      record_retry_def priority_or_default_def priority_try_from_def)

end
