(* ===== verification/Mesh_Crypto.thy ===== *)
theory Mesh_Crypto
  imports Mesh_Types
begin

unbundle bit_operations_syntax

section \<open>Packet encryption\<close>

text \<open>
  \<open>kerykeion/src/crypto.rs\<close>: nonces, pre-shared keys, encryption and trial decryption. The stream cipher of the crates
  \<open>aes\<close> and \<open>ctr\<close> (\<open>Ctr128LE::new_from_slices\<close> followed by \<open>apply_keystream\<close>) is a parameter \<open>ctr key nonce data\<close>; what
  its documentation says, that the data is xored with the blocks of the cipher at the nonce, the nonce plus one, and
  so on, the nonce read as a 128-bit little-endian number, is the hypothesis \<open>ctr128le_law\<close>. So is the decoder of
  \<open>Data\<close> messages, with no law.
\<close>

subsection \<open>Model\<close>

definition le_bytes :: "nat \<Rightarrow> nat \<Rightarrow> bytes" where
  "le_bytes n v = map (\<lambda>i. word_of_nat (v div 256 ^ i)) [0..<n]"

fun le_val :: "bytes \<Rightarrow> nat" where
  "le_val [] = 0"
| "le_val (b # bs) = unat b + 256 * le_val bs"

definition DEFAULT_PSK :: bytes where
  "DEFAULT_PSK = [0xd4, 0xf1, 0xbb, 0x3a, 0x20, 0x29, 0x07, 0x59, 0xf0, 0xbc, 0xff, 0xab, 0xcf, 0x4e, 0x69, 0x01]"

definition build_nonce :: "u32 \<Rightarrow> u32 \<Rightarrow> bytes" where
  "build_nonce packet_id from_node = le_bytes 8 (unat packet_id) @ le_bytes 4 (unat from_node) @ replicate 4 0"

datatype psk_resolution = Unencrypted | Key bytes | Undefined nat

definition resolve_psk :: "bytes \<Rightarrow> psk_resolution" where
  "resolve_psk psk =
     (if psk = [] then Unencrypted
      else if length psk = 1 \<and> 1 \<le> hd psk \<and> hd psk \<le> 10 then Key (DEFAULT_PSK[15 := hd psk])
      else if length psk = 16 \<or> length psk = 32 then Key psk
      else Undefined (length psk))"

type_synonym stream_cipher = "bytes \<Rightarrow> bytes \<Rightarrow> bytes \<Rightarrow> bytes option"

definition apply_aes_ctr :: "stream_cipher \<Rightarrow> bytes \<Rightarrow> u32 \<Rightarrow> u32 \<Rightarrow> bytes \<Rightarrow> mesh_error + bytes" where
  "apply_aes_ctr ctr data packet_id from_node key =
     (if length key = 16 \<or> length key = 32
      then case ctr key (build_nonce packet_id from_node) data of
             None \<Rightarrow> Inl (Encryption (CipherInit (length key)))
           | Some out \<Rightarrow> Inr out
      else Inl (Encryption (InvalidKeyLength (length key))))"

definition encrypt :: "stream_cipher \<Rightarrow> bytes \<Rightarrow> u32 \<Rightarrow> u32 \<Rightarrow> bytes \<Rightarrow> mesh_error + bytes" where
  "encrypt ctr plaintext packet_id from_node psk =
     (case resolve_psk psk of
        Key key \<Rightarrow> apply_aes_ctr ctr plaintext packet_id from_node key
      | Unencrypted \<Rightarrow> Inr plaintext
      | Undefined len \<Rightarrow> Inl (Encryption (UndefinedPsk len)))"

fun decrypt ::
    "stream_cipher \<Rightarrow> (bytes \<Rightarrow> 'd option) \<Rightarrow> bytes \<Rightarrow> u32 \<Rightarrow> u32 \<Rightarrow> (usize \<times> bytes) list \<Rightarrow>
       mesh_error + bytes \<times> usize" where
  "decrypt ctr dec ciphertext packet_id from_node [] = Inl (Encryption NoPskDecrypted)"
| "decrypt ctr dec ciphertext packet_id from_node ((channel_idx, psk) # psks) =
     (case resolve_psk psk of
        Key key \<Rightarrow>
          (case apply_aes_ctr ctr ciphertext packet_id from_node key of
             Inl _ \<Rightarrow> decrypt ctr dec ciphertext packet_id from_node psks
           | Inr candidate \<Rightarrow>
               if dec candidate \<noteq> None then Inr (candidate, channel_idx)
               else decrypt ctr dec ciphertext packet_id from_node psks)
      | _ \<Rightarrow> decrypt ctr dec ciphertext packet_id from_node psks)"

subsection \<open>The cipher's contract\<close>

definition keystream :: "(bytes \<Rightarrow> bytes \<Rightarrow> bytes) \<Rightarrow> bytes \<Rightarrow> bytes \<Rightarrow> nat \<Rightarrow> u8" where
  "keystream aes key nonce i = aes key (le_bytes 16 ((le_val nonce + i div 16) mod 2 ^ 128)) ! (i mod 16)"

definition ctr128le_law :: "(bytes \<Rightarrow> bytes \<Rightarrow> bytes) \<Rightarrow> stream_cipher \<Rightarrow> bool" where
  "ctr128le_law aes ctr \<longleftrightarrow>
     (\<forall>key nonce data. (length key = 16 \<or> length key = 32) \<and> length nonce = 16 \<longrightarrow>
        ctr key nonce data = Some (map (\<lambda>i. data ! i XOR keystream aes key nonce i) [0..<length data]))"

text \<open>A cipher of that shape, over a block function that xors the key into the counter block.\<close>

definition xor_block :: "bytes \<Rightarrow> bytes \<Rightarrow> bytes" where
  "xor_block key block = map (\<lambda>i. key ! i XOR block ! i) [0..<16]"

definition xor_ctr :: stream_cipher where
  "xor_ctr key nonce data = Some (map (\<lambda>i. data ! i XOR keystream xor_block key nonce i) [0..<length data])"

lemma xor_ctr_law: "ctr128le_law xor_block xor_ctr"
  by (simp add: ctr128le_law_def xor_ctr_def)

subsection \<open>Nonces\<close>

lemma length_le_bytes [simp]: "length (le_bytes n v) = n"
  by (simp add: le_bytes_def)

lemma le_bytes_Suc: "le_bytes (Suc n) v = word_of_nat v # le_bytes n (v div 256)"
  unfolding le_bytes_def map_upt_Suc by (simp add: div_mult2_eq)

lemma le_val_bytes: "v < 256 ^ n \<Longrightarrow> le_val (le_bytes n v) = v"
proof (induction n arbitrary: v)
  case (Suc n)
  have "v div 256 < 256 ^ n" using Suc.prems by (simp add: less_mult_imp_div_less mult.commute)
  with Suc.IH show ?case by (simp add: le_bytes_Suc unat_of_nat)
qed (simp add: le_bytes_def)

lemma le_val_append: "le_val (xs @ ys) = le_val xs + 256 ^ length xs * le_val ys"
  by (induction xs) (simp_all add: algebra_simps)

lemma le_val_zeros [simp]: "le_val (replicate n 0) = 0"
  by (induction n) simp_all

lemma unat_u32_bound: "unat (x :: u32) < 2 ^ 32"
  using unsigned_less [of x] by simp

lemma length_build_nonce [simp]: "length (build_nonce pid from) = 16"
  by (simp add: build_nonce_def)

lemma le_val_nonce: "le_val (build_nonce pid from) = unat pid + 2 ^ 64 * unat from"
proof -
  have "le_val (le_bytes 8 (unat pid)) = unat pid" "le_val (le_bytes 4 (unat from)) = unat from"
    using unat_u32_bound [of pid] unat_u32_bound [of "from"] by (simp_all add: le_val_bytes)
  then show ?thesis by (simp add: build_nonce_def le_val_append)
qed

lemma build_nonce_inj: "build_nonce a b = build_nonce c d \<longleftrightarrow> a = c \<and> b = d"
proof
  assume "build_nonce a b = build_nonce c d"
  then have e: "unat a + 2 ^ 64 * unat b = unat c + 2 ^ 64 * unat d" by (metis le_val_nonce)
  have "unat a mod 2 ^ 64 = unat c mod 2 ^ 64" using arg_cong [OF e, of "\<lambda>n. n mod 2 ^ 64"] by simp
  then have "unat a = unat c" using unat_u32_bound [of a] unat_u32_bound [of c] by simp
  with e have "unat a = unat c" "unat b = unat d" by simp_all
  then show "a = c \<and> b = d" by (metis unsigned_word_eqI)
qed simp

lemma keystream_next:
  assumes "unat pid < 2 ^ 32 - 1"
  shows "keystream aes key (build_nonce (pid + 1) from) i = keystream aes key (build_nonce pid from) (16 + i)"
proof -
  have "unat (pid + 1) = unat pid + 1" using assms by (simp add: unat_word_ariths)
  then show ?thesis by (simp add: keystream_def le_val_nonce ac_simps)
qed

subsection \<open>Encryption\<close>

lemma resolve_psk_length: "resolve_psk psk = Key key \<Longrightarrow> length key = 16 \<or> length key = 32"
  by (auto simp: resolve_psk_def DEFAULT_PSK_def split: if_splits)

lemma apply_aes_ctr_law:
  assumes "ctr128le_law aes ctr" "length key = 16 \<or> length key = 32"
  shows "apply_aes_ctr ctr data pid from key =
    Inr (map (\<lambda>i. data ! i XOR keystream aes key (build_nonce pid from) i) [0..<length data])"
  using assms by (simp add: apply_aes_ctr_def ctr128le_law_def)

lemma apply_aes_ctr_involution:
  assumes "ctr128le_law aes ctr" "length key = 16 \<or> length key = 32" "apply_aes_ctr ctr data pid from key = Inr out"
  shows "apply_aes_ctr ctr out pid from key = Inr data" "length out = length data"
proof -
  have out: "out = map (\<lambda>i. data ! i XOR keystream aes key (build_nonce pid from) i) [0..<length data]"
    using assms(3) by (simp add: apply_aes_ctr_law [OF assms(1,2)])
  then show "length out = length data" by simp
  show "apply_aes_ctr ctr out pid from key = Inr data"
    unfolding apply_aes_ctr_law [OF assms(1,2)] by (auto simp: out xor.assoc intro: nth_equalityI)
qed

lemma decrypt_skip:
  assumes "\<forall>(idx, psk) \<in> set before. \<forall>key candidate. resolve_psk psk = Key key \<longrightarrow>
    apply_aes_ctr ctr ct pid from key = Inr candidate \<longrightarrow> dec candidate = None"
  shows "decrypt ctr dec ct pid from (before @ psks) = decrypt ctr dec ct pid from psks"
  using assms
  by (induction before) (auto split: psk_resolution.splits sum.splits)

subsection \<open>Properties\<close>

text \<open>
  Decryption undoes encryption. With a cipher that keeps its documented contract, what is encrypted under a pre-shared key that
  defines a key is decrypted to the same bytes, on the channel that has the key, by any receiver that knows
  that channel, unless an earlier channel's key already happens to produce a valid message.
\<close>

theorem encrypt_decrypt_roundtrip:
  assumes "ctr128le_law aes ctr" and "resolve_psk psk = Key key" and "dec plaintext \<noteq> None"
    and "encrypt ctr plaintext pid from psk = Inr ct"
    and "\<forall>(idx, q) \<in> set before. \<forall>k candidate. resolve_psk q = Key k \<longrightarrow>
      apply_aes_ctr ctr ct pid from k = Inr candidate \<longrightarrow> dec candidate = None"
  shows "decrypt ctr dec ct pid from (before @ (idx, psk) # after) = Inr (plaintext, idx)"
proof -
  note len = resolve_psk_length [OF assms(2)]
  have "apply_aes_ctr ctr plaintext pid from key = Inr ct" using assms(2,4) by (simp add: encrypt_def)
  from apply_aes_ctr_involution(1) [OF assms(1) len this] show ?thesis
    using assms(2,3) by (simp add: decrypt_skip [OF assms(5)])
qed

text \<open>
  C27. No nonce repeats. The packet ids a sender draws in one life of its counter, restarts through \<open>resume\<close> included, give
  pairwise different nonces, and different senders never share one.
\<close>

theorem nonces_never_repeat:
  "distinct (map (\<lambda>pid. build_nonce pid from) (issued events c)) \<and>
   (from \<noteq> other \<longrightarrow> set (map (\<lambda>pid. build_nonce pid from) (issued events c)) \<inter>
      set (map (\<lambda>pid. build_nonce pid other) (issued events' c')) = {})"
proof -
  have "distinct (issued events c)"
    using issued_increasing [of events c] strict_sorted_iff by blast
  then show ?thesis by (auto simp: distinct_map inj_on_def build_nonce_inj)
qed

theorem nonces_never_repeat_witness:
  "(1 :: u32) \<noteq> 2 \<and> set (map (\<lambda>pid. build_nonce pid 1) (issued [Draw, Restart, Draw] (resume 7))) \<inter>
     set (map (\<lambda>pid. build_nonce pid 2) (issued [Draw] (resume 7))) = {}"
  using nonces_never_repeat [of 1 "[Draw, Restart, Draw]" "resume 7" 2 "[Draw]" "resume 7"] by simp

text \<open>
  Distinct nonces do not make distinct keystreams. The cipher counts blocks in the same little-endian number that holds the packet
  id, so the second block of a packet's keystream is the first block of the next packet's: of two
  consecutive packets of a sender, the ciphertexts of block one of the first and block zero of the second xor to the xor of the
  plaintexts, without the key.
\<close>

theorem consecutive_packets_share_keystream:
  assumes "ctr128le_law aes ctr" and "length key = 16 \<or> length key = 32" and "unat pid < 2 ^ 32 - 1"
    and "apply_aes_ctr ctr p1 pid from key = Inr c1" and "apply_aes_ctr ctr p2 (pid + 1) from key = Inr c2"
    and "16 + i < length p1" and "i < length p2"
  shows "c1 ! (16 + i) XOR c2 ! i = p1 ! (16 + i) XOR p2 ! i"
proof -
  have "c1 ! (16 + i) = p1 ! (16 + i) XOR keystream aes key (build_nonce pid from) (16 + i)"
    "c2 ! i = p2 ! i XOR keystream aes key (build_nonce (pid + 1) from) i"
    using assms(4-7) by (auto simp: apply_aes_ctr_law [OF assms(1,2)])
  then show ?thesis by (simp add: keystream_next [OF assms(3)] xor.assoc xor.left_commute xor.commute)
qed

end
