(* ===== verification/Mesh_Message.thy ===== *)
theory Mesh_Message
  imports Mesh_Crypto Handshake Geo_Signal
begin

section \<open>Building outbound messages\<close>

text \<open>
  \<open>kerykeion/src/message.rs\<close>: the message builder, which numbers, encodes and encrypts a packet. The protobuf encoders are
  parameters; a text is its UTF-8 bytes.
\<close>

subsection \<open>Model\<close>

record message_config =
  default_hop_limit :: u8

definition message_config_default :: message_config where
  "message_config_default = \<lparr>default_hop_limit = 3\<rparr>"

record message_builder =
  mb_dest :: node_num
  mb_portnum :: port_num
  mb_payload :: bytes
  mb_channel :: u8
  mb_want_ack :: bool
  mb_hop_limit :: u8
  mb_priority :: priority

definition text_with_config :: "node_num \<Rightarrow> bytes \<Rightarrow> message_config \<Rightarrow> message_builder" where
  "text_with_config dest txt config =
     \<lparr>mb_dest = dest, mb_portnum = TextMessageApp, mb_payload = txt, mb_channel = 0, mb_want_ack = False,
      mb_hop_limit = min (default_hop_limit config) MAX_HOP_LIMIT, mb_priority = PDefault\<rparr>"

definition wire_degrees :: "f64 \<Rightarrow> int" where
  "wire_degrees x = f64_trunc_i32 (f64_mul round64 x (Fin (10 ^ 7)))"

definition position_with_config ::
    "(position_proto \<Rightarrow> bytes) \<Rightarrow> node_num \<Rightarrow> f64 \<Rightarrow> f64 \<Rightarrow> message_config \<Rightarrow> mesh_error + message_builder" where
  "position_with_config enc_position dest lat lon config =
     (if \<not> f64_is_finite lat \<or> \<not> (f64_le (Fin (- 90)) lat \<and> f64_le lat (Fin 90)) \<or>
         \<not> f64_is_finite lon \<or> \<not> (f64_le (Fin (- 180)) lon \<and> f64_le lon (Fin 180))
      then Inl (InvalidPosition lat lon)
      else Inr \<lparr>mb_dest = dest, mb_portnum = PositionApp,
        mb_payload = enc_position \<lparr>pp_latitude_i = wire_degrees lat, pp_longitude_i = wire_degrees lon,
                                   pp_altitude = 0, pp_time = 0\<rparr>,
        mb_channel = 0, mb_want_ack = False,
        mb_hop_limit = min (default_hop_limit config) MAX_HOP_LIMIT, mb_priority = PDefault\<rparr>)"

definition admin_with_config :: "node_num \<Rightarrow> bytes \<Rightarrow> message_config \<Rightarrow> message_builder" where
  "admin_with_config dest encoded_admin config =
     \<lparr>mb_dest = dest, mb_portnum = AdminApp, mb_payload = encoded_admin, mb_channel = 0, mb_want_ack = True,
      mb_hop_limit = min (default_hop_limit config) MAX_HOP_LIMIT, mb_priority = PReliable\<rparr>"

definition traceroute :: "node_num \<Rightarrow> message_builder" where
  "traceroute dest =
     \<lparr>mb_dest = dest, mb_portnum = TracerouteApp, mb_payload = [], mb_channel = 0, mb_want_ack = True,
      mb_hop_limit = MAX_HOP_LIMIT, mb_priority = PReliable\<rparr>"

definition mb_set_channel :: "u8 \<Rightarrow> message_builder \<Rightarrow> message_builder" where
  "mb_set_channel ch b = b\<lparr>mb_channel := ch\<rparr>"

definition with_ack :: "message_builder \<Rightarrow> message_builder" where
  "with_ack b = b\<lparr>mb_want_ack := True\<rparr>"

definition mb_set_hop_limit :: "u8 \<Rightarrow> message_builder \<Rightarrow> message_builder" where
  "mb_set_hop_limit limit b = b\<lparr>mb_hop_limit := (if limit > MAX_HOP_LIMIT then MAX_HOP_LIMIT else limit)\<rparr>"

definition mb_set_priority :: "priority \<Rightarrow> message_builder \<Rightarrow> message_builder" where
  "mb_set_priority p b = b\<lparr>mb_priority := p\<rparr>"

definition builder_data :: "message_builder \<Rightarrow> data_msg" where
  "builder_data b = \<lparr>d_portnum = port_num_i32 (mb_portnum b), d_payload = mb_payload b, d_want_response = False,
     d_dest = 0, d_source = 0, d_request_id = 0, d_reply_id = 0, d_emoji = []\<rparr>"

definition build ::
    "stream_cipher \<Rightarrow> (data_msg \<Rightarrow> bytes) \<Rightarrow> node_num \<Rightarrow> bytes \<Rightarrow> message_builder \<Rightarrow> packet_id_counter \<Rightarrow>
       (mesh_error + mesh_packet) \<times> packet_id_counter" where
  "build ctr enc_data from psk b ids =
     (case next_id ids of
        (Inl e, ids') \<Rightarrow> (Inl e, ids')
      | (Inr pid, ids') \<Rightarrow>
          let data = builder_data b
          in case encrypt ctr (enc_data data) pid from psk of
               Inl e \<Rightarrow> (Inl e, ids')
             | Inr encrypted \<Rightarrow>
                 (Inr \<lparr>mp_from = from, mp_to = mb_dest b, mp_channel = ucast (mb_channel b),
                       mp_payload_variant = Some (if psk = [] then Decoded data else Encrypted encrypted),
                       mp_id = pid, mp_rx_time = 0, mp_rx_snr = 0, mp_hop_limit = ucast (mb_hop_limit b),
                       mp_want_ack = mb_want_ack b, mp_priority = priority_i32 (mb_priority b), mp_rx_rssi = 0,
                       mp_via_mqtt = False, mp_hop_start = ucast (mb_hop_limit b)\<rparr>, ids'))"

subsection \<open>Positions\<close>

lemma abs_trunc: "\<bar>if q < 0 then - \<lfloor>- q\<rfloor> else \<lfloor>q :: rat\<rfloor>\<bar> = \<lfloor>\<bar>q\<bar>\<rfloor>"
  by auto

lemma wire_degrees_bound:
  assumes "\<bar>q\<bar> \<le> of_int k" "0 \<le> k" "k \<le> 180"
  shows "\<bar>wire_degrees (Fin q)\<bar> \<le> k * 10 ^ 7"
proof -
  have "\<bar>q * 10 ^ 7\<bar> \<le> of_int (k * 10 ^ 7)" using assms(1) by (simp add: abs_mult)
  moreover have "k * 10 ^ 7 < 2 ^ 53" using assms(3) by simp
  ultimately obtain v where v: "round64 (q * 10 ^ 7) = Fin v" "\<bar>v\<bar> \<le> of_int (k * 10 ^ 7)"
    using round64_le_int by blast
  have "\<lfloor>\<bar>v\<bar>\<rfloor> \<le> k * 10 ^ 7" using floor_mono [OF v(2)] by (simp only: floor_of_int)
  then have "\<bar>if v < 0 then - \<lfloor>- v\<rfloor> else \<lfloor>v\<rfloor>\<bar> \<le> k * 10 ^ 7" by (simp add: abs_trunc)
  moreover have "f64_mul round64 (Fin q) (Fin (10 ^ 7)) = Fin v" using v(1) by simp
  ultimately show ?thesis using assms(2,3) unfolding wire_degrees_def by auto
qed

text \<open>The double nearest to \<open>1e-7\<close> is below it, so scaling back never leaves the range.\<close>

lemma ten_millionth: "round64 (1 / 10 ^ 7) = Fin (944473296573929 / 2 ^ 73)"
  by code_simp

lemma degrees_in_range:
  assumes "\<bar>i\<bar> \<le> k * 10 ^ 7" "k \<le> 180"
  shows "\<exists>v. degrees i = Fin v \<and> \<bar>v\<bar> \<le> of_int k"
proof -
  have "\<bar>of_int i * (944473296573929 / 2 ^ 73)\<bar> \<le> (of_int k :: rat)"
  proof -
    have i: "\<bar>of_int i :: rat\<bar> \<le> of_int (k * 10 ^ 7)" using assms(1) by (metis of_int_abs of_int_le_iff)
    have "\<bar>of_int i * (944473296573929 / 2 ^ 73)\<bar> = \<bar>of_int i\<bar> * (944473296573929 / 2 ^ 73 :: rat)"
      by (simp add: abs_mult)
    also have "\<dots> \<le> of_int (k * 10 ^ 7) * (944473296573929 / 2 ^ 73)"
      using i by (rule mult_right_mono) simp
    also have "\<dots> = of_int k * (10 ^ 7 * 944473296573929 / 2 ^ 73)" by simp
    also have "\<dots> \<le> of_int k * 1"
      using assms(1) by (intro mult_left_mono) (auto dest: order_trans [OF abs_ge_zero])
    finally show ?thesis by simp
  qed
  from round64_le_int [OF this] show ?thesis using assms(2) unfolding degrees_def ten_millionth by simp
qed

subsection \<open>Properties\<close>

text \<open>
  A position the builder accepts survives the air. Every finite latitude and longitude in range is scaled to a wire integer
  without saturating, and what a receiver scales back is again a valid coordinate, so the receiver's own
  range check never rejects it; everything else is refused before it is sent.
\<close>

theorem built_position_is_accepted:
  "case position_with_config enc_position dest lat lon config of
     Inl e \<Rightarrow> e = InvalidPosition lat lon \<and> \<not> is_ok (coordinates_new lat lon None)
   | Inr b \<Rightarrow> is_ok (coordinates_new lat lon None) \<and>
       (\<exists>p. mb_payload b = enc_position p \<and> \<bar>pp_latitude_i p\<bar> \<le> 9 * 10 ^ 8 \<and> \<bar>pp_longitude_i p\<bar> \<le> 18 * 10 ^ 8 \<and>
          is_ok (coordinates_new (degrees (pp_latitude_i p)) (degrees (pp_longitude_i p)) None))"
proof (cases "(\<exists>q. lat = Fin q \<and> \<bar>q\<bar> \<le> 90) \<and> (\<exists>q. lon = Fin q \<and> \<bar>q\<bar> \<le> 180)")
  case True
  then obtain la lo where q: "lat = Fin la" "\<bar>la\<bar> \<le> 90" "lon = Fin lo" "\<bar>lo\<bar> \<le> 180" by blast
  have w: "\<bar>wire_degrees lat\<bar> \<le> 90 * 10 ^ 7" "\<bar>wire_degrees lon\<bar> \<le> 180 * 10 ^ 7"
    using wire_degrees_bound [of la 90] wire_degrees_bound [of lo 180] q by simp_all
  have "is_ok (coordinates_new (degrees (wire_degrees lat)) (degrees (wire_degrees lon)) None)"
    using degrees_in_range [OF w(1)] degrees_in_range [OF w(2)]
      coordinates_new_Inr_iff [of "degrees (wire_degrees lat)" "degrees (wire_degrees lon)" None] by auto
  moreover have "is_ok (coordinates_new lat lon None)" using True coordinates_new_Inr_iff [of lat lon None] by auto
  moreover have "position_with_config enc_position dest lat lon config =
      Inr \<lparr>mb_dest = dest, mb_portnum = PositionApp,
        mb_payload = enc_position \<lparr>pp_latitude_i = wire_degrees lat, pp_longitude_i = wire_degrees lon,
                                   pp_altitude = 0, pp_time = 0\<rparr>,
        mb_channel = 0, mb_want_ack = False,
        mb_hop_limit = min (default_hop_limit config) MAX_HOP_LIMIT, mb_priority = PDefault\<rparr>"
    using q unfolding position_with_config_def f64_within by simp
  ultimately show ?thesis using w by (simp add: exI [of _ "\<lparr>pp_latitude_i = wire_degrees lat,
      pp_longitude_i = wire_degrees lon, pp_altitude = 0, pp_time = 0\<rparr>"])
next
  case False
  then have "position_with_config enc_position dest lat lon config = Inl (InvalidPosition lat lon)"
    unfolding position_with_config_def f64_within by auto
  moreover have "\<not> is_ok (coordinates_new lat lon None)"
    using False coordinates_new_Inr_iff [of lat lon None] by (cases "coordinates_new lat lon None") auto
  ultimately show ?thesis by simp
qed

text \<open>
  C22. What is built under a pre-shared key never goes out in the clear and is readable by its holders. With a key configured, the packet
  carries the ciphertext of the message, which a receiver with that key on some channel decrypts to the message
  encoded, under the packet's own id and sender; a key of undefined shape is an error and nothing is sent.
\<close>

theorem build_encrypts:
  assumes "ctr128le_law aes ctr" and "psk \<noteq> []" and "dec (enc_data (builder_data b)) \<noteq> None"
    and "build ctr enc_data from psk b ids = (result, ids')"
  shows "case result of
      Inl e \<Rightarrow> e = PacketIdSpaceExhausted \<or> (\<exists>len. resolve_psk psk = Undefined len \<and> e = Encryption (UndefinedPsk len))
    | Inr packet \<Rightarrow> mp_id packet = current ids' \<and> current ids < current ids' \<and>
        (\<exists>ct. mp_payload_variant packet = Some (Encrypted ct) \<and>
           decrypt ctr dec ct (mp_id packet) (mp_from packet) [(idx, psk)] = Inr (enc_data (builder_data b), idx))"
proof (cases "next_id ids")
  case (Pair r ids1)
  show ?thesis
  proof (cases r)
    case (Inl e)
    with Pair assms(4) show ?thesis by (auto simp: build_def next_id_def split: option.splits)
  next
    case (Inr pid)
    have pid: "current ids1 = pid" "current ids < pid"
      using Pair Inr by (auto dest!: next_id_Inr simp: current_def word_less_nat_alt)
    show ?thesis
    proof (cases "resolve_psk psk")
      case Unencrypted
      with assms(2) show ?thesis by (simp add: resolve_psk_def split: if_splits)
    next
      case (Undefined len)
      with Pair Inr assms(4) show ?thesis by (auto simp: build_def encrypt_def)
    next
      case (Key key)
      note len = resolve_psk_length [OF Key]
      obtain ct where ct: "apply_aes_ctr ctr (enc_data (builder_data b)) pid from key = Inr ct"
        by (simp add: apply_aes_ctr_law [OF assms(1) len])
      have "decrypt ctr dec ct pid from [(idx, psk)] = Inr (enc_data (builder_data b), idx)"
        using apply_aes_ctr_involution(1) [OF assms(1) len ct] assms(3) Key by simp
      with Pair Inr Key ct pid assms(2,4) show ?thesis by (auto simp: build_def encrypt_def)
    qed
  qed
qed

theorem build_encrypts_witness:
  "\<exists>packet ids' ct. build xor_ctr d_payload 9 [1] (text_with_config 2 [104, 105] message_config_default) (resume 7) =
       (Inr packet, ids') \<and> ctr128le_law xor_block xor_ctr \<and> mp_payload_variant packet = Some (Encrypted ct) \<and>
     decrypt xor_ctr Some ct (mp_id packet) (mp_from packet) [(0, [1])] = Inr ([104, 105], 0)"
proof -
  let ?b = "text_with_config 2 [104, 105] message_config_default"
  obtain r ids' where r: "build xor_ctr d_payload 9 [1] ?b (resume 7) = (r, ids')" by fastforce
  have "\<not> (\<exists>e. r = Inl e)"
    using r apply_aes_ctr_law [OF xor_ctr_law, of "DEFAULT_PSK[15 := 1]"]
    by (auto simp: build_def next_id_def resume_def checked_add_def encrypt_def resolve_psk_def DEFAULT_PSK_def Let_def)
  with build_encrypts [OF xor_ctr_law, where psk = "[1]" and dec = Some and enc_data = d_payload and idx = 0, OF _ _ r] r
    xor_ctr_law show ?thesis
    by (cases r) (auto simp: builder_data_def text_with_config_def)
qed

end
