(* ===== verification/Tamper_Format.thy ===== *)
theory Tamper_Format
  imports Geo_Signal
begin

section \<open>The tamper log on disk: entries, seals, names\<close>

text \<open>
  The byte formats of crate \<open>tekmerion\<close>: the entry framing of \<open>tamper_log.rs\<close>, the streaming
  check of \<open>tamper_log_verify.rs\<close>, the sidecar seal and the tip signature of \<open>tamper_log_seal.rs\<close>,
  and the file names of \<open>tamper_log_rotation.rs\<close>.

  BLAKE3 and CBOR are library code: the keyed hash and the two directions of the CBOR codec
  are the fields of \<open>prims\<close>. What the program relies on is \<open>prims_ok\<close>: a digest has 32 bytes, and
  decoding undoes encoding. A signature scheme is a \<open>tip_signer\<close> with the matching \<open>tip_verifier\<close>.

  Counters (\<open>u64\<close>) and byte offsets are natural numbers; the eight bytes of a stored count keep it
  modulo \<open>2 ^ 64\<close>, and every property that reads a count back says that it is below that.
\<close>

subsection \<open>Little-endian integers\<close>

fun to_le_bytes :: "nat \<Rightarrow> nat \<Rightarrow> bytes" where
  "to_le_bytes 0 n = []"
| "to_le_bytes (Suc k) n = word_of_nat n # to_le_bytes k (n div 256)"

fun from_le_bytes :: "bytes \<Rightarrow> nat" where
  "from_le_bytes [] = 0"
| "from_le_bytes (b # bs) = unat b + 256 * from_le_bytes bs"

lemma length_to_le_bytes [simp]: "length (to_le_bytes k n) = k"
  by (induction k arbitrary: n) auto

lemma from_to_le_bytes: "from_le_bytes (to_le_bytes k n) = n mod 256 ^ k"
proof (induction k arbitrary: n)
  case 0
  then show ?case by simp
next
  case (Suc k)
  have "from_le_bytes (to_le_bytes (Suc k) n) = n mod 256 + 256 * (n div 256 mod 256 ^ k)"
    by (simp add: Suc.IH unsigned_of_nat take_bit_eq_mod)
  also have "\<dots> = n mod (256 * 256 ^ k)"
    by (simp add: mod_mult2_eq)
  finally show ?case by simp
qed

lemma from_to_le_bytes_id [simp]: "n < 256 ^ k \<Longrightarrow> from_le_bytes (to_le_bytes k n) = n"
  by (simp add: from_to_le_bytes)

lemma to_le_bytes_inj: "to_le_bytes k m = to_le_bytes k n \<Longrightarrow> m < 256 ^ k \<Longrightarrow> n < 256 ^ k \<Longrightarrow> m = n"
  by (metis from_to_le_bytes_id)

lemma to_from_le_bytes: "to_le_bytes (length bs) (from_le_bytes bs) = bs"
proof (induction bs)
  case Nil
  then show ?case by simp
next
  case (Cons b bs)
  have "(unat b + 256 * from_le_bytes bs) div 256 = from_le_bytes bs"
    using unat_u8_lt [of b] by simp
  moreover have "word_of_nat (unat b + 256 * from_le_bytes bs) = b"
  proof -
    have 256: "(256 :: u8) = 0" by code_simp
    show ?thesis unfolding of_nat_add of_nat_mult of_nat_numeral 256 by simp
  qed
  ultimately show ?case by (simp add: Cons.IH)
qed

subsection \<open>Log entries\<close>

datatype log_entry_kind =
    SignalObserved signal_id string
  | EntityCreated "128 word" string
  | ConfigChanged string "string option" string
  | AlertRaised string string string
  | ActionTaken string string "string option"
  | VaultMutation string string

record log_entry =
  le_sequence :: nat
  le_timestamp_ms :: int
  le_kind :: log_entry_kind

record prims =
  blake3_keyed :: "bytes \<Rightarrow> bytes \<Rightarrow> bytes"
  cbor_enc :: "log_entry \<Rightarrow> bytes option"
  cbor_dec :: "bytes \<Rightarrow> log_entry option"

definition prims_ok :: "prims \<Rightarrow> bool" where
  "prims_ok P \<longleftrightarrow>
     (\<forall>k d. length (blake3_keyed P k d) = 32) \<and>
     (\<forall>e b. cbor_enc P e = Some b \<longrightarrow> cbor_dec P b = Some e)"

type_synonym chain_key = bytes
type_synonym hash32 = bytes
type_synonym path = "string \<times> string"

datatype chain_status =
    Intact
  | Broken nat hash32 hash32
  | Empty
  | Corrupted nat
  | Truncated "nat option"
  | Unsealed nat nat

datatype tamper_log_error =
    Io path
  | CborEncode
  | CborDecode
  | CorruptedAt nat
  | EntryTooLarge nat nat
  | ChainCompromised path chain_status
  | Locked path

definition MAX_ENTRY_BYTES :: nat where
  "MAX_ENTRY_BYTES = 16 * 1024 * 1024"

definition DEFAULT_MAX_FILE_BYTES :: nat where
  "DEFAULT_MAX_FILE_BYTES = 100 * 1024 * 1024"

definition link_hash :: "prims \<Rightarrow> chain_key \<Rightarrow> hash32 \<Rightarrow> bytes \<Rightarrow> hash32" where
  "link_hash P key prev cbor = blake3_keyed P key (cbor @ prev)"

definition encode_entry :: "prims \<Rightarrow> log_entry \<Rightarrow> hash32 \<Rightarrow> chain_key \<Rightarrow> tamper_log_error + bytes \<times> hash32" where
  "encode_entry P entry prev_hash key =
     (case cbor_enc P entry of
        None \<Rightarrow> Inl CborEncode
      | Some cbor \<Rightarrow>
          if length cbor > MAX_ENTRY_BYTES then Inl (EntryTooLarge (length cbor) MAX_ENTRY_BYTES)
          else let hash = link_hash P key prev_hash cbor
               in Inr (to_le_bytes 4 (length cbor) @ cbor @ hash, hash))"

definition decode_entry :: "prims \<Rightarrow> bytes \<Rightarrow> tamper_log_error + log_entry \<times> hash32" where
  "decode_entry P bs =
     (if length bs < 4 then Inl (CorruptedAt 0)
      else let payload_len = from_le_bytes (take 4 bs); rest = drop 4 bs in
        if payload_len > MAX_ENTRY_BYTES then Inl (EntryTooLarge payload_len MAX_ENTRY_BYTES)
        else if length rest < payload_len then Inl (CorruptedAt 4)
        else case cbor_dec P (take payload_len rest) of
            None \<Rightarrow> Inl CborDecode
          | Some entry \<Rightarrow>
              let rest' = drop payload_len rest in
              if length rest' < 32 then Inl (CorruptedAt (4 + payload_len))
              else Inr (entry, take 32 rest'))"

subsection \<open>Streaming verification\<close>

record stream_result =
  sr_entries_verified :: nat
  sr_terminal_hash :: hash32
  sr_break_status :: "chain_status option"

function stream_loop :: "prims \<Rightarrow> chain_key \<Rightarrow> bytes \<Rightarrow> hash32 \<Rightarrow> nat \<Rightarrow> nat \<Rightarrow> stream_result" where
  "stream_loop P key bs prev_hash entries_verified byte_offset =
     (let stop = \<lambda>st. \<lparr>sr_entries_verified = entries_verified, sr_terminal_hash = prev_hash, sr_break_status = st\<rparr> in
      if length bs < 4 then stop None
      else let payload_len = from_le_bytes (take 4 bs); rest = drop 4 bs in
        if payload_len > MAX_ENTRY_BYTES then stop (Some (Corrupted byte_offset))
        else if length rest < payload_len then stop (Some (Corrupted (byte_offset + 4)))
        else let cbor = take payload_len rest; rest' = drop payload_len rest in
          if length rest' < 32 then stop (Some (Corrupted (byte_offset + 4 + payload_len)))
          else let stored = take 32 rest'; expected = link_hash P key prev_hash cbor in
            if expected \<noteq> stored then
              stop (Some (Broken (case cbor_dec P cbor of None \<Rightarrow> entries_verified | Some e \<Rightarrow> le_sequence e)
                           expected stored))
            else stream_loop P key (drop 32 rest') expected (entries_verified + 1)
                   (byte_offset + (4 + payload_len + 32)))"
  by pat_completeness auto
termination
  by (relation "measure (\<lambda>(P, key, bs, prev, n, off). length bs)") auto

declare stream_loop.simps [simp del]

function recover_loop :: "bytes \<Rightarrow> hash32 \<Rightarrow> nat \<Rightarrow> nat \<Rightarrow> hash32 \<times> nat \<times> nat" where
  "recover_loop bs prev_hash sequence bytes_read =
     (if length bs < 4 then (prev_hash, sequence, bytes_read)
      else let payload_len = from_le_bytes (take 4 bs); rest = drop 4 bs in
        if payload_len > MAX_ENTRY_BYTES then (prev_hash, sequence, bytes_read)
        else let rest' = drop payload_len rest in
          if length rest' < 32 then (prev_hash, sequence, bytes_read)
          else recover_loop (drop 32 rest') (take 32 rest') (sequence + 1) (bytes_read + (4 + payload_len + 32)))"
  by pat_completeness auto
termination
  by (relation "measure (\<lambda>(bs, prev, n, off). length bs)") auto

declare recover_loop.simps [simp del]

subsection \<open>Chain key, genesis root, tip signatures\<close>

definition ascii :: "string \<Rightarrow> bytes" where
  "ascii s = map (word_of_nat \<circ> of_char) s"

definition CHAIN_KEY_LEN :: nat where "CHAIN_KEY_LEN = 32"
definition SEAL_COUNT_LEN :: nat where "SEAL_COUNT_LEN = 8"
definition SEAL_LINK_LEN :: nat where "SEAL_LINK_LEN = 32"
definition SEAL_MAC_LEN :: nat where "SEAL_MAC_LEN = 32"
definition KEY_ID_LEN :: nat where "KEY_ID_LEN = 8"
definition TIP_SIGNATURE_LEN :: nat where "TIP_SIGNATURE_LEN = 64"

definition SEAL_FILE_LEN :: nat where
  "SEAL_FILE_LEN = SEAL_COUNT_LEN + SEAL_LINK_LEN + SEAL_MAC_LEN"

definition SIGNED_SEAL_FILE_LEN :: nat where
  "SIGNED_SEAL_FILE_LEN =
     SEAL_COUNT_LEN + SEAL_LINK_LEN + SEAL_LINK_LEN + KEY_ID_LEN + TIP_SIGNATURE_LEN + SEAL_MAC_LEN"

lemmas seal_lens [simp] =
  SEAL_COUNT_LEN_def SEAL_LINK_LEN_def SEAL_MAC_LEN_def KEY_ID_LEN_def TIP_SIGNATURE_LEN_def
  SEAL_FILE_LEN_def SIGNED_SEAL_FILE_LEN_def

definition GENESIS_DOMAIN :: bytes where "GENESIS_DOMAIN = ascii ''koinon/tamper-log/genesis/v1''"
definition SEAL_DOMAIN :: bytes where "SEAL_DOMAIN = ascii ''koinon/tamper-log/seal/v1''"
definition SIGNED_SEAL_DOMAIN :: bytes where "SIGNED_SEAL_DOMAIN = ascii ''koinon/tamper-log/seal-signed/v1''"
definition TIP_SIGNING_DOMAIN :: bytes where "TIP_SIGNING_DOMAIN = ascii ''koinon/tamper-log/tip/v1''"

definition genesis_hash :: "prims \<Rightarrow> chain_key \<Rightarrow> hash32" where
  "genesis_hash P key = blake3_keyed P key GENESIS_DOMAIN"

record tip_signer =
  ts_key_id :: bytes
  ts_sign_tip :: "bytes \<Rightarrow> bytes"

record tip_verifier =
  tv_key_id :: bytes
  tv_verify_tip :: "bytes \<Rightarrow> bytes \<Rightarrow> bool"

record tip_provenance =
  tp_key_id :: bytes
  tp_terminal_hash :: hash32
  tp_signature :: bytes

definition tip_payload :: "hash32 \<Rightarrow> bytes" where
  "tip_payload terminal_hash = TIP_SIGNING_DOMAIN @ terminal_hash"

datatype tip_status =
    NoSeal
  | Unsigned
  | ForeignInstallation
  | SignatureInvalid
  | StaleTip hash32 hash32
  | Verified

datatype seal_state =
    SealAbsent
  | SealInvalid
  | SealValid nat hash32 "tip_provenance option"

definition check_tip :: "seal_state \<Rightarrow> tip_verifier \<Rightarrow> hash32 \<Rightarrow> tip_status" where
  "check_tip seal verifier terminal_hash =
     (case seal of
        SealAbsent \<Rightarrow> NoSeal
      | SealInvalid \<Rightarrow> NoSeal
      | SealValid _ _ provenance \<Rightarrow>
          (case provenance of
             None \<Rightarrow> Unsigned
           | Some tip \<Rightarrow>
               if tp_key_id tip \<noteq> tv_key_id verifier then ForeignInstallation
               else if \<not> tv_verify_tip verifier (tip_payload (tp_terminal_hash tip)) (tp_signature tip)
                    then SignatureInvalid
               else if tp_terminal_hash tip \<noteq> terminal_hash then StaleTip (tp_terminal_hash tip) terminal_hash
               else Verified))"

subsection \<open>Seals\<close>

definition seal_mac :: "prims \<Rightarrow> chain_key \<Rightarrow> nat \<Rightarrow> hash32 \<Rightarrow> hash32" where
  "seal_mac P key entry_count segment_start_hash =
     blake3_keyed P key (SEAL_DOMAIN @ to_le_bytes 8 entry_count @ segment_start_hash)"

definition signed_seal_mac :: "prims \<Rightarrow> chain_key \<Rightarrow> nat \<Rightarrow> hash32 \<Rightarrow> tip_provenance \<Rightarrow> hash32" where
  "signed_seal_mac P key entry_count segment_start_hash tip =
     blake3_keyed P key (SIGNED_SEAL_DOMAIN @ to_le_bytes 8 entry_count @ segment_start_hash @
       tp_terminal_hash tip @ tp_key_id tip @ tp_signature tip)"

definition seal_payload :: "prims \<Rightarrow> chain_key \<Rightarrow> nat \<Rightarrow> hash32 \<Rightarrow> tip_provenance option \<Rightarrow> bytes" where
  "seal_payload P key entry_count segment_start_hash provenance =
     (case provenance of
        None \<Rightarrow> to_le_bytes 8 entry_count @ segment_start_hash @ seal_mac P key entry_count segment_start_hash
      | Some tip \<Rightarrow>
          to_le_bytes 8 entry_count @ segment_start_hash @ tp_terminal_hash tip @ tp_key_id tip @
          tp_signature tip @ signed_seal_mac P key entry_count segment_start_hash tip)"

definition read_unsigned_seal :: "prims \<Rightarrow> bytes \<Rightarrow> chain_key \<Rightarrow> seal_state" where
  "read_unsigned_seal P raw key =
     (if length raw \<noteq> SEAL_FILE_LEN then SealInvalid
      else let count = from_le_bytes (take SEAL_COUNT_LEN raw);
               segment_start_hash = take SEAL_LINK_LEN (drop SEAL_COUNT_LEN raw);
               stored_mac = drop (SEAL_COUNT_LEN + SEAL_LINK_LEN) raw
           in if seal_mac P key count segment_start_hash = stored_mac
              then SealValid count segment_start_hash None else SealInvalid)"

definition read_signed_seal :: "prims \<Rightarrow> bytes \<Rightarrow> chain_key \<Rightarrow> seal_state" where
  "read_signed_seal P raw key =
     (if length raw \<noteq> SIGNED_SEAL_FILE_LEN then SealInvalid
      else let (count_bytes, r1) = (take SEAL_COUNT_LEN raw, drop SEAL_COUNT_LEN raw);
               (segment_start_hash, r2) = (take SEAL_LINK_LEN r1, drop SEAL_LINK_LEN r1);
               (terminal_hash, r3) = (take SEAL_LINK_LEN r2, drop SEAL_LINK_LEN r2);
               (key_id, r4) = (take KEY_ID_LEN r3, drop KEY_ID_LEN r3);
               (signature, r5) = (take TIP_SIGNATURE_LEN r4, drop TIP_SIGNATURE_LEN r4);
               stored_mac = take SEAL_MAC_LEN r5;
               count = from_le_bytes count_bytes;
               tip = \<lparr>tp_key_id = key_id, tp_terminal_hash = terminal_hash, tp_signature = signature\<rparr>
           in if signed_seal_mac P key count segment_start_hash tip = stored_mac
              then SealValid count segment_start_hash (Some tip) else SealInvalid)"

definition authenticate_seal :: "prims \<Rightarrow> bytes option \<Rightarrow> chain_key \<Rightarrow> seal_state" where
  "authenticate_seal P content key =
     (case content of
        None \<Rightarrow> SealAbsent
      | Some bs \<Rightarrow>
          if length bs = SEAL_FILE_LEN then read_unsigned_seal P bs key
          else if length bs = SIGNED_SEAL_FILE_LEN then read_signed_seal P bs key
          else SealInvalid)"

definition resolve_start_hash :: "prims \<Rightarrow> seal_state \<Rightarrow> chain_key \<Rightarrow> hash32" where
  "resolve_start_hash P sealed key =
     (case sealed of SealValid _ segment_start_hash _ \<Rightarrow> segment_start_hash | _ \<Rightarrow> genesis_hash P key)"

definition classify_terminal :: "seal_state \<Rightarrow> nat \<Rightarrow> chain_status" where
  "classify_terminal sealed entries_verified =
     (if entries_verified = 0 then
        (case sealed of
           SealAbsent \<Rightarrow> Empty
         | SealValid entry_count _ _ \<Rightarrow> if entry_count = 0 then Empty else Truncated (Some entry_count)
         | SealInvalid \<Rightarrow> Truncated None)
      else
        (case sealed of
           SealValid entry_count _ _ \<Rightarrow>
             if entry_count = entries_verified then Intact
             else if entry_count < entries_verified then Unsealed entries_verified entry_count
             else Truncated (Some entry_count)
         | SealAbsent \<Rightarrow> Truncated None
         | SealInvalid \<Rightarrow> Truncated None))"

subsection \<open>File names\<close>

definition seal_path :: "path \<Rightarrow> path" where
  "seal_path p = (fst p, snd p @ ''.seal'')"

definition lock_path :: "path \<Rightarrow> path" where
  "lock_path p = (fst p, snd p @ ''.lock'')"

definition tmp_path :: "path \<Rightarrow> path" where
  "tmp_path p = (fst p, snd p @ ''.tmp'')"

definition log_stem :: "path \<Rightarrow> string" where
  "log_stem p =
     (let name = snd p; after = rev (takeWhile (\<lambda>c. c \<noteq> CHR ''.'') (rev name)) in
      if length after = length name then name
      else let before = take (length name - length after - 1) name in if before = [] then name else before)"

definition digit :: "nat \<Rightarrow> char" where
  "digit d = char_of (48 + d)"

definition is_digit :: "char \<Rightarrow> bool" where
  "is_digit c \<longleftrightarrow> 48 \<le> (of_char c :: nat) \<and> (of_char c :: nat) \<le> 57"

fun show_nat :: "nat \<Rightarrow> string" where
  "show_nat n = (if n < 10 then [digit n] else show_nat (n div 10) @ [digit (n mod 10)])"

declare show_nat.simps [simp del]

definition digits_value :: "string \<Rightarrow> nat" where
  "digits_value s = foldl (\<lambda>n c. 10 * n + (of_char c - 48)) 0 s"

definition parse_u32 :: "string \<Rightarrow> nat option" where
  "parse_u32 s =
     (let ds = (case s of c # t \<Rightarrow> if c = CHR ''+'' then t else s | [] \<Rightarrow> s) in
      if ds = [] \<or> \<not> list_all is_digit ds then None
      else if digits_value ds < 2 ^ 32 then Some (digits_value ds) else None)"

definition strip_prefix :: "string \<Rightarrow> string \<Rightarrow> string option" where
  "strip_prefix p s = (if take (length p) s = p then Some (drop (length p) s) else None)"

definition strip_suffix :: "string \<Rightarrow> string \<Rightarrow> string option" where
  "strip_suffix p s =
     (if length p \<le> length s \<and> drop (length s - length p) s = p then Some (take (length s - length p) s) else None)"

definition rotation_path :: "path \<Rightarrow> nat \<Rightarrow> path" where
  "rotation_path p n = (fst p, log_stem p @ ''.'' @ show_nat n @ ''.log'')"

definition parse_rotation_number :: "string \<Rightarrow> string \<Rightarrow> nat option" where
  "parse_rotation_number name stem =
     Option.bind (strip_prefix (stem @ ''.'') name)
       (\<lambda>r. Option.bind (strip_suffix ''.log'' r) parse_u32)"

subsection \<open>Lemmas: entries\<close>

lemma length_link_hash [simp]: "prims_ok P \<Longrightarrow> length (link_hash P key h c) = 32"
  by (simp add: prims_ok_def link_hash_def)

lemma length_genesis_hash [simp]: "prims_ok P \<Longrightarrow> length (genesis_hash P key) = 32"
  by (simp add: prims_ok_def genesis_hash_def)

lemma entry_len_stored [simp]:
  "length c \<le> MAX_ENTRY_BYTES \<Longrightarrow> from_le_bytes (to_le_bytes 4 (length c)) = length c"
  by (rule from_to_le_bytes_id) (simp add: MAX_ENTRY_BYTES_def)

lemma encode_entry_Inr:
  "encode_entry P e prev key = Inr (w, h) \<longleftrightarrow>
     (\<exists>c. cbor_enc P e = Some c \<and> length c \<le> MAX_ENTRY_BYTES \<and> h = link_hash P key prev c \<and>
       w = to_le_bytes 4 (length c) @ c @ h)"
  by (auto simp: encode_entry_def Let_def split: option.splits)

lemma decode_encode_entry:
  assumes "prims_ok P" and "encode_entry P e prev key = Inr (w, h)"
  shows "decode_entry P (w @ rest) = Inr (e, h)"
proof -
  from assms(2) obtain c where c: "cbor_enc P e = Some c" "length c \<le> MAX_ENTRY_BYTES"
      "h = link_hash P key prev c" "w = to_le_bytes 4 (length c) @ c @ h"
    unfolding encode_entry_Inr by blast
  with assms(1) have "cbor_dec P c = Some e" "length h = 32" by (simp_all add: prims_ok_def link_hash_def)
  with c(2) show ?thesis by (simp add: c(4) decode_entry_def Let_def)
qed

text \<open>
  The bytes of a chain: payload after payload, each followed by its link, from a start
  hash. \<open>chain_links\<close> are the links in order and \<open>chain_end\<close> the last one.
\<close>

fun chain_wire :: "prims \<Rightarrow> chain_key \<Rightarrow> hash32 \<Rightarrow> bytes list \<Rightarrow> bytes" where
  "chain_wire P key h [] = []"
| "chain_wire P key h (c # cs) =
     to_le_bytes 4 (length c) @ c @ link_hash P key h c @ chain_wire P key (link_hash P key h c) cs"

fun chain_end :: "prims \<Rightarrow> chain_key \<Rightarrow> hash32 \<Rightarrow> bytes list \<Rightarrow> hash32" where
  "chain_end P key h [] = h"
| "chain_end P key h (c # cs) = chain_end P key (link_hash P key h c) cs"

definition sized :: "bytes list \<Rightarrow> bool" where
  "sized cs \<longleftrightarrow> (\<forall>c \<in> set cs. length c \<le> MAX_ENTRY_BYTES)"

lemma sized_simps [simp]:
  "sized []" "sized (c # cs) \<longleftrightarrow> length c \<le> MAX_ENTRY_BYTES \<and> sized cs"
  "sized (cs @ ds) \<longleftrightarrow> sized cs \<and> sized ds"
  by (auto simp: sized_def)

lemma chain_wire_append:
  "chain_wire P key h (cs @ ds) = chain_wire P key h cs @ chain_wire P key (chain_end P key h cs) ds"
  by (induction cs arbitrary: h) auto

lemma chain_end_append: "chain_end P key h (cs @ ds) = chain_end P key (chain_end P key h cs) ds"
  by (induction cs arbitrary: h) auto

lemma length_chain_end [simp]: "prims_ok P \<Longrightarrow> length h = 32 \<Longrightarrow> length (chain_end P key h cs) = 32"
  by (induction cs arbitrary: h) auto

lemma stream_loop_short [simp]:
  "length bs < 4 \<Longrightarrow>
     stream_loop P key bs h n off = \<lparr>sr_entries_verified = n, sr_terminal_hash = h, sr_break_status = None\<rparr>"
  by (subst stream_loop.simps) simp

lemma stream_loop_entry:
  assumes "length c \<le> MAX_ENTRY_BYTES" and "length s = 32"
  shows "stream_loop P key (to_le_bytes 4 (length c) @ c @ s @ tail) h n off =
    (if link_hash P key h c = s then stream_loop P key tail s (n + 1) (off + (4 + length c + 32))
     else \<lparr>sr_entries_verified = n, sr_terminal_hash = h,
       sr_break_status = Some (Broken (case cbor_dec P c of None \<Rightarrow> n | Some e \<Rightarrow> le_sequence e)
         (link_hash P key h c) s)\<rparr>)"
  using assms by (subst stream_loop.simps) (simp add: Let_def)

lemma stream_chain:
  assumes "prims_ok P" and "sized cs"
  shows "stream_loop P key (chain_wire P key h cs @ tail) h n off =
    stream_loop P key tail (chain_end P key h cs) (n + length cs) (off + length (chain_wire P key h cs))"
  using assms(2)
proof (induction cs arbitrary: h n off)
  case Nil
  then show ?case by simp
next
  case (Cons c cs)
  then show ?case using assms(1) by (simp add: stream_loop_entry add.assoc)
qed

lemma stream_loop_clean:
  assumes "stream_loop P key bs h n off = r" and "sr_break_status r = None"
  shows "\<exists>cs tail. bs = chain_wire P key h cs @ tail \<and> sized cs \<and> length tail < 4 \<and>
    sr_entries_verified r = n + length cs \<and> sr_terminal_hash r = chain_end P key h cs"
  using assms
proof (induction P key bs h n off arbitrary: r rule: stream_loop.induct)
  case (1 P key bs h n off)
  let ?len = "from_le_bytes (take 4 bs)"
  let ?c = "take ?len (drop 4 bs)"
  let ?rest' = "drop ?len (drop 4 bs)"
  show ?case
  proof (cases "length bs < 4")
    case True
    with 1 have "bs = chain_wire P key h [] @ bs \<and> sized [] \<and> length bs < 4 \<and>
        sr_entries_verified r = n + length ([] :: bytes list) \<and> sr_terminal_hash r = chain_end P key h []"
      by auto
    then show ?thesis by blast
  next
    case False
    note unfolded = stream_loop.simps [of P key bs h n off, unfolded Let_def, unfolded if_not_P [OF False] 1(2)]
    have ok1: "\<not> ?len > MAX_ENTRY_BYTES"
    proof
      assume "?len > MAX_ENTRY_BYTES"
      from unfolded [unfolded if_P [OF this]] 1(3) show False by simp
    qed
    note unfolded = unfolded [unfolded if_not_P [OF ok1]]
    have ok2: "\<not> length (drop 4 bs) < ?len"
    proof
      assume "length (drop 4 bs) < ?len"
      from unfolded [unfolded if_P [OF this]] 1(3) show False by simp
    qed
    note unfolded = unfolded [unfolded if_not_P [OF ok2]]
    have ok3: "\<not> length ?rest' < 32"
    proof
      assume "length ?rest' < 32"
      from unfolded [unfolded if_P [OF this]] 1(3) show False by simp
    qed
    note unfolded = unfolded [unfolded if_not_P [OF ok3]]
    have ok4: "\<not> link_hash P key h ?c \<noteq> take 32 ?rest'"
    proof
      assume "link_hash P key h ?c \<noteq> take 32 ?rest'"
      from unfolded [unfolded if_P [OF this]] 1(3) show False by simp
    qed
    note rec = unfolded [unfolded if_not_P [OF ok4], symmetric]
    note ok = ok1 ok2 ok3 ok4 [unfolded not_not]
    obtain cs tail where ih: "drop 32 ?rest' = chain_wire P key (link_hash P key h ?c) cs @ tail"
        "sized cs" "length tail < 4" "sr_entries_verified r = n + 1 + length cs"
        "sr_terminal_hash r = chain_end P key (link_hash P key h ?c) cs"
      using 1(1) [OF refl False refl refl ok1 ok2 refl refl ok3 refl refl ok4 rec 1(3)] by blast
    have len: "length ?c = ?len" using ok(2) by simp
    have "bs = to_le_bytes 4 ?len @ ?c @ link_hash P key h ?c @ drop 32 ?rest'"
    proof -
      have "to_le_bytes 4 ?len = take 4 bs" using to_from_le_bytes [of "take 4 bs"] False by simp
      then show ?thesis unfolding ok(4) by (simp only: append_take_drop_id)
    qed
    then have "bs = chain_wire P key h (?c # cs) @ tail" by (simp only: chain_wire.simps ih(1) len append.assoc)
    moreover have "sized (?c # cs)" using ih(2) ok(1) len by simp
    moreover have "sr_entries_verified r = n + length (?c # cs)" using ih(4) by simp
    moreover have "sr_terminal_hash r = chain_end P key h (?c # cs)" using ih(5) by simp
    ultimately show ?thesis using ih(3) by blast
  qed
qed

lemma recover_chain:
  assumes "prims_ok P" and "sized cs" and "length tail < 4"
  shows "recover_loop (chain_wire P key h cs @ tail) h n off =
    (chain_end P key h cs, n + length cs, off + length (chain_wire P key h cs))"
  using assms(2)
proof (induction cs arbitrary: h n off)
  case Nil
  with assms(3) show ?case by (subst recover_loop.simps) simp
next
  case (Cons c cs)
  then show ?case using assms(1)
    by (subst chain_wire.simps, subst recover_loop.simps) (simp add: Let_def add.assoc)
qed

lemma stream_truncated:
  assumes "prims_ok P" and "sized cs" and "k < length (chain_wire P key h cs)"
    and "r = stream_loop P key (take k (chain_wire P key h cs)) h n off"
  shows "(\<exists>o'. sr_break_status r = Some (Corrupted o')) \<or>
    (sr_break_status r = None \<and> sr_entries_verified r < n + length cs)"
  using assms(2-)
proof (induction cs arbitrary: h n off k)
  case Nil
  then show ?case by simp
next
  case (Cons c cs)
  let ?l = "link_hash P key h c"
  have len: "length ?l = 32" using assms(1) by simp
  show ?case
  proof (cases "k < 4 + length c + 32")
    case True
    then consider "k < 4" | "4 \<le> k" "k - 4 < length c" | "4 \<le> k" "length c \<le> k - 4" "k - 4 - length c < 32"
      by linarith
    then show ?thesis
    proof cases
      case 1
      then show ?thesis by (simp add: Cons.prems(3))
    next
      case 2
      then have "take k (chain_wire P key h (c # cs)) = to_le_bytes 4 (length c) @ take (k - 4) c"
        by simp
      with 2 show ?thesis using Cons.prems(1)
        by (simp add: Cons.prems(3)) (subst stream_loop.simps, simp add: Let_def)
    next
      case 3
      then have "take k (chain_wire P key h (c # cs)) = to_le_bytes 4 (length c) @ c @ take (k - 4 - length c) ?l"
        using len by simp
      with 3 show ?thesis using Cons.prems(1) len
        by (simp add: Cons.prems(3)) (subst stream_loop.simps, simp add: Let_def)
    qed
  next
    case False
    let ?k = "k - 4 - length c - 32"
    have take_k: "take k (chain_wire P key h (c # cs)) =
        to_le_bytes 4 (length c) @ c @ ?l @ take ?k (chain_wire P key ?l cs)"
      using False len by simp
    have "?k < length (chain_wire P key ?l cs)" using False Cons.prems(2) len by simp
    moreover have "r = stream_loop P key (take ?k (chain_wire P key ?l cs)) ?l (n + 1) (off + (4 + length c + 32))"
      unfolding Cons.prems(3) take_k using Cons.prems(1) len by (simp add: stream_loop_entry)
    ultimately show ?thesis using Cons.IH [of ?k ?l "n + 1"] Cons.prems(1) by simp
  qed
qed

text \<open>
  The messages the keyed hash is applied to along a chain, and the hashes it passes through. A
  chain whose every message is one the writer hashed is a prefix of the writer's chain, provided
  the writer's own hashes are distinct.
\<close>

fun chain_messages :: "prims \<Rightarrow> chain_key \<Rightarrow> hash32 \<Rightarrow> bytes list \<Rightarrow> bytes list" where
  "chain_messages P key h [] = []"
| "chain_messages P key h (c # cs) = (c @ h) # chain_messages P key (link_hash P key h c) cs"

fun chain_hashes :: "prims \<Rightarrow> chain_key \<Rightarrow> hash32 \<Rightarrow> bytes list \<Rightarrow> hash32 list" where
  "chain_hashes P key h [] = [h]"
| "chain_hashes P key h (c # cs) = h # chain_hashes P key (link_hash P key h c) cs"

lemma in_chain_messages:
  "m \<in> set (chain_messages P key h cs) \<Longrightarrow> \<exists>pre c post. cs = pre @ c # post \<and> m = c @ chain_end P key h pre"
proof (induction cs arbitrary: h)
  case Nil
  then show ?case by simp
next
  case (Cons a cs)
  show ?case
  proof (cases "m = a @ h")
    case True
    then have "a # cs = [] @ a # cs \<and> m = a @ chain_end P key h []" by simp
    then show ?thesis by blast
  next
    case False
    with Cons obtain pre c post where "cs = pre @ c # post" "m = c @ chain_end P key (link_hash P key h a) pre"
      by fastforce
    then have "a # cs = (a # pre) @ c # post \<and> m = c @ chain_end P key h (a # pre)" by simp
    then show ?thesis by blast
  qed
qed

lemma length_chain_hashes [simp]: "length (chain_hashes P key h cs) = Suc (length cs)"
  by (induction cs arbitrary: h) auto

lemma nth_chain_hashes: "i \<le> length cs \<Longrightarrow> chain_hashes P key h cs ! i = chain_end P key h (take i cs)"
proof (induction cs arbitrary: h i)
  case Nil
  then show ?case by simp
next
  case (Cons c cs)
  then show ?case by (cases i) auto
qed

lemma chain_end_prefix_inj:
  assumes "distinct (chain_hashes P key h cs)" and "cs = pre @ post" and "cs = pre' @ post'"
    and "chain_end P key h pre = chain_end P key h pre'"
  shows "pre = pre'"
proof -
  have at: "chain_hashes P key h cs ! length xs = chain_end P key h xs \<and> length xs < length (chain_hashes P key h cs)"
    if "cs = xs @ ys" for xs ys
    using that by (simp add: nth_chain_hashes)
  have "length pre = length pre'"
    using at [OF assms(2)] at [OF assms(3)] assms(1,4) by (metis nth_eq_iff_index_eq)
  with assms(2,3) show ?thesis by simp
qed

lemma known_messages_prefix:
  assumes "prims_ok P" and "length h = 32" and "distinct (chain_hashes P key h cs)"
    and "cs = pre @ post"
    and "set (chain_messages P key (chain_end P key h pre) ds) \<subseteq> set (chain_messages P key h cs)"
  shows "\<exists>rest. post = ds @ rest"
  using assms(4,5)
proof (induction ds arbitrary: pre post)
  case Nil
  then show ?case by simp
next
  case (Cons d ds)
  from Cons.prems(2) have "d @ chain_end P key h pre \<in> set (chain_messages P key h cs)" by simp
  then obtain pre' c post' where c: "cs = pre' @ c # post'" "d @ chain_end P key h pre = c @ chain_end P key h pre'"
    by (blast dest: in_chain_messages)
  from c(2) have eq: "d = c" "chain_end P key h pre = chain_end P key h pre'"
    using assms(1,2) by (simp_all add: append_eq_append_conv)
  have "pre = pre'"
    using chain_end_prefix_inj [OF assms(3) Cons.prems(1) c(1) eq(2)] .
  with c(1) Cons.prems(1) eq(1) have post: "post = d # post'" by simp
  have "cs = (pre @ [d]) @ post'" using Cons.prems(1) post by simp
  moreover have "set (chain_messages P key (chain_end P key h (pre @ [d])) ds) \<subseteq> set (chain_messages P key h cs)"
    using Cons.prems(2) by (simp add: chain_end_append)
  ultimately obtain rest where "post' = ds @ rest" using Cons.IH by blast
  with post show ?case by simp
qed

subsection \<open>Lemmas: seals\<close>

definition provenance_ok :: "tip_provenance option \<Rightarrow> bool" where
  "provenance_ok prov \<longleftrightarrow>
     (\<forall>tip. prov = Some tip \<longrightarrow>
        length (tp_key_id tip) = 8 \<and> length (tp_terminal_hash tip) = 32 \<and> length (tp_signature tip) = 64)"

lemma length_macs [simp]:
  "prims_ok P \<Longrightarrow> length (seal_mac P key n s) = 32"
  "prims_ok P \<Longrightarrow> length (signed_seal_mac P key n s tip) = 32"
  by (simp_all add: prims_ok_def seal_mac_def signed_seal_mac_def)

lemma authenticate_seal_payload:
  assumes "prims_ok P" and "n < 2 ^ 64" and "length start = 32" and "provenance_ok prov"
  shows "authenticate_seal P (Some (seal_payload P key n start prov)) key = SealValid n start prov"
proof -
  have n: "from_le_bytes (to_le_bytes 8 n) = n" using assms(2) by simp
  show ?thesis
  proof (cases prov)
    case None
    with assms n show ?thesis
      by (simp add: authenticate_seal_def seal_payload_def read_unsigned_seal_def)
  next
    case (Some tip)
    with assms(4) have "length (tp_key_id tip) = 8" "length (tp_terminal_hash tip) = 32" "length (tp_signature tip) = 64"
      by (simp_all add: provenance_ok_def)
    with assms n Some show ?thesis
      by (cases tip) (simp add: authenticate_seal_def seal_payload_def read_signed_seal_def Let_def)
  qed
qed

subsection \<open>Lemmas: file names\<close>

lemma log_stem_cases:
  "snd p = log_stem p \<or> (\<exists>ext. snd p = log_stem p @ ''.'' @ ext \<and> CHR ''.'' \<notin> set ext)"
proof -
  define ext where "ext = rev (takeWhile (\<lambda>c. c \<noteq> CHR ''.'') (rev (snd p)))"
  define pre where "pre = rev (dropWhile (\<lambda>c. c \<noteq> CHR ''.'') (rev (snd p)))"
  have name: "snd p = pre @ ext"
    unfolding pre_def ext_def by (simp only: rev_append [symmetric] takeWhile_dropWhile_id rev_rev_ident)
  have ext: "CHR ''.'' \<notin> set ext" by (auto simp: ext_def dest: set_takeWhileD)
  have stem: "log_stem p = (if length ext = length (snd p) then snd p
      else let before = take (length (snd p) - length ext - 1) (snd p) in if before = [] then snd p else before)"
    by (simp add: log_stem_def ext_def Let_def)
  show ?thesis
  proof (cases "pre = []")
    case True
    with name stem show ?thesis by simp
  next
    case False
    then have "last pre = CHR ''.''"
      using hd_dropWhile [of "\<lambda>c. c \<noteq> CHR ''.''" "rev (snd p)"] by (simp add: pre_def last_rev)
    with False have pre: "pre = butlast pre @ ''.''" using append_butlast_last_id [OF False] by simp
    have before: "take (length (snd p) - length ext - 1) (snd p) = butlast pre"
      by (simp add: name butlast_conv_take)
    have "length ext \<noteq> length (snd p)" using False by (simp add: name)
    then have "log_stem p = (if butlast pre = [] then snd p else butlast pre)"
      unfolding stem Let_def before by (rule if_not_P)
    moreover have "snd p = butlast pre @ ''.'' @ ext" using name pre by (metis append.assoc)
    ultimately show ?thesis using ext by (auto split: if_splits)
  qed
qed

lemma log_stem_dot: "snd p = log_stem p @ ''.'' @ x \<Longrightarrow> CHR ''.'' \<notin> set x"
  using log_stem_cases [of p] by auto

lemma parse_rotation_number_SomeD:
  "parse_rotation_number name stem = Some n \<Longrightarrow>
     \<exists>r. name = stem @ ''.'' @ r @ ''.log'' \<and> parse_u32 r = Some n"
proof -
  assume "parse_rotation_number name stem = Some n"
  then obtain r t where r: "strip_prefix (stem @ ''.'') name = Some r"
      "strip_suffix ''.log'' r = Some t" "parse_u32 t = Some n"
    by (auto simp: parse_rotation_number_def Option.bind_eq_Some_conv)
  from r(1) have "name = (stem @ ''.'') @ r"
    by (auto simp: strip_prefix_def split: if_splits) (metis append_take_drop_id append.assoc append_Cons append_Nil)
  moreover from r(2) have "r = t @ ''.log''"
    unfolding strip_suffix_def by (metis append_take_drop_id option.distinct(1) option.inject)
  ultimately show ?thesis using r(3) by auto
qed

lemma digits_value_snoc: "digits_value (s @ [c]) = 10 * digits_value s + (of_char c - 48)"
  by (simp add: digits_value_def)

lemma of_char_digit [simp]: "d < 10 \<Longrightarrow> of_char (digit d) = (48 + d :: nat)"
  by (simp add: digit_def)

lemma show_nat_digits: "show_nat n \<noteq> [] \<and> list_all is_digit (show_nat n) \<and> digits_value (show_nat n) = n"
proof (induction n rule: show_nat.induct)
  case (1 n)
  show ?case
  proof (cases "n < 10")
    case True
    then have "show_nat n = [digit n]" by (simp add: show_nat.simps)
    with True show ?thesis by (simp add: is_digit_def digits_value_def)
  next
    case False
    then have "show_nat n = show_nat (n div 10) @ [digit (n mod 10)]" by (simp add: show_nat.simps)
    with 1 [OF False] show ?thesis by (simp add: digits_value_snoc) (simp add: is_digit_def)
  qed
qed

lemma parse_show_u32: "n < 2 ^ 32 \<Longrightarrow> parse_u32 (show_nat n) = Some n"
proof -
  assume "n < 2 ^ 32"
  have d: "list_all is_digit (show_nat n)" "show_nat n \<noteq> []" "digits_value (show_nat n) = n"
    using show_nat_digits by blast+
  have "\<not> is_digit (CHR ''+'')" by (simp add: is_digit_def)
  with d have "(case show_nat n of c # t \<Rightarrow> if c = CHR ''+'' then t else show_nat n | [] \<Rightarrow> show_nat n) = show_nat n"
    by (auto split: list.splits)
  with d \<open>n < 2 ^ 32\<close> show ?thesis by (simp add: parse_u32_def)
qed

lemma show_nat_inj: "show_nat m = show_nat n \<Longrightarrow> m = n"
  using show_nat_digits by metis

lemma parse_rotation_path: "n < 2 ^ 32 \<Longrightarrow> parse_rotation_number (snd (rotation_path p n)) (log_stem p) = Some n"
  by (simp add: parse_rotation_number_def rotation_path_def strip_prefix_def strip_suffix_def parse_show_u32)

lemma parse_live: "parse_rotation_number (snd p) (log_stem p) = None"
proof (rule ccontr)
  assume "parse_rotation_number (snd p) (log_stem p) \<noteq> None"
  then obtain r where "snd p = log_stem p @ ''.'' @ r @ ''.log''"
    by (blast dest: parse_rotation_number_SomeD)
  from log_stem_dot [OF this] show False by simp
qed

lemma parse_sidecar:
  "last suffix \<noteq> CHR ''g'' \<Longrightarrow> suffix \<noteq> [] \<Longrightarrow> parse_rotation_number (name @ suffix) stem = None"
proof (rule ccontr)
  assume suffix: "last suffix \<noteq> CHR ''g''" "suffix \<noteq> []"
  assume "parse_rotation_number (name @ suffix) stem \<noteq> None"
  then obtain r where "name @ suffix = stem @ ''.'' @ r @ ''.log''"
    by (blast dest: parse_rotation_number_SomeD)
  then have "last (name @ suffix) = last (stem @ ''.'' @ r @ ''.log'')" by (rule arg_cong)
  with suffix show False by simp
qed

lemma parse_seal_lock [simp]:
  "parse_rotation_number (snd (seal_path q)) stem = None"
  "parse_rotation_number (snd (lock_path q)) stem = None"
  "parse_rotation_number (snd (tmp_path q)) stem = None"
  unfolding seal_path_def lock_path_def tmp_path_def snd_conv by (rule parse_sidecar; simp)+

lemma rotation_path_inj [simp]: "rotation_path p m = rotation_path p n \<longleftrightarrow> m = n"
  by (auto simp: rotation_path_def dest: show_nat_inj)

lemma rotation_path_ne_live [simp]: "rotation_path p n \<noteq> p"
proof
  assume eq: "rotation_path p n = p"
  then have "snd p = log_stem p @ ''.'' @ (show_nat n @ ''.log'')"
    by (metis rotation_path_def snd_conv)
  from log_stem_dot [OF this] show False by simp
qed

lemma last_rotation_path: "last (snd (rotation_path p n)) = CHR ''g''"
  by (simp add: rotation_path_def)

lemma last_sidecars:
  "last (snd (seal_path p)) = CHR ''l''" "last (snd (lock_path p)) = CHR ''k''" "last (snd (tmp_path p)) = CHR ''p''"
  by (simp_all add: seal_path_def lock_path_def tmp_path_def)

lemma sidecar_paths_ne [simp]:
  "seal_path p \<noteq> lock_path q" "seal_path p \<noteq> tmp_path q" "seal_path p \<noteq> rotation_path q n"
  "lock_path p \<noteq> tmp_path q" "lock_path p \<noteq> rotation_path q n" "tmp_path p \<noteq> rotation_path q n"
  by (rule notI, drule arg_cong [where f = "\<lambda>q. last (snd q)"], simp add: last_sidecars last_rotation_path)+

lemma sidecar_ne_self [simp]:
  "seal_path p \<noteq> p" "lock_path p \<noteq> p" "tmp_path (seal_path p) \<noteq> p" "tmp_path (seal_path p) \<noteq> seal_path p"
  by (cases p, simp add: seal_path_def lock_path_def tmp_path_def)+

lemma seal_path_inj [simp]: "seal_path p = seal_path q \<longleftrightarrow> p = q"
  by (auto simp: seal_path_def prod_eq_iff)

lemma seal_of_rotation_ne_live [simp]: "seal_path (rotation_path p n) \<noteq> p"
proof
  assume eq: "seal_path (rotation_path p n) = p"
  then have "snd p = log_stem p @ ''.'' @ (show_nat n @ ''.log.seal'')"
    by (metis append.assoc append_Cons append_Nil rotation_path_def seal_path_def snd_conv)
  from log_stem_dot [OF this] show False by simp
qed

end
