(* ===== verification/Tamper_Log.thy ===== *)
theory Tamper_Log
  imports Tamper_Format
begin

section \<open>The tamper-evident log\<close>

text \<open>
  The writer of \<open>tekmerion/src/tamper_log.rs\<close> with its lock, its seal commits and its rotation, and the
  two verifiers of \<open>tamper_log_verify.rs\<close> and \<open>tamper_log_segments.rs\<close>, over a file system.

  A path is a pair of the parent directory's text and the file name. The file system (\<open>disk\<close>) holds
  the content of every file and the advisory locks held. Every operation that touches the
  device takes the fault that hits it: how many bytes the device still accepts
  (\<open>io_space\<close>), the stage of the seal commit that fails (\<open>seal_stage\<close>, the stages the
  source names), the stage of the rotation that fails (\<open>rotate_stage\<close>). \<open>io_ok\<close> has no fault. A
  crash is a fault after which the handle is gone and its lock released.

  The handle's \<open>tl_fd\<close> is the name under which the file it writes to is found: renaming a file under
  an open descriptor carries the descriptor along. \<open>tl_pending\<close> is the buffer of
  \<open>std::io::BufWriter\<close>, whose \<open>write_all\<close> and \<open>flush\<close> are modelled with its capacity of 8 KiB.
\<close>

subsection \<open>Files, locks, faults\<close>

record disk =
  d_files :: "(path, bytes) hash_map"
  d_locks :: "path list"

definition read_file :: "disk \<Rightarrow> path \<Rightarrow> bytes option" where
  "read_file d p = hm_get (d_files d) p"

definition put_file :: "disk \<Rightarrow> path \<Rightarrow> bytes \<Rightarrow> disk" where
  "put_file d p bs = d\<lparr>d_files := hm_insert p bs (d_files d)\<rparr>"

definition remove_file :: "disk \<Rightarrow> path \<Rightarrow> disk" where
  "remove_file d p = d\<lparr>d_files := hm_remove p (d_files d)\<rparr>"

definition append_file :: "disk \<Rightarrow> path \<Rightarrow> bytes \<Rightarrow> disk" where
  "append_file d p bs = (case read_file d p of None \<Rightarrow> d | Some old \<Rightarrow> put_file d p (old @ bs))"

definition open_append :: "disk \<Rightarrow> path \<Rightarrow> disk" where
  "open_append d p = (case read_file d p of None \<Rightarrow> put_file d p [] | Some _ \<Rightarrow> d)"

definition rename_file :: "disk \<Rightarrow> path \<Rightarrow> path \<Rightarrow> disk option" where
  "rename_file d p q =
     (case read_file d p of None \<Rightarrow> None | Some bs \<Rightarrow> Some (put_file (remove_file d p) q bs))"

definition read_dir :: "disk \<Rightarrow> string \<Rightarrow> string list option" where
  "read_dir d dir =
     (if dir = [] then None else Some (map snd (filter (\<lambda>p. fst p = dir) (map fst (d_files d)))))"

datatype seal_stage = SealCreate | SealWrite nat | SealSync | SealRename | SealDirSync

datatype rotate_stage =
  RotateReadDir | RotateRenameLog | RotateRenameSeal | RotateReopen | RotateSeal seal_stage

record io_plan =
  io_space :: "nat option"
  io_seal :: "seal_stage option"
  io_rotate :: "rotate_stage option"

definition io_ok :: io_plan where
  "io_ok = \<lparr>io_space = None, io_seal = None, io_rotate = None\<rparr>"

definition lock_acquire :: "disk \<Rightarrow> path \<Rightarrow> tamper_log_error + disk" where
  "lock_acquire d p =
     (let d1 = open_append d (lock_path p) in
      if p \<in> set (d_locks d1) then Inl (Locked p) else Inr (d1\<lparr>d_locks := p # d_locks d1\<rparr>))"

definition release_lock :: "disk \<Rightarrow> path \<Rightarrow> disk" where
  "release_lock d p = d\<lparr>d_locks := removeAll p (d_locks d)\<rparr>"

subsection \<open>Seal files\<close>

definition read_seal :: "prims \<Rightarrow> disk \<Rightarrow> path \<Rightarrow> chain_key \<Rightarrow> seal_state" where
  "read_seal P d log_path key = authenticate_seal P (read_file d (seal_path log_path)) key"

definition write_seal ::
    "prims \<Rightarrow> disk \<Rightarrow> path \<Rightarrow> chain_key \<Rightarrow> nat \<Rightarrow> hash32 \<Rightarrow> tip_provenance option \<Rightarrow> seal_stage option
       \<Rightarrow> tamper_log_error option \<times> disk" where
  "write_seal P d log_path key entry_count segment_start_hash provenance fault =
     (let target = seal_path log_path; tmp = tmp_path target;
          payload = seal_payload P key entry_count segment_start_hash provenance in
      if fault = Some SealCreate then (Some (Io tmp), d)
      else case fault of
          Some (SealWrite k) \<Rightarrow> (Some (Io tmp), put_file d tmp (take k payload))
        | _ \<Rightarrow>
          let d1 = put_file d tmp payload in
          if fault = Some SealSync then (Some (Io tmp), d1)
          else if fault = Some SealRename then (Some (Io target), d1)
          else (case rename_file d1 tmp target of
              None \<Rightarrow> (Some (Io target), d1)
            | Some d2 \<Rightarrow> if fault = Some SealDirSync then (Some (Io (fst target, [])), d2) else (None, d2)))"

definition rename_seal :: "disk \<Rightarrow> path \<Rightarrow> path \<Rightarrow> disk" where
  "rename_seal d from_log to_log =
     (case rename_file d (seal_path from_log) (seal_path to_log) of None \<Rightarrow> d | Some d' \<Rightarrow> d')"

subsection \<open>Verification of one file\<close>

record verification_result =
  vr_entries_verified :: nat
  vr_status :: chain_status

definition stream_verify :: "prims \<Rightarrow> disk \<Rightarrow> path \<Rightarrow> chain_key \<Rightarrow> hash32 \<Rightarrow> tamper_log_error + stream_result" where
  "stream_verify P d p key start_hash =
     (case read_file d p of
        None \<Rightarrow> Inl (Io p)
      | Some bs \<Rightarrow> Inr (stream_loop P key bs start_hash 0 0))"

definition verify_chain :: "prims \<Rightarrow> disk \<Rightarrow> path \<Rightarrow> chain_key \<Rightarrow> tamper_log_error + verification_result" where
  "verify_chain P d p key =
     (let sealed = read_seal P d p key in
      case stream_verify P d p key (resolve_start_hash P sealed key) of
        Inl e \<Rightarrow> Inl e
      | Inr stream \<Rightarrow>
          Inr \<lparr>vr_entries_verified = sr_entries_verified stream,
               vr_status = (case sr_break_status stream of
                   Some status \<Rightarrow> status
                 | None \<Rightarrow> classify_terminal sealed (sr_entries_verified stream))\<rparr>)"

definition stream_terminal_hash :: "prims \<Rightarrow> disk \<Rightarrow> path \<Rightarrow> chain_key \<Rightarrow> seal_state \<Rightarrow> tamper_log_error + hash32" where
  "stream_terminal_hash P d p key sealed =
     (case stream_verify P d p key (resolve_start_hash P sealed key) of
        Inl e \<Rightarrow> Inl e | Inr stream \<Rightarrow> Inr (sr_terminal_hash stream))"

definition resumable :: "chain_status \<Rightarrow> bool" where
  "resumable st \<longleftrightarrow> (case st of Intact \<Rightarrow> True | Empty \<Rightarrow> True | Unsealed _ _ \<Rightarrow> True | _ \<Rightarrow> False)"

definition verify_tip_provenance ::
    "prims \<Rightarrow> disk \<Rightarrow> path \<Rightarrow> chain_key \<Rightarrow> tip_verifier \<Rightarrow> tamper_log_error + tip_status" where
  "verify_tip_provenance P d p key verifier =
     (case verify_chain P d p key of
        Inl e \<Rightarrow> Inl e
      | Inr result \<Rightarrow>
          if \<not> (case vr_status result of Intact \<Rightarrow> True | Unsealed _ _ \<Rightarrow> True | _ \<Rightarrow> False) then Inr NoSeal
          else let sealed = read_seal P d p key in
            (case stream_terminal_hash P d p key sealed of
               Inl e \<Rightarrow> Inl e
             | Inr terminal \<Rightarrow> Inr (check_tip sealed verifier terminal)))"

subsection \<open>The writer\<close>

record tamper_log =
  tl_fd :: path
  tl_pending :: bytes
  tl_path :: path
  tl_prev_hash :: hash32
  tl_segment_start_hash :: hash32
  tl_sequence :: nat
  tl_bytes_written :: nat
  tl_max_file_bytes :: nat
  tl_chain_key :: chain_key
  tl_signer :: "tip_signer option"

definition BUF_CAPACITY :: nat where
  "BUF_CAPACITY = 8 * 1024"

definition dev_write :: "nat option \<Rightarrow> disk \<Rightarrow> path \<Rightarrow> bytes \<Rightarrow> bool \<times> nat \<times> nat option \<times> disk" where
  "dev_write space d fd bs =
     (case space of
        None \<Rightarrow> (True, length bs, None, append_file d fd bs)
      | Some k \<Rightarrow>
          if length bs \<le> k then (True, length bs, Some (k - length bs), append_file d fd bs)
          else (False, k, Some 0, append_file d fd (take k bs)))"

definition buf_flush :: "nat option \<Rightarrow> tamper_log \<Rightarrow> disk \<Rightarrow> bool \<times> nat option \<times> tamper_log \<times> disk" where
  "buf_flush space lg d =
     (case dev_write space d (tl_fd lg) (tl_pending lg) of
        (ok, n, space', d') \<Rightarrow> (ok, space', lg\<lparr>tl_pending := drop n (tl_pending lg)\<rparr>, d'))"

definition buf_write_all :: "nat option \<Rightarrow> tamper_log \<Rightarrow> disk \<Rightarrow> bytes \<Rightarrow> bool \<times> nat option \<times> tamper_log \<times> disk" where
  "buf_write_all space lg d bs =
     (let spare = BUF_CAPACITY - length (tl_pending lg) in
      if length bs < spare then (True, space, lg\<lparr>tl_pending := tl_pending lg @ bs\<rparr>, d)
      else case (if length bs > spare then buf_flush space lg d else (True, space, lg, d)) of
          (False, space', lg', d') \<Rightarrow> (False, space', lg', d')
        | (True, space', lg', d') \<Rightarrow>
            if length bs \<ge> BUF_CAPACITY then
              (case dev_write space' d' (tl_fd lg') bs of (ok, n, space'', d'') \<Rightarrow> (ok, space'', lg', d''))
            else (True, space', lg'\<lparr>tl_pending := tl_pending lg' @ bs\<rparr>, d'))"

definition refresh_seal :: "prims \<Rightarrow> tamper_log \<Rightarrow> disk \<Rightarrow> seal_stage option \<Rightarrow> tamper_log_error option \<times> disk" where
  "refresh_seal P lg d fault =
     (let provenance = map_option (\<lambda>signer.
            \<lparr>tp_key_id = ts_key_id signer, tp_terminal_hash = tl_prev_hash lg,
             tp_signature = ts_sign_tip signer (tip_payload (tl_prev_hash lg))\<rparr>) (tl_signer lg)
      in write_seal P d (tl_path lg) (tl_chain_key lg) (tl_sequence lg) (tl_segment_start_hash lg) provenance fault)"

definition next_rotation_number :: "disk \<Rightarrow> path \<Rightarrow> tamper_log_error + nat" where
  "next_rotation_number d p =
     (case read_dir d (fst p) of
        None \<Rightarrow> Inl (Io (fst p, []))
      | Some names \<Rightarrow>
          let max_n = foldl (\<lambda>m name. case parse_rotation_number name (log_stem p) of
                               Some n \<Rightarrow> if n > m then n else m | None \<Rightarrow> m) 0 names
          in Inr (min (max_n + 1) (2 ^ 32 - 1)))"

definition rotate_log ::
    "prims \<Rightarrow> tamper_log \<Rightarrow> disk \<Rightarrow> rotate_stage option \<Rightarrow> tamper_log_error option \<times> tamper_log \<times> disk" where
  "rotate_log P lg0 d0 fault =
     (case buf_flush None lg0 d0 of (_, _, lg, d) \<Rightarrow>
      case (if fault = Some RotateReadDir then Inl (Io (fst (tl_path lg), [])) else next_rotation_number d (tl_path lg)) of
        Inl e \<Rightarrow> (Some e, lg, d)
      | Inr n \<Rightarrow>
          let rotated = rotation_path (tl_path lg) n in
          (case (if fault = Some RotateRenameLog then None else rename_file d (tl_path lg) rotated) of
             None \<Rightarrow> (Some (Io (tl_path lg)), lg, d)
           | Some d1 \<Rightarrow>
               let lg1 = lg\<lparr>tl_fd := if tl_fd lg = tl_path lg then rotated else tl_fd lg\<rparr> in
               if fault = Some RotateRenameSeal then (Some (Io (seal_path rotated)), lg1, d1)
               else let d2 = rename_seal d1 (tl_path lg) rotated in
                 if fault = Some RotateReopen then (Some (Io (tl_path lg)), lg1, d2)
                 else let d3 = open_append d2 (tl_path lg);
                          lg2 = lg1\<lparr>tl_fd := tl_path lg, tl_pending := [], tl_segment_start_hash := tl_prev_hash lg,
                                    tl_sequence := 0, tl_bytes_written := 0\<rparr>
                      in case refresh_seal P lg2 d3 (case fault of Some (RotateSeal s) \<Rightarrow> Some s | _ \<Rightarrow> None) of
                           (res, d4) \<Rightarrow> (res, lg2, d4)))"

definition append_entry ::
    "prims \<Rightarrow> tamper_log \<Rightarrow> disk \<Rightarrow> int \<Rightarrow> log_entry_kind \<Rightarrow> io_plan \<Rightarrow> (tamper_log_error + nat) \<times> tamper_log \<times> disk" where
  "append_entry P lg d now kind io =
     (let entry = \<lparr>le_sequence = tl_sequence lg, le_timestamp_ms = now, le_kind = kind\<rparr> in
      case encode_entry P entry (tl_prev_hash lg) (tl_chain_key lg) of
        Inl e \<Rightarrow> (Inl e, lg, d)
      | Inr (wire, hash) \<Rightarrow>
          (case buf_write_all (io_space io) lg d wire of
             (False, _, lg1, d1) \<Rightarrow> (Inl (Io (tl_path lg)), lg1, d1)
           | (True, space, lg1, d1) \<Rightarrow>
               (case buf_flush space lg1 d1 of
                  (False, _, lg2, d2) \<Rightarrow> (Inl (Io (tl_path lg)), lg2, d2)
                | (True, _, lg2, d2) \<Rightarrow>
                    let seq = tl_sequence lg2;
                        lg3 = lg2\<lparr>tl_prev_hash := hash, tl_sequence := tl_sequence lg2 + 1,
                                  tl_bytes_written := tl_bytes_written lg2 + length wire\<rparr>
                    in case refresh_seal P lg3 d2 (io_seal io) of
                         (Some e, d3) \<Rightarrow> (Inl e, lg3, d3)
                       | (None, d3) \<Rightarrow>
                           if tl_bytes_written lg3 > tl_max_file_bytes lg3 then
                             (case rotate_log P lg3 d3 (io_rotate io) of
                                (Some e, lg4, d4) \<Rightarrow> (Inl e, lg4, d4)
                              | (None, lg4, d4) \<Rightarrow> (Inr seq, lg4, d4))
                           else (Inr seq, lg3, d3))))"

definition recover_state :: "disk \<Rightarrow> path \<Rightarrow> hash32 \<Rightarrow> hash32 \<times> nat \<times> nat" where
  "recover_state d p segment_start_hash =
     (case read_file d p of
        None \<Rightarrow> (segment_start_hash, 0, 0)
      | Some bs \<Rightarrow> if bs = [] then (segment_start_hash, 0, 0) else recover_loop bs segment_start_hash 0 0)"

definition open_inner ::
    "prims \<Rightarrow> disk \<Rightarrow> path \<Rightarrow> chain_key \<Rightarrow> nat \<Rightarrow> tip_signer option \<Rightarrow> seal_stage option
       \<Rightarrow> (tamper_log_error + tamper_log) \<times> disk" where
  "open_inner P d0 p key max_file_bytes signer fault =
     (case lock_acquire d0 p of
        Inl e \<Rightarrow> (Inl e, open_append d0 (lock_path p))
      | Inr d \<Rightarrow>
          let exists = (read_file d p \<noteq> None);
              refusal = (if exists then
                           (case verify_chain P d p key of
                              Inl e \<Rightarrow> Some e
                            | Inr v \<Rightarrow> if resumable (vr_status v) then None else Some (ChainCompromised p (vr_status v)))
                         else None)
          in case refusal of
               Some e \<Rightarrow> (Inl e, release_lock d p)
             | None \<Rightarrow>
                 let segment_start_hash = (if exists then resolve_start_hash P (read_seal P d p key) key else genesis_hash P key);
                     (prev_hash, sequence, bytes_written) = recover_state d p segment_start_hash;
                     d1 = open_append d p;
                     log = \<lparr>tl_fd = p, tl_pending = [], tl_path = p, tl_prev_hash = prev_hash,
                            tl_segment_start_hash = segment_start_hash, tl_sequence = sequence,
                            tl_bytes_written = bytes_written, tl_max_file_bytes = max_file_bytes,
                            tl_chain_key = key, tl_signer = signer\<rparr>
                 in case refresh_seal P log d1 fault of
                      (Some e, d2) \<Rightarrow> (Inl e, release_lock d2 p)
                    | (None, d2) \<Rightarrow> (Inr log, d2))"

definition open_with_config :: "prims \<Rightarrow> disk \<Rightarrow> path \<Rightarrow> chain_key \<Rightarrow> nat \<Rightarrow> (tamper_log_error + tamper_log) \<times> disk" where
  "open_with_config P d p key max_file_bytes = open_inner P d p key max_file_bytes None None"

definition open_log :: "prims \<Rightarrow> disk \<Rightarrow> path \<Rightarrow> chain_key \<Rightarrow> (tamper_log_error + tamper_log) \<times> disk" where
  "open_log P d p key = open_with_config P d p key DEFAULT_MAX_FILE_BYTES"

definition open_signed :: "prims \<Rightarrow> disk \<Rightarrow> path \<Rightarrow> chain_key \<Rightarrow> tip_signer \<Rightarrow> (tamper_log_error + tamper_log) \<times> disk" where
  "open_signed P d p key signer = open_inner P d p key DEFAULT_MAX_FILE_BYTES (Some signer) None"

definition with_max_file_bytes :: "nat \<Rightarrow> tamper_log \<Rightarrow> tamper_log" where
  "with_max_file_bytes m lg = lg\<lparr>tl_max_file_bytes := m\<rparr>"

definition drop_log :: "tamper_log \<Rightarrow> disk \<Rightarrow> disk" where
  "drop_log lg d = (case buf_flush None lg d of (_, _, lg', d') \<Rightarrow> release_lock d' (tl_path lg))"

subsection \<open>Verification of the segment set\<close>

datatype segment_chain_status =
    SegmentsIntact nat nat
  | MissingSegment nat
  | SegmentBroken path chain_status

definition segment_ok :: "chain_status \<Rightarrow> bool \<Rightarrow> bool" where
  "segment_ok status is_live =
     (case status of
        Intact \<Rightarrow> True
      | Empty \<Rightarrow> is_live
      | Unsealed _ _ \<Rightarrow> is_live
      | Broken _ _ _ \<Rightarrow> False
      | Corrupted _ \<Rightarrow> False
      | Truncated _ \<Rightarrow> False)"

definition rotation_numbers :: "string list \<Rightarrow> string \<Rightarrow> nat list" where
  "rotation_numbers names stem =
     remdups_adj (sort (List.map_filter (\<lambda>name. parse_rotation_number name stem) names))"

fun segments_loop ::
    "prims \<Rightarrow> disk \<Rightarrow> path \<Rightarrow> chain_key \<Rightarrow> nat list \<Rightarrow> hash32 \<Rightarrow> nat \<Rightarrow> nat
       \<Rightarrow> tamper_log_error + segment_chain_status + hash32 \<times> nat \<times> nat" where
  "segments_loop P d p key [] expected_start total_entries segments = Inr (Inr (expected_start, total_entries, segments))"
| "segments_loop P d p key (n # ns) expected_start total_entries segments =
     (let seg_path = rotation_path p n in
      case stream_verify P d seg_path key expected_start of
        Inl e \<Rightarrow> Inl e
      | Inr stream \<Rightarrow>
          let status = (case sr_break_status stream of
                          Some status \<Rightarrow> status
                        | None \<Rightarrow> classify_terminal (read_seal P d seg_path key) (sr_entries_verified stream)) in
          if \<not> segment_ok status False then Inr (Inl (SegmentBroken seg_path status))
          else segments_loop P d p key ns (sr_terminal_hash stream) (total_entries + sr_entries_verified stream) (segments + 1))"

definition live_status :: "stream_result \<Rightarrow> seal_state \<Rightarrow> hash32 \<Rightarrow> nat \<Rightarrow> chain_status" where
  "live_status live live_seal expected_start total_entries =
     (case sr_break_status live of
        Some status \<Rightarrow> status
      | None \<Rightarrow>
          (case live_seal of
             SealValid _ segment_start_hash _ \<Rightarrow>
               if segment_start_hash \<noteq> expected_start then Broken total_entries expected_start segment_start_hash
               else classify_terminal live_seal (sr_entries_verified live)
           | _ \<Rightarrow> classify_terminal live_seal (sr_entries_verified live)))"

definition verify_segment_chain :: "prims \<Rightarrow> disk \<Rightarrow> path \<Rightarrow> chain_key \<Rightarrow> tamper_log_error + segment_chain_status" where
  "verify_segment_chain P d p key =
     (case read_dir d (fst p) of
        None \<Rightarrow> Inl (Io (fst p, []))
      | Some names \<Rightarrow>
          let numbers = rotation_numbers names (log_stem p);
              max_n = (if numbers = [] then 0 else last numbers)
          in case find (\<lambda>e. e \<notin> set numbers) [1..<Suc max_n] of
               Some e \<Rightarrow> Inr (MissingSegment e)
             | None \<Rightarrow>
                 (case segments_loop P d p key [1..<Suc max_n] (genesis_hash P key) 0 0 of
                    Inl e \<Rightarrow> Inl e
                  | Inr (Inl broken) \<Rightarrow> Inr broken
                  | Inr (Inr (expected_start, total_entries, segments)) \<Rightarrow>
                      (case stream_verify P d p key expected_start of
                         Inl e \<Rightarrow> Inl e
                       | Inr live \<Rightarrow>
                           let status = live_status live (read_seal P d p key) expected_start total_entries in
                           if \<not> segment_ok status True then Inr (SegmentBroken p status)
                           else Inr (SegmentsIntact (total_entries + sr_entries_verified live) (segments + 1)))))"

end
