(* ===== verification/Tamper_Rep.thy ===== *)
theory Tamper_Rep
  imports Tamper_Log
begin

section \<open>What the files of a tamper log represent\<close>

text \<open>
  The abstract log is a list of closed segments and a live one, each a list of entries. \<open>disk_rep\<close>
  says that a directory stores such a log: every segment file holds the chain of its entries
  from the hash its predecessor ended at, its seal authenticates its count, and no other file of the
  directory has the name of a segment. The count in the live seal may lag behind, which is what
  an interrupted append leaves. \<open>handle_rep\<close> says that an open handle agrees with the
  directory. The lemmas show that the verifiers accept a represented directory, that a directory
  reopens, and that appending and rotating keep the representation.
\<close>

subsection \<open>Files\<close>

lemmas path_ne_sym [simp] =
  sidecar_ne_self [THEN not_sym] sidecar_paths_ne [THEN not_sym]
  rotation_path_ne_live [THEN not_sym] seal_of_rotation_ne_live [THEN not_sym]

lemma read_put_file [simp]: "read_file (put_file d p bs) = (read_file d)(p \<mapsto> bs)"
  by (rule ext) (simp add: read_file_def put_file_def)

lemma read_remove_file [simp]: "read_file (remove_file d p) = (read_file d)(p := None)"
  by (rule ext) (simp add: read_file_def remove_file_def)

lemma read_append_file: "read_file d p = Some old \<Longrightarrow> read_file (append_file d p bs) = (read_file d)(p \<mapsto> old @ bs)"
  by (simp add: append_file_def)

lemma read_open_append: "read_file (open_append d p) = (if read_file d p = None then (read_file d)(p \<mapsto> []) else read_file d)"
  by (auto simp: open_append_def split: option.splits)

lemma read_rename_file: "rename_file d p q = Some d' \<Longrightarrow> read_file d' = (read_file d)(p := None, q := read_file d p)"
  by (auto simp: rename_file_def split: option.splits)

lemma locks_simps [simp]:
  "d_locks (put_file d p bs) = d_locks d" "d_locks (remove_file d p) = d_locks d"
  "d_locks (append_file d p bs) = d_locks d" "d_locks (open_append d p) = d_locks d"
  "read_file (d\<lparr>d_locks := ls\<rparr>) = read_file d" "read_file (release_lock d p) = read_file d"
  "d_locks (release_lock d p) = removeAll p (d_locks d)"
  by (auto simp: put_file_def remove_file_def append_file_def open_append_def read_file_def fun_eq_iff release_lock_def
      split: option.splits)

lemma locks_rename [simp]: "rename_file d p q = Some d' \<Longrightarrow> d_locks d' = d_locks d"
  by (auto simp: rename_file_def split: option.splits)

lemma read_seal_cong: "read_file d (seal_path p) = read_file d' (seal_path p) \<Longrightarrow> read_seal P d p key = read_seal P d' p key"
  by (simp add: read_seal_def)

lemma in_read_dir: "read_dir d dir = Some names \<Longrightarrow> name \<in> set names \<longleftrightarrow> read_file d (dir, name) \<noteq> None"
  by (force simp: read_dir_def read_file_def map_of_eq_None_iff split: if_splits)

lemma write_seal_effect:
  assumes "write_seal P d p key n s prov fault = (res, d')"
  shows "(res = None \<longleftrightarrow> fault = None)"
    and "d_locks d' = d_locks d"
    and "\<And>q. q \<noteq> seal_path p \<Longrightarrow> q \<noteq> tmp_path (seal_path p) \<Longrightarrow> read_file d' q = read_file d q"
    and "read_file d' (seal_path p) = Some (seal_payload P key n s prov) \<or>
      fault \<noteq> None \<and> read_file d' (seal_path p) = read_file d (seal_path p)"
  using assms sidecar_ne_self(4) [of p]
  by (auto simp: write_seal_def Let_def rename_file_def split: if_splits option.splits seal_stage.splits)

lemma write_then_flush:
  assumes "tl_pending lg = []" and "read_file d (tl_fd lg) = Some old"
  obtains lg1 d1 d2 where "buf_write_all None lg d bs = (True, None, lg1, d1)"
    and "buf_flush None lg1 d1 = (True, None, lg, d2)"
    and "read_file d2 = (read_file d)(tl_fd lg \<mapsto> old @ bs)" and "d_locks d2 = d_locks d"
proof (cases "length bs < BUF_CAPACITY")
  case True
  show ?thesis
  proof (rule that)
    show "buf_write_all None lg d bs = (True, None, lg\<lparr>tl_pending := bs\<rparr>, d)"
      using True assms(1) by (simp add: buf_write_all_def)
    show "buf_flush None (lg\<lparr>tl_pending := bs\<rparr>) d = (True, None, lg, append_file d (tl_fd lg) bs)"
      using assms(1) by (simp add: buf_flush_def dev_write_def)
    show "read_file (append_file d (tl_fd lg) bs) = (read_file d)(tl_fd lg \<mapsto> old @ bs)"
      using assms(2) by (rule read_append_file)
  qed simp
next
  case False
  let ?d1 = "if length bs > BUF_CAPACITY then append_file d (tl_fd lg) [] else d"
  have d1: "read_file ?d1 = read_file d" "d_locks ?d1 = d_locks d"
    using read_append_file [OF assms(2), of "[]"] assms(2) by (auto simp: fun_upd_idem)
  let ?d2 = "append_file ?d1 (tl_fd lg) bs"
  have lg: "lg\<lparr>tl_pending := []\<rparr> = lg" using assms(1) by simp
  have d2: "read_file ?d2 = (read_file d)(tl_fd lg \<mapsto> old @ bs)"
    using read_append_file [of ?d1 "tl_fd lg" old bs] assms(2) unfolding d1 by blast
  let ?d3 = "append_file ?d2 (tl_fd lg) []"
  show ?thesis
  proof (rule that)
    show "buf_write_all None lg d bs = (True, None, lg, ?d2)"
      using False assms(1) lg by (simp add: buf_write_all_def buf_flush_def dev_write_def)
    show "buf_flush None lg ?d2 = (True, None, lg, ?d3)"
      using assms(1) lg by (simp add: buf_flush_def dev_write_def)
    show "read_file ?d3 = (read_file d)(tl_fd lg \<mapsto> old @ bs)"
      using read_append_file [of ?d2 "tl_fd lg" "old @ bs" "[]"] d2 by (simp add: fun_upd_idem)
    show "d_locks ?d3 = d_locks d" by simp
  qed
qed

subsection \<open>The representation\<close>

lemma to_le_bytes_eq_Nil [simp]: "to_le_bytes k n = [] \<longleftrightarrow> k = 0"
  by (cases k) auto

lemma chain_wire_eq_Nil [simp]: "chain_wire P key h cs = [] \<longleftrightarrow> cs = []"
  by (cases cs) auto

definition recordable :: "prims \<Rightarrow> log_entry \<Rightarrow> bool" where
  "recordable P e \<longleftrightarrow> (\<exists>c. cbor_enc P e = Some c \<and> length c \<le> MAX_ENTRY_BYTES)"

definition payloads :: "prims \<Rightarrow> log_entry list \<Rightarrow> bytes list" where
  "payloads P es = map (\<lambda>e. the (cbor_enc P e)) es"

definition seg_start :: "prims \<Rightarrow> chain_key \<Rightarrow> log_entry list list \<Rightarrow> hash32" where
  "seg_start P key segs = chain_end P key (genesis_hash P key) (payloads P (concat segs))"

definition stored :: "prims \<Rightarrow> chain_key \<Rightarrow> disk \<Rightarrow> path \<Rightarrow> hash32 \<Rightarrow> log_entry list \<Rightarrow> nat \<Rightarrow> bool" where
  "stored P key d p start es k \<longleftrightarrow>
     read_file d p = Some (chain_wire P key start (payloads P es)) \<and>
     (\<exists>prov. read_seal P d p key = SealValid k start prov)"

definition segs_stored :: "prims \<Rightarrow> chain_key \<Rightarrow> path \<Rightarrow> disk \<Rightarrow> log_entry list list \<Rightarrow> bool" where
  "segs_stored P key p d segs \<longleftrightarrow>
     (\<forall>s \<in> set segs. s \<noteq> [] \<and> (\<forall>e \<in> set s. recordable P e)) \<and>
     (\<forall>i < length segs.
        stored P key d (rotation_path p (Suc i)) (seg_start P key (take i segs)) (segs ! i) (length (segs ! i)))"

definition segs_rep :: "prims \<Rightarrow> chain_key \<Rightarrow> path \<Rightarrow> disk \<Rightarrow> log_entry list list \<Rightarrow> bool" where
  "segs_rep P key p d segs \<longleftrightarrow>
     fst p \<noteq> [] \<and> length segs < 2 ^ 32 \<and> segs_stored P key p d segs \<and>
     (\<forall>name n. read_file d (fst p, name) \<noteq> None \<longrightarrow> parse_rotation_number name (log_stem p) = Some n \<longrightarrow>
        1 \<le> n \<and> n \<le> length segs)"

definition disk_rep ::
    "prims \<Rightarrow> chain_key \<Rightarrow> path \<Rightarrow> disk \<Rightarrow> log_entry list list \<Rightarrow> log_entry list \<Rightarrow> nat \<Rightarrow> bool" where
  "disk_rep P key p d segs live k \<longleftrightarrow>
     segs_rep P key p d segs \<and> (\<forall>e \<in> set live. recordable P e) \<and> length live < 2 ^ 64 \<and> k \<le> length live \<and>
     stored P key d p (seg_start P key segs) live k"

definition signer_ok :: "tip_signer option \<Rightarrow> bool" where
  "signer_ok signer \<longleftrightarrow>
     (\<forall>s. signer = Some s \<longrightarrow> length (ts_key_id s) = 8 \<and> (\<forall>m. length (ts_sign_tip s m) = 64))"

definition handle_rep :: "prims \<Rightarrow> tamper_log \<Rightarrow> disk \<Rightarrow> log_entry list list \<Rightarrow> log_entry list \<Rightarrow> bool" where
  "handle_rep P lg d segs live \<longleftrightarrow>
     tl_fd lg = tl_path lg \<and> tl_pending lg = [] \<and>
     tl_segment_start_hash lg = seg_start P (tl_chain_key lg) segs \<and>
     tl_prev_hash lg = seg_start P (tl_chain_key lg) (segs @ [live]) \<and>
     tl_sequence lg = length live \<and>
     tl_bytes_written lg = length (chain_wire P (tl_chain_key lg) (tl_segment_start_hash lg) (payloads P live)) \<and>
     signer_ok (tl_signer lg) \<and> tl_path lg \<in> set (d_locks d) \<and>
     disk_rep P (tl_chain_key lg) (tl_path lg) d segs live (length live)"

lemma payloads_simps [simp]:
  "payloads P [] = []" "payloads P (e # es) = the (cbor_enc P e) # payloads P es"
  "payloads P (es @ es') = payloads P es @ payloads P es'" "length (payloads P es) = length es"
  by (simp_all add: payloads_def)

lemma payloads_eq_Nil [simp]: "payloads P es = [] \<longleftrightarrow> es = []"
  by (simp add: payloads_def)

lemma sized_payloads: "\<forall>e \<in> set es. recordable P e \<Longrightarrow> sized (payloads P es)"
  by (induction es) (auto simp: recordable_def)

lemma length_seg_start [simp]: "prims_ok P \<Longrightarrow> length (seg_start P key segs) = 32"
  by (simp add: seg_start_def)

lemma seg_start_snoc: "seg_start P key (segs @ [s]) = chain_end P key (seg_start P key segs) (payloads P s)"
  by (simp add: seg_start_def chain_end_append)

lemma seg_start_Nil [simp]: "seg_start P key [] = genesis_hash P key"
  by (simp add: seg_start_def)

lemma seg_start_Nil_Nil [simp]: "seg_start P key [[]] = genesis_hash P key"
  by (simp add: seg_start_def)

lemma seg_start_snoc_Nil [simp]: "seg_start P key (segs @ [[]]) = seg_start P key segs"
  by (simp add: seg_start_snoc)

lemma stream_stored:
  assumes "prims_ok P" and "stored P key d p start es k" and "\<forall>e \<in> set es. recordable P e"
  shows "stream_verify P d p key start =
    Inr \<lparr>sr_entries_verified = length es, sr_terminal_hash = chain_end P key start (payloads P es), sr_break_status = None\<rparr>"
  using assms stream_chain [OF assms(1) sized_payloads [OF assms(3)], of key start "[]" 0 0]
  by (simp add: stream_verify_def stored_def)

lemma classify_stored:
  "stored P key d p start es k \<Longrightarrow> k \<le> length es \<Longrightarrow>
     classify_terminal (read_seal P d p key) (length es) =
       (if es = [] then Empty else if k = length es then Intact else Unsealed (length es) k)"
  by (auto simp: stored_def classify_terminal_def)

lemma verify_stored:
  assumes "prims_ok P" and "stored P key d p start es k" and "\<forall>e \<in> set es. recordable P e" and "k \<le> length es"
  shows "verify_chain P d p key =
    Inr \<lparr>vr_entries_verified = length es,
      vr_status = (if es = [] then Empty else if k = length es then Intact else Unsealed (length es) k)\<rparr>"
proof -
  have "resolve_start_hash P (read_seal P d p key) key = start"
    using assms(2) by (auto simp: stored_def resolve_start_hash_def)
  then show ?thesis
    using stream_stored [OF assms(1-3)] classify_stored [OF assms(2,4)] by (simp add: verify_chain_def)
qed

subsection \<open>The segment numbers of a directory\<close>

text \<open>The segments of a directory are numbered \<open>1\<close> to \<open>N\<close>, whatever the files hold.\<close>

definition numbered :: "disk \<Rightarrow> path \<Rightarrow> nat \<Rightarrow> bool" where
  "numbered d p N \<longleftrightarrow>
     fst p \<noteq> [] \<and> N < 2 ^ 32 \<and> (\<forall>n. 1 \<le> n \<and> n \<le> N \<longrightarrow> read_file d (rotation_path p n) \<noteq> None) \<and>
     (\<forall>name n. read_file d (fst p, name) \<noteq> None \<longrightarrow> parse_rotation_number name (log_stem p) = Some n \<longrightarrow> 1 \<le> n \<and> n \<le> N)"

lemma segs_numbered: "segs_rep P key p d segs \<Longrightarrow> numbered d p (length segs)"
  unfolding numbered_def segs_rep_def segs_stored_def stored_def
  by (metis One_nat_def Suc_le_eq Suc_pred option.distinct(1))

definition numbers_are :: "disk \<Rightarrow> path \<Rightarrow> nat \<Rightarrow> bool" where
  "numbers_are d p N \<longleftrightarrow>
     fst p \<noteq> [] \<and>
     (\<forall>n. (\<exists>name. read_file d (fst p, name) \<noteq> None \<and> parse_rotation_number name (log_stem p) = Some n) \<longleftrightarrow> 1 \<le> n \<and> n \<le> N)"

lemma numbered_numbers: "numbered d p N \<Longrightarrow> numbers_are d p N"
  unfolding numbers_are_def
proof (intro conjI allI iffI)
  fix n
  assume num: "numbered d p N" and n: "1 \<le> n \<and> n \<le> N"
  then have "read_file d (rotation_path p n) \<noteq> None" "n < 2 ^ 32" by (auto simp: numbered_def)
  moreover have "rotation_path p n = (fst p, snd (rotation_path p n))" by (simp add: rotation_path_def)
  ultimately show "\<exists>name. read_file d (fst p, name) \<noteq> None \<and> parse_rotation_number name (log_stem p) = Some n"
    using parse_rotation_path [of n p] by metis
qed (auto simp: numbered_def)

lemma numbers_read_dir: "numbers_are d p N \<Longrightarrow> \<exists>names. read_dir d (fst p) = Some names"
  by (simp add: numbers_are_def read_dir_def)

lemma numbers_iff:
  assumes "numbers_are d p N" and "read_dir d (fst p) = Some names"
  shows "(\<exists>name \<in> set names. parse_rotation_number name (log_stem p) = Some n) \<longleftrightarrow> 1 \<le> n \<and> n \<le> N"
  using assms(1) in_read_dir [OF assms(2)] unfolding numbers_are_def by blast

text \<open>A change of the live file and its sidecars leaves the numbering alone, and so does one new segment file.\<close>

lemma sidecar_not_numbered:
  assumes "parse_rotation_number name (log_stem p) = Some n"
  shows "(fst p, name) \<noteq> p" "(fst p, name) \<noteq> seal_path q" "(fst p, name) \<noteq> tmp_path q" "(fst p, name) \<noteq> lock_path q"
  using assms parse_live [of p] parse_seal_lock by (metis option.distinct(1) snd_conv)+

lemma numbered_add:
  assumes "numbered d p N" and "N + 1 < 2 ^ 32" and "read_file d' (rotation_path p (N + 1)) \<noteq> None"
    and same: "\<And>q. q \<noteq> p \<Longrightarrow> q \<noteq> seal_path p \<Longrightarrow> q \<noteq> tmp_path (seal_path p) \<Longrightarrow> q \<noteq> lock_path p \<Longrightarrow>
      q \<noteq> rotation_path p (N + 1) \<Longrightarrow> q \<noteq> seal_path (rotation_path p (N + 1)) \<Longrightarrow> read_file d' q = read_file d q"
  shows "numbered d' p (N + 1)"
  unfolding numbered_def
proof (intro conjI allI impI)
  show "fst p \<noteq> []" "N + 1 < 2 ^ 32" using assms(1,2) by (simp_all add: numbered_def)
  show "read_file d' (rotation_path p n) \<noteq> None" if "1 \<le> n \<and> n \<le> N + 1" for n
  proof (cases "n = N + 1")
    case False
    then have "read_file d' (rotation_path p n) = read_file d (rotation_path p n)" by (intro same) simp_all
    with False that assms(1) show ?thesis by (simp add: numbered_def)
  qed (use assms(3) in simp)
  fix name n
  assume name: "read_file d' (fst p, name) \<noteq> None" and num: "parse_rotation_number name (log_stem p) = Some n"
  have "1 \<le> n \<and> n \<le> N + 1"
  proof (cases "(fst p, name) = rotation_path p (N + 1)")
    case True
    then have "name = snd (rotation_path p (N + 1))" by (metis snd_conv)
    with num parse_rotation_path [OF assms(2), of p] show ?thesis by simp
  next
    case False
    then have "read_file d (fst p, name) \<noteq> None" using name same sidecar_not_numbered [OF num] by metis
    with num assms(1) have "1 \<le> n \<and> n \<le> N" unfolding numbered_def by blast
    then show ?thesis by simp
  qed
  then show "1 \<le> n" "n \<le> N + 1" by simp_all
qed

lemma in_map_filter_iff: "y \<in> set (List.map_filter f xs) \<longleftrightarrow> (\<exists>x \<in> set xs. f x = Some y)"
  by (induction xs) (auto simp: List.map_filter_def split: option.splits)

lemma last_sorted_max:
  "sorted xs \<Longrightarrow> set xs = {1..k :: nat} \<Longrightarrow> (if xs = [] then 0 else last xs) = k"
proof (cases "xs = []")
  case False
  assume s: "sorted xs" "set xs = {1..k}"
  have "last xs \<in> {1..k}" using False s(2) last_in_set by blast
  then have "k \<in> set xs" using s(2) by simp
  then obtain i where "i < length xs" "xs ! i = k" by (auto simp: in_set_conv_nth)
  then have "k \<le> last xs"
    using sorted_nth_mono [OF s(1), of i "length xs - 1"] False by (simp add: last_conv_nth)
  with \<open>last xs \<in> {1..k}\<close> False show ?thesis by simp
qed simp

lemma rotation_numbers_are:
  assumes "numbers_are d p N" and "read_dir d (fst p) = Some names"
  defines "numbers \<equiv> rotation_numbers names (log_stem p)"
  shows "set numbers = {1..N}" and "(if numbers = [] then 0 else last numbers) = N"
proof -
  show "set numbers = {1..N}"
    using numbers_iff [OF assms(1,2)] by (auto simp: numbers_def rotation_numbers_def in_map_filter_iff)
  then show "(if numbers = [] then 0 else last numbers) = N"
    by (rule last_sorted_max [rotated]) (simp add: numbers_def rotation_numbers_def)
qed

lemma max_number_fold:
  fixes m :: nat
  defines "step f \<equiv> \<lambda>m name. case f name of Some n \<Rightarrow> if n > m then n else m | None \<Rightarrow> m"
  shows "(foldl (step f) m xs = m \<or> (\<exists>x \<in> set xs. f x = Some (foldl (step f) m xs))) \<and>
    m \<le> foldl (step f) m xs \<and> (\<forall>x \<in> set xs. \<forall>n. f x = Some n \<longrightarrow> n \<le> foldl (step f) m xs)"
proof (induction xs arbitrary: m)
  case Nil
  then show ?case by simp
next
  case (Cons x xs)
  define s where "s = step f m x"
  define r where "r = foldl (step f) s xs"
  have ih: "r = s \<or> (\<exists>x \<in> set xs. f x = Some r)" "s \<le> r" "\<And>y n. y \<in> set xs \<Longrightarrow> f y = Some n \<Longrightarrow> n \<le> r"
    using Cons [of s] unfolding r_def by blast+
  have s: "s = m \<or> f x = Some s" "m \<le> s" "\<And>n. f x = Some n \<Longrightarrow> n \<le> s"
    by (auto simp: s_def step_def split: option.splits)
  have "r = m \<or> (\<exists>y \<in> set (x # xs). f y = Some r)" using ih(1) s(1) by auto
  moreover have "m \<le> r" using s(2) ih(2) by (rule le_trans)
  moreover have "n \<le> r" if "y \<in> set (x # xs)" "f y = Some n" for y n
    using that ih(3) [of y n] s(3) [of n] ih(2) by auto
  moreover have "foldl (step f) m (x # xs) = r" by (simp add: r_def s_def)
  ultimately show ?case by simp
qed

lemma numbers_next:
  assumes "numbers_are d p N"
  shows "next_rotation_number d p = Inr (min (N + 1) (2 ^ 32 - 1))"
proof -
  obtain names where names: "read_dir d (fst p) = Some names" using numbers_read_dir [OF assms] by blast
  let ?step = "\<lambda>m name. case parse_rotation_number name (log_stem p) of Some n \<Rightarrow> if n > m then n else m | None \<Rightarrow> m"
  note fold = max_number_fold [where f = "\<lambda>name. parse_rotation_number name (log_stem p)"]
  let ?r = "foldl ?step 0 names"
  have "?r = N"
  proof (rule antisym)
    have "?r = 0 \<or> (\<exists>name \<in> set names. parse_rotation_number name (log_stem p) = Some ?r)"
      using fold [of 0 names] by blast
    then show "?r \<le> N" using numbers_iff [OF assms names, of ?r] by auto
    show "N \<le> ?r"
    proof (cases "N = 0")
      case False
      with numbers_iff [OF assms names, of "N"] fold [of 0 names] show ?thesis by auto
    qed simp
  qed
  with names show ?thesis by (simp add: next_rotation_number_def)
qed

subsection \<open>Verification accepts what is represented\<close>

lemma segs_loop:
  assumes "prims_ok P" and rep: "segs_stored P key p d segs" and "m \<le> length segs"
  shows "segments_loop P d p key [Suc m..<Suc (length segs)] (seg_start P key (take m segs)) t s =
    Inr (Inr (seg_start P key segs, t + length (concat (drop m segs)), s + (length segs - m)))"
  using assms(3)
proof (induction "length segs - m" arbitrary: m t s)
  case 0
  then show ?case by simp
next
  case (Suc x)
  then have m: "m < length segs" by simp
  let ?start = "seg_start P key (take m segs)" and ?q = "rotation_path p (Suc m)"
  have st: "stored P key d ?q ?start (segs ! m) (length (segs ! m))" and seg: "segs ! m \<noteq> []" "\<forall>e \<in> set (segs ! m). recordable P e"
    using rep m unfolding segs_stored_def by (auto dest: nth_mem)
  note stream = stream_stored [OF assms(1) st seg(2)]
  have terminal: "classify_terminal (read_seal P d ?q key) (length (segs ! m)) = Intact"
    using classify_stored [OF st] seg(1) by simp
  have "[Suc m..<Suc (length segs)] = Suc m # [Suc (Suc m)..<Suc (length segs)]"
    using m by (simp add: upt_conv_Cons)
  moreover have "chain_end P key ?start (payloads P (segs ! m)) = seg_start P key (take (Suc m) segs)"
    using m by (simp add: take_Suc_conv_app_nth seg_start_snoc)
  moreover have "length (concat (drop m segs)) = length (segs ! m) + length (concat (drop (Suc m) segs))"
    using m by (simp add: Cons_nth_drop_Suc [symmetric])
  ultimately show ?case
    using Suc.hyps(1) [of "Suc m" "t + length (segs ! m)" "s + 1"] Suc.hyps(2) m
    by (simp add: stream terminal segment_ok_def del: upt_Suc)
qed

lemma segments_loop_append:
  "segments_loop P d p key (ns @ ms) h t s =
     (case segments_loop P d p key ns h t s of
        Inr (Inr (h', t', s')) \<Rightarrow> segments_loop P d p key ms h' t' s'
      | Inl e \<Rightarrow> Inl e
      | Inr (Inl b) \<Rightarrow> Inr (Inl b))"
  by (induction ns arbitrary: h t s) (auto simp: Let_def split: sum.splits)

lemma verify_numbers:
  assumes "numbers_are d p N"
  shows "verify_segment_chain P d p key =
    (case segments_loop P d p key [1..<Suc N] (genesis_hash P key) 0 0 of
       Inl e \<Rightarrow> Inl e
     | Inr (Inl broken) \<Rightarrow> Inr broken
     | Inr (Inr (expected_start, total_entries, segments)) \<Rightarrow>
         (case stream_verify P d p key expected_start of
            Inl e \<Rightarrow> Inl e
          | Inr live \<Rightarrow>
              let status = live_status live (read_seal P d p key) expected_start total_entries in
              if \<not> segment_ok status True then Inr (SegmentBroken p status)
              else Inr (SegmentsIntact (total_entries + sr_entries_verified live) (segments + 1))))"
proof -
  obtain names where names: "read_dir d (fst p) = Some names" using numbers_read_dir [OF assms] by blast
  note numbers = rotation_numbers_are [OF assms names]
  have "find (\<lambda>e. e \<notin> set (rotation_numbers names (log_stem p))) [1..<Suc N] = None"
    by (auto simp: find_None_iff numbers(1))
  with names numbers(2) show ?thesis by (simp add: verify_segment_chain_def Let_def del: upt_Suc)
qed

lemma verify_segments_live:
  assumes "prims_ok P" and rep: "segs_rep P key p d segs" and "stream_verify P d p key (seg_start P key segs) = Inr live"
    and "status = live_status live (read_seal P d p key) (seg_start P key segs) (length (concat segs))"
  shows "verify_segment_chain P d p key =
    (if segment_ok status True then Inr (SegmentsIntact (length (concat segs) + sr_entries_verified live) (length segs + 1))
     else Inr (SegmentBroken p status))"
proof -
  have "segments_loop P d p key [1..<Suc (length segs)] (genesis_hash P key) 0 0 =
      Inr (Inr (seg_start P key segs, length (concat segs), length segs))"
    using segs_loop [OF assms(1), of key p d segs 0 0 0] rep by (simp add: segs_rep_def)
  then show ?thesis
    using assms(3,4) by (simp add: verify_numbers [OF numbered_numbers [OF segs_numbered [OF rep]]] Let_def del: upt_Suc)
qed

lemma rep_verify_segments:
  assumes "prims_ok P" and rep: "disk_rep P key p d segs live k"
  shows "verify_segment_chain P d p key = Inr (SegmentsIntact (length (concat segs) + length live) (length segs + 1))"
proof -
  have st: "stored P key d p (seg_start P key segs) live k" "k \<le> length live" and recd: "\<forall>e \<in> set live. recordable P e"
      and segs: "segs_rep P key p d segs"
    using rep by (simp_all add: disk_rep_def)
  note stream = stream_stored [OF assms(1) st(1) recd]
  from st(1) obtain prov where "read_seal P d p key = SealValid k (seg_start P key segs) prov"
    by (auto simp: stored_def)
  then have "segment_ok (live_status \<lparr>sr_entries_verified = length live,
      sr_terminal_hash = chain_end P key (seg_start P key segs) (payloads P live), sr_break_status = None\<rparr>
      (read_seal P d p key) (seg_start P key segs) (length (concat segs))) True"
    using classify_stored [OF st] by (simp add: live_status_def segment_ok_def)
  with verify_segments_live [OF assms(1) segs stream refl] show ?thesis by simp
qed

subsection \<open>Updates of the live file\<close>

lemma segs_update:
  assumes rep: "segs_rep P key p d segs"
    and same: "\<And>q. q \<noteq> p \<Longrightarrow> q \<noteq> seal_path p \<Longrightarrow> q \<noteq> tmp_path (seal_path p) \<Longrightarrow> q \<noteq> lock_path p \<Longrightarrow>
      read_file d' q = read_file d q"
  shows "segs_rep P key p d' segs"
proof -
  have "stored P key d' (rotation_path p n) start es c = stored P key d (rotation_path p n) start es c" for n start es c
  proof -
    have "read_file d' (rotation_path p n) = read_file d (rotation_path p n)"
      by (rule same) simp_all
    moreover have "read_file d' (seal_path (rotation_path p n)) = read_file d (seal_path (rotation_path p n))"
      by (rule same) simp_all
    ultimately show ?thesis by (simp add: stored_def read_seal_cong [of d' _ d])
  qed
  moreover have "1 \<le> n \<and> n \<le> length segs"
    if "read_file d' (fst p, name) \<noteq> None" "parse_rotation_number name (log_stem p) = Some n" for name n
  proof -
    have "read_file d (fst p, name) \<noteq> None" using that(1) same sidecar_not_numbered [OF that(2)] by simp
    with that(2) rep show ?thesis unfolding segs_rep_def by blast
  qed
  ultimately show ?thesis using rep unfolding segs_rep_def segs_stored_def by auto
qed

lemma rep_update_live:
  assumes rep: "disk_rep P key p d segs live k"
    and same: "\<And>q. q \<noteq> p \<Longrightarrow> q \<noteq> seal_path p \<Longrightarrow> q \<noteq> tmp_path (seal_path p) \<Longrightarrow> q \<noteq> lock_path p \<Longrightarrow>
      read_file d' q = read_file d q"
    and "stored P key d' p (seg_start P key segs) live' k'" and "k' \<le> length live'" and "length live' < 2 ^ 64"
    and "\<forall>e \<in> set live'. recordable P e"
  shows "disk_rep P key p d' segs live' k'"
proof -
  have "segs_rep P key p d segs" using rep by (simp add: disk_rep_def)
  then have "segs_rep P key p d' segs" by (rule segs_update) (rule same)
  with assms(3-) show ?thesis by (simp add: disk_rep_def)
qed

definition handle_provenance :: "tamper_log \<Rightarrow> tip_provenance option" where
  "handle_provenance lg = map_option (\<lambda>signer.
     \<lparr>tp_key_id = ts_key_id signer, tp_terminal_hash = tl_prev_hash lg,
      tp_signature = ts_sign_tip signer (tip_payload (tl_prev_hash lg))\<rparr>) (tl_signer lg)"

lemma refresh_seal_eq:
  "refresh_seal P lg d fault = write_seal P d (tl_path lg) (tl_chain_key lg) (tl_sequence lg)
     (tl_segment_start_hash lg) (handle_provenance lg) fault"
  by (simp add: refresh_seal_def handle_provenance_def)

lemma handle_provenance_ok: "signer_ok (tl_signer lg) \<Longrightarrow> length (tl_prev_hash lg) = 32 \<Longrightarrow> provenance_ok (handle_provenance lg)"
  by (auto simp: provenance_ok_def handle_provenance_def signer_ok_def)

lemma refresh_seal_effect:
  assumes "prims_ok P" and "refresh_seal P lg d fault = (res, d')"
    and "tl_sequence lg < 2 ^ 64" and "length (tl_segment_start_hash lg) = 32" and "length (tl_prev_hash lg) = 32"
    and "signer_ok (tl_signer lg)"
  shows "(res = None \<longleftrightarrow> fault = None)" and "d_locks d' = d_locks d"
    and "\<And>q. q \<noteq> seal_path (tl_path lg) \<Longrightarrow> q \<noteq> tmp_path (seal_path (tl_path lg)) \<Longrightarrow> read_file d' q = read_file d q"
    and "read_seal P d' (tl_path lg) (tl_chain_key lg) =
          SealValid (tl_sequence lg) (tl_segment_start_hash lg) (handle_provenance lg) \<or>
         fault \<noteq> None \<and> read_seal P d' (tl_path lg) (tl_chain_key lg) = read_seal P d (tl_path lg) (tl_chain_key lg)"
proof -
  note eff = write_seal_effect [OF assms(2) [unfolded refresh_seal_eq]]
  show "(res = None \<longleftrightarrow> fault = None)" "d_locks d' = d_locks d" by (rule eff)+
  show "\<And>q. q \<noteq> seal_path (tl_path lg) \<Longrightarrow> q \<noteq> tmp_path (seal_path (tl_path lg)) \<Longrightarrow> read_file d' q = read_file d q"
    by (rule eff)
  note auth = authenticate_seal_payload [OF assms(1,3,4) handle_provenance_ok [OF assms(6,5)], of "tl_chain_key lg"]
  from eff(4) auth
  show "read_seal P d' (tl_path lg) (tl_chain_key lg) =
          SealValid (tl_sequence lg) (tl_segment_start_hash lg) (handle_provenance lg) \<or>
         fault \<noteq> None \<and> read_seal P d' (tl_path lg) (tl_chain_key lg) = read_seal P d (tl_path lg) (tl_chain_key lg)"
    by (auto simp: read_seal_def)
qed

lemma handle_lengths:
  "prims_ok P \<Longrightarrow> handle_rep P lg d segs live \<Longrightarrow> length (tl_prev_hash lg) = 32"
  "prims_ok P \<Longrightarrow> handle_rep P lg d segs live \<Longrightarrow> length (tl_segment_start_hash lg) = 32"
  by (simp_all add: handle_rep_def)

text \<open>Opening a file that holds any chain of sized payloads, fewer than four stray bytes, and a seal that does not overstate it.\<close>

lemma verify_chain_payloads:
  assumes "prims_ok P" and "read_file d p = Some (chain_wire P key start cs @ tail)" and "sized cs" and "length tail < 4"
    and "read_seal P d p key = SealValid k start prov" and "k \<le> length cs"
  shows "verify_chain P d p key = Inr \<lparr>vr_entries_verified = length cs,
    vr_status = (if cs = [] then Empty else if k = length cs then Intact else Unsealed (length cs) k)\<rparr>"
proof -
  have "stream_verify P d p key start = Inr \<lparr>sr_entries_verified = length cs, sr_terminal_hash = chain_end P key start cs,
      sr_break_status = None\<rparr>"
    using stream_chain [OF assms(1,3), of key start tail 0 0] assms(2,4) by (simp add: stream_verify_def)
  moreover have "classify_terminal (SealValid k start prov) (length cs) =
      (if cs = [] then Empty else if k = length cs then Intact else Unsealed (length cs) k)"
    using assms(6) by (auto simp: classify_terminal_def)
  ultimately show ?thesis by (simp add: verify_chain_def assms(5) resolve_start_hash_def)
qed

lemma open_chain:
  assumes P: "prims_ok P" and content: "read_file d p = Some (chain_wire P key start cs @ tail)" and cs: "sized cs" "length tail < 4"
    and seal: "read_seal P d p key = SealValid k start prov" and k: "k \<le> length cs" "length cs < 2 ^ 64" "length start = 32"
    and free: "p \<notin> set (d_locks d)" and signer: "signer_ok signer"
  obtains lg d' where "open_inner P d p key mx signer None = (Inr lg, d')"
    and "lg = \<lparr>tl_fd = p, tl_pending = [], tl_path = p, tl_prev_hash = chain_end P key start cs,
      tl_segment_start_hash = start, tl_sequence = length cs, tl_bytes_written = length (chain_wire P key start cs),
      tl_max_file_bytes = mx, tl_chain_key = key, tl_signer = signer\<rparr>"
    and "read_file d' p = read_file d p" and "read_seal P d' p key = SealValid (length cs) start (handle_provenance lg)"
    and "d_locks d' = p # d_locks d"
    and "\<forall>q. q \<notin> {p, seal_path p, tmp_path (seal_path p), lock_path p} \<longrightarrow> read_file d' q = read_file d q"
proof -
  define d1 where "d1 = (open_append d (lock_path p))\<lparr>d_locks := p # d_locks d\<rparr>"
  have lock: "lock_acquire d p = Inr d1" using free by (simp add: lock_acquire_def d1_def)
  have d1: "read_file d1 q = read_file d q" if "q \<noteq> lock_path p" for q
    using that by (simp add: read_open_append d1_def)
  have locks: "d_locks d1 = p # d_locks d" by (simp add: d1_def)
  have at_p: "read_file d1 p = Some (chain_wire P key start cs @ tail)" using d1 [of p] content by simp
  have seal1: "read_seal P d1 p key = SealValid k start prov"
    using seal d1 [of "seal_path p"] by (simp add: read_seal_def)
  note verified = verify_chain_payloads [OF P at_p cs seal1 k(1)]
  have recover: "recover_state d1 p start = (chain_end P key start cs, length cs, length (chain_wire P key start cs))"
    using recover_chain [OF P cs, of key start 0 0] at_p by (auto simp: recover_state_def)
  define lg where "lg = \<lparr>tl_fd = p, tl_pending = [], tl_path = p, tl_prev_hash = chain_end P key start cs,
      tl_segment_start_hash = start, tl_sequence = length cs, tl_bytes_written = length (chain_wire P key start cs),
      tl_max_file_bytes = mx, tl_chain_key = key, tl_signer = signer\<rparr>"
  have sel: "tl_path lg = p" "tl_chain_key lg = key" "tl_sequence lg = length cs" "tl_signer lg = signer"
      "tl_segment_start_hash lg = start" "tl_prev_hash lg = chain_end P key start cs"
    by (simp_all add: lg_def)
  obtain res d' where refresh: "refresh_seal P lg d1 None = (res, d')" by fastforce
  have len: "length (chain_end P key start cs) = 32" using P k(3) by simp
  note eff = refresh_seal_effect [OF P refresh, unfolded sel, OF k(2,3) len signer]
  have open_d1: "open_append d1 p = d1" using at_p by (simp add: open_append_def)
  have opened: "open_inner P d p key mx signer None = (Inr lg, d')"
    using eff(1) refresh at_p
    by (simp add: open_inner_def lock verified seal1 resolve_start_hash_def recover open_d1 lg_def resumable_def Let_def)
  have "read_file d' p = read_file d p" using eff(3) [of p] d1 [of p] by simp
  moreover have "read_seal P d' p key = SealValid (length cs) start (handle_provenance lg)" using eff(4) by simp
  moreover have "d_locks d' = p # d_locks d" using eff(2) locks by simp
  moreover have "\<forall>q. q \<notin> {p, seal_path p, tmp_path (seal_path p), lock_path p} \<longrightarrow> read_file d' q = read_file d q"
    using eff(3) d1 by simp
  ultimately show ?thesis using that [OF opened lg_def] by blast
qed

lemma open_rep:
  assumes "prims_ok P" and rep: "disk_rep P key p d segs live k" and "p \<notin> set (d_locks d)" and "signer_ok signer"
  obtains lg d' where "open_inner P d p key mx signer None = (Inr lg, d')"
    and "handle_rep P lg d' segs live" and "tl_path lg = p" and "tl_chain_key lg = key"
    and "tl_max_file_bytes lg = mx" and "tl_signer lg = signer" and "d_locks d' = p # d_locks d"
    and "read_seal P d' p key = SealValid (length live) (seg_start P key segs) (handle_provenance lg)"
proof -
  have st: "stored P key d p (seg_start P key segs) live k" and k: "k \<le> length (payloads P live)" "length (payloads P live) < 2 ^ 64"
      and recd: "\<forall>e \<in> set live. recordable P e"
    using rep by (simp_all add: disk_rep_def)
  obtain prov where seal: "read_seal P d p key = SealValid k (seg_start P key segs) prov" using st by (auto simp: stored_def)
  have content: "read_file d p = Some (chain_wire P key (seg_start P key segs) (payloads P live) @ [])" using st by (simp add: stored_def)
  obtain lg d' where opened: "open_inner P d p key mx signer None = (Inr lg, d')"
    and lg: "lg = \<lparr>tl_fd = p, tl_pending = [], tl_path = p, tl_prev_hash = chain_end P key (seg_start P key segs) (payloads P live),
      tl_segment_start_hash = seg_start P key segs, tl_sequence = length (payloads P live),
      tl_bytes_written = length (chain_wire P key (seg_start P key segs) (payloads P live)),
      tl_max_file_bytes = mx, tl_chain_key = key, tl_signer = signer\<rparr>"
    and d': "read_file d' p = read_file d p"
      "read_seal P d' p key = SealValid (length (payloads P live)) (seg_start P key segs) (handle_provenance lg)"
      "d_locks d' = p # d_locks d"
      "\<forall>q. q \<notin> {p, seal_path p, tmp_path (seal_path p), lock_path p} \<longrightarrow> read_file d' q = read_file d q"
    by (rule open_chain [OF assms(1) content sized_payloads [OF recd] _ seal k length_seg_start [OF assms(1)] assms(3,4), of mx]) simp
  have "stored P key d' p (seg_start P key segs) live (length live)"
    using d'(1,2) content by (simp add: stored_def)
  then have "disk_rep P key p d' segs live (length live)"
    using rep_update_live [OF rep, of d' live "length live"] d'(4) k(2) recd by simp
  then have "handle_rep P lg d' segs live" using assms(4) d'(3) by (simp add: handle_rep_def lg seg_start_snoc)
  from that [OF opened this _ _ _ _ d'(3)] d'(2) show ?thesis by (simp add: lg)
qed

lemma rep_fresh:
  assumes "fst p \<noteq> []" and "\<And>name n. read_file d (fst p, name) \<noteq> None \<Longrightarrow> parse_rotation_number name (log_stem p) = None"
    and "read_file d p = Some []" and "read_seal P d p key = SealValid 0 (genesis_hash P key) prov"
  shows "disk_rep P key p d [] [] 0"
  using assms by (auto simp: disk_rep_def segs_rep_def segs_stored_def stored_def)

lemma open_missing:
  assumes "prims_ok P" and "read_file d p = None" and "p \<notin> set (d_locks d)" and "signer_ok signer"
  obtains lg d' where "open_inner P d p key mx signer None = (Inr lg, d')"
    and "lg = \<lparr>tl_fd = p, tl_pending = [], tl_path = p, tl_prev_hash = genesis_hash P key,
      tl_segment_start_hash = genesis_hash P key, tl_sequence = 0, tl_bytes_written = 0, tl_max_file_bytes = mx,
      tl_chain_key = key, tl_signer = signer\<rparr>"
    and "read_file d' p = Some []" and "read_seal P d' p key = SealValid 0 (genesis_hash P key) (handle_provenance lg)"
    and "p \<in> set (d_locks d')"
    and "\<forall>q. q \<notin> {p, seal_path p, tmp_path (seal_path p), lock_path p} \<longrightarrow> read_file d' q = read_file d q"
proof -
  define d1 where "d1 = (open_append d (lock_path p))\<lparr>d_locks := p # d_locks d\<rparr>"
  have lock: "lock_acquire d p = Inr d1" using assms(3) by (simp add: lock_acquire_def d1_def)
  have d1: "read_file d1 q = read_file d q" if "q \<noteq> lock_path p" for q
    using that by (simp add: read_open_append d1_def)
  have content: "read_file d1 p = None" using d1 [of p] assms(2) by simp
  have locks: "d_locks d1 = p # d_locks d" by (simp add: d1_def)
  define lg where "lg = \<lparr>tl_fd = p, tl_pending = [], tl_path = p, tl_prev_hash = genesis_hash P key,
    tl_segment_start_hash = genesis_hash P key, tl_sequence = 0, tl_bytes_written = 0, tl_max_file_bytes = mx,
    tl_chain_key = key, tl_signer = signer\<rparr>"
  have sel: "tl_path lg = p" "tl_chain_key lg = key" "tl_sequence lg = 0" "tl_signer lg = signer"
      "tl_segment_start_hash lg = genesis_hash P key" "tl_prev_hash lg = genesis_hash P key"
    by (simp_all add: lg_def)
  obtain res d' where refresh: "refresh_seal P lg (open_append d1 p) None = (res, d')" by fastforce
  note eff = refresh_seal_effect [OF assms(1) refresh, unfolded sel, OF _ length_genesis_hash [OF assms(1)]
      length_genesis_hash [OF assms(1)] assms(4)]
  have opened: "open_inner P d p key mx signer None = (Inr lg, d')"
    using eff(1) refresh content by (simp add: open_inner_def lock lg_def recover_state_def Let_def)
  have other: "read_file d' q = read_file d q"
    if "q \<noteq> p" "q \<noteq> seal_path p" "q \<noteq> tmp_path (seal_path p)" "q \<noteq> lock_path p" for q
    using that eff(3) [of q] d1 [of q] by (simp add: read_open_append)
  have "read_file d' p = Some []" using eff(3) [of p] content by (simp add: read_open_append)
  moreover have "read_seal P d' p key = SealValid 0 (genesis_hash P key) (handle_provenance lg)" using eff(4) by simp
  moreover have "p \<in> set (d_locks d')" using eff(2) locks by simp
  moreover have "\<forall>q. q \<notin> {p, seal_path p, tmp_path (seal_path p), lock_path p} \<longrightarrow> read_file d' q = read_file d q"
    using other by simp
  ultimately show ?thesis using that [OF opened lg_def] by blast
qed

lemma open_fresh:
  assumes "prims_ok P" and "fst p \<noteq> []" and "read_file d p = None" and "p \<notin> set (d_locks d)" and "signer_ok signer"
    and none: "\<And>name. read_file d (fst p, name) \<noteq> None \<Longrightarrow> parse_rotation_number name (log_stem p) = None"
  obtains lg d' where "open_inner P d p key mx signer None = (Inr lg, d')"
    and "handle_rep P lg d' [] []" and "tl_path lg = p" and "tl_chain_key lg = key"
    and "tl_max_file_bytes lg = mx" and "tl_signer lg = signer"
proof -
  obtain lg d' where opened: "open_inner P d p key mx signer None = (Inr lg, d')"
    and lg: "lg = \<lparr>tl_fd = p, tl_pending = [], tl_path = p, tl_prev_hash = genesis_hash P key,
      tl_segment_start_hash = genesis_hash P key, tl_sequence = 0, tl_bytes_written = 0, tl_max_file_bytes = mx,
      tl_chain_key = key, tl_signer = signer\<rparr>"
    and at_p: "read_file d' p = Some []" "read_seal P d' p key = SealValid 0 (genesis_hash P key) (handle_provenance lg)"
    and locked: "p \<in> set (d_locks d')"
    and other: "\<forall>q. q \<notin> {p, seal_path p, tmp_path (seal_path p), lock_path p} \<longrightarrow> read_file d' q = read_file d q"
    by (rule open_missing [OF assms(1,3,4,5), of key mx])
  have "disk_rep P key p d' [] [] 0"
  proof (rule rep_fresh [OF assms(2) _ at_p])
    show "parse_rotation_number name (log_stem p) = None" if "read_file d' (fst p, name) \<noteq> None" for name
    proof (rule ccontr)
      assume "parse_rotation_number name (log_stem p) \<noteq> None"
      then obtain n where n: "parse_rotation_number name (log_stem p) = Some n" by blast
      from other sidecar_not_numbered [OF n] have "read_file d' (fst p, name) = read_file d (fst p, name)" by simp
      with that none [of name] n show False by simp
    qed
  qed
  with locked assms(5) have "handle_rep P lg d' [] []" by (simp add: handle_rep_def lg)
  from that [OF opened this] show ?thesis by (simp add: lg)
qed

subsection \<open>Appending\<close>

text \<open>An append at the level of bytes: whatever the file holds, the encoded entry goes to its end.\<close>

lemma append_raw:
  fixes P :: prims and lg :: tamper_log and now :: int and kind :: log_entry_kind
  assumes P: "prims_ok P" and fd: "tl_fd lg = tl_path lg" "tl_pending lg = []" and content: "read_file d (tl_path lg) = Some old"
    and enc: "encode_entry P \<lparr>le_sequence = tl_sequence lg, le_timestamp_ms = now, le_kind = kind\<rparr> (tl_prev_hash lg) (tl_chain_key lg) =
      Inr (wire, hash)"
    and space: "io_space io = None" and bound: "tl_sequence lg + 1 < 2 ^ 64" and start: "length (tl_segment_start_hash lg) = 32"
    and signer: "signer_ok (tl_signer lg)"
  obtains lg' d' res where
    "append_entry P lg d now kind io =
       (case res of
          Some er \<Rightarrow> (Inl er, lg', d')
        | None \<Rightarrow> if tl_bytes_written lg' > tl_max_file_bytes lg' then
                   (case rotate_log P lg' d' (io_rotate io) of
                      (Some er, lg4, d4) \<Rightarrow> (Inl er, lg4, d4) | (None, lg4, d4) \<Rightarrow> (Inr (tl_sequence lg), lg4, d4))
                 else (Inr (tl_sequence lg), lg', d'))"
    and "res = None \<longleftrightarrow> io_seal io = None"
    and "lg' = lg\<lparr>tl_prev_hash := hash, tl_sequence := tl_sequence lg + 1, tl_bytes_written := tl_bytes_written lg + length wire\<rparr>"
    and "d_locks d' = d_locks d" and "read_file d' (tl_path lg) = Some (old @ wire)"
    and "\<forall>q. q \<notin> {tl_path lg, seal_path (tl_path lg), tmp_path (seal_path (tl_path lg))} \<longrightarrow> read_file d' q = read_file d q"
    and "read_seal P d' (tl_path lg) (tl_chain_key lg) =
        SealValid (tl_sequence lg + 1) (tl_segment_start_hash lg) (handle_provenance lg') \<or>
      io_seal io \<noteq> None \<and> read_seal P d' (tl_path lg) (tl_chain_key lg) = read_seal P d (tl_path lg) (tl_chain_key lg)"
proof -
  let ?key = "tl_chain_key lg" and ?p = "tl_path lg"
  obtain lg1 d1 d2 where w: "buf_write_all None lg d wire = (True, None, lg1, d1)"
      "buf_flush None lg1 d1 = (True, None, lg, d2)"
      "read_file d2 = (read_file d)(?p \<mapsto> old @ wire)" "d_locks d2 = d_locks d"
    using write_then_flush [OF fd(2) content [folded fd(1)], of wire] unfolding fd(1) by blast
  define lg' where "lg' = lg\<lparr>tl_prev_hash := hash, tl_sequence := tl_sequence lg + 1,
    tl_bytes_written := tl_bytes_written lg + length wire\<rparr>"
  have sel: "tl_path lg' = ?p" "tl_chain_key lg' = ?key" "tl_sequence lg' = tl_sequence lg + 1" "tl_signer lg' = tl_signer lg"
      "tl_segment_start_hash lg' = tl_segment_start_hash lg" "tl_prev_hash lg' = hash"
    by (simp_all add: lg'_def)
  obtain res d' where refresh: "refresh_seal P lg' d2 (io_seal io) = (res, d')" by fastforce
  have len: "length hash = 32" using enc P by (auto simp: encode_entry_Inr)
  note eff = refresh_seal_effect [OF P refresh, unfolded sel, OF bound start len signer]
  have app: "append_entry P lg d now kind io =
      (case res of
          Some er \<Rightarrow> (Inl er, lg', d')
        | None \<Rightarrow> if tl_bytes_written lg' > tl_max_file_bytes lg' then
                   (case rotate_log P lg' d' (io_rotate io) of
                      (Some er, lg4, d4) \<Rightarrow> (Inl er, lg4, d4) | (None, lg4, d4) \<Rightarrow> (Inr (tl_sequence lg), lg4, d4))
                 else (Inr (tl_sequence lg), lg', d'))"
    unfolding append_entry_def Let_def enc space
    using w(1,2) refresh by (simp add: lg'_def split: option.splits)
  have "read_seal P d2 ?p ?key = read_seal P d ?p ?key" by (rule read_seal_cong) (simp add: w(3))
  with eff(4) have "read_seal P d' ?p ?key = SealValid (tl_sequence lg + 1) (tl_segment_start_hash lg) (handle_provenance lg') \<or>
      io_seal io \<noteq> None \<and> read_seal P d' ?p ?key = read_seal P d ?p ?key" by simp
  moreover have "read_file d' ?p = Some (old @ wire)" using eff(3) [of ?p] w(3) by simp
  moreover have "\<forall>q. q \<notin> {?p, seal_path ?p, tmp_path (seal_path ?p)} \<longrightarrow> read_file d' q = read_file d q"
    using eff(3) w(3) by simp
  moreover have "d_locks d' = d_locks d" using eff(2) w(4) by simp
  ultimately show ?thesis using that [OF app eff(1) lg'_def] by blast
qed

lemma append_core:
  fixes P :: prims and lg :: tamper_log and live :: "log_entry list" and now :: int and kind :: log_entry_kind
  defines "e \<equiv> \<lparr>le_sequence = length live, le_timestamp_ms = now, le_kind = kind\<rparr>"
  assumes P: "prims_ok P" and rep: "handle_rep P lg d segs live" and space: "io_space io = None"
    and recd: "recordable P e" and bound: "length live + 1 < 2 ^ 64"
  obtains lg' d' res where
    "append_entry P lg d now kind io =
       (case res of
          Some er \<Rightarrow> (Inl er, lg', d')
        | None \<Rightarrow> if tl_bytes_written lg' > tl_max_file_bytes lg' then
                   (case rotate_log P lg' d' (io_rotate io) of
                      (Some er, lg4, d4) \<Rightarrow> (Inl er, lg4, d4) | (None, lg4, d4) \<Rightarrow> (Inr (length live), lg4, d4))
                 else (Inr (length live), lg', d'))"
    and "res = None \<longleftrightarrow> io_seal io = None"
    and "tl_path lg' = tl_path lg" and "tl_chain_key lg' = tl_chain_key lg"
    and "tl_max_file_bytes lg' = tl_max_file_bytes lg" and "tl_signer lg' = tl_signer lg"
    and "d_locks d' = d_locks d"
    and "\<exists>k. disk_rep P (tl_chain_key lg) (tl_path lg) d' segs (live @ [e]) k"
    and "io_seal io = None \<Longrightarrow> handle_rep P lg' d' segs (live @ [e])"
    and "io_seal io = None \<Longrightarrow> read_seal P d' (tl_path lg) (tl_chain_key lg) =
      SealValid (length live + 1) (seg_start P (tl_chain_key lg) segs) (handle_provenance lg')"
    and "\<forall>q. q \<notin> {tl_path lg, seal_path (tl_path lg), tmp_path (seal_path (tl_path lg))} \<longrightarrow> read_file d' q = read_file d q"
proof -
  let ?key = "tl_chain_key lg" and ?p = "tl_path lg"
  let ?start = "seg_start P ?key segs"
  obtain c where c: "cbor_enc P e = Some c" "length c \<le> MAX_ENTRY_BYTES" using recd by (auto simp: recordable_def)
  have h: "tl_fd lg = ?p" "tl_pending lg = []" "tl_segment_start_hash lg = ?start" "tl_sequence lg = length live"
      "tl_prev_hash lg = chain_end P ?key ?start (payloads P live)"
      "tl_bytes_written lg = length (chain_wire P ?key ?start (payloads P live))" "signer_ok (tl_signer lg)"
      "?p \<in> set (d_locks d)"
      and drep: "disk_rep P ?key ?p d segs live (length live)"
    using rep by (simp_all add: handle_rep_def seg_start_snoc)
  have st: "stored P ?key d ?p ?start live (length live)" using drep by (simp add: disk_rep_def)
  then have content: "read_file d (tl_fd lg) = Some (chain_wire P ?key ?start (payloads P live))"
    by (simp add: stored_def h(1))
  define hash where "hash = link_hash P ?key (tl_prev_hash lg) c"
  define wire where "wire = to_le_bytes 4 (length c) @ c @ hash"
  have enc: "encode_entry P \<lparr>le_sequence = tl_sequence lg, le_timestamp_ms = now, le_kind = kind\<rparr> (tl_prev_hash lg) ?key = Inr (wire, hash)"
    using c unfolding h(4) e_def [symmetric] by (simp add: encode_entry_def hash_def wire_def Let_def)
  have wire_eq: "chain_wire P ?key ?start (payloads P live) @ wire = chain_wire P ?key ?start (payloads P (live @ [e]))"
    by (simp add: chain_wire_append c(1) h(5) hash_def wire_def)
  have hash_eq: "hash = chain_end P ?key ?start (payloads P (live @ [e]))"
    by (simp add: chain_end_append c(1) h(5) hash_def)
  have bound': "tl_sequence lg + 1 < 2 ^ 64" and len: "length (tl_segment_start_hash lg) = 32"
    using bound h(3,4) P by simp_all
  obtain lg' d' res where app: "append_entry P lg d now kind io =
       (case res of
          Some er \<Rightarrow> (Inl er, lg', d')
        | None \<Rightarrow> if tl_bytes_written lg' > tl_max_file_bytes lg' then
                   (case rotate_log P lg' d' (io_rotate io) of
                      (Some er, lg4, d4) \<Rightarrow> (Inl er, lg4, d4) | (None, lg4, d4) \<Rightarrow> (Inr (tl_sequence lg), lg4, d4))
                 else (Inr (tl_sequence lg), lg', d'))"
      and res: "res = None \<longleftrightarrow> io_seal io = None"
      and lg': "lg' = lg\<lparr>tl_prev_hash := hash, tl_sequence := tl_sequence lg + 1, tl_bytes_written := tl_bytes_written lg + length wire\<rparr>"
      and locks: "d_locks d' = d_locks d"
      and content'': "read_file d' ?p = Some (chain_wire P ?key ?start (payloads P live) @ wire)"
      and others': "\<forall>q. q \<notin> {?p, seal_path ?p, tmp_path (seal_path ?p)} \<longrightarrow> read_file d' q = read_file d q"
      and seal': "read_seal P d' ?p ?key = SealValid (tl_sequence lg + 1) (tl_segment_start_hash lg) (handle_provenance lg') \<or>
        io_seal io \<noteq> None \<and> read_seal P d' ?p ?key = read_seal P d ?p ?key"
    by (rule append_raw [OF P h(1,2) content [unfolded h(1)] enc space bound' len h(7)])
  note eff4 = seal' [unfolded h(3,4)]
  have sel: "tl_path lg' = ?p" "tl_chain_key lg' = ?key" "tl_sequence lg' = length live + 1" "tl_signer lg' = tl_signer lg"
      "tl_segment_start_hash lg' = ?start" "tl_prev_hash lg' = hash" "tl_max_file_bytes lg' = tl_max_file_bytes lg"
    by (simp_all add: lg' h)
  note content' = content'' [unfolded wire_eq]
  have others: "read_file d' q = read_file d q" if "q \<noteq> ?p" "q \<noteq> seal_path ?p" "q \<noteq> tmp_path (seal_path ?p)" for q
    using that others' [rule_format, of q] by simp
  have recd': "\<forall>e' \<in> set (live @ [e]). recordable P e'" using drep recd by (simp add: disk_rep_def)
  have upd: "disk_rep P ?key ?p d' segs (live @ [e]) k"
    if "read_seal P d' ?p ?key = SealValid k ?start prov" "k \<le> length live + 1" for k prov
    using rep_update_live [OF drep, of d' "live @ [e]" k] that others content' bound recd' by (simp add: stored_def)
  have exk: "\<exists>k. disk_rep P ?key ?p d' segs (live @ [e]) k"
  proof (cases "read_seal P d' ?p ?key = SealValid (length live + 1) ?start (handle_provenance lg')")
    case True
    from upd [OF this] show ?thesis by blast
  next
    case False
    with eff4 have "read_seal P d' ?p ?key = read_seal P d ?p ?key" by simp
    then obtain prov where "read_seal P d' ?p ?key = SealValid (length live) ?start prov"
      using st by (auto simp: stored_def)
    from upd [OF this] show ?thesis by auto
  qed
  have sealed_rep: "handle_rep P lg' d' segs (live @ [e])"
      "read_seal P d' ?p ?key = SealValid (length live + 1) ?start (handle_provenance lg')" if "io_seal io = None"
  proof -
    show seal: "read_seal P d' ?p ?key = SealValid (length live + 1) ?start (handle_provenance lg')"
      using that eff4 by simp
    have "disk_rep P ?key ?p d' segs (live @ [e]) (length live + 1)" using upd [OF seal] by simp
    moreover have "tl_bytes_written lg' = length (chain_wire P ?key ?start (payloads P (live @ [e])))"
      unfolding wire_eq [symmetric] by (simp add: lg' h(6))
    ultimately show "handle_rep P lg' d' segs (live @ [e])"
      using h(1,2,7,8) locks sel
      by (simp add: handle_rep_def hash_eq [unfolded payloads_simps] seg_start_snoc del: payloads_simps(3))
        (simp add: lg' hash_eq)
  qed
  have "\<forall>q. q \<notin> {?p, seal_path ?p, tmp_path (seal_path ?p)} \<longrightarrow> read_file d' q = read_file d q"
    using others by simp
  from that [OF app [unfolded h(4)] res sel(1,2,7,4) locks exk sealed_rep this] show ?thesis .
qed

lemma rotate_rep:
  assumes P: "prims_ok P" and rep: "handle_rep P lg d segs live" and "live \<noteq> []" and segs: "length segs + 1 < 2 ^ 32"
  obtains lg' d' where "rotate_log P lg d None = (None, lg', d')" and "handle_rep P lg' d' (segs @ [live]) []"
    and "tl_path lg' = tl_path lg" and "tl_chain_key lg' = tl_chain_key lg"
    and "tl_max_file_bytes lg' = tl_max_file_bytes lg" and "tl_signer lg' = tl_signer lg" and "d_locks d' = d_locks d"
    and "read_seal P d' (tl_path lg) (tl_chain_key lg) = SealValid 0 (tl_prev_hash lg) (handle_provenance lg')"
    and "tl_prev_hash lg' = tl_prev_hash lg"
proof -
  let ?key = "tl_chain_key lg" and ?p = "tl_path lg" and ?n = "length segs + 1"
  let ?start = "seg_start P ?key segs" and ?q = "rotation_path ?p ?n"
  have h: "tl_fd lg = ?p" "tl_pending lg = []" "tl_prev_hash lg = seg_start P ?key (segs @ [live])"
      "signer_ok (tl_signer lg)" "?p \<in> set (d_locks d)"
      and drep: "disk_rep P ?key ?p d segs live (length live)"
    using rep by (simp_all add: handle_rep_def)
  have st: "stored P ?key d ?p ?start live (length live)" using drep by (simp add: disk_rep_def)
  then have content: "read_file d ?p = Some (chain_wire P ?key ?start (payloads P live))" by (simp add: stored_def)
  obtain prov where seal: "read_seal P d ?p ?key = SealValid (length live) ?start prov" using st by (auto simp: stored_def)
  then obtain sealed where sealed: "read_file d (seal_path ?p) = Some sealed"
    by (auto simp: read_seal_def authenticate_seal_def split: option.splits)
  define d0 where "d0 = append_file d ?p []"
  have d0: "read_file d0 = read_file d" "d_locks d0 = d_locks d"
    using read_append_file [OF content, of "[]"] content by (simp_all add: d0_def fun_upd_idem)
  have flush: "buf_flush None lg d = (True, None, lg, d0)"
    using h(1,2) by (simp add: buf_flush_def dev_write_def d0_def)
  have drep0: "disk_rep P ?key ?p d0 segs live (length live)"
    using drep unfolding disk_rep_def segs_rep_def segs_stored_def stored_def read_seal_def d0(1) .
  have number: "next_rotation_number d0 ?p = Inr ?n"
    using numbers_next [OF numbered_numbers [OF segs_numbered [of P ?key ?p d0 segs]]] drep0 segs by (simp add: disk_rep_def)
  obtain d1 where d1: "rename_file d0 ?p ?q = Some d1"
    using content d0(1) by (simp add: rename_file_def)
  note r1 = read_rename_file [OF d1, unfolded d0]
  have "read_file d1 (seal_path ?p) = Some sealed" using r1 sealed by simp
  then obtain d2 where d2: "rename_file d1 (seal_path ?p) (seal_path ?q) = Some d2"
    by (simp add: rename_file_def)
  note r2 = read_rename_file [OF d2]
  let ?d3 = "open_append d2 ?p"
  have p2: "read_file d2 ?p = None" using r1 r2 by simp
  define lg' where "lg' = lg\<lparr>tl_fd := ?p, tl_pending := [], tl_segment_start_hash := tl_prev_hash lg,
    tl_sequence := 0, tl_bytes_written := 0\<rparr>"
  have sel: "tl_path lg' = ?p" "tl_chain_key lg' = ?key" "tl_sequence lg' = 0" "tl_signer lg' = tl_signer lg"
      "tl_segment_start_hash lg' = tl_prev_hash lg" "tl_prev_hash lg' = tl_prev_hash lg"
      "tl_max_file_bytes lg' = tl_max_file_bytes lg"
    by (simp_all add: lg'_def)
  obtain res d' where refresh: "refresh_seal P lg' ?d3 None = (res, d')" by fastforce
  note len = handle_lengths(1) [OF P rep]
  note eff = refresh_seal_effect [OF P refresh, unfolded sel, OF _ len len h(4)]
  have rot: "rotate_log P lg d None = (None, lg', d')"
    using eff(1) refresh by (simp add: rotate_log_def flush number [simplified] d1 [simplified] d2 [simplified] rename_seal_def Let_def lg'_def h(1))
  have seal': "read_seal P d' ?p ?key = SealValid 0 (tl_prev_hash lg) (handle_provenance lg')" using eff(4) by simp
  have others: "read_file d' x = read_file d x"
    if "x \<noteq> ?p" "x \<noteq> seal_path ?p" "x \<noteq> tmp_path (seal_path ?p)" "x \<noteq> ?q" "x \<noteq> seal_path ?q" for x
    using that eff(3) [of x] p2 r1 r2 by (simp add: read_open_append)
  have at_p: "read_file d' ?p = Some []" using eff(3) [of ?p] p2 by (simp add: read_open_append)
  have at_q: "read_file d' ?q = Some (chain_wire P ?key ?start (payloads P live))"
    using eff(3) [of ?q] p2 r1 r2 content by (simp add: read_open_append)
  have seal_q: "read_seal P d' ?q ?key = SealValid (length live) ?start prov"
  proof -
    have "read_file d' (seal_path ?q) = Some sealed"
      using eff(3) [of "seal_path ?q"] p2 r1 r2 sealed by (simp add: read_open_append)
    with seal sealed show ?thesis by (simp add: read_seal_def)
  qed
  have srep: "segs_rep P ?key ?p d segs" using drep by (simp add: disk_rep_def)
  have "segs_stored P ?key ?p d' (segs @ [live])"
    unfolding segs_stored_def
  proof (intro conjI allI impI)
    show "\<forall>s \<in> set (segs @ [live]). s \<noteq> [] \<and> (\<forall>e \<in> set s. recordable P e)"
      using drep \<open>live \<noteq> []\<close> by (auto simp: disk_rep_def segs_rep_def segs_stored_def)
    show "stored P ?key d' (rotation_path ?p (Suc i)) (seg_start P ?key (take i (segs @ [live]))) ((segs @ [live]) ! i)
        (length ((segs @ [live]) ! i))" if "i < length (segs @ [live])" for i
    proof (cases "i = length segs")
      case True
      with at_q seal_q show ?thesis by (simp add: stored_def)
    next
      case False
      with that have i: "i < length segs" by simp
      then have "stored P ?key d (rotation_path ?p (Suc i)) (seg_start P ?key (take i segs)) (segs ! i) (length (segs ! i))"
        using srep by (simp add: segs_rep_def segs_stored_def)
      moreover have "read_file d' (rotation_path ?p (Suc i)) = read_file d (rotation_path ?p (Suc i))"
        by (rule others) (use i in simp_all)
      moreover have "read_file d' (seal_path (rotation_path ?p (Suc i))) = read_file d (seal_path (rotation_path ?p (Suc i)))"
        by (rule others) (use i in simp_all)
      ultimately show ?thesis using i by (simp add: stored_def read_seal_cong [of d' _ d] nth_append)
    qed
  qed
  moreover have "numbered d' ?p ?n"
    by (rule numbered_add [OF segs_numbered [OF srep] segs]) (use at_q others in simp_all)
  ultimately have "segs_rep P ?key ?p d' (segs @ [live])" by (simp add: segs_rep_def numbered_def)
  moreover have "stored P ?key d' ?p (seg_start P ?key (segs @ [live])) [] 0"
    using at_p seal' h(3) by (simp add: stored_def)
  ultimately have "disk_rep P ?key ?p d' (segs @ [live]) [] 0" by (simp add: disk_rep_def)
  moreover have "d_locks d' = d_locks d" using eff(2) d0(2) d1 d2 by simp
  ultimately have "handle_rep P lg' d' (segs @ [live]) []"
    using h by (simp add: handle_rep_def lg'_def seg_start_def)
  from that [OF rot this sel(1,2,7,4) \<open>d_locks d' = d_locks d\<close> seal' sel(6)] show ?thesis .
qed

end
