(* ===== verification/Tamper_Props.thy ===== *)
theory Tamper_Props
  imports Tamper_Rep
begin

section \<open>Properties of the tamper log\<close>

text \<open>
  The contract of the tamper log and what it does under interruption and attack. The abstract log
  \<open>abs_run\<close> knows nothing of hashes, seals or files; the writer refines it. The attacks are
  arbitrary changes of the directory by somebody without the chain key: what they can do is
  read and write bytes.
\<close>

subsection \<open>The abstract log\<close>

definition wire_size :: "prims \<Rightarrow> log_entry list \<Rightarrow> nat" where
  "wire_size P es = sum_list (map (\<lambda>e. 4 + length (the (cbor_enc P e)) + 32) es)"

definition abs_append ::
    "prims \<Rightarrow> nat \<Rightarrow> int \<times> log_entry_kind \<Rightarrow> log_entry list list \<times> log_entry list \<Rightarrow> log_entry list list \<times> log_entry list" where
  "abs_append P mx req st =
     (let (segs, live) = st;
          live' = live @ [\<lparr>le_sequence = length live, le_timestamp_ms = fst req, le_kind = snd req\<rparr>]
      in if wire_size P live' > mx then (segs @ [live'], []) else (segs, live'))"

fun abs_run ::
    "prims \<Rightarrow> nat \<Rightarrow> (int \<times> log_entry_kind) list \<Rightarrow> log_entry list list \<times> log_entry list
       \<Rightarrow> nat list \<times> log_entry list list \<times> log_entry list" where
  "abs_run P mx [] st = ([], st)"
| "abs_run P mx (req # reqs) st =
     (let (seqs, st') = abs_run P mx reqs (abs_append P mx req st) in (length (snd st) # seqs, st'))"

fun append_all ::
    "prims \<Rightarrow> tamper_log \<Rightarrow> disk \<Rightarrow> (int \<times> log_entry_kind) list \<Rightarrow> (tamper_log_error + nat) list \<times> tamper_log \<times> disk" where
  "append_all P lg d [] = ([], lg, d)"
| "append_all P lg d (req # reqs) =
     (case append_entry P lg d (fst req) (snd req) io_ok of
        (res, lg', d') \<Rightarrow> (case append_all P lg' d' reqs of (rs, lg'', d'') \<Rightarrow> (res # rs, lg'', d'')))"

lemma length_chain_wire: "prims_ok P \<Longrightarrow> length (chain_wire P key h (payloads P es)) = wire_size P es"
  by (induction es arbitrary: h) (simp_all add: wire_size_def)

lemma append_step:
  assumes P: "prims_ok P" and rep: "handle_rep P lg d segs live"
    and recd: "recordable P \<lparr>le_sequence = length live, le_timestamp_ms = fst req, le_kind = snd req\<rparr>"
    and bound: "length live + 1 < 2 ^ 64" "length segs + 1 < 2 ^ 32"
  obtains lg' d' segs' live' where "append_entry P lg d (fst req) (snd req) io_ok = (Inr (length live), lg', d')"
    and "abs_append P (tl_max_file_bytes lg) req (segs, live) = (segs', live')" and "handle_rep P lg' d' segs' live'"
    and "tl_path lg' = tl_path lg" and "tl_chain_key lg' = tl_chain_key lg"
    and "tl_max_file_bytes lg' = tl_max_file_bytes lg" and "tl_signer lg' = tl_signer lg" and "d_locks d' = d_locks d"
    and "\<exists>k start. read_seal P d' (tl_path lg) (tl_chain_key lg) = SealValid k start (handle_provenance lg')"
proof -
  let ?e = "\<lparr>le_sequence = length live, le_timestamp_ms = fst req, le_kind = snd req\<rparr>"
  obtain lg1 d1 res where core: "append_entry P lg d (fst req) (snd req) io_ok =
       (case res of
          Some er \<Rightarrow> (Inl er, lg1, d1)
        | None \<Rightarrow> if tl_bytes_written lg1 > tl_max_file_bytes lg1 then
                   (case rotate_log P lg1 d1 (io_rotate io_ok) of
                      (Some er, lg4, d4) \<Rightarrow> (Inl er, lg4, d4) | (None, lg4, d4) \<Rightarrow> (Inr (length live), lg4, d4))
                 else (Inr (length live), lg1, d1))" "res = None"
      and same: "tl_path lg1 = tl_path lg" "tl_chain_key lg1 = tl_chain_key lg"
        "tl_max_file_bytes lg1 = tl_max_file_bytes lg" "tl_signer lg1 = tl_signer lg" "d_locks d1 = d_locks d"
      and rep1: "handle_rep P lg1 d1 segs (live @ [?e])"
      and seal1: "read_seal P d1 (tl_path lg) (tl_chain_key lg) =
        SealValid (length live + 1) (seg_start P (tl_chain_key lg) segs) (handle_provenance lg1)"
    by (rule append_core [OF P rep _ recd bound(1), of io_ok]) (simp_all add: io_ok_def)
  have bytes: "tl_bytes_written lg1 = wire_size P (live @ [?e])"
    using rep1 length_chain_wire [OF P] by (simp add: handle_rep_def del: payloads_simps)
  show ?thesis
  proof (cases "tl_bytes_written lg1 > tl_max_file_bytes lg1")
    case False
    with core have "append_entry P lg d (fst req) (snd req) io_ok = (Inr (length live), lg1, d1)" by simp
    moreover have "abs_append P (tl_max_file_bytes lg) req (segs, live) = (segs, live @ [?e])"
      using False same(3) bytes by (simp add: abs_append_def)
    moreover have "\<exists>k start. read_seal P d1 (tl_path lg) (tl_chain_key lg) = SealValid k start (handle_provenance lg1)"
      using seal1 by blast
    ultimately show ?thesis using that rep1 same by blast
  next
    case True
    obtain lg2 d2 where rot: "rotate_log P lg1 d1 None = (None, lg2, d2)"
        and rep2: "handle_rep P lg2 d2 (segs @ [live @ [?e]]) []"
        and same2: "tl_path lg2 = tl_path lg1" "tl_chain_key lg2 = tl_chain_key lg1"
          "tl_max_file_bytes lg2 = tl_max_file_bytes lg1" "tl_signer lg2 = tl_signer lg1" "d_locks d2 = d_locks d1"
        and seal2: "read_seal P d2 (tl_path lg1) (tl_chain_key lg1) = SealValid 0 (tl_prev_hash lg1) (handle_provenance lg2)"
      by (rule rotate_rep [OF P rep1 _ bound(2)]) simp_all
    from True core rot have "append_entry P lg d (fst req) (snd req) io_ok = (Inr (length live), lg2, d2)"
      by (simp add: io_ok_def)
    moreover have "abs_append P (tl_max_file_bytes lg) req (segs, live) = (segs @ [live @ [?e]], [])"
      using True same(3) bytes by (simp add: abs_append_def)
    moreover have "\<exists>k start. read_seal P d2 (tl_path lg) (tl_chain_key lg) = SealValid k start (handle_provenance lg2)"
      using seal2 same by auto
    ultimately show ?thesis using that rep2 same same2 by simp
  qed
qed

lemma abs_append_lengths:
  "abs_append P mx req (segs, live) = (segs', live') \<Longrightarrow> length live' \<le> length live + 1 \<and> length segs' \<le> length segs + 1"
  by (auto simp: abs_append_def Let_def split: if_splits)

lemma append_all_refines:
  assumes "prims_ok P" and "handle_rep P lg d segs live"
    and "\<forall>req \<in> set reqs. \<forall>i < length live + length reqs.
      recordable P \<lparr>le_sequence = i, le_timestamp_ms = fst req, le_kind = snd req\<rparr>"
    and "length live + length reqs < 2 ^ 64" and "length segs + length reqs < 2 ^ 32"
  shows "\<exists>seqs segs' live' lg' d'. abs_run P (tl_max_file_bytes lg) reqs (segs, live) = (seqs, segs', live') \<and>
    append_all P lg d reqs = (map Inr seqs, lg', d') \<and> handle_rep P lg' d' segs' live' \<and>
    tl_path lg' = tl_path lg \<and> tl_chain_key lg' = tl_chain_key lg \<and> d_locks d' = d_locks d"
  using assms(2-)
proof (induction reqs arbitrary: lg d segs live)
  case Nil
  then show ?case by simp
next
  case (Cons req reqs)
  have recd: "recordable P \<lparr>le_sequence = length live, le_timestamp_ms = fst req, le_kind = snd req\<rparr>"
    using Cons.prems(2) by simp
  have b: "length live + 1 < 2 ^ 64" "length segs + 1 < 2 ^ 32" using Cons.prems(3,4) by simp_all
  obtain lg1 d1 segs1 live1 where step: "append_entry P lg d (fst req) (snd req) io_ok = (Inr (length live), lg1, d1)"
      "abs_append P (tl_max_file_bytes lg) req (segs, live) = (segs1, live1)" and rep1: "handle_rep P lg1 d1 segs1 live1"
      and same: "tl_path lg1 = tl_path lg" "tl_chain_key lg1 = tl_chain_key lg"
        "tl_max_file_bytes lg1 = tl_max_file_bytes lg" "d_locks d1 = d_locks d"
    by (rule append_step [OF assms(1) Cons.prems(1) recd b]) blast
  have len: "length live1 \<le> length live + 1" "length segs1 \<le> length segs + 1"
    using abs_append_lengths [OF step(2)] by simp_all
  have recd1: "\<forall>r \<in> set reqs. \<forall>i < length live1 + length reqs.
      recordable P \<lparr>le_sequence = i, le_timestamp_ms = fst r, le_kind = snd r\<rparr>"
    using Cons.prems(2) len(1) by simp
  have bounds: "length live1 + length reqs < 2 ^ 64" "length segs1 + length reqs < 2 ^ 32"
    using Cons.prems(3,4) len by simp_all
  obtain seqs segs' live' lg' d' where "abs_run P (tl_max_file_bytes lg1) reqs (segs1, live1) = (seqs, segs', live')"
      "append_all P lg1 d1 reqs = (map Inr seqs, lg', d')" "handle_rep P lg' d' segs' live'"
      "tl_path lg' = tl_path lg1" "tl_chain_key lg' = tl_chain_key lg1" "d_locks d' = d_locks d1"
    using Cons.IH [OF rep1 recd1 bounds] by blast
  then have "abs_run P (tl_max_file_bytes lg) (req # reqs) (segs, live) = (length live # seqs, segs', live') \<and>
      append_all P lg d (req # reqs) = (map Inr (length live # seqs), lg', d') \<and> handle_rep P lg' d' segs' live' \<and>
      tl_path lg' = tl_path lg \<and> tl_chain_key lg' = tl_chain_key lg \<and> d_locks d' = d_locks d"
    using step same by simp
  then show ?case by blast
qed

lemma abs_run_count:
  "abs_run P mx reqs (segs, live) = (seqs, segs', live') \<Longrightarrow>
     length (concat segs') + length live' = length (concat segs) + length live + length reqs"
proof (induction reqs arbitrary: segs live seqs)
  case Nil
  then show ?case by simp
next
  case (Cons req reqs)
  obtain segs1 live1 where step: "abs_append P mx req (segs, live) = (segs1, live1)" by fastforce
  then have "length (concat segs1) + length live1 = length (concat segs) + length live + 1"
    by (auto simp: abs_append_def Let_def split: if_splits)
  with Cons.IH [of segs1 live1] Cons.prems step show ?case by (auto split: prod.splits)
qed

definition no_segments :: "disk \<Rightarrow> path \<Rightarrow> bool" where
  "no_segments d p \<longleftrightarrow>
     (\<forall>name. read_file d (fst p, name) \<noteq> None \<longrightarrow> parse_rotation_number name (log_stem p) = None)"

text \<open>
  C2. Opening a log in a directory that has none and appending any sequence of events
  refines the abstract log: every append succeeds and returns the sequence number the
  abstract log assigns, the files end up representing exactly the abstract segments,
  rotation included, and the verifier of the whole segment set reports it intact with every
  appended entry counted.
\<close>

theorem tamper_log_refines:
  assumes "prims_ok P" and "signer_ok signer" and "fst p \<noteq> []" and "read_file d p = None" and "p \<notin> set (d_locks d)"
    and "no_segments d p"
    and "\<forall>req \<in> set reqs. \<forall>i < length reqs.
      recordable P \<lparr>le_sequence = i, le_timestamp_ms = fst req, le_kind = snd req\<rparr>"
    and "length reqs < 2 ^ 32"
  shows "\<exists>lg d1 seqs segs live lg' d'.
    open_inner P d p key mx signer None = (Inr lg, d1) \<and>
    abs_run P mx reqs ([], []) = (seqs, segs, live) \<and>
    append_all P lg d1 reqs = (map Inr seqs, lg', d') \<and>
    handle_rep P lg' d' segs live \<and>
    verify_segment_chain P d' p key = Inr (SegmentsIntact (length reqs) (length segs + 1))"
proof -
  obtain lg d1 where opened: "open_inner P d p key mx signer None = (Inr lg, d1)" and rep: "handle_rep P lg d1 [] []"
      and lg: "tl_path lg = p" "tl_chain_key lg = key" "tl_max_file_bytes lg = mx"
    by (rule open_fresh [OF assms(1,3,4,5,2), of key mx]) (use assms(6) in \<open>auto simp: no_segments_def\<close>)
  obtain seqs segs live lg' d' where run: "abs_run P mx reqs ([], []) = (seqs, segs, live)"
      "append_all P lg d1 reqs = (map Inr seqs, lg', d')" and rep': "handle_rep P lg' d' segs live"
      and lg': "tl_path lg' = p" "tl_chain_key lg' = key"
    using append_all_refines [OF assms(1) rep, of reqs] assms(7,8) lg by auto
  have "disk_rep P key p d' segs live (length live)" using rep' lg' by (simp add: handle_rep_def)
  from rep_verify_segments [OF assms(1) this] abs_run_count [OF run(1)]
  have "verify_segment_chain P d' p key = Inr (SegmentsIntact (length reqs) (length segs + 1))" by simp
  with opened run rep' show ?thesis by blast
qed

definition toy_kind :: log_entry_kind where
  "toy_kind = ActionTaken [] [] None"

definition toy_prims :: prims where
  "toy_prims =
     \<lparr>blake3_keyed = (\<lambda>key d. take 32 (d @ replicate 32 0)),
      cbor_enc = (\<lambda>e. if le_sequence e < 256 \<and> le_timestamp_ms e = 0 \<and> le_kind e = toy_kind
                      then Some [word_of_nat (le_sequence e)] else None),
      cbor_dec = (\<lambda>bs. case bs of [b] \<Rightarrow> Some \<lparr>le_sequence = unat b, le_timestamp_ms = 0, le_kind = toy_kind\<rparr> | _ \<Rightarrow> None)\<rparr>"

definition toy_disk :: disk where
  "toy_disk = \<lparr>d_files = [], d_locks = []\<rparr>"

definition toy_path :: path where
  "toy_path = (''/var/log'', ''audit.log'')"

lemma toy_prims_ok: "prims_ok toy_prims"
  by (auto simp: prims_ok_def toy_prims_def unsigned_of_nat take_bit_nat_eq_self split: if_splits)

lemma toy_recordable: "i < 256 \<Longrightarrow> recordable toy_prims \<lparr>le_sequence = i, le_timestamp_ms = 0, le_kind = toy_kind\<rparr>"
  by (simp add: recordable_def toy_prims_def MAX_ENTRY_BYTES_def)

lemma toy_disk_simps [simp]:
  "read_file toy_disk q = None" "d_locks toy_disk = []" "no_segments toy_disk q" "fst toy_path \<noteq> []" "signer_ok None"
  by (simp_all add: toy_disk_def read_file_def no_segments_def toy_path_def signer_ok_def)

theorem tamper_log_refines_witness:
  "\<exists>lg d1 seqs segs live lg' d'.
    open_inner toy_prims toy_disk toy_path [] 80 None None = (Inr lg, d1) \<and>
    abs_run toy_prims 80 (replicate 4 (0, toy_kind)) ([], []) = (seqs, segs, live) \<and>
    append_all toy_prims lg d1 (replicate 4 (0, toy_kind)) = (map Inr seqs, lg', d') \<and>
    handle_rep toy_prims lg' d' segs live \<and>
    verify_segment_chain toy_prims d' toy_path [] = Inr (SegmentsIntact 4 (length segs + 1))"
proof -
  have free: "toy_path \<notin> set (d_locks toy_disk)" by simp
  have recd: "\<forall>req \<in> set (replicate 4 (0, toy_kind)). \<forall>i < length (replicate 4 (0 :: int, toy_kind)).
      recordable toy_prims \<lparr>le_sequence = i, le_timestamp_ms = fst req, le_kind = snd req\<rparr>"
    by (simp add: toy_recordable)
  have few: "length (replicate 4 (0 :: int, toy_kind)) < 2 ^ 32" by simp
  show ?thesis
    using tamper_log_refines [OF toy_prims_ok toy_disk_simps(5,4,1) free toy_disk_simps(3) recd few, of "[]" 80]
    unfolding length_replicate .
qed

lemma drop_rep:
  assumes "handle_rep P lg d segs live"
  shows "read_file (drop_log lg d) = read_file d" and "tl_path lg \<notin> set (d_locks (drop_log lg d))"
    and "disk_rep P (tl_chain_key lg) (tl_path lg) (drop_log lg d) segs live (length live)"
proof -
  have pend: "tl_pending lg = []" "tl_fd lg = tl_path lg"
      and drep: "disk_rep P (tl_chain_key lg) (tl_path lg) d segs live (length live)"
    using assms by (simp_all add: handle_rep_def)
  then obtain content where c: "read_file d (tl_path lg) = Some content" by (auto simp: disk_rep_def stored_def)
  show same: "read_file (drop_log lg d) = read_file d"
    using read_append_file [OF c, of "[]"] pend c
    by (simp add: drop_log_def buf_flush_def dev_write_def fun_upd_idem)
  show "tl_path lg \<notin> set (d_locks (drop_log lg d))"
    by (simp add: drop_log_def split: prod.splits)
  show "disk_rep P (tl_chain_key lg) (tl_path lg) (drop_log lg d) segs live (length live)"
    using drep unfolding disk_rep_def segs_rep_def segs_stored_def stored_def read_seal_def same .
qed

text \<open>
  C19. A log outlives its handle: while a handle is open every other open of the path is
  refused, and once it is dropped an open of the same path succeeds and resumes from exactly the
  state the dropped handle had.
\<close>

theorem reopen_resumes:
  assumes "prims_ok P" and "handle_rep P lg d segs live" and "signer_ok signer"
  shows "fst (open_inner P d (tl_path lg) key' mx signer fault) = Inl (Locked (tl_path lg)) \<and>
    (\<exists>lg' d'. open_inner P (drop_log lg d) (tl_path lg) (tl_chain_key lg) mx signer None = (Inr lg', d') \<and>
      handle_rep P lg' d' segs live \<and> tl_sequence lg' = tl_sequence lg \<and> tl_prev_hash lg' = tl_prev_hash lg \<and>
      tl_segment_start_hash lg' = tl_segment_start_hash lg \<and> tl_bytes_written lg' = tl_bytes_written lg)"
proof -
  have held: "tl_path lg \<in> set (d_locks d)" using assms(2) by (simp add: handle_rep_def)
  obtain lg' d' where opened: "open_inner P (drop_log lg d) (tl_path lg) (tl_chain_key lg) mx signer None = (Inr lg', d')"
      and rep': "handle_rep P lg' d' segs live" and k: "tl_chain_key lg' = tl_chain_key lg"
    by (rule open_rep [OF assms(1) drop_rep(3,2) [OF assms(2)] assms(3)]) blast
  have "tl_sequence lg' = tl_sequence lg" "tl_prev_hash lg' = tl_prev_hash lg"
      "tl_segment_start_hash lg' = tl_segment_start_hash lg" "tl_bytes_written lg' = tl_bytes_written lg"
    using assms(2) rep' k by (simp_all add: handle_rep_def)
  moreover have "fst (open_inner P d (tl_path lg) key' mx signer fault) = Inl (Locked (tl_path lg))"
    using held by (simp add: open_inner_def lock_acquire_def Let_def)
  ultimately show ?thesis using opened rep' by blast
qed

abbreviation toy_entry :: "nat \<Rightarrow> log_entry" where
  "toy_entry i \<equiv> \<lparr>le_sequence = i, le_timestamp_ms = 0, le_kind = toy_kind\<rparr>"

lemma toy_handle:
  obtains lg d segs live where "handle_rep toy_prims lg d segs live"
    and "tl_path lg = toy_path" and "tl_chain_key lg = []" and "tl_signer lg = None" and "tl_max_file_bytes lg = mx"
    and "(segs, live) = (if 37 > mx then ([[toy_entry 0]], []) else ([], [toy_entry 0]))"
    and "\<exists>k start. read_seal toy_prims d toy_path [] = SealValid k start None"
proof -
  obtain lg0 d0 where o: "open_inner toy_prims toy_disk toy_path [] mx None None = (Inr lg0, d0)"
      "handle_rep toy_prims lg0 d0 [] []" "tl_path lg0 = toy_path" "tl_chain_key lg0 = []"
      "tl_max_file_bytes lg0 = mx" "tl_signer lg0 = None"
    by (rule open_fresh [of toy_prims toy_path toy_disk None "[]" mx]) (simp_all add: toy_prims_ok)
  obtain lg d segs live where st: "append_entry toy_prims lg0 d0 (fst (0, toy_kind)) (snd (0, toy_kind)) io_ok = (Inr (length ([] :: log_entry list)), lg, d)"
      "abs_append toy_prims (tl_max_file_bytes lg0) (0, toy_kind) ([], []) = (segs, live)" "handle_rep toy_prims lg d segs live"
      "tl_path lg = tl_path lg0" "tl_chain_key lg = tl_chain_key lg0" "tl_max_file_bytes lg = tl_max_file_bytes lg0"
      "tl_signer lg = tl_signer lg0"
      "\<exists>k start. read_seal toy_prims d (tl_path lg0) (tl_chain_key lg0) = SealValid k start (handle_provenance lg)"
    by (rule append_step [OF toy_prims_ok o(2), of "(0, toy_kind)"]) (simp_all add: toy_recordable)
  have "handle_provenance lg = None" using st(7) o(6) by (simp add: handle_provenance_def)
  moreover have "(segs, live) = (if 37 > mx then ([[toy_entry 0]], []) else ([], [toy_entry 0]))"
    using st(2) o(5) by (auto simp: abs_append_def wire_size_def toy_prims_def)
  ultimately show ?thesis using st o that by simp
qed

lemma toy_disk_rep:
  obtains d prov where "disk_rep toy_prims [] toy_path d [] [toy_entry 0] 1" and "toy_path \<notin> set (d_locks d)"
proof -
  obtain lg d segs live where h: "handle_rep toy_prims lg d segs live" "tl_path lg = toy_path" "tl_chain_key lg = []"
      "(segs, live) = (if 37 > (80 :: nat) then ([[toy_entry 0]], []) else ([], [toy_entry 0]))"
    by (rule toy_handle [of 80])
  then have sl: "segs = []" "live = [toy_entry 0]" by simp_all
  note r = drop_rep [OF h(1), unfolded h(2,3) sl]
  from that [of "drop_log lg d"] r(2,3) show ?thesis by simp
qed

theorem reopen_resumes_witness:
  "\<exists>lg d lg' d'. handle_rep toy_prims lg d [] [toy_entry 0] \<and>
     open_inner toy_prims (drop_log lg d) toy_path [] 80 None None = (Inr lg', d') \<and> tl_sequence lg' = 1"
proof -
  obtain lg d segs live where h0: "handle_rep toy_prims lg d segs live" "tl_path lg = toy_path" "tl_chain_key lg = []"
      "(segs, live) = (if 37 > (80 :: nat) then ([[toy_entry 0]], []) else ([], [toy_entry 0]))"
    by (rule toy_handle [of 80])
  then have h: "handle_rep toy_prims lg d [] [toy_entry 0]" by simp
  then have "tl_sequence lg = 1" by (simp add: handle_rep_def)
  moreover obtain lg' d' where "open_inner toy_prims (drop_log lg d) toy_path [] 80 None None = (Inr lg', d')"
      "tl_sequence lg' = tl_sequence lg"
    using reopen_resumes [OF toy_prims_ok h, of None "[]" 80 None] unfolding h0(2,3) by auto
  ultimately show ?thesis using h by auto
qed

subsection \<open>Truncation and tampering\<close>

lemma verify_chain_valid:
  assumes "read_seal P d p key = SealValid c start prov" and "read_file d p = Some bs" and "r = stream_loop P key bs start 0 0"
  shows "verify_chain P d p key = Inr \<lparr>vr_entries_verified = sr_entries_verified r,
    vr_status = (case sr_break_status r of Some s \<Rightarrow> s
      | None \<Rightarrow> classify_terminal (SealValid c start prov) (sr_entries_verified r))\<rparr>"
  unfolding verify_chain_def stream_verify_def resolve_start_hash_def Let_def assms(1,2) seal_state.case option.case sum.case
    assms(3) ..

lemma classify_fewer: "n < c \<Longrightarrow> classify_terminal (SealValid c start prov) n = Truncated (Some c)"
  by (simp add: classify_terminal_def)

lemma open_refuses:
  assumes "p \<notin> set (d_locks d)" and "read_file d p \<noteq> None" and "verify_chain P d p key = Inr v" and "\<not> resumable (vr_status v)"
  shows "fst (open_inner P d p key mx signer fault) = Inl (ChainCompromised p (vr_status v))"
proof -
  let ?d1 = "(open_append d (lock_path p))\<lparr>d_locks := p # d_locks d\<rparr>"
  have same: "read_file ?d1 q = read_file d q" if "q \<noteq> lock_path p" for q
    using that by (simp add: read_open_append)
  have "verify_chain P ?d1 p key = verify_chain P d p key"
    using same [of p] same [of "seal_path p"] by (simp add: verify_chain_def stream_verify_def read_seal_def)
  moreover have "read_file ?d1 p \<noteq> None" using assms(2) same [of p] by simp
  ultimately show ?thesis using assms by (simp add: open_inner_def lock_acquire_def)
qed

lemma stream_loop_break_status:
  "sr_break_status (stream_loop P key bs h n off) = Some st \<Longrightarrow> (\<exists>o'. st = Corrupted o') \<or> (\<exists>a b c. st = Broken a b c)"
proof (induction P key bs h n off rule: stream_loop.induct)
  case (1 P key bs h n off)
  show ?case
  proof (rule ccontr)
    assume no: "\<not> ?thesis"
    with 1(2) have "\<not> length bs < 4" by auto
    note unfolded = 1(2) [unfolded stream_loop.simps [of P key bs h n off] Let_def if_not_P [OF this]]
    show False using no unfolded 1(1) [OF refl \<open>\<not> length bs < 4\<close> refl refl _ _ refl refl _ refl refl]
      by (auto split: if_splits)
  qed
qed

text \<open>
  C8. Truncation is always noticed, with no assumption on the hash: cut the live file of a sealed
  log at any byte, leaving every other file alone, and \<open>verify_chain\<close> reports corruption or truncation,
  \<open>verify_segment_chain\<close> reports the live segment broken, and the log can no longer be
  opened.
\<close>

theorem truncation_detected:
  assumes "prims_ok P" and "disk_rep P key p d segs live (length live)" and "p \<notin> set (d_locks d)"
    and "read_file d p = Some bs" and "k < length bs"
  shows "\<exists>n st. verify_chain P (put_file d p (take k bs)) p key = Inr \<lparr>vr_entries_verified = n, vr_status = st\<rparr> \<and>
    ((\<exists>off. st = Corrupted off) \<or> st = Truncated (Some (length live))) \<and>
    fst (open_inner P (put_file d p (take k bs)) p key mx signer fault) = Inl (ChainCompromised p st) \<and>
    verify_segment_chain P (put_file d p (take k bs)) p key = Inr (SegmentBroken p st)"
proof -
  let ?d = "put_file d p (take k bs)" and ?start = "seg_start P key segs"
  have st: "stored P key d p ?start live (length live)" and segs: "segs_rep P key p d segs"
      and recd: "\<forall>e \<in> set live. recordable P e"
    using assms(2) by (simp_all add: disk_rep_def)
  then have bs: "bs = chain_wire P key ?start (payloads P live)" using assms(4) by (simp add: stored_def)
  obtain prov where seal: "read_seal P ?d p key = SealValid (length live) ?start prov"
    using st by (auto simp: stored_def read_seal_def)
  define r where "r = stream_loop P key (take k bs) ?start 0 0"
  have cut: "(\<exists>off. sr_break_status r = Some (Corrupted off)) \<or> (sr_break_status r = None \<and> sr_entries_verified r < length live)"
    using stream_truncated [OF assms(1) sized_payloads [OF recd], of k key ?start r 0 0] assms(5) unfolding bs r_def by simp
  define status where "status = (case sr_break_status r of Some s \<Rightarrow> s | None \<Rightarrow> classify_terminal (read_seal P ?d p key) (sr_entries_verified r))"
  have status: "(\<exists>off. status = Corrupted off) \<or> status = Truncated (Some (length live))"
    using cut unfolding status_def seal by (auto simp: classify_fewer)
  have stream: "stream_verify P ?d p key ?start = Inr r" by (simp add: stream_verify_def r_def)
  have verified: "verify_chain P ?d p key = Inr \<lparr>vr_entries_verified = sr_entries_verified r, vr_status = status\<rparr>"
    using verify_chain_valid [OF seal _ r_def] unfolding status_def seal by simp
  have opened: "fst (open_inner P ?d p key mx signer fault) = Inl (ChainCompromised p status)"
    using open_refuses [OF _ _ verified, of mx signer fault] assms(3) status by (auto simp: resumable_def)
  have "segs_rep P key p ?d segs" by (rule segs_update [OF segs]) simp
  moreover have "status = live_status r (read_seal P ?d p key) ?start (length (concat segs))"
    by (simp add: live_status_def seal status_def split: option.splits)
  ultimately have "verify_segment_chain P ?d p key = Inr (SegmentBroken p status)"
    using verify_segments_live [OF assms(1) _ stream, of "status"] status by (auto simp: segment_ok_def)
  with verified status opened show ?thesis by blast
qed

theorem truncation_detected_witness:
  "\<exists>d bs st. disk_rep toy_prims [] toy_path d [] [toy_entry 0] 1 \<and> read_file d toy_path = Some bs \<and> 36 < length bs \<and>
     fst (open_inner toy_prims (put_file d toy_path (take 36 bs)) toy_path [] 80 None None) = Inl (ChainCompromised toy_path st)"
proof -
  obtain d where d: "disk_rep toy_prims [] toy_path d [] [toy_entry 0] 1" "toy_path \<notin> set (d_locks d)"
    by (rule toy_disk_rep)
  then obtain bs where bs: "read_file d toy_path = Some bs" "36 < length bs"
    using toy_prims_ok by (auto simp: disk_rep_def stored_def toy_prims_def link_hash_def)
  have "disk_rep toy_prims [] toy_path d [] [toy_entry 0] (length [toy_entry 0])" using d(1) by simp
  from truncation_detected [OF toy_prims_ok this d(2) bs, of 80 None None] d(1) bs show ?thesis by blast
qed

text \<open>
  The messages that the holder of the chain key ever passes to the keyed hash: the genesis tag, one message per
  entry of the log, all segments included, and those under the codes of seals, here of any count and any start.
\<close>

definition seal_message :: "bytes \<Rightarrow> bool" where
  "seal_message m \<longleftrightarrow>
     (\<exists>n start. m = SEAL_DOMAIN @ to_le_bytes 8 n @ start) \<or>
     (\<exists>n start (tip :: tip_provenance). m = SIGNED_SEAL_DOMAIN @ to_le_bytes 8 n @ start @ tp_terminal_hash tip @ tp_key_id tip @ tp_signature tip)"

definition writer_messages :: "prims \<Rightarrow> chain_key \<Rightarrow> log_entry list \<Rightarrow> bytes set" where
  "writer_messages P key es =
     {GENESIS_DOMAIN} \<union> set (chain_messages P key (genesis_hash P key) (payloads P es)) \<union> {m. seal_message m}"

text \<open>
  C11. Rewriting the live file takes a forgery, or a seal put to another use. Suppose the hashes of the writer's entries, over all
  segments, are distinct. Whatever bytes replace the live file, with the seal kept, if \<open>verify_chain\<close> still says intact then
  either the file is what the writer wrote (followed by at most three stray bytes), or it holds a correct keyed hash of a message
  that the writer never hashed at all, neither for an entry of any segment nor for a seal, or one of a
  message with the form of a seal's. No entry of this or an earlier segment can be altered, moved or replayed otherwise.
\<close>

theorem tampering_needs_forgery:
  assumes "prims_ok P" and "disk_rep P key p d segs live (length live)"
    and "distinct (chain_hashes P key (genesis_hash P key) (payloads P (concat segs @ live)))"
    and "verify_chain P (put_file d p bs) p key = Inr \<lparr>vr_entries_verified = n, vr_status = Intact\<rparr>"
  shows "(\<exists>orig tail. read_file d p = Some orig \<and> bs = orig @ tail \<and> length tail < 4) \<or>
    (\<exists>pre c prev rest. bs = pre @ to_le_bytes 4 (length c) @ c @ blake3_keyed P key (c @ prev) @ rest \<and> length prev = 32 \<and>
      (c @ prev \<notin> writer_messages P key (concat segs @ live) \<or> seal_message (c @ prev)))"
proof -
  let ?d = "put_file d p bs" and ?start = "seg_start P key segs" and ?g = "genesis_hash P key"
  let ?all = "chain_messages P key ?g (payloads P (concat segs @ live))"
  have st: "stored P key d p ?start live (length live)" using assms(2) by (simp add: disk_rep_def)
  obtain prov where seal: "read_seal P ?d p key = SealValid (length live) ?start prov"
    using st by (auto simp: stored_def read_seal_def)
  define r where "r = stream_loop P key bs ?start 0 0"
  have intact: "sr_break_status r = None" "sr_entries_verified r = length live"
  proof -
    have v: "(case sr_break_status r of Some s \<Rightarrow> s | None \<Rightarrow> classify_terminal (SealValid (length live) ?start prov) (sr_entries_verified r)) = Intact"
      using assms(4) verify_chain_valid [OF seal _ r_def] by simp
    show none: "sr_break_status r = None"
    proof (rule ccontr)
      assume "sr_break_status r \<noteq> None"
      then obtain s where "sr_break_status r = Some s" by blast
      with v have "sr_break_status r = Some Intact" by simp
      then show False using stream_loop_break_status [of P key bs ?start 0 0 Intact] by (simp add: r_def)
    qed
    with v show "sr_entries_verified r = length live" by (auto simp: classify_terminal_def split: if_splits)
  qed
  obtain cs tail where cs: "bs = chain_wire P key ?start cs @ tail" "length tail < 4" "length cs = length live"
    using stream_loop_clean [OF r_def [symmetric] intact(1)] intact(2) by auto
  show ?thesis
  proof (cases "set (chain_messages P key ?start cs) \<subseteq> set ?all")
    case True
    have "length ?g = 32" using length_seg_start [OF assms(1), of key "[]"] by simp
    from known_messages_prefix [OF assms(1) this assms(3), of "payloads P (concat segs)" "payloads P live" cs] True
    obtain rest where "payloads P live = cs @ rest" by (auto simp: seg_start_def)
    with cs(3) have "payloads P live = cs" by (metis append_eq_conv_conj payloads_simps(4) take_all_iff order_refl)
    then have "read_file d p = Some (chain_wire P key ?start cs)"
      using st by (simp add: stored_def)
    with cs(1,2) show ?thesis by blast
  next
    case False
    then obtain m where m: "m \<in> set (chain_messages P key ?start cs)" "m \<notin> set ?all" by blast
    obtain pre c post where c: "cs = pre @ c # post" "m = c @ chain_end P key ?start pre"
      using in_chain_messages [OF m(1)] by blast
    let ?prev = "chain_end P key ?start pre"
    have len: "length ?prev = 32" using assms(1) by simp
    then have "c @ ?prev \<noteq> GENESIS_DOMAIN" by (auto simp: GENESIS_DOMAIN_def ascii_def dest!: arg_cong [where f = length])
    then have "c @ ?prev \<notin> writer_messages P key (concat segs @ live) \<or> seal_message (c @ ?prev)"
      using m(2) c(2) by (simp add: writer_messages_def)
    moreover have "bs = chain_wire P key ?start pre @ to_le_bytes 4 (length c) @ c @ blake3_keyed P key (c @ ?prev) @
        (chain_wire P key (link_hash P key ?prev c) post @ tail)"
      by (simp add: cs(1) c(1) chain_wire_append link_hash_def)
    ultimately show ?thesis using len by blast
  qed
qed

lemma toy_genesis: "genesis_hash toy_prims key = ascii ''koinon/tamper-log/genesis/v1'' @ replicate 4 0"
  by (simp add: genesis_hash_def toy_prims_def GENESIS_DOMAIN_def ascii_def)

lemma toy_distinct: "distinct (chain_hashes toy_prims [] (seg_start toy_prims [] []) (payloads toy_prims [toy_entry 0]))"
  by (simp add: link_hash_def toy_genesis) (simp add: toy_prims_def ascii_def)

theorem tampering_needs_forgery_witness:
  "\<exists>d bs. disk_rep toy_prims [] toy_path d [] [toy_entry 0] 1 \<and> read_file d toy_path = Some bs \<and>
     ((\<exists>orig tail. read_file d toy_path = Some orig \<and> bs @ [7] = orig @ tail \<and> length tail < 4) \<or>
      (\<exists>pre c prev rest. bs @ [7] = pre @ to_le_bytes 4 (length c) @ c @ blake3_keyed toy_prims [] (c @ prev) @ rest \<and> length prev = 32 \<and>
        (c @ prev \<notin> writer_messages toy_prims [] [toy_entry 0] \<or> seal_message (c @ prev))))"
proof -
  obtain d where d: "disk_rep toy_prims [] toy_path d [] [toy_entry 0] 1" "toy_path \<notin> set (d_locks d)"
    by (rule toy_disk_rep)
  then have st: "stored toy_prims [] d toy_path (genesis_hash toy_prims []) [toy_entry 0] 1"
      and recd: "\<forall>e \<in> set [toy_entry 0]. recordable toy_prims e"
    by (simp_all add: disk_rep_def)
  then obtain bs where bs: "read_file d toy_path = Some bs" "bs = chain_wire toy_prims [] (genesis_hash toy_prims []) (payloads toy_prims [toy_entry 0])"
    by (auto simp: stored_def)
  have distinct: "distinct (chain_hashes toy_prims [] (genesis_hash toy_prims []) (payloads toy_prims (concat [] @ [toy_entry 0])))"
    using toy_distinct by simp
  obtain prov where seal: "read_seal toy_prims (put_file d toy_path (bs @ [7])) toy_path [] = SealValid 1 (genesis_hash toy_prims []) prov"
    using st by (auto simp: stored_def read_seal_def)
  have "verify_chain toy_prims (put_file d toy_path (bs @ [7])) toy_path [] = Inr \<lparr>vr_entries_verified = 1, vr_status = Intact\<rparr>"
    using verify_chain_valid [OF seal, of "bs @ [7]" "stream_loop toy_prims [] (bs @ [7]) (genesis_hash toy_prims []) 0 0"]
      stream_chain [OF toy_prims_ok sized_payloads [OF recd], of "[]" "genesis_hash toy_prims []" "[7]" 0 0]
    unfolding bs(2) by (simp add: classify_terminal_def)
  with d(1) bs(1) tampering_needs_forgery [OF toy_prims_ok _ distinct, of toy_path d "bs @ [7]" 1] show ?thesis by auto
qed

subsection \<open>Interrupted commits\<close>

text \<open>
  C7. A seal commit that fails at any of its stages loses nothing: the append reports the
  error, but the entry is in the file, the file still verifies as one that may be resumed,
  and the next open recovers it, re-seals, and leaves a log that verifies with the entry counted.
\<close>

theorem interrupted_seal_recovers:
  fixes P :: prims and live :: "log_entry list" and now :: int and kind :: log_entry_kind
  defines "e \<equiv> \<lparr>le_sequence = length live, le_timestamp_ms = now, le_kind = kind\<rparr>"
  assumes "prims_ok P" and "handle_rep P lg d segs live" and "recordable P e" and "length live + 1 < 2 ^ 64"
    and "io_space io = None" and "io_seal io = Some stage" and "signer_ok signer"
  shows "\<exists>err lg1 d1 v lg2 d2. append_entry P lg d now kind io = (Inl err, lg1, d1) \<and>
    verify_chain P d1 (tl_path lg) (tl_chain_key lg) = Inr v \<and> resumable (vr_status v) \<and>
    open_inner P (release_lock d1 (tl_path lg)) (tl_path lg) (tl_chain_key lg) mx signer None = (Inr lg2, d2) \<and>
    handle_rep P lg2 d2 segs (live @ [e]) \<and>
    verify_segment_chain P d2 (tl_path lg) (tl_chain_key lg) =
      Inr (SegmentsIntact (length (concat segs) + length live + 1) (length segs + 1))"
proof -
  let ?p = "tl_path lg" and ?key = "tl_chain_key lg"
  obtain lg1 d1 res where app: "append_entry P lg d now kind io =
       (case res of
          Some er \<Rightarrow> (Inl er, lg1, d1)
        | None \<Rightarrow> if tl_bytes_written lg1 > tl_max_file_bytes lg1 then
                   (case rotate_log P lg1 d1 (io_rotate io) of
                      (Some er, lg4, d4) \<Rightarrow> (Inl er, lg4, d4) | (None, lg4, d4) \<Rightarrow> (Inr (length live), lg4, d4))
                 else (Inr (length live), lg1, d1))"
      and res: "res = None \<longleftrightarrow> io_seal io = None" and ex: "\<exists>k. disk_rep P ?key ?p d1 segs (live @ [e]) k"
    unfolding e_def by (rule append_core [OF assms(2,3,6) assms(4) [unfolded e_def] assms(5)])
  from ex obtain k where rep1: "disk_rep P ?key ?p d1 segs (live @ [e]) k" by blast
  from res assms(7) have "res \<noteq> None" by simp
  with app obtain err where "append_entry P lg d now kind io = (Inl err, lg1, d1)" by auto
  moreover have "verify_chain P d1 ?p ?key = Inr \<lparr>vr_entries_verified = length (live @ [e]),
      vr_status = (if k = length (live @ [e]) then Intact else Unsealed (length (live @ [e])) k)\<rparr>"
    using verify_stored [OF assms(2), of ?key d1 ?p "seg_start P ?key segs" "live @ [e]" k] rep1 by (simp add: disk_rep_def)
  moreover have rep1': "disk_rep P ?key ?p (release_lock d1 ?p) segs (live @ [e]) k"
    using rep1 unfolding disk_rep_def segs_rep_def segs_stored_def stored_def read_seal_def by simp
  obtain lg2 d2 where "open_inner P (release_lock d1 ?p) ?p ?key mx signer None = (Inr lg2, d2)"
      and rep2: "handle_rep P lg2 d2 segs (live @ [e])" "tl_path lg2 = ?p" "tl_chain_key lg2 = ?key"
    by (rule open_rep [OF assms(2) rep1' _ assms(8)]) auto
  moreover have "verify_segment_chain P d2 ?p ?key =
      Inr (SegmentsIntact (length (concat segs) + length live + 1) (length segs + 1))"
    using rep_verify_segments [OF assms(2), of ?key ?p d2 segs "live @ [e]" "length live + 1"] rep2
    by (simp add: handle_rep_def)
  ultimately show ?thesis using rep2(1) by (auto simp: resumable_def)
qed

theorem interrupted_seal_recovers_witness:
  "\<exists>lg d err lg1 d1 lg2 d2. handle_rep toy_prims lg d [] [toy_entry 0] \<and>
     append_entry toy_prims lg d 0 toy_kind \<lparr>io_space = None, io_seal = Some (SealWrite 9), io_rotate = None\<rparr> = (Inl err, lg1, d1) \<and>
     open_inner toy_prims (release_lock d1 (tl_path lg)) (tl_path lg) (tl_chain_key lg) 80 None None = (Inr lg2, d2) \<and>
     handle_rep toy_prims lg2 d2 [] [toy_entry 0, toy_entry 1]"
proof -
  obtain lg d segs live where h0: "handle_rep toy_prims lg d segs live"
      "(segs, live) = (if 37 > (80 :: nat) then ([[toy_entry 0]], []) else ([], [toy_entry 0]))"
    by (rule toy_handle [of 80])
  then have h: "handle_rep toy_prims lg d [] [toy_entry 0]" by simp
  show ?thesis
    using interrupted_seal_recovers [OF toy_prims_ok h, of 0 toy_kind "\<lparr>io_space = None, io_seal = Some (SealWrite 9), io_rotate = None\<rparr>"
        "SealWrite 9" None 80] h toy_recordable [of 1]
    by (simp) blast
qed

text \<open>
  A rotation interrupted between the rename of the log and the rename of its seal is not
  recoverable: the next open succeeds, starting an empty segment at the genesis root and overwriting
  the only seal of the closed segment, and from then on the verifier of the segment set reports
  the closed segment as truncated, with no attacker involved.
\<close>

theorem interrupted_rotation_breaks_chain:
  assumes "prims_ok P" and "handle_rep P lg d segs live" and "live \<noteq> []" and "length segs + 1 < 2 ^ 32"
    and "read_file d (seal_path (rotation_path (tl_path lg) (length segs + 1))) = None" and "signer_ok signer"
  shows "\<exists>err lg1 d1 lg2 d2. rotate_log P lg d (Some RotateRenameSeal) = (Some err, lg1, d1) \<and>
    open_inner P (release_lock d1 (tl_path lg)) (tl_path lg) (tl_chain_key lg) mx signer None = (Inr lg2, d2) \<and>
    tl_prev_hash lg2 = genesis_hash P (tl_chain_key lg) \<and>
    verify_segment_chain P d2 (tl_path lg) (tl_chain_key lg) =
      Inr (SegmentBroken (rotation_path (tl_path lg) (length segs + 1)) (Truncated None))"
proof -
  let ?key = "tl_chain_key lg" and ?p = "tl_path lg" and ?n = "length segs + 1"
  let ?start = "seg_start P ?key segs" and ?q = "rotation_path ?p ?n"
  have h: "tl_fd lg = ?p" "tl_pending lg = []" and drep: "disk_rep P ?key ?p d segs live (length live)"
    using assms(2) by (simp_all add: handle_rep_def)
  have st: "stored P ?key d ?p ?start live (length live)" and srep: "segs_rep P ?key ?p d segs"
      and recd: "\<forall>e \<in> set live. recordable P e"
    using drep by (simp_all add: disk_rep_def)
  then have content: "read_file d ?p = Some (chain_wire P ?key ?start (payloads P live))" by (simp add: stored_def)
  define d0 where "d0 = append_file d ?p []"
  have d0: "read_file d0 = read_file d"
    using read_append_file [OF content, of "[]"] content by (simp add: d0_def fun_upd_idem)
  have flush: "buf_flush None lg d = (True, None, lg, d0)"
    using h by (simp add: buf_flush_def dev_write_def d0_def)
  have srep0: "segs_rep P ?key ?p d0 segs"
    using srep unfolding segs_rep_def segs_stored_def stored_def read_seal_def d0 .
  have number: "next_rotation_number d0 ?p = Inr ?n"
    using numbers_next [OF numbered_numbers [OF segs_numbered [OF srep0]]] assms(4) by simp
  obtain d1 where d1: "rename_file d0 ?p ?q = Some d1" using content d0 by (simp add: rename_file_def)
  note r1 = read_rename_file [OF d1, unfolded d0]
  have rot: "rotate_log P lg d (Some RotateRenameSeal) = (Some (Io (seal_path ?q)), lg\<lparr>tl_fd := ?q\<rparr>, d1)"
    by (simp add: rotate_log_def flush number [simplified] d1 [simplified] Let_def h(1))
  have missing: "read_file (release_lock d1 ?p) ?p = None" "?p \<notin> set (d_locks (release_lock d1 ?p))"
    using r1 by simp_all
  obtain lg2 d3 where opened: "open_inner P (release_lock d1 ?p) ?p ?key mx signer None = (Inr lg2, d3)"
      and lg2: "tl_prev_hash lg2 = genesis_hash P ?key"
      and other: "\<forall>x. x \<notin> {?p, seal_path ?p, tmp_path (seal_path ?p), lock_path ?p} \<longrightarrow> read_file d3 x = read_file d1 x"
    by (rule open_missing [OF assms(1) missing assms(6), of ?key mx]) auto
  have others: "read_file d3 x = read_file d x"
    if "x \<noteq> ?p" "x \<noteq> seal_path ?p" "x \<noteq> tmp_path (seal_path ?p)" "x \<noteq> lock_path ?p" "x \<noteq> ?q" for x
    using that other [rule_format, of x] r1 by simp
  have at_q: "read_file d3 ?q = Some (chain_wire P ?key ?start (payloads P live))"
    using other [rule_format, of ?q] r1 content by simp
  have no_seal: "read_seal P d3 ?q ?key = SealAbsent"
    using others [of "seal_path ?q"] assms(5) by (simp add: read_seal_def authenticate_seal_def)
  have stored3: "segs_stored P ?key ?p d3 segs"
  proof -
    have "stored P ?key d3 (rotation_path ?p (Suc i)) s es c = stored P ?key d (rotation_path ?p (Suc i)) s es c"
      if "i < length segs" for i s es c
    proof -
      have "read_file d3 (rotation_path ?p (Suc i)) = read_file d (rotation_path ?p (Suc i))"
          "read_file d3 (seal_path (rotation_path ?p (Suc i))) = read_file d (seal_path (rotation_path ?p (Suc i)))"
        by (rule others; use that in simp)+
      then show ?thesis by (simp add: stored_def read_seal_cong [of d3 _ d])
    qed
    with srep show ?thesis by (simp add: segs_rep_def segs_stored_def)
  qed
  have numbered3: "numbered d3 ?p ?n"
    by (rule numbered_add [OF segs_numbered [OF srep] assms(4)]) (use at_q others in simp_all)
  have upt: "[1..<Suc ?n] = [1..<Suc (length segs)] @ [?n]" by simp
  have stream: "stream_verify P d3 ?q ?key ?start = Inr \<lparr>sr_entries_verified = length live,
      sr_terminal_hash = chain_end P ?key ?start (payloads P live), sr_break_status = None\<rparr>"
    using stream_chain [OF assms(1) sized_payloads [OF recd], of ?key ?start "[]" 0 0] at_q by (simp add: stream_verify_def)
  have "segments_loop P d3 ?p ?key [1..<Suc ?n] (genesis_hash P ?key) 0 0 = Inr (Inl (SegmentBroken ?q (Truncated None)))"
    unfolding upt segments_loop_append using segs_loop [OF assms(1) stored3, of 0 0 0] stream no_seal assms(3)
    by (simp add: classify_terminal_def segment_ok_def del: upt_Suc)
  then have "verify_segment_chain P d3 ?p ?key = Inr (SegmentBroken ?q (Truncated None))"
    by (simp add: verify_numbers [OF numbered_numbers [OF numbered3]] del: upt_Suc)
  with rot opened lg2 show ?thesis by blast
qed

lemma toy_handle_files:
  obtains lg d where "handle_rep toy_prims lg d [] [toy_entry 0]" and "tl_path lg = toy_path" and "tl_chain_key lg = []"
    and "\<forall>q. q \<notin> {toy_path, seal_path toy_path, tmp_path (seal_path toy_path), lock_path toy_path} \<longrightarrow> read_file d q = None"
proof -
  have free: "toy_path \<notin> set (d_locks toy_disk)" by simp
  obtain lg0 d0 where o: "open_inner toy_prims toy_disk toy_path [] 80 None None = (Inr lg0, d0)"
      "\<forall>q. q \<notin> {toy_path, seal_path toy_path, tmp_path (seal_path toy_path), lock_path toy_path} \<longrightarrow> read_file d0 q = read_file toy_disk q"
    by (rule open_missing [OF toy_prims_ok toy_disk_simps(1) free toy_disk_simps(5), of "[]" 80])
  obtain lg0' d0' where o': "open_inner toy_prims toy_disk toy_path [] 80 None None = (Inr lg0', d0')"
      "handle_rep toy_prims lg0' d0' [] []" "tl_path lg0' = toy_path" "tl_chain_key lg0' = []"
    by (rule open_fresh [of toy_prims toy_path toy_disk None "[]" 80]) (simp_all add: toy_prims_ok)
  have eq: "lg0' = lg0" "d0' = d0" using o(1) o'(1) by simp_all
  obtain lg d where "handle_rep toy_prims lg d [] ([] @ [toy_entry 0])" "tl_path lg = tl_path lg0" "tl_chain_key lg = tl_chain_key lg0"
      "\<forall>q. q \<notin> {tl_path lg0, seal_path (tl_path lg0), tmp_path (seal_path (tl_path lg0))} \<longrightarrow> read_file d q = read_file d0 q"
    by (rule append_core [OF toy_prims_ok o'(2) [unfolded eq], of io_ok 0 toy_kind]) (simp_all add: toy_recordable io_ok_def)
  with o(2) o'(3,4) eq show ?thesis by (intro that [of lg d]) simp_all
qed

lemma toy_rotated:
  obtains d where "disk_rep toy_prims [] toy_path d [[toy_entry 0]] [] 0" and "toy_path \<notin> set (d_locks d)"
    and "\<exists>k start. read_seal toy_prims d toy_path [] = SealValid k start None"
proof -
  obtain lg d segs live where h: "handle_rep toy_prims lg d segs live" "tl_path lg = toy_path" "tl_chain_key lg = []"
      "(segs, live) = (if 37 > (10 :: nat) then ([[toy_entry 0]], []) else ([], [toy_entry 0]))"
      "\<exists>k start. read_seal toy_prims d toy_path [] = SealValid k start None"
    by (rule toy_handle [of 10])
  then have sl: "segs = [[toy_entry 0]]" "live = []" by simp_all
  note r = drop_rep [OF h(1), unfolded h(2,3) sl]
  have "read_seal toy_prims (drop_log lg d) toy_path [] = read_seal toy_prims d toy_path []"
    by (simp add: read_seal_def r(1))
  with that [of "drop_log lg d"] r(2,3) h(5) show ?thesis by simp
qed

subsection \<open>Deleted segments and erased tails\<close>

lemma segs_stored_prefix:
  assumes srep: "segs_rep P key p d (segs @ rest)"
    and same: "\<And>i. i < length segs \<Longrightarrow> read_file d' (rotation_path p (Suc i)) = read_file d (rotation_path p (Suc i)) \<and>
      read_file d' (seal_path (rotation_path p (Suc i))) = read_file d (seal_path (rotation_path p (Suc i)))"
  shows "segs_stored P key p d' segs"
proof -
  have "stored P key d' (rotation_path p (Suc i)) (seg_start P key (take i segs)) (segs ! i) (length (segs ! i))"
    if i: "i < length segs" for i
  proof -
    have "stored P key d (rotation_path p (Suc i)) (seg_start P key (take i (segs @ rest))) ((segs @ rest) ! i) (length ((segs @ rest) ! i))"
      using srep i by (auto simp: segs_rep_def segs_stored_def simp del: take_append)
    with i same [OF i] show ?thesis by (simp add: stored_def nth_append read_seal_cong [of d' _ d])
  qed
  with srep show ?thesis by (auto simp: segs_rep_def segs_stored_def)
qed

lemma numbers_after_removal:
  assumes srep: "segs_rep P key p d (segs @ [s])" and q: "q = rotation_path p (length segs + 1)"
    and not: "\<not> numbers_are (remove_file (remove_file d q) (seal_path q)) p (length segs)"
  shows "numbers_are (remove_file (remove_file d q) (seal_path q)) p (length segs + 1)"
proof -
  let ?d = "remove_file (remove_file d q) (seal_path q)"
  let ?has = "\<lambda>n. \<exists>name. read_file ?d (fst p, name) \<noteq> None \<and> parse_rotation_number name (log_stem p) = Some n"
  have bound: "1 \<le> n \<and> n \<le> length segs + 1" if "?has n" for n
    using that srep by (auto simp: segs_rep_def split: if_splits)
  have present: "?has n" if n: "1 \<le> n" "n \<le> length segs" for n
  proof -
    have "numbered d p (length segs + 1)" using segs_numbered [OF srep] by simp
    then have "read_file d (rotation_path p n) \<noteq> None" "n < 2 ^ 32" using n by (auto simp: numbered_def)
    moreover have "rotation_path p n \<noteq> q" "rotation_path p n \<noteq> seal_path q" using n q by auto
    moreover have "rotation_path p n = (fst p, snd (rotation_path p n))" by (simp add: rotation_path_def)
    ultimately show ?thesis using parse_rotation_path [of n p] by (metis fun_upd_other read_remove_file)
  qed
  have "fst p \<noteq> []" using srep by (simp add: segs_rep_def)
  with not have "\<not> (\<forall>n. ?has n \<longleftrightarrow> 1 \<le> n \<and> n \<le> length segs)" by (simp add: numbers_are_def)
  then have "?has (length segs + 1)"
    using bound present by (metis Suc_eq_plus1 le_SucE)
  with bound present have "?has n \<longleftrightarrow> 1 \<le> n \<and> n \<le> length segs + 1" for n
    by (metis Suc_eq_plus1 le_SucE)
  with \<open>fst p \<noteq> []\<close> show ?thesis unfolding numbers_are_def by blast
qed

text \<open>
  C25. Deleting the newest closed segment, with its seal, never goes unnoticed as long as the
  live seal stays: the verifier of the segment set does not report the set intact. The hypotheses are
  that the hash chain of the closed segments does not run into a cycle, and that the hash separates the
  two messages that the first live entry is hashed in with and without the deleted segment.
\<close>

theorem deleted_segment_detected:
  assumes "prims_ok P" and "disk_rep P key p d (segs @ [s]) live k"
    and "distinct (chain_hashes P key (seg_start P key segs) (payloads P s))"
    and "live \<noteq> [] \<Longrightarrow> inj_on (blake3_keyed P key)
      {the (cbor_enc P (hd live)) @ seg_start P key segs, the (cbor_enc P (hd live)) @ seg_start P key (segs @ [s])}"
    and "q = rotation_path p (length segs + 1)"
  shows "verify_segment_chain P (remove_file (remove_file d q) (seal_path q)) p key \<noteq> Inr (SegmentsIntact a b)"
proof
  let ?d = "remove_file (remove_file d q) (seal_path q)" and ?wrong = "seg_start P key segs" and ?right = "seg_start P key (segs @ [s])"
  assume intact: "verify_segment_chain P ?d p key = Inr (SegmentsIntact a b)"
  have srep: "segs_rep P key p d (segs @ [s])" and st: "stored P key d p ?right live k" and recd: "\<forall>e \<in> set live. recordable P e"
    using assms(2) by (simp_all add: disk_rep_def)
  have "s \<noteq> []" using srep by (simp add: segs_rep_def segs_stored_def)
  have ne: "?wrong \<noteq> ?right"
  proof -
    have "chain_hashes P key ?wrong (payloads P s) ! 0 \<noteq> chain_hashes P key ?wrong (payloads P s) ! length s"
      using assms(3) \<open>s \<noteq> []\<close> by (simp add: nth_eq_iff_index_eq)
    then show ?thesis using nth_chain_hashes [of _ "payloads P s"] by (simp add: seg_start_snoc)
  qed
  have content: "read_file ?d p = Some (chain_wire P key ?right (payloads P live))"
    using st by (simp add: stored_def assms(5))
  obtain prov where seal: "read_seal P ?d p key = SealValid k ?right prov"
    using st by (auto simp: stored_def read_seal_def assms(5))
  define r where "r = stream_loop P key (chain_wire P key ?right (payloads P live)) ?wrong 0 0"
  have stream: "stream_verify P ?d p key ?wrong = Inr r" by (simp add: stream_verify_def content r_def del: read_remove_file)
  have broken: "\<not> segment_ok (live_status r (read_seal P ?d p key) ?wrong t) True" for t
  proof (cases live)
    case Nil
    then have "sr_break_status r = None" by (simp add: r_def)
    with ne show ?thesis by (simp add: live_status_def seal segment_ok_def del: read_remove_file)
  next
    case (Cons e es)
    let ?c = "the (cbor_enc P e)"
    have "link_hash P key ?wrong ?c \<noteq> link_hash P key ?right ?c"
      using assms(4) ne Cons by (simp add: link_hash_def)
    moreover have "length ?c \<le> MAX_ENTRY_BYTES" using recd Cons by (auto simp: recordable_def)
    ultimately have "\<exists>x y z. sr_break_status r = Some (Broken x y z)"
      using assms(1) by (simp add: r_def Cons stream_loop_entry)
    then show ?thesis by (auto simp: live_status_def segment_ok_def)
  qed
  have pre: "segs_stored P key p ?d segs"
    by (rule segs_stored_prefix [OF srep]) (simp add: assms(5))
  show False
  proof (cases "numbers_are ?d p (length segs)")
    case True
    have "fst p \<noteq> []" "length segs < 2 ^ 32" using srep by (simp_all add: segs_rep_def)
    moreover have "\<forall>name n. read_file ?d (fst p, name) \<noteq> None \<longrightarrow> parse_rotation_number name (log_stem p) = Some n \<longrightarrow>
        1 \<le> n \<and> n \<le> length segs"
      using True unfolding numbers_are_def by blast
    ultimately have "segs_rep P key p ?d segs" unfolding segs_rep_def using pre by blast
    from verify_segments_live [OF assms(1) this stream refl] broken intact show False by simp
  next
    case False
    then have "numbers_are ?d p (length segs + 1)"
      by (rule numbers_after_removal [OF srep assms(5)])
    note verified = verify_numbers [OF this, of P key]
    have upt: "[1..<Suc (length segs + 1)] = [1..<Suc (length segs)] @ [length segs + 1]" by simp
    have "segments_loop P ?d p key [1..<Suc (length segs + 1)] (genesis_hash P key) 0 0 = Inl (Io q)"
      unfolding upt segments_loop_append using segs_loop [OF assms(1) pre, of 0 0 0]
      by (simp add: stream_verify_def assms(5) del: upt_Suc)
    with verified intact show False by simp
  qed
qed

theorem deleted_segment_detected_witness:
  "\<exists>d. disk_rep toy_prims [] toy_path d [[toy_entry 0]] [] 0 \<and>
     verify_segment_chain toy_prims d toy_path [] = Inr (SegmentsIntact 1 2) \<and>
     verify_segment_chain toy_prims (remove_file (remove_file d (rotation_path toy_path 1)) (seal_path (rotation_path toy_path 1)))
       toy_path [] \<noteq> Inr (SegmentsIntact 0 1)"
proof -
  obtain d where d: "disk_rep toy_prims [] toy_path d [[toy_entry 0]] [] 0"
    by (rule toy_rotated)
  have distinct: "distinct (chain_hashes toy_prims [] (seg_start toy_prims [] []) (payloads toy_prims [toy_entry 0]))"
    by (rule toy_distinct)
  have "disk_rep toy_prims [] toy_path d ([] @ [[toy_entry 0]]) [] 0" using d by simp
  from deleted_segment_detected [OF toy_prims_ok this distinct _ refl, of 0 1]
  have "verify_segment_chain toy_prims (remove_file (remove_file d (rotation_path toy_path 1)) (seal_path (rotation_path toy_path 1)))
      toy_path [] \<noteq> Inr (SegmentsIntact 0 1)" by simp
  moreover have "verify_segment_chain toy_prims d toy_path [] = Inr (SegmentsIntact 1 2)"
    using rep_verify_segments [OF toy_prims_ok d] by simp
  ultimately show ?thesis using d by blast
qed

definition erase_tail :: "disk \<Rightarrow> path \<Rightarrow> nat \<Rightarrow> disk" where
  "erase_tail d p m =
     put_file (remove_file (d\<lparr>d_files := filter (\<lambda>(q, _). \<not> (fst q = fst p \<and>
         (case parse_rotation_number (snd q) (log_stem p) of Some n \<Rightarrow> n > m | None \<Rightarrow> False))) (d_files d)\<rparr>)
       (seal_path p)) p []"

lemma map_of_filter_keys: "map_of (filter (\<lambda>(q, _). K q) xs) q = (if K q then map_of xs q else None)"
  by (induction xs) auto

lemma read_erase_tail:
  "read_file (erase_tail d p m) q =
     (if q = p then Some []
      else if q = seal_path p then None
      else if fst q = fst p \<and> (case parse_rotation_number (snd q) (log_stem p) of Some n \<Rightarrow> n > m | None \<Rightarrow> False) then None
      else read_file d q)"
  by (simp add: erase_tail_def) (simp add: read_file_def map_of_filter_keys)

text \<open>
  Erasing the tail of a log goes unnoticed when the live seal is erased with it. Without the
  chain key, delete any number of the newest closed segments, empty the live file and delete the live
  seal: \<open>verify_segment_chain\<close> reports the remaining segments as an intact log, and \<open>verify_chain\<close>
  reports the live file as legitimately empty.
\<close>

theorem erased_tail_unnoticed:
  assumes "prims_ok P" and "disk_rep P key p d (segs @ rest) live k"
  shows "verify_segment_chain P (erase_tail d p (length segs)) p key =
      Inr (SegmentsIntact (length (concat segs)) (length segs + 1)) \<and>
    verify_chain P (erase_tail d p (length segs)) p key = Inr \<lparr>vr_entries_verified = 0, vr_status = Empty\<rparr>"
proof -
  let ?d = "erase_tail d p (length segs)"
  have srep: "segs_rep P key p d (segs @ rest)" using assms(2) by (simp add: disk_rep_def)
  then have lt: "length segs < 2 ^ 32" "fst p \<noteq> []" by (simp_all add: segs_rep_def)
  have keep: "read_file ?d (rotation_path p (Suc i)) = read_file d (rotation_path p (Suc i)) \<and>
      read_file ?d (seal_path (rotation_path p (Suc i))) = read_file d (seal_path (rotation_path p (Suc i)))"
    if "i < length segs" for i
  proof -
    have "parse_rotation_number (snd (rotation_path p (Suc i))) (log_stem p) = Some (Suc i)"
      using that lt by (intro parse_rotation_path) simp
    with that show ?thesis by (simp add: read_erase_tail)
  qed
  have "1 \<le> n \<and> n \<le> length segs"
    if "read_file ?d (fst p, name) \<noteq> None" "parse_rotation_number name (log_stem p) = Some n" for name n
    using that sidecar_not_numbered [OF that(2)] srep by (auto simp: read_erase_tail segs_rep_def split: if_splits)
  with lt segs_stored_prefix [OF srep keep] have segs: "segs_rep P key p ?d segs"
    unfolding segs_rep_def by blast
  have absent: "read_seal P ?d p key = SealAbsent" by (simp add: read_seal_def authenticate_seal_def read_erase_tail)
  have stream: "stream_verify P ?d p key start = Inr \<lparr>sr_entries_verified = 0, sr_terminal_hash = start, sr_break_status = None\<rparr>" for start
    by (simp add: stream_verify_def read_erase_tail)
  from verify_segments_live [OF assms(1) segs stream refl] show ?thesis
    by (simp add: absent live_status_def classify_terminal_def segment_ok_def verify_chain_def stream)
qed

subsection \<open>Stray bytes and a forged entry\<close>

lemma stray_corrupts:
  assumes "1 \<le> length junk" "length junk \<le> 3" and "1 \<le> length c" "length c \<le> 255" and "length h = 32"
  shows "\<exists>off'. sr_break_status (stream_loop P key (junk @ to_le_bytes 4 (length c) @ c @ h) prev n off) = Some (Corrupted off')"
proof -
  let ?bs = "junk @ to_le_bytes 4 (length c) @ c @ h"
  let ?len = "from_le_bytes (take 4 ?bs)"
  have le: "to_le_bytes 4 (length c) = [word_of_nat (length c), 0, 0, 0]"
  proof -
    have four: "(4 :: nat) = Suc (Suc (Suc (Suc 0)))" by simp
    have "length c div 256 = 0" using assms(4) by simp
    then show ?thesis unfolding four to_le_bytes.simps by simp
  qed
  have c: "unat (word_of_nat (length c) :: u8) = length c"
    using assms(4) by (simp add: unsigned_of_nat take_bit_nat_eq_self)
  have "length junk = Suc 0 \<or> length junk = Suc (Suc 0) \<or> length junk = Suc (Suc (Suc 0))" using assms(1,2) by linarith
  then consider a where "junk = [a]" | a b where "junk = [a, b]" | a b x where "junk = [a, b, x]"
    unfolding length_Suc_conv length_0_conv by blast
  then have "256 * length c \<le> ?len"
    by cases (simp_all add: le c)
  moreover have "length (drop 4 ?bs) < 256 * length c" using assms by simp
  ultimately have "length (drop 4 ?bs) < ?len" by linarith
  moreover have "\<not> length ?bs < 4" by simp
  ultimately show ?thesis by (subst stream_loop.simps) (simp only: Let_def if_False if_True stream_result.simps split: if_split, simp)
qed

text \<open>
  One to three stray bytes at the end of the live file, which a write cut short by a crash leaves
  behind, poison the log: it still verifies as intact and opens, the next append reports
  success, and what it leaves is corrupt, so that the log can never be opened again. The entry
  appended is one of at most 255 bytes that does not cross the rotation threshold.
\<close>

theorem stray_bytes_poison_log:
  assumes "prims_ok P" and "disk_rep P key p d segs live (length live)" and "live \<noteq> []" and "p \<notin> set (d_locks d)"
    and "read_file d p = Some bs" and "1 \<le> length junk" and "length junk \<le> 3" and "signer_ok signer"
    and "cbor_enc P \<lparr>le_sequence = length live, le_timestamp_ms = now, le_kind = kind\<rparr> = Some c"
    and "1 \<le> length c" and "length c \<le> 255" and "length bs + 36 + length c \<le> mx" and "length live + 1 < 2 ^ 64"
  shows "verify_chain P (put_file d p (bs @ junk)) p key = Inr \<lparr>vr_entries_verified = length live, vr_status = Intact\<rparr> \<and>
    (\<exists>lg d1 lg2 d2 n off.
      open_inner P (put_file d p (bs @ junk)) p key mx signer None = (Inr lg, d1) \<and>
      append_entry P lg d1 now kind io_ok = (Inr (length live), lg2, d2) \<and>
      verify_chain P d2 p key = Inr \<lparr>vr_entries_verified = n, vr_status = Corrupted off\<rparr> \<and>
      fst (open_inner P (release_lock d2 p) p key mx signer None) = Inl (ChainCompromised p (Corrupted off)))"
proof -
  let ?d = "put_file d p (bs @ junk)" and ?start = "seg_start P key segs" and ?cs = "payloads P live"
  have st: "stored P key d p ?start live (length live)" and recd: "\<forall>e \<in> set live. recordable P e"
    using assms(2) by (simp_all add: disk_rep_def)
  have bs: "bs = chain_wire P key ?start ?cs" using st assms(5) by (simp add: stored_def)
  have content: "read_file ?d p = Some (chain_wire P key ?start ?cs @ junk)" by (simp add: bs)
  obtain prov where seal: "read_seal P ?d p key = SealValid (length live) ?start prov"
    using st by (auto simp: stored_def read_seal_def)
  have short: "length junk < 4" using assms(7) by simp
  have before: "verify_chain P ?d p key = Inr \<lparr>vr_entries_verified = length live, vr_status = Intact\<rparr>"
    using verify_chain_payloads [OF assms(1) content sized_payloads [OF recd] short seal] assms(3) by simp
  have k: "length live \<le> length ?cs" "length ?cs < 2 ^ 64" "p \<notin> set (d_locks ?d)" using assms(4,13) by simp_all
  obtain lg d1 where opened: "open_inner P ?d p key mx signer None = (Inr lg, d1)"
    and lg: "lg = \<lparr>tl_fd = p, tl_pending = [], tl_path = p, tl_prev_hash = chain_end P key ?start ?cs,
      tl_segment_start_hash = ?start, tl_sequence = length ?cs, tl_bytes_written = length (chain_wire P key ?start ?cs),
      tl_max_file_bytes = mx, tl_chain_key = key, tl_signer = signer\<rparr>"
    and d1: "read_file d1 p = read_file ?d p"
    by (rule open_chain [OF assms(1) content sized_payloads [OF recd] short seal k(1,2) length_seg_start [OF assms(1)] k(3) assms(8), of mx])
  define hash where "hash = link_hash P key (tl_prev_hash lg) c"
  define wire where "wire = to_le_bytes 4 (length c) @ c @ hash"
  have len: "length hash = 32" using assms(1) by (simp add: hash_def)
  have "length c \<le> MAX_ENTRY_BYTES" using assms(11) by (simp add: MAX_ENTRY_BYTES_def)
  then have enc: "encode_entry P \<lparr>le_sequence = tl_sequence lg, le_timestamp_ms = now, le_kind = kind\<rparr> (tl_prev_hash lg) (tl_chain_key lg) = Inr (wire, hash)"
    using assms(9) by (simp add: lg encode_entry_def hash_def wire_def Let_def)
  have at_p: "read_file d1 (tl_path lg) = Some (chain_wire P key ?start ?cs @ junk)" using d1 content by (simp add: lg)
  obtain lg2 d2 res where app: "append_entry P lg d1 now kind io_ok =
       (case res of
          Some er \<Rightarrow> (Inl er, lg2, d2)
        | None \<Rightarrow> if tl_bytes_written lg2 > tl_max_file_bytes lg2 then
                   (case rotate_log P lg2 d2 (io_rotate io_ok) of
                      (Some er, lg4, d4) \<Rightarrow> (Inl er, lg4, d4) | (None, lg4, d4) \<Rightarrow> (Inr (tl_sequence lg), lg4, d4))
                 else (Inr (tl_sequence lg), lg2, d2))" "res = None"
      and lg2: "lg2 = lg\<lparr>tl_prev_hash := hash, tl_sequence := tl_sequence lg + 1, tl_bytes_written := tl_bytes_written lg + length wire\<rparr>"
      and content2: "read_file d2 p = Some ((chain_wire P key ?start ?cs @ junk) @ wire)"
      and seal2: "\<exists>prov2. read_seal P d2 p key = SealValid (length live + 1) ?start prov2"
    by (rule append_raw [OF assms(1) _ _ at_p enc, of io_ok]) (use assms(1,8,13) in \<open>auto simp: lg io_ok_def\<close>)
  have appended: "append_entry P lg d1 now kind io_ok = (Inr (length live), lg2, d2)"
    using app assms(12) len by (simp add: lg2 lg wire_def bs)
  obtain prov2 where seal2': "read_seal P d2 p key = SealValid (length live + 1) ?start prov2" using seal2 by blast
  define r where "r = stream_loop P key ((chain_wire P key ?start ?cs @ junk) @ wire) ?start 0 0"
  obtain off where off: "sr_break_status r = Some (Corrupted off)"
    using stream_chain [OF assms(1) sized_payloads [OF recd], of key ?start "junk @ wire" 0 0]
      stray_corrupts [OF assms(6,7,10,11) len, of P key "chain_end P key ?start ?cs" "length live" "length (chain_wire P key ?start ?cs)"]
    by (auto simp: r_def wire_def)
  have verified: "verify_chain P d2 p key = Inr \<lparr>vr_entries_verified = sr_entries_verified r, vr_status = Corrupted off\<rparr>"
    using verify_chain_valid [OF seal2' content2 r_def] off by simp
  have "verify_chain P (release_lock d2 p) p key = verify_chain P d2 p key"
    by (simp add: verify_chain_def stream_verify_def read_seal_def)
  with verified have "fst (open_inner P (release_lock d2 p) p key mx signer None) = Inl (ChainCompromised p (Corrupted off))"
    using open_refuses [of p "release_lock d2 p" P key _ mx signer None] content2 by (simp add: resumable_def)
  with before opened appended verified show ?thesis by blast
qed

definition forge_entry :: "bytes \<Rightarrow> bytes" where
  "forge_entry seal_file =
     to_le_bytes 4 (length SEAL_DOMAIN + 8) @ SEAL_DOMAIN @ take 8 seal_file @ drop 40 seal_file"

lemma unsigned_seal_valid:
  assumes "authenticate_seal P (Some sb) key = SealValid n start None"
  shows "length sb = 72" "take 8 sb = to_le_bytes 8 n" "drop 40 sb = seal_mac P key n start" "length start = 32"
proof -
  have "length sb = 72 \<and> from_le_bytes (take 8 sb) = n \<and> take 32 (drop 8 sb) = start \<and> seal_mac P key n start = drop 40 sb"
    using assms by (auto simp: authenticate_seal_def read_unsigned_seal_def read_signed_seal_def Let_def split: if_splits)
  then show "length sb = 72" "take 8 sb = to_le_bytes 8 n" "drop 40 sb = seal_mac P key n start" "length start = 32"
    using to_from_le_bytes [of "take 8 sb"] by auto
qed

lemma forged_chain:
  assumes "authenticate_seal P (Some sb) key = SealValid n start None"
  shows "forge_entry sb = chain_wire P key start [SEAL_DOMAIN @ take 8 sb]"
  using unsigned_seal_valid [OF assms]
  by (simp add: forge_entry_def link_hash_def seal_mac_def)

text \<open>
  C40. The seal of an unsigned log that has no live entries authenticates a forged entry. The message
  under the seal's code has the shape of an entry's: reading nothing but the seal file,
  an attacker without the chain key writes an entry whose payload is the seal's domain tag and count,
  chained by the seal's own code. The live file then verifies as a log whose seal lags behind, the whole
  segment set as intact with one entry more, and the next open accepts the entry and seals it in.
\<close>

theorem seal_mac_forges_entry:
  assumes "prims_ok P" and "disk_rep P key p d segs [] 0" and "p \<notin> set (d_locks d)" and "signer_ok signer"
    and "read_seal P d p key = SealValid 0 start None" and "read_file d (seal_path p) = Some sb"
  shows "verify_chain P (put_file d p (forge_entry sb)) p key = Inr \<lparr>vr_entries_verified = 1, vr_status = Unsealed 1 0\<rparr> \<and>
    verify_segment_chain P (put_file d p (forge_entry sb)) p key = Inr (SegmentsIntact (length (concat segs) + 1) (length segs + 1)) \<and>
    (\<exists>lg d1. open_inner P (put_file d p (forge_entry sb)) p key mx signer None = (Inr lg, d1) \<and>
      verify_chain P d1 p key = Inr \<lparr>vr_entries_verified = 1, vr_status = Intact\<rparr>)"
proof -
  let ?d = "put_file d p (forge_entry sb)" and ?cs = "[SEAL_DOMAIN @ take 8 sb]"
  have srep: "segs_rep P key p d segs" and "start = seg_start P key segs"
    using assms(2,5) by (auto simp: disk_rep_def stored_def)
  have auth: "authenticate_seal P (Some sb) key = SealValid 0 start None" using assms(5,6) by (simp add: read_seal_def)
  have content: "read_file ?d p = Some (chain_wire P key start ?cs @ [])" by (simp add: forged_chain [OF auth])
  have seal: "read_seal P ?d p key = SealValid 0 start None" using assms(5) by (simp add: read_seal_def)
  have sized: "sized ?cs" using unsigned_seal_valid(1) [OF auth] by (simp add: SEAL_DOMAIN_def ascii_def MAX_ENTRY_BYTES_def)
  have ahead: "verify_chain P ?d p key = Inr \<lparr>vr_entries_verified = 1, vr_status = Unsealed 1 0\<rparr>"
    using verify_chain_payloads [OF assms(1) content sized _ seal] by simp
  have stream: "stream_verify P ?d p key (seg_start P key segs) = Inr \<lparr>sr_entries_verified = 1,
      sr_terminal_hash = chain_end P key start ?cs, sr_break_status = None\<rparr>"
    using stream_chain [OF assms(1) sized, of key start "[]" 0 0] content \<open>start = seg_start P key segs\<close> by (simp add: stream_verify_def)
  have "segs_rep P key p ?d segs" by (rule segs_update [OF srep]) simp
  from verify_segments_live [OF assms(1) this stream refl]
  have intact: "verify_segment_chain P ?d p key = Inr (SegmentsIntact (length (concat segs) + 1) (length segs + 1))"
    using \<open>start = seg_start P key segs\<close> by (simp add: seal live_status_def classify_terminal_def segment_ok_def)
  have free: "p \<notin> set (d_locks ?d)" using assms(3) by simp
  obtain lg d1 where opened: "open_inner P ?d p key mx signer None = (Inr lg, d1)" and d1: "read_file d1 p = read_file ?d p"
      "read_seal P d1 p key = SealValid (length ?cs) start (handle_provenance lg)"
    by (rule open_chain [OF assms(1) content sized _ seal _ _ unsigned_seal_valid(4) [OF auth] free assms(4), of mx]) simp_all
  have "verify_chain P d1 p key = Inr \<lparr>vr_entries_verified = 1, vr_status = Intact\<rparr>"
    using verify_chain_payloads [OF assms(1) d1(1) [unfolded content] sized _ d1(2)] by simp
  with ahead intact opened show ?thesis by blast
qed

theorem seal_mac_forges_entry_witness:
  "\<exists>d sb lg d1. disk_rep toy_prims [] toy_path d [[toy_entry 0]] [] 0 \<and> read_file d (seal_path toy_path) = Some sb \<and>
     verify_segment_chain toy_prims (put_file d toy_path (forge_entry sb)) toy_path [] = Inr (SegmentsIntact 2 2) \<and>
     open_inner toy_prims (put_file d toy_path (forge_entry sb)) toy_path [] 80 None None = (Inr lg, d1)"
proof -
  obtain d where d: "disk_rep toy_prims [] toy_path d [[toy_entry 0]] [] 0" "toy_path \<notin> set (d_locks d)"
      "\<exists>k start. read_seal toy_prims d toy_path [] = SealValid k start None"
    by (rule toy_rotated)
  then obtain start where seal: "read_seal toy_prims d toy_path [] = SealValid 0 start None"
    by (auto simp: disk_rep_def stored_def)
  then obtain sb where sb: "read_file d (seal_path toy_path) = Some sb"
    by (auto simp: read_seal_def authenticate_seal_def split: option.splits)
  from seal_mac_forges_entry [OF toy_prims_ok d(1,2) toy_disk_simps(5) seal sb, of 80]
  obtain lg d1 where "verify_segment_chain toy_prims (put_file d toy_path (forge_entry sb)) toy_path [] = Inr (SegmentsIntact 2 2)"
      "open_inner toy_prims (put_file d toy_path (forge_entry sb)) toy_path [] 80 None None = (Inr lg, d1)"
    by auto
  with d(1) sb show ?thesis by blast
qed

subsection \<open>Tip provenance\<close>

definition tip_scheme :: "tip_signer \<Rightarrow> tip_verifier \<Rightarrow> bool" where
  "tip_scheme signer verifier \<longleftrightarrow>
     tv_key_id verifier = ts_key_id signer \<and> (\<forall>m. tv_verify_tip verifier m (ts_sign_tip signer m))"

text \<open>
  C36. After an append by a signing handle, the matching verifier attributes the log to its
  installation, a verifier of another installation sees a foreign log, and only where the append
  has just rotated, so that the live file is empty, is there no answer, although the live seal is valid
  and signed. The signature scheme's law is that a signature verifies.
\<close>

theorem tip_provenance_verified:
  assumes "prims_ok P" and "handle_rep P lg d segs live" and "tl_signer lg = Some signer" and "tip_scheme signer verifier"
    and "recordable P \<lparr>le_sequence = length live, le_timestamp_ms = fst req, le_kind = snd req\<rparr>"
    and "length live + 1 < 2 ^ 64" and "length segs + 1 < 2 ^ 32"
    and "tv_key_id other \<noteq> ts_key_id signer"
    and "abs_append P (tl_max_file_bytes lg) req (segs, live) = (segs', live')"
  shows "\<exists>lg' d'. append_entry P lg d (fst req) (snd req) io_ok = (Inr (length live), lg', d') \<and>
    verify_tip_provenance P d' (tl_path lg) (tl_chain_key lg) verifier = Inr (if live' = [] then NoSeal else Verified) \<and>
    verify_tip_provenance P d' (tl_path lg) (tl_chain_key lg) other = Inr (if live' = [] then NoSeal else ForeignInstallation)"
proof -
  let ?p = "tl_path lg" and ?key = "tl_chain_key lg"
  obtain lg' d' segs1 live1 where app: "append_entry P lg d (fst req) (snd req) io_ok = (Inr (length live), lg', d')"
      and abs: "abs_append P (tl_max_file_bytes lg) req (segs, live) = (segs1, live1)" and rep: "handle_rep P lg' d' segs1 live1"
      and same: "tl_path lg' = tl_path lg" "tl_chain_key lg' = tl_chain_key lg" "tl_signer lg' = tl_signer lg"
      and sealed: "\<exists>k start. read_seal P d' (tl_path lg) (tl_chain_key lg) = SealValid k start (handle_provenance lg')"
    by (rule append_step [OF assms(1,2,5,6,7)])
  have eq: "segs1 = segs'" "live1 = live'" using abs assms(9) by simp_all
  have st: "stored P ?key d' ?p (seg_start P ?key segs') live' (length live')" and recd: "\<forall>e \<in> set live'. recordable P e"
      and tip: "tl_prev_hash lg' = chain_end P ?key (seg_start P ?key segs') (payloads P live')"
    using rep same eq by (simp_all add: handle_rep_def disk_rep_def seg_start_snoc)
  have seal: "read_seal P d' ?p ?key = SealValid (length live') (seg_start P ?key segs') (handle_provenance lg')"
    using sealed st by (auto simp: stored_def)
  have "verify_chain P d' ?p ?key = Inr \<lparr>vr_entries_verified = length live', vr_status = (if live' = [] then Empty else Intact)\<rparr>"
    using verify_stored [OF assms(1) st recd] by simp
  moreover have "stream_terminal_hash P d' ?p ?key (read_seal P d' ?p ?key) = Inr (tl_prev_hash lg')"
    using stream_stored [OF assms(1) st recd] tip by (simp add: stream_terminal_hash_def seal resolve_start_hash_def)
  ultimately have "verify_tip_provenance P d' ?p ?key v =
      Inr (if live' = [] then NoSeal else check_tip (read_seal P d' ?p ?key) v (tl_prev_hash lg'))" for v
    by (simp add: verify_tip_provenance_def Let_def)
  moreover have "check_tip (read_seal P d' ?p ?key) verifier (tl_prev_hash lg') = Verified"
      "check_tip (read_seal P d' ?p ?key) other (tl_prev_hash lg') = ForeignInstallation"
    using assms(3,4,8) same(3) by (simp_all add: seal check_tip_def handle_provenance_def tip_scheme_def)
  ultimately show ?thesis using app by simp
qed

definition toy_signer :: tip_signer where
  "toy_signer = \<lparr>ts_key_id = replicate 8 1, ts_sign_tip = (\<lambda>m. take 64 (m @ replicate 64 0))\<rparr>"

definition toy_verifier :: "u8 \<Rightarrow> tip_verifier" where
  "toy_verifier b = \<lparr>tv_key_id = replicate 8 b, tv_verify_tip = (\<lambda>m sig. sig = take 64 (m @ replicate 64 0))\<rparr>"

theorem tip_provenance_verified_witness:
  "\<exists>lg d lg' d'. open_inner toy_prims toy_disk toy_path [] 80 (Some toy_signer) None = (Inr lg, d) \<and>
     append_entry toy_prims lg d 0 toy_kind io_ok = (Inr 0, lg', d') \<and>
     verify_tip_provenance toy_prims d' toy_path [] (toy_verifier 1) = Inr Verified \<and>
     verify_tip_provenance toy_prims d' toy_path [] (toy_verifier 2) = Inr ForeignInstallation"
proof -
  have signer: "signer_ok (Some toy_signer)" by (auto simp: signer_ok_def toy_signer_def min_def)
  have scheme: "tip_scheme toy_signer (toy_verifier 1)" by (simp add: tip_scheme_def toy_signer_def toy_verifier_def)
  have foreign: "tv_key_id (toy_verifier 2) \<noteq> ts_key_id toy_signer" by (simp add: toy_signer_def toy_verifier_def)
  obtain lg d where o: "open_inner toy_prims toy_disk toy_path [] 80 (Some toy_signer) None = (Inr lg, d)"
      "handle_rep toy_prims lg d [] []" "tl_path lg = toy_path" "tl_chain_key lg = []"
      "tl_max_file_bytes lg = 80" "tl_signer lg = Some toy_signer"
    by (rule open_fresh [of toy_prims toy_path toy_disk "Some toy_signer" "[]" 80]) (simp_all add: toy_prims_ok signer)
  have recd: "recordable toy_prims \<lparr>le_sequence = length ([] :: log_entry list), le_timestamp_ms = fst (0, toy_kind), le_kind = snd (0, toy_kind)\<rparr>"
    by (simp add: toy_recordable)
  have abs: "abs_append toy_prims (tl_max_file_bytes lg) (0, toy_kind) ([], []) = ([], [toy_entry 0])"
    using o(5) by (simp add: abs_append_def wire_size_def toy_prims_def)
  from tip_provenance_verified [OF toy_prims_ok o(2,6) scheme recd _ _ foreign abs] o show ?thesis by auto
qed

end
