(* ===== verification/Float_Rounding.thy ===== *)
theory Float_Rounding
  imports Float_Model
begin

unbundle bit_operations_syntax

section \<open>Error bounds of rounding\<close>

text \<open>
  How far \<open>round_to\<close> moves a number: half a unit in the last place, hence a relative error of
  \<open>2^-prec\<close> in the normal range and none on integers of \<open>prec\<close> bits. A single that
  encodes a number denotes that number rounded once.
\<close>

lemma round_ne_error: "\<bar>of_int (round_ne x) - x\<bar> \<le> 1 / 2"
proof -
  have f: "of_int \<lfloor>x\<rfloor> \<le> x" "x < of_int \<lfloor>x\<rfloor> + 1" by linarith+
  show ?thesis
  proof (cases "x - of_int \<lfloor>x\<rfloor> < 1 / 2 \<or> x - of_int \<lfloor>x\<rfloor> = 1 / 2 \<and> even \<lfloor>x\<rfloor>")
    case True
    then have "round_ne x = \<lfloor>x\<rfloor>" by (simp add: round_ne_def Let_def)
    with True f show ?thesis by (simp only: abs_le_iff) linarith
  next
    case False
    then have "round_ne x = \<lfloor>x\<rfloor> + 1" "1 / 2 \<le> x - of_int \<lfloor>x\<rfloor>" by (auto simp: round_ne_def Let_def)
    with f show ?thesis by (simp only: abs_le_iff of_int_add of_int_1) linarith
  qed
qed

lemma two_pow_add: "two_pow (a + b) = two_pow a * two_pow b"
  by (simp add: two_pow_powi power_int_add)

lemma two_pow_nonzero [simp]: "two_pow e \<noteq> 0"
  using two_pow_pos [of e] by linarith

lemma two_pow_le: "a \<le> b \<Longrightarrow> two_pow a \<le> two_pow b"
  by (simp add: two_pow_powi power_int_increasing)

lemma two_pow_less_iff: "two_pow a < two_pow b \<longleftrightarrow> a < b"
proof (cases "a < b")
  case True
  then show ?thesis by (simp add: two_pow_powi power_int_strict_increasing)
next
  case False
  then show ?thesis using two_pow_le [of b a] by simp
qed

lemma log2_floor_less:
  assumes "0 < q"
  shows "q < two_pow (log2_floor q + 1)"
proof -
  obtain a b where ab: "quotient_of q = (a, b)" by fastforce
  have q: "q = of_int a / of_int b" and b: "0 < b" using quotient_of_div [OF ab] quotient_of_denom_pos [OF ab] by auto
  then have a: "0 < a" using assms by (simp add: zero_less_divide_iff)
  let ?e = "bitlen a - bitlen b"
  show ?thesis
  proof (cases "two_pow ?e \<le> q")
    case False
    then show ?thesis by (simp add: log2_floor_def ab Let_def)
  next
    case True
    have "of_int a < (2 :: rat) powi bitlen a"
    proof -
      have "a < 2 ^ nat (bitlen a)" "0 \<le> bitlen a" using bitlen_bounds [OF a] by (simp_all add: bitlen_nonneg)
      then have "(of_int a :: rat) < 2 ^ nat (bitlen a)" by (metis of_int_less_iff of_int_numeral of_int_power)
      with \<open>0 \<le> bitlen a\<close> show ?thesis by (simp add: power_int_def)
    qed
    moreover have "2 powi (bitlen b - 1) \<le> (of_int b :: rat)"
    proof -
      have "2 ^ nat (bitlen b - 1) \<le> b" "0 \<le> bitlen b - 1" using bitlen_bounds [OF b] b by (simp_all add: bitlen_alt_def)
      then have "(2 :: rat) ^ nat (bitlen b - 1) \<le> of_int b" by (metis of_int_le_iff of_int_numeral of_int_power)
      with \<open>0 \<le> bitlen b - 1\<close> show ?thesis by (simp add: power_int_def)
    qed
    ultimately have "q < 2 powi bitlen a / 2 powi (bitlen b - 1)"
      unfolding q using a b by (intro frac_less) auto
    then have "q < two_pow (?e + 1)"
      by (simp add: two_pow_powi power_int_diff power_int_add field_simps)
    with True show ?thesis by (simp add: log2_floor_def ab Let_def)
  qed
qed

lemma log2_floor_eqI:
  assumes "two_pow e \<le> q" "q < two_pow (e + 1)"
  shows "log2_floor q = e"
proof -
  have q: "0 < q" using assms(1) two_pow_pos [of e] by linarith
  have "two_pow e < two_pow (log2_floor q + 1)" using assms(1) log2_floor_less [OF q] by linarith
  moreover have "two_pow (log2_floor q) < two_pow (e + 1)" using assms(2) log2_floor_le [OF q] by linarith
  ultimately show ?thesis by (simp add: two_pow_less_iff)
qed

lemma round_to_error:
  assumes "q \<noteq> 0"
  shows "\<bar>round_to prec emin q - q\<bar> \<le> two_pow (ulp_exp prec emin \<bar>q\<bar>) / 2"
proof -
  let ?u = "two_pow (ulp_exp prec emin \<bar>q\<bar>)"
  let ?m = "of_int (round_ne (\<bar>q\<bar> / ?u)) :: rat"
  have "round_to prec emin q = sgn q * (?m * ?u)" using assms by (simp add: round_to_def Let_def)
  moreover have u: "?u \<noteq> 0" using two_pow_pos [of "ulp_exp prec emin \<bar>q\<bar>"] by linarith
  then have "q = sgn q * (\<bar>q\<bar> / ?u * ?u)" by (simp add: sgn_mult_abs)
  ultimately have "round_to prec emin q - q = sgn q * ((?m - \<bar>q\<bar> / ?u) * ?u)" by (metis left_diff_distrib right_diff_distrib)
  then have "\<bar>round_to prec emin q - q\<bar> = \<bar>?m - \<bar>q\<bar> / ?u\<bar> * ?u"
    using assms two_pow_pos [of "ulp_exp prec emin \<bar>q\<bar>"] by (simp add: abs_mult del: two_pow_pos)
  also have "\<dots> \<le> 1 / 2 * ?u" using round_ne_error by (intro mult_right_mono) (simp_all add: less_imp_le)
  finally show ?thesis by simp
qed

lemma round_to_rel_error:
  assumes "q \<noteq> 0" "two_pow (emin + prec - 1) \<le> \<bar>q\<bar>"
  shows "\<bar>round_to prec emin q - q\<bar> \<le> \<bar>q\<bar> * two_pow (- prec)"
proof -
  have q: "0 < \<bar>q\<bar>" using assms(1) by simp
  have "two_pow (emin + prec - 1) < two_pow (log2_floor \<bar>q\<bar> + 1)" using assms(2) log2_floor_less [OF q] by linarith
  then have "ulp_exp prec emin \<bar>q\<bar> = log2_floor \<bar>q\<bar> + (- prec) + 1" by (simp add: two_pow_less_iff ulp_exp_def)
  then have "two_pow (ulp_exp prec emin \<bar>q\<bar>) / 2 = two_pow (log2_floor \<bar>q\<bar>) * two_pow (- prec)"
    by (simp only: two_pow_add) (simp add: two_pow_def [of 1])
  also have "\<dots> \<le> \<bar>q\<bar> * two_pow (- prec)" using log2_floor_le [OF q] by (intro mult_right_mono) (simp_all add: less_imp_le)
  finally show ?thesis using round_to_error [OF assms(1), of prec emin] by linarith
qed

lemma round_ne_ge: "of_int k \<le> x \<Longrightarrow> k \<le> round_ne x"
proof -
  assume "of_int k \<le> x"
  then have "k \<le> \<lfloor>x\<rfloor>" by (simp add: le_floor_iff)
  then show ?thesis by (simp add: round_ne_def Let_def)
qed

text \<open>A rounded number is an integer multiple of its last place, with a mantissa of \<open>prec\<close> bits.\<close>

lemma round_to_mantissa:
  assumes "0 < q" "1 < prec"
  obtains m e where "round_to prec emin q = of_int m * two_pow e" "0 \<le> m" "m < 2 ^ nat prec" "emin \<le> e"
    "2 ^ nat (prec - 1) \<le> m \<or> e = emin"
proof -
  let ?e = "ulp_exp prec emin q" and ?l = "log2_floor q"
  let ?m = "round_ne (q / two_pow ?e)"
  have v: "round_to prec emin q = of_int ?m * two_pow ?e" using assms(1) by (simp add: round_to_def Let_def)
  have e: "emin \<le> ?e" "?l - (prec - 1) \<le> ?e" by (simp_all add: ulp_exp_def)
  have m0: "0 \<le> ?m" using assms(1) by (intro round_ne_nonneg) (simp add: less_imp_le)
  have "q / two_pow ?e \<le> two_pow (?l + 1) / two_pow ?e"
    using log2_floor_less [OF assms(1)] by (intro divide_right_mono) (simp_all add: less_imp_le)
  also have "\<dots> = two_pow (?l + 1 - ?e)" by (simp add: two_pow_powi power_int_diff)
  also have "\<dots> \<le> two_pow prec" using e(2) by (intro two_pow_le) simp
  also have "\<dots> = of_int (2 ^ nat prec)" using assms(2) by (simp add: two_pow_def)
  finally have m1: "?m \<le> 2 ^ nat prec" by (rule round_ne_le)
  have m2: "2 ^ nat (prec - 1) \<le> ?m \<or> ?e = emin"
  proof (cases "?e = emin")
    case False
    then have "?e = ?l - (prec - 1)" by (simp add: ulp_exp_def max_def split: if_splits)
    then have "of_int (2 ^ nat (prec - 1)) = two_pow (?l - ?e)" using assms(2) by (simp add: two_pow_def)
    also have "\<dots> = two_pow ?l / two_pow ?e" by (simp add: two_pow_powi power_int_diff)
    also have "\<dots> \<le> q / two_pow ?e"
      using log2_floor_le [OF assms(1)] by (intro divide_right_mono) (simp_all add: less_imp_le)
    finally show ?thesis using round_ne_ge by blast
  qed simp
  show ?thesis
  proof (cases "?m = 2 ^ nat prec")
    case False
    with m0 m1 m2 v e(1) show ?thesis by (intro that [of ?m ?e]) auto
  next
    case True
    have "(2 :: int) ^ nat prec = 2 ^ nat (prec - 1) * 2"
      using assms(2) by (simp flip: power_Suc2 add: Suc_nat_eq_nat_zadd1)
    then have "round_to prec emin q = of_int (2 ^ nat (prec - 1)) * two_pow (?e + 1)"
      unfolding v True by (simp add: two_pow_add two_pow_def [of 1])
    moreover have "(2 :: int) ^ nat (prec - 1) < 2 ^ nat prec" using assms(2) by simp
    ultimately show ?thesis using e(1) by (intro that [of "2 ^ nat (prec - 1)" "?e + 1"]) auto
  qed
qed

lemma f32_fields:
  assumes "0 \<le> E" "E < 256" "0 \<le> r" "r < 2 ^ 23"
  shows "f64_of_f32 (word_of_int (E * 2 ^ 23 + r)) =
    (if E = 255 then (if r = 0 then F_Inf False else F_NaN)
     else Fin (if E = 0 then of_int r * two_pow (- 149) else of_int (r + 2 ^ 23) * two_pow (E - 150)))"
proof -
  define B where "B = E * 2 ^ 23 + r"
  have B: "0 \<le> B" "B < 2 ^ 31" and E: "B div 2 ^ 23 = E" and r: "B mod 2 ^ 23 = r" using assms by (simp_all add: B_def)
  have u: "uint (word_of_int B :: f32) = B" using B by (simp add: uint_word_of_int)
  have "\<not> bit B 31" using B by (simp add: bit_iff_odd)
  then have "\<not> bit (word_of_int B :: f32) 31" by (simp add: bit_word_of_int_iff)
  moreover have "uint (drop_bit 23 (word_of_int B :: f32) AND 0xFF) = E"
  proof -
    have "uint (drop_bit 23 (word_of_int B :: f32)) = E"
      using u E B by (simp only: unsigned_drop_bit_eq) (simp add: take_bit_eq_mod drop_bit_eq_div)
    then have "uint (drop_bit 23 (word_of_int B :: f32) AND 0xFF) = take_bit 8 E"
      by (simp only: uint_and) (simp add: take_bit_eq_mask mask_eq_exp_minus_1)
    also have "\<dots> = E" using assms(1,2) by (simp add: take_bit_eq_mod)
    finally show ?thesis .
  qed
  moreover have "uint ((word_of_int B :: f32) AND 0x7FFFFF) = r"
  proof -
    have "uint ((word_of_int B :: f32) AND 0x7FFFFF) = take_bit 23 B"
      using u by (simp add: uint_and take_bit_eq_mask mask_eq_exp_minus_1)
    also have "\<dots> = r" using r by (simp add: take_bit_eq_mod)
    finally show ?thesis .
  qed
  ultimately show ?thesis unfolding B_def [symmetric] f64_of_f32_def Let_def by simp
qed

text \<open>Encoding a number as a single and reading it back rounds it once.\<close>

lemma f64_of_f32_encode:
  assumes "0 < q" "round_to 24 (- 149) q < two_pow 128"
  shows "f64_of_f32 (f32_encode q) = Fin (round_to 24 (- 149) q)"
proof -
  let ?v = "round_to 24 (- 149) q"
  obtain m e where v: "?v = of_int m * two_pow e" and m: "0 \<le> m" "m < 2 ^ 24" and e: "- 149 \<le> e"
    and n: "2 ^ 23 \<le> m \<or> e = - 149" using round_to_mantissa [OF assms(1), of 24 "- 149"] by auto
  show ?thesis
  proof (cases "m = 0")
    case True
    then have "?v = 0" using v by simp
    moreover have "f64_of_f32 0 = Fin 0" by code_simp
    ultimately show ?thesis using assms(1) by (simp add: f32_encode_def Let_def)
  next
    case False
    then have m1: "1 \<le> m" using m(1) by simp
    have v0: "0 < ?v" using m1 by (simp add: v)
    have ulp: "ulp_exp 24 (- 149) ?v = e"
    proof (cases "2 ^ 23 \<le> m")
      case True
      have "log2_floor ?v = e + 23"
      proof (rule log2_floor_eqI)
        have "two_pow (e + 23) = of_int (2 ^ 23) * two_pow e" by (simp add: two_pow_add) (simp add: two_pow_def [of 23])
        also have "\<dots> \<le> ?v" unfolding v using True by (intro mult_right_mono) (simp_all add: less_imp_le)
        finally show "two_pow (e + 23) \<le> ?v" .
        have "?v < of_int (2 ^ 24) * two_pow e" unfolding v using m(2) by (intro mult_strict_right_mono) simp_all
        also have "\<dots> = two_pow (e + 23 + 1)" by (simp add: two_pow_add add.assoc) (simp add: two_pow_def [of 24])
        finally show "?v < two_pow (e + 23 + 1)" .
      qed
      with e show ?thesis by (simp add: ulp_exp_def)
    next
      case False
      then have m2: "m < 2 ^ 23" and e2: "e = - 149" using n by simp_all
      have "?v < of_int (2 ^ 23) * two_pow e" unfolding v using m2 by (intro mult_strict_right_mono) simp_all
      also have "\<dots> = two_pow (e + 23)" by (simp add: two_pow_add) (simp add: two_pow_def [of 23])
      finally have "two_pow (log2_floor ?v) < two_pow (e + 23)" using log2_floor_le [OF v0] by linarith
      then show ?thesis using e2 by (simp add: two_pow_less_iff ulp_exp_def)
    qed
    have fl: "\<lfloor>?v / two_pow e\<rfloor> = m" unfolding v by simp
    have enc: "f32_encode q = word_of_int (if m < 2 ^ 23 then m else (e + 150) * 2 ^ 23 + (m - 2 ^ 23))"
    proof -
      have "\<not> q < 0" "\<bar>?v\<bar> = ?v" "?v \<noteq> 0" "\<not> two_pow 128 \<le> ?v" using assms v0 by auto
      then show ?thesis unfolding f32_encode_def Let_def by (simp only: if_False ulp fl add_0)
    qed
    show ?thesis
    proof (cases "m < 2 ^ 23")
      case True
      then have "e = - 149" using n by simp
      with True f32_fields [of 0 m] m(1) show ?thesis by (simp add: enc v)
    next
      case False
      have "two_pow (e + 23) = of_int (2 ^ 23) * two_pow e" by (simp add: two_pow_add) (simp add: two_pow_def [of 23])
      also have "\<dots> \<le> ?v" unfolding v using False by (intro mult_right_mono) (simp_all add: less_imp_le)
      also have "\<dots> < two_pow 128" by (rule assms(2))
      finally have "e < 105" by (simp add: two_pow_less_iff)
      with False e m(2) f32_fields [of "e + 150" "m - 2 ^ 23"] show ?thesis by (simp add: enc v)
    qed
  qed
qed

lemma round_ne_of_int: "round_ne (of_int n) = n"
  by (simp add: round_ne_def)

lemma round_to_dyadic:
  assumes "0 < n" "n < 2 ^ nat prec" "0 < prec" "emin \<le> k"
  shows "round_to prec emin (of_int n * two_pow k) = of_int n * two_pow k"
proof -
  let ?q = "of_int n * two_pow k" and ?e = "ulp_exp prec emin (of_int n * two_pow k)"
  have q: "0 < ?q" using assms(1) by simp
  have "(of_int n :: rat) < of_int (2 ^ nat prec)" using assms(2) by (simp only: of_int_less_iff)
  then have "of_int n < two_pow prec" using assms(3) by (simp add: two_pow_def)
  then have "?q < two_pow (prec + k)" by (simp add: two_pow_add)
  then have "two_pow (log2_floor ?q) < two_pow (prec + k)" using log2_floor_le [OF q] by linarith
  then have e: "?e \<le> k" using assms(4) by (simp add: two_pow_less_iff ulp_exp_def)
  have "?q / two_pow ?e = of_int n * two_pow (k - ?e)" by (simp add: two_pow_powi power_int_diff)
  also have "\<dots> = of_int (n * 2 ^ nat (k - ?e))" using e by (simp add: two_pow_def)
  finally have "of_int (round_ne (?q / two_pow ?e)) = ?q / two_pow ?e" by (simp only: round_ne_of_int)
  then show ?thesis using q by (simp add: round_to_def Let_def)
qed

lemma round_to_int:
  assumes "0 < n" "n < 2 ^ nat prec" "0 < prec" "emin \<le> 0"
  shows "round_to prec emin (of_int n) = of_int n"
  using round_to_dyadic [OF assms] by (simp add: two_pow_def)

lemma round_to_le_two_pow:
  assumes "0 < q" "q \<le> two_pow k" "two_pow (emin + prec - 1) \<le> q" "0 \<le> prec"
  shows "round_to prec emin q < two_pow (k + 2)"
proof -
  have "\<bar>round_to prec emin q - q\<bar> \<le> q * two_pow (- prec)" using round_to_rel_error [of q emin prec] assms by simp
  also have "\<dots> \<le> q * two_pow 0" using assms(1,4) by (intro mult_left_mono two_pow_le) simp_all
  finally have "round_to prec emin q \<le> q + q" by (simp add: two_pow_def [of 0])
  also have "\<dots> \<le> two_pow (k + 1)" using assms(2) by (simp add: two_pow_add) (simp add: two_pow_def [of 1])
  also have "\<dots> < two_pow (k + 2)" by (simp add: two_pow_less_iff)
  finally show ?thesis .
qed

end
