(* ===== verification/Radio_Channel.thy ===== *)
theory Radio_Channel
  imports Geo_Signal
begin

unbundle bit_operations_syntax

section \<open>Radio channels, tones, plans and their validation\<close>

text \<open>
  The data model of crate \<open>syntonia\<close>: \<open>tone.rs\<close>, \<open>types.rs\<close>, \<open>channel.rs\<close>, \<open>plan.rs\<close> and
  \<open>validate.rs\<close>. A \<open>String\<close> is its list of Unicode scalar values and \<open>utf8\<close> gives its bytes, because
  the code measures and stores names in bytes. The text of a validation message is the datum its format
  string prints (\<open>issue_text\<close>).

  A CTCSS tone is a single-precision number. The arithmetic on it (\<open>f32_mul\<close>, \<open>f32_div\<close>) computes the exact
  result on the rationals the operands denote and rounds it once to the nearest single.
\<close>

subsection \<open>Singles, strings\<close>

fun f32_of_f64 :: "f64 \<Rightarrow> f32" where
  "f32_of_f64 F_NaN = 0x7FC00000"
| "f32_of_f64 (F_Inf s) = (if s then 0xFF800000 else 0x7F800000)"
| "f32_of_f64 (Fin q) = f32_encode q"

definition f32_mul :: "f32 \<Rightarrow> f32 \<Rightarrow> f32" where
  "f32_mul a b = f32_of_f64 (f64_mul Fin (f64_of_f32 a) (f64_of_f32 b))"

definition f32_div :: "f32 \<Rightarrow> f32 \<Rightarrow> f32" where
  "f32_div a b = f32_of_f64 (f64_div Fin (f64_of_f32 a) (f64_of_f32 b))"

definition f32_from_u16 :: "u16 \<Rightarrow> f32" where
  "f32_from_u16 n = f32_encode (of_nat (unat n))"

text \<open>\<open>x.round()\<close>, halves away from zero, and the saturating casts \<open>x as u16\<close>, \<open>x as u32\<close>, \<open>x as u64\<close>.\<close>

fun f64_round :: "f64 \<Rightarrow> f64" where
  "f64_round (Fin q) = Fin (of_int (if q < 0 then - \<lfloor>- q + 1 / 2\<rfloor> else \<lfloor>q + 1 / 2\<rfloor>))"
| "f64_round x = x"

fun f64_as_unsigned :: "nat \<Rightarrow> f64 \<Rightarrow> nat" where
  "f64_as_unsigned w F_NaN = 0"
| "f64_as_unsigned w (F_Inf s) = (if s then 0 else 2 ^ w - 1)"
| "f64_as_unsigned w (Fin q) = min (2 ^ w - 1) (nat \<lfloor>q\<rfloor>)"

type_synonym ustring = "nat list"

definition utf8_char :: "nat \<Rightarrow> bytes" where
  "utf8_char c =
     (if c < 0x80 then [word_of_nat c]
      else if c < 0x800 then [word_of_nat (0xC0 + c div 64), word_of_nat (0x80 + c mod 64)]
      else if c < 0x10000 then
        [word_of_nat (0xE0 + c div 4096), word_of_nat (0x80 + c div 64 mod 64), word_of_nat (0x80 + c mod 64)]
      else
        [word_of_nat (0xF0 + c div 262144), word_of_nat (0x80 + c div 4096 mod 64),
         word_of_nat (0x80 + c div 64 mod 64), word_of_nat (0x80 + c mod 64)])"

definition utf8 :: "ustring \<Rightarrow> bytes" where
  "utf8 s = concat (map utf8_char s)"

text \<open>\<open>char::is_whitespace\<close>, and \<open>str::trim\<close>.\<close>

definition is_whitespace :: "nat \<Rightarrow> bool" where
  "is_whitespace c \<longleftrightarrow>
     9 \<le> c \<and> c \<le> 13 \<or> c = 0x20 \<or> c = 0x85 \<or> c = 0xA0 \<or> c = 0x1680 \<or> 0x2000 \<le> c \<and> c \<le> 0x200A \<or>
     c = 0x2028 \<or> c = 0x2029 \<or> c = 0x202F \<or> c = 0x205F \<or> c = 0x3000"

definition str_trim :: "ustring \<Rightarrow> ustring" where
  "str_trim s = rev (dropWhile is_whitespace (rev (dropWhile is_whitespace s)))"

subsection \<open>Tones (\<open>tone.rs\<close>)\<close>

definition ALL_CTCSS_TONES :: "f32 list" where
  "ALL_CTCSS_TONES = map (\<lambda>tenths. f32_encode (of_int tenths / 10))
     [670, 693, 719, 744, 770, 797, 825, 854, 885, 915, 948, 974, 1000, 1035, 1072,
      1109, 1148, 1188, 1230, 1273, 1318, 1365, 1413, 1462, 1514, 1567, 1598, 1622,
      1655, 1679, 1713, 1738, 1773, 1799, 1835, 1862, 1899, 1928, 1966, 1995, 2035,
      2065, 2107, 2181, 2257, 2291, 2336, 2418, 2503, 2541]"

definition ALL_DCS_CODES :: "u16 list" where
  "ALL_DCS_CODES =
     [23, 25, 26, 31, 32, 36, 43, 47, 51, 53, 54, 65, 71, 72, 73, 74, 114, 115, 116, 122, 125, 131,
      132, 134, 143, 145, 152, 155, 156, 162, 165, 172, 174, 205, 212, 223, 225, 226, 243, 244, 245,
      246, 251, 252, 255, 261, 263, 265, 266, 271, 274, 306, 311, 315, 325, 331, 332, 343, 346, 351,
      356, 364, 365, 371, 411, 412, 413, 423, 431, 432, 445, 446, 452, 454, 455, 462, 464, 465, 466,
      503, 506, 516, 523, 526, 532, 546, 565, 606, 612, 624, 627, 631, 632, 654, 662, 664, 703, 712,
      723, 731, 732, 734, 743, 754]"

datatype syntonia_error = InvalidCtcssTone f32 | InvalidDcsCode u16

datatype ctcss_tone = CtcssTone (as_hz: f32)

datatype dcs_code = DcsCode (as_code: u16)

datatype dcs_polarity = PolNormal | PolInverted

datatype tone_mode = ToneNone | ToneCtcss ctcss_tone | ToneDcs dcs_code dcs_polarity

definition ctcss_tenths :: "f32 \<Rightarrow> nat" where
  "ctcss_tenths value = f64_as_unsigned 32 (f64_round (f64_of_f32 (f32_mul value (f32_encode 10))))"

definition ctcss_new :: "f32 \<Rightarrow> syntonia_error + ctcss_tone" where
  "ctcss_new value =
     (let tenths = ctcss_tenths value;
          valid = list_ex (\<lambda>t. ctcss_tenths t = tenths) ALL_CTCSS_TONES
      in if valid then Inr (CtcssTone value) else Inl (InvalidCtcssTone value))"

definition dcs_new :: "u16 \<Rightarrow> syntonia_error + dcs_code" where
  "dcs_new value = (if value \<in> set ALL_DCS_CODES then Inr (DcsCode value) else Inl (InvalidDcsCode value))"

subsection \<open>Channels and plans (\<open>types.rs\<close>, \<open>channel.rs\<close>, \<open>plan.rs\<close>)\<close>

datatype frequency_offset = OffNone | OffPlus frequency | OffMinus frequency | OffSplit frequency

datatype power_level = PowHigh | PowMid | PowLow

datatype bandwidth = BwWide | BwNarrow

datatype scan_mode = ScanInclude | ScanSkip

record channel =
  ch_index :: u16
  ch_name :: ustring
  ch_rx_freq :: frequency
  ch_tx_freq :: "frequency option"
  ch_offset :: frequency_offset
  ch_tone :: tone_mode
  ch_power :: power_level
  ch_bandwidth :: bandwidth
  ch_scan :: scan_mode
  ch_busy_lock :: bool

record frequency_plan =
  fp_name :: ustring
  fp_radio_model :: "ustring option"
  fp_channels :: "channel list"
  fp_created :: "ustring option"

definition plan_channel :: "frequency_plan \<Rightarrow> u16 \<Rightarrow> channel option" where
  "plan_channel plan index = find (\<lambda>ch. ch_index ch = index) (fp_channels plan)"

definition plan_channel_count :: "frequency_plan \<Rightarrow> usize" where
  "plan_channel_count plan = length (fp_channels plan)"

subsection \<open>Validation (\<open>validate.rs\<close>)\<close>

record radio_constraints =
  rc_max_name_length :: usize
  rc_valid_bands :: "(frequency \<times> frequency) list"
  rc_power_levels :: "power_level list"
  rc_max_channels :: u16

datatype issue_text =
    RxOutsideBands u16 frequency
  | TxOutsideBands u16 frequency
  | NameTooLong u16 ustring usize
  | PowerNotSupported u16 power_level
  | IndexExceedsMaximum u16 u16
  | TooManyChannels usize u16
  | DuplicateRxFrequency u16 frequency

datatype validation_issue = IssueError issue_text | IssueWarning issue_text

definition baofeng_uv5r_constraints :: radio_constraints where
  "baofeng_uv5r_constraints =
     \<lparr>rc_max_name_length = 7,
      rc_valid_bands = [(freq_mhz 136, freq_mhz 174), (freq_mhz 400, freq_mhz 520)],
      rc_power_levels = [PowHigh, PowLow],
      rc_max_channels = 128\<rparr>"

definition baofeng_f8hp_constraints :: radio_constraints where
  "baofeng_f8hp_constraints =
     \<lparr>rc_max_name_length = 7,
      rc_valid_bands = [(freq_mhz 136, freq_mhz 174), (freq_mhz 400, freq_mhz 520)],
      rc_power_levels = [PowHigh, PowMid, PowLow],
      rc_max_channels = 128\<rparr>"

definition allows_frequency :: "radio_constraints \<Rightarrow> frequency \<Rightarrow> bool" where
  "allows_frequency c freq \<longleftrightarrow> list_ex (\<lambda>(lo, hi). lo \<le> freq \<and> freq \<le> hi) (rc_valid_bands c)"

definition allows_power_level :: "radio_constraints \<Rightarrow> power_level \<Rightarrow> bool" where
  "allows_power_level c level \<longleftrightarrow> level \<in> set (rc_power_levels c)"

definition validate_channel :: "channel \<Rightarrow> radio_constraints \<Rightarrow> validation_issue list" where
  "validate_channel ch c =
     (if \<not> allows_frequency c (ch_rx_freq ch) then [IssueError (RxOutsideBands (ch_index ch) (ch_rx_freq ch))] else []) @
     (case ch_tx_freq ch of
        Some tx \<Rightarrow> if \<not> allows_frequency c tx then [IssueError (TxOutsideBands (ch_index ch) tx)] else []
      | None \<Rightarrow> []) @
     (if rc_max_name_length c < length (utf8 (ch_name ch))
      then [IssueWarning (NameTooLong (ch_index ch) (ch_name ch) (rc_max_name_length c))] else []) @
     (if \<not> allows_power_level c (ch_power ch) then [IssueError (PowerNotSupported (ch_index ch) (ch_power ch))] else []) @
     (if rc_max_channels c \<le> ch_index ch
      then [IssueError (IndexExceedsMaximum (ch_index ch) (rc_max_channels c - 1))] else [])"

fun duplicate_rx :: "frequency list \<Rightarrow> channel list \<Rightarrow> validation_issue list" where
  "duplicate_rx seen [] = []"
| "duplicate_rx seen (ch # chs) =
     (if ch_rx_freq ch \<in> set seen
      then IssueWarning (DuplicateRxFrequency (ch_index ch) (ch_rx_freq ch)) # duplicate_rx seen chs
      else duplicate_rx (ch_rx_freq ch # seen) chs)"

definition validate_plan :: "frequency_plan \<Rightarrow> radio_constraints \<Rightarrow> validation_issue list" where
  "validate_plan plan c =
     (if unat (rc_max_channels c) < length (fp_channels plan)
      then [IssueError (TooManyChannels (length (fp_channels plan)) (rc_max_channels c))] else []) @
     concat (map (\<lambda>ch. validate_channel ch c) (fp_channels plan)) @
     duplicate_rx [] (fp_channels plan)"

fun is_error :: "validation_issue \<Rightarrow> bool" where
  "is_error (IssueError _) = True"
| "is_error (IssueWarning _) = False"

end
