(* ===== verification/Baofeng_Codec.thy ===== *)
theory Baofeng_Codec
  imports Radio_Channel
begin

unbundle bit_operations_syntax

section \<open>The UV-5R memory image\<close>

text \<open>
  Crate \<open>syntonia\<close>, \<open>baofeng/bcd.rs\<close>, \<open>tone_codec.rs\<close>, \<open>image.rs\<close>, \<open>memmap.rs\<close>, \<open>codec.rs\<close> and
  \<open>import/img.rs\<close>: the byte layout of a channel in the EEPROM of the radio. An image is the list of its
  bytes. Reading or writing outside it panics, which is \<open>None\<close>; an operation that takes the image by
  mutable reference returns the image it leaves, on its error paths too.
\<close>

subsection \<open>Packed decimal frequencies (\<open>bcd.rs\<close>)\<close>

datatype bcd_error = InvalidBcd u8 | NotAligned u64

fun lbcd4_digits :: "u64 \<Rightarrow> bytes \<Rightarrow> bcd_error + u64" where
  "lbcd4_digits result [] = Inr result"
| "lbcd4_digits result (byte # rest) =
     (let hi = ucast (drop_bit 4 byte AND 0x0F); lo = ucast (byte AND 0x0F)
      in if 9 < hi \<or> 9 < lo then Inl (InvalidBcd byte)
         else lbcd4_digits (result * 100 + hi * 10 + lo) rest)"

definition lbcd4_decode :: "bytes \<Rightarrow> bcd_error + u64" where
  "lbcd4_decode bs =
     (if bs = [0xFF, 0xFF, 0xFF, 0xFF] then Inr 0
      else case lbcd4_digits 0 (rev bs) of Inl e \<Rightarrow> Inl e | Inr result \<Rightarrow> Inr (result * 10))"

fun lbcd4_fill :: "nat \<Rightarrow> u64 \<Rightarrow> bytes" where
  "lbcd4_fill 0 value = []"
| "lbcd4_fill (Suc n) value =
     (let lo = ucast (value mod 10); value = value div 10; hi = ucast (value mod 10); value = value div 10
      in (push_bit 4 hi OR lo) # lbcd4_fill n value)"

definition lbcd4_encode :: "u64 \<Rightarrow> bcd_error + bytes" where
  "lbcd4_encode freq_hz =
     (if freq_hz = 0 then Inr [0xFF, 0xFF, 0xFF, 0xFF]
      else if freq_hz mod 10 \<noteq> 0 then Inl (NotAligned freq_hz)
      else Inr (lbcd4_fill 4 (freq_hz div 10)))"

subsection \<open>Tone words (\<open>tone_codec.rs\<close>)\<close>

definition decode_dcs :: "u16 \<Rightarrow> u16 \<Rightarrow> u16 \<Rightarrow> dcs_polarity \<Rightarrow> tone_mode option" where
  "decode_dcs raw lo hi polarity =
     (if \<not> (lo \<le> raw \<and> raw \<le> hi) then None
      else let idx = unat (raw - lo)
           in if idx < length ALL_DCS_CODES
              then case dcs_new (ALL_DCS_CODES ! idx) of
                     Inr code \<Rightarrow> Some (ToneDcs code polarity)
                   | Inl _ \<Rightarrow> None
              else None)"

definition decode_tone :: "u16 \<Rightarrow> tone_mode" where
  "decode_tone raw =
     (if raw = 0 \<or> raw = 0xFFFF then ToneNone
      else if 600 \<le> raw then
        (case ctcss_new (f32_div (f32_from_u16 raw) (f32_encode 10)) of
           Inl _ \<Rightarrow> ToneNone
         | Inr ct \<Rightarrow> ToneCtcss ct)
      else case decode_dcs raw 1 104 PolNormal of
             Some mode \<Rightarrow> mode
           | None \<Rightarrow>
               (case decode_dcs raw 106 209 PolInverted of Some mode \<Rightarrow> mode | None \<Rightarrow> ToneNone))"

definition encode_tone :: "tone_mode \<Rightarrow> u16" where
  "encode_tone tone =
     (case tone of
        ToneNone \<Rightarrow> 0
      | ToneCtcss ct \<Rightarrow> word_of_nat (f64_as_unsigned 16 (f64_of_f32 (f32_mul (as_hz ct) (f32_encode 10))))
      | ToneDcs code polarity \<Rightarrow>
          (case map_option Suc (position (\<lambda>c. c = as_code code) ALL_DCS_CODES) of
             Some i \<Rightarrow>
               (case polarity of PolNormal \<Rightarrow> word_of_nat i | PolInverted \<Rightarrow> word_of_nat (i + 105))
           | None \<Rightarrow> 0))"

subsection \<open>Images (\<open>image.rs\<close>, \<open>memmap.rs\<close>)\<close>

type_synonym memory_image = bytes

definition image_new :: "usize \<Rightarrow> memory_image" where
  "image_new n = replicate n 0xFF"

definition read_bytes :: "memory_image \<Rightarrow> u16 \<Rightarrow> usize \<Rightarrow> bytes option" where
  "read_bytes img addr len =
     (let start = unat addr
      in if start + len \<le> length img then Some (take len (drop start img)) else None)"

definition write_bytes :: "memory_image \<Rightarrow> u16 \<Rightarrow> bytes \<Rightarrow> memory_image option" where
  "write_bytes img addr data =
     (let start = unat addr
      in if start + length data \<le> length img
         then Some (take start img @ data @ drop (start + length data) img)
         else None)"

definition CHANNEL_BASE :: u16 where "CHANNEL_BASE = 0x0000"

definition CHANNEL_STRIDE :: u16 where "CHANNEL_STRIDE = 16"

definition CHANNEL_COUNT :: u8 where "CHANNEL_COUNT = 128"

definition NAME_BASE :: u16 where "NAME_BASE = 0x1000"

definition NAME_STRIDE :: u16 where "NAME_STRIDE = 16"

definition NAME_LENGTH :: usize where "NAME_LENGTH = 7"

subsection \<open>Channels (\<open>codec.rs\<close>)\<close>

datatype codec_error = BcdDecode u8 bcd_error | BcdEncode u8 bcd_error

definition power_from_bits :: "u8 \<Rightarrow> power_level" where
  "power_from_bits byte14 =
     (let b = byte14 AND 0x03 in if b = 1 then PowLow else if b = 2 then PowMid else PowHigh)"

fun power_to_bits :: "power_level \<Rightarrow> u8" where
  "power_to_bits PowHigh = 0"
| "power_to_bits PowLow = 1"
| "power_to_bits PowMid = 2"

definition bandwidth_from_bit :: "u8 \<Rightarrow> bandwidth" where
  "bandwidth_from_bit byte15 = (if byte15 AND 0x40 \<noteq> 0 then BwWide else BwNarrow)"

definition scan_from_bit :: "u8 \<Rightarrow> scan_mode" where
  "scan_from_bit byte15 = (if byte15 AND 0x04 \<noteq> 0 then ScanInclude else ScanSkip)"

definition bcl_from_bit :: "u8 \<Rightarrow> bool" where
  "bcl_from_bit byte15 \<longleftrightarrow> byte15 AND 0x08 \<noteq> 0"

text \<open>\<open>ch.get(i).copied().unwrap_or_default()\<close> and \<open>u16::from_le_bytes\<close>.\<close>

definition byte_at :: "bytes \<Rightarrow> nat \<Rightarrow> u8" where
  "byte_at bs i = (if i < length bs then bs ! i else 0)"

definition from_le_bytes16 :: "u8 \<Rightarrow> u8 \<Rightarrow> u16" where
  "from_le_bytes16 lsb msb = ucast lsb OR push_bit 8 (ucast msb)"

definition to_le_bytes16 :: "u16 \<Rightarrow> bytes" where
  "to_le_bytes16 w = [ucast w, ucast (drop_bit 8 w)]"

definition channel_addr :: "u8 \<Rightarrow> u16" where
  "channel_addr index = CHANNEL_BASE + ucast index * CHANNEL_STRIDE"

definition name_addr :: "u8 \<Rightarrow> u16" where
  "name_addr index = NAME_BASE + ucast index * NAME_STRIDE"

definition decode_tx :: "u8 \<Rightarrow> u64 \<Rightarrow> bytes \<Rightarrow> codec_error + frequency option \<times> frequency_offset" where
  "decode_tx index rx_hz tx_bytes =
     (if tx_bytes = [0xFF, 0xFF, 0xFF, 0xFF] then Inr (None, OffNone)
      else case lbcd4_decode tx_bytes of
             Inl source \<Rightarrow> Inl (BcdDecode index source)
           | Inr tx_hz \<Rightarrow>
               if tx_hz = rx_hz then Inr (Some tx_hz, OffNone)
               else if rx_hz < tx_hz then Inr (Some tx_hz, OffPlus (tx_hz - rx_hz))
               else Inr (Some tx_hz, OffMinus (rx_hz - tx_hz)))"

definition pick_tone :: "u16 \<Rightarrow> u16 \<Rightarrow> tone_mode" where
  "pick_tone rxtone_raw txtone_raw =
     (let tx_tone = decode_tone txtone_raw
      in if tx_tone \<noteq> ToneNone then tx_tone
         else let rx_tone = decode_tone rxtone_raw
              in if rx_tone \<noteq> ToneNone then rx_tone else ToneNone)"

definition decode_name :: "bytes \<Rightarrow> ustring" where
  "decode_name name_data = str_trim (map unat (takeWhile (\<lambda>b. b \<noteq> 0xFF \<and> b \<noteq> 0x00) name_data))"

definition decode_channel :: "memory_image \<Rightarrow> u8 \<Rightarrow> (codec_error + channel option) option" where
  "decode_channel img index =
     (case read_bytes img (channel_addr index) 16 of
        None \<Rightarrow> None
      | Some ch \<Rightarrow>
          if byte_at ch 0 = 0xFF then Some (Inr None)
          else
            let rx_bytes = [byte_at ch 0, byte_at ch 1, byte_at ch 2, byte_at ch 3];
                tx_bytes = [byte_at ch 4, byte_at ch 5, byte_at ch 6, byte_at ch 7]
            in case lbcd4_decode rx_bytes of
                 Inl source \<Rightarrow> Some (Inl (BcdDecode index source))
               | Inr rx_hz \<Rightarrow>
                   (case decode_tx index rx_hz tx_bytes of
                      Inl e \<Rightarrow> Some (Inl e)
                    | Inr (tx_freq, offset) \<Rightarrow>
                        (let rxtone_raw = from_le_bytes16 (byte_at ch 8) (byte_at ch 9);
                             txtone_raw = from_le_bytes16 (byte_at ch 10) (byte_at ch 11);
                             tone = pick_tone rxtone_raw txtone_raw
                         in case read_bytes img (name_addr index) NAME_LENGTH of
                              None \<Rightarrow> None
                            | Some name_data \<Rightarrow>
                                Some (Inr (Some
                                  \<lparr>ch_index = ucast index, ch_name = decode_name name_data,
                                   ch_rx_freq = rx_hz, ch_tx_freq = tx_freq, ch_offset = offset,
                                   ch_tone = tone,
                                   ch_power = power_from_bits (byte_at ch 14),
                                   ch_bandwidth = bandwidth_from_bit (byte_at ch 15),
                                   ch_scan = scan_from_bit (byte_at ch 15),
                                   ch_busy_lock = bcl_from_bit (byte_at ch 15)\<rparr>)))))"

definition flag_byte :: "channel \<Rightarrow> u8" where
  "flag_byte ch =
     (let byte15 = 0;
          byte15 = (if ch_bandwidth ch = BwWide then byte15 OR 0x40 else byte15);
          byte15 = (if ch_scan ch = ScanInclude then byte15 OR 0x04 else byte15);
          byte15 = (if ch_busy_lock ch then byte15 OR 0x08 else byte15)
      in byte15)"

definition name_slot :: "ustring \<Rightarrow> bytes" where
  "name_slot name = (let bs = take NAME_LENGTH (utf8 name) in bs @ replicate (16 - length bs) 0xFF)"

definition encode_tx :: "frequency option \<Rightarrow> bcd_error + bytes" where
  "encode_tx tx_freq = (case tx_freq of Some tx \<Rightarrow> lbcd4_encode tx | None \<Rightarrow> Inr [0xFF, 0xFF, 0xFF, 0xFF])"

definition encode_channel :: "channel \<Rightarrow> memory_image \<Rightarrow> u8 \<Rightarrow> ((codec_error + unit) \<times> memory_image) option" where
  "encode_channel ch img index =
     (case lbcd4_encode (ch_rx_freq ch) of
        Inl source \<Rightarrow> Some (Inl (BcdEncode index source), img)
      | Inr rx_bytes \<Rightarrow>
          (case encode_tx (ch_tx_freq ch) of
             Inl source \<Rightarrow> Some (Inl (BcdEncode index source), img)
           | Inr tx_bytes \<Rightarrow>
               (let tone_bytes = to_le_bytes16 (encode_tone (ch_tone ch));
                    ch_data = rx_bytes @ tx_bytes @ tone_bytes @ tone_bytes @ [0, 0] @
                              [power_to_bits (ch_power ch), flag_byte ch]
                in case write_bytes img (channel_addr index) ch_data of
                     None \<Rightarrow> None
                   | Some img \<Rightarrow>
                       (case write_bytes img (name_addr index) (name_slot (ch_name ch)) of
                          None \<Rightarrow> None
                        | Some img \<Rightarrow> Some (Inr (), img)))))"

definition clear_channel :: "memory_image \<Rightarrow> u8 \<Rightarrow> memory_image option" where
  "clear_channel img index =
     (case write_bytes img (channel_addr index) (replicate 16 0xFF) of
        None \<Rightarrow> None
      | Some img \<Rightarrow> write_bytes img (name_addr index) (replicate 16 0xFF))"

fun decode_from :: "memory_image \<Rightarrow> nat list \<Rightarrow> (codec_error + channel list) option" where
  "decode_from img [] = Some (Inr [])"
| "decode_from img (i # is) =
     (case decode_channel img (word_of_nat i) of
        None \<Rightarrow> None
      | Some (Inl e) \<Rightarrow> Some (Inl e)
      | Some (Inr slot) \<Rightarrow>
          (case decode_from img is of
             Some (Inr chs) \<Rightarrow> Some (Inr (case slot of Some ch \<Rightarrow> ch # chs | None \<Rightarrow> chs))
           | r \<Rightarrow> r))"

definition decode_all_channels :: "memory_image \<Rightarrow> (codec_error + frequency_plan) option" where
  "decode_all_channels img =
     (case decode_from img [0..<unat CHANNEL_COUNT] of
        None \<Rightarrow> None
      | Some (Inl e) \<Rightarrow> Some (Inl e)
      | Some (Inr chs) \<Rightarrow>
          Some (Inr \<lparr>fp_name = [], fp_radio_model = None, fp_channels = chs, fp_created = None\<rparr>))"

fun clear_channels :: "memory_image \<Rightarrow> nat list \<Rightarrow> memory_image option" where
  "clear_channels img [] = Some img"
| "clear_channels img (i # is) =
     (case clear_channel img (word_of_nat i) of None \<Rightarrow> None | Some img \<Rightarrow> clear_channels img is)"

fun encode_channels_into :: "channel list \<Rightarrow> memory_image \<Rightarrow> ((codec_error + unit) \<times> memory_image) option" where
  "encode_channels_into [] img = Some (Inr (), img)"
| "encode_channels_into (ch # chs) img =
     (if ch_index ch < ucast CHANNEL_COUNT
      then case encode_channel ch img (ucast (ch_index ch)) of
             None \<Rightarrow> None
           | Some (Inl e, img) \<Rightarrow> Some (Inl e, img)
           | Some (Inr _, img) \<Rightarrow> encode_channels_into chs img
      else encode_channels_into chs img)"

definition encode_all_channels :: "frequency_plan \<Rightarrow> memory_image \<Rightarrow> ((codec_error + unit) \<times> memory_image) option" where
  "encode_all_channels plan img =
     (case clear_channels img [0..<unat CHANNEL_COUNT] of
        None \<Rightarrow> None
      | Some img \<Rightarrow> encode_channels_into (fp_channels plan) img)"

subsection \<open>CHIRP image files (\<open>import/img.rs\<close>)\<close>

datatype img_import_error = UnsupportedImageSize usize | ImgCodec codec_error

definition UV5R_STANDARD_SIZE :: usize where "UV5R_STANDARD_SIZE = 0x1808"

definition UV5R_AUX_SIZE :: usize where "UV5R_AUX_SIZE = 0x1C08"

definition IDENT_HEADER_LEN :: usize where "IDENT_HEADER_LEN = 8"

definition ascii :: "string \<Rightarrow> ustring" where
  "ascii s = map of_char s"

definition import_img_bytes :: "bytes \<Rightarrow> (img_import_error + frequency_plan) option" where
  "import_img_bytes data =
     (if length data \<noteq> UV5R_STANDARD_SIZE \<and> length data \<noteq> UV5R_AUX_SIZE
      then Some (Inl (UnsupportedImageSize (length data)))
      else
        let model = (if length data = UV5R_STANDARD_SIZE then ''UV-5R'' else ''UV-5R (aux)'')
        in case decode_all_channels (drop IDENT_HEADER_LEN data) of
             None \<Rightarrow> None
           | Some (Inl e) \<Rightarrow> Some (Inl (ImgCodec e))
           | Some (Inr plan) \<Rightarrow> Some (Inr (plan\<lparr>fp_radio_model := Some (ascii model)\<rparr>)))"

end
