(* ===== verification/Baofeng_Image.thy ===== *)
theory Baofeng_Image
  imports Baofeng_Codec Float_Rounding
begin

unbundle bit_operations_syntax

section \<open>Correctness of the memory image codec\<close>

text \<open>
  Frequencies, tones, names and flags survive the byte layout, slots do not disturb each
  other, and a plan the validation accepts is read back channel by channel. The limits of the
  encodings are stated exactly: what packed decimal keeps of a frequency, which tone words are recognised.
\<close>

subsection \<open>Packed decimal\<close>

lemma bcd_nibbles:
  assumes "h < 10" "l < 10"
  shows "drop_bit 4 (push_bit 4 (word_of_nat h) OR word_of_nat l :: u8) AND 0x0F = word_of_nat h"
    and "(push_bit 4 (word_of_nat h) OR word_of_nat l :: u8) AND 0x0F = word_of_nat l"
    and "(push_bit 4 (word_of_nat h) OR word_of_nat l :: u8) \<noteq> 0xFF"
proof -
  have "list_all (\<lambda>h. list_all (\<lambda>l.
      drop_bit 4 (push_bit 4 (word_of_nat h) OR word_of_nat l :: u8) AND 0x0F = word_of_nat h \<and>
      (push_bit 4 (word_of_nat h) OR word_of_nat l :: u8) AND 0x0F = word_of_nat l \<and>
      (push_bit 4 (word_of_nat h) OR word_of_nat l :: u8) \<noteq> 0xFF) [0..<10]) [0..<10]"
    by code_simp
  with assms show
    "drop_bit 4 (push_bit 4 (word_of_nat h) OR word_of_nat l :: u8) AND 0x0F = word_of_nat h"
    "(push_bit 4 (word_of_nat h) OR word_of_nat l :: u8) AND 0x0F = word_of_nat l"
    "(push_bit 4 (word_of_nat h) OR word_of_nat l :: u8) \<noteq> 0xFF"
    by (auto simp: list_all_iff)
qed

lemma lbcd4_fill_Suc:
  "lbcd4_fill (Suc n) v =
    (push_bit 4 (word_of_nat (unat v div 10 mod 10)) OR word_of_nat (unat v mod 10)) # lbcd4_fill n (v div 100)"
proof -
  have m: "ucast (w mod 10) = (word_of_nat (unat w mod 10) :: u8)" for w :: u64
  proof -
    have "w mod 10 = word_of_nat (unat w mod 10)" by (simp add: word_unat_eq_iff unat_mod unsigned_of_nat take_bit_nat_eq_self)
    then show ?thesis by (simp add: unsigned_of_nat take_bit_nat_eq_self)
  qed
  have "v div 10 div 10 = v div 100" by (simp add: word_unat_eq_iff unat_div div_mult2_eq [symmetric])
  moreover have "unat (v div 10) = unat v div 10" by (simp add: unat_div)
  ultimately show ?thesis by (simp add: Let_def m)
qed

lemma lbcd4_digits_append:
  "lbcd4_digits r (xs @ [b]) = (case lbcd4_digits r xs of Inl e \<Rightarrow> Inl e | Inr r' \<Rightarrow> lbcd4_digits r' [b])"
  by (induction xs arbitrary: r) (simp_all add: Let_def)

lemma lbcd4_digits_byte:
  assumes "drop_bit 4 b AND 0x0F = word_of_nat h" "b AND 0x0F = word_of_nat l" "h < 10" "l < 10"
  shows "lbcd4_digits r [b] = Inr (r * 100 + word_of_nat h * 10 + word_of_nat l)"
proof -
  have u: "ucast (word_of_nat d :: u8) = (word_of_nat d :: u64)" if "d < 10" for d
    using that by (simp add: unsigned_of_nat take_bit_nat_eq_self)
  have le: "\<not> 9 < (word_of_nat d :: u64)" if "d < 10" for d
    using that by (simp add: word_less_nat_alt unsigned_of_nat take_bit_nat_eq_self)
  show ?thesis unfolding lbcd4_digits.simps assms(1,2) Let_def using assms(3,4) by (simp add: u le)
qed

lemma lbcd4_digits_fill:
  "lbcd4_digits r (rev (lbcd4_fill n v)) = Inr (r * 100 ^ n + word_of_nat (unat v mod 100 ^ n))"
proof (induction n arbitrary: v)
  case 0
  then show ?case by simp
next
  case (Suc n)
  let ?h = "unat v div 10 mod 10" and ?l = "unat v mod 10"
  have hl: "?h < 10" "?l < 10" by simp_all
  have "unat v mod 100 ^ Suc n = 100 * (unat v div 100 mod 100 ^ n) + (10 * ?h + ?l)"
  proof -
    have "unat v mod 100 ^ Suc n = 100 * (unat v div 100 mod 100 ^ n) + unat v mod 100"
      by (simp only: power_Suc mod_mult2_eq)
    moreover have "unat v mod 100 = 10 * ?h + ?l" using mod_mult2_eq [of "unat v" 10 10] by simp
    ultimately show ?thesis by simp
  qed
  then have "word_of_nat (unat v mod 100 ^ Suc n) =
      (100 * word_of_nat (unat (v div 100) mod 100 ^ n) + (10 * word_of_nat ?h + word_of_nat ?l) :: u64)"
    by (simp add: unat_div)
  moreover have "lbcd4_digits r (rev (lbcd4_fill (Suc n) v)) =
      Inr ((r * 100 ^ n + word_of_nat (unat (v div 100) mod 100 ^ n)) * 100 + word_of_nat ?h * 10 + word_of_nat ?l)"
    by (simp only: lbcd4_fill_Suc rev.simps lbcd4_digits_append Suc.IH sum.case
      lbcd4_digits_byte [OF bcd_nibbles(1,2) [OF hl] hl])
  ultimately show ?case by (simp add: algebra_simps)
qed

text \<open>A stored frequency keeps its residue modulo a gigahertz.\<close>

lemma lbcd4_encode_decode:
  assumes "freq \<noteq> 0" "unat freq mod 10 = 0"
  obtains b0 b1 b2 b3 where "lbcd4_encode freq = Inr [b0, b1, b2, b3]" "b0 \<noteq> 0xFF"
    "lbcd4_decode [b0, b1, b2, b3] = Inr (word_of_nat (unat freq mod 10 ^ 9))"
proof -
  have "freq mod 10 = 0" using assms(2) by (simp add: word_unat_eq_iff unat_mod)
  then have e: "lbcd4_encode freq = Inr (lbcd4_fill 4 (freq div 10))" using assms(1) by (simp add: lbcd4_encode_def)
  have "lbcd4_fill 4 (freq div 10) = lbcd4_fill (Suc (Suc (Suc (Suc 0)))) (freq div 10)" by (simp only: numeral_eq_Suc pred_numeral_simps BitM.simps)
  then obtain b0 b1 b2 b3 where b: "lbcd4_fill 4 (freq div 10) = [b0, b1, b2, b3]" and b0: "b0 \<noteq> 0xFF"
    by (simp add: lbcd4_fill_Suc del: lbcd4_fill.simps(2)) (metis bcd_nibbles(3) mod_less_divisor zero_less_numeral)
  have "unat freq = 10 * (unat freq div 10)" using assms(2) by presburger
  then have "unat freq mod 10 ^ 9 = 10 * (unat freq div 10 mod 100 ^ 4)" 
    using mult_mod_right [of 10 "unat freq div 10" "100 ^ 4"] by simp
  then have "word_of_nat (unat (freq div 10) mod 100 ^ 4) * 10 = (word_of_nat (unat freq mod 10 ^ 9) :: u64)"
    by (simp add: unat_div)
  then have "lbcd4_decode [b0, b1, b2, b3] = Inr (word_of_nat (unat freq mod 10 ^ 9))"
    using lbcd4_digits_fill [of 0 4 "freq div 10"] b0 unfolding b by (simp add: lbcd4_decode_def)
  with e b b0 show ?thesis by (intro that) simp_all
qed

subsection \<open>Tones\<close>

definition CTCSS_TENTHS :: "nat list" where
  "CTCSS_TENTHS =
     [670, 693, 719, 744, 770, 797, 825, 854, 885, 915, 948, 974, 1000, 1035, 1072,
      1109, 1148, 1188, 1230, 1273, 1318, 1365, 1413, 1462, 1514, 1567, 1598, 1622,
      1655, 1679, 1713, 1738, 1773, 1799, 1835, 1862, 1899, 1928, 1966, 1995, 2035,
      2065, 2107, 2181, 2257, 2291, 2336, 2418, 2503, 2541]"

definition ctcss_of_tenths :: "nat \<Rightarrow> f32" where
  "ctcss_of_tenths k = f32_encode (of_nat k / 10)"

lemma ALL_CTCSS_TONES_tenths: "ALL_CTCSS_TONES = map ctcss_of_tenths CTCSS_TENTHS"
  by (simp add: ALL_CTCSS_TONES_def CTCSS_TENTHS_def ctcss_of_tenths_def)

lemma f64_of_f32_ten: "f64_of_f32 (f32_encode 10) = Fin 10"
proof -
  have "round_to 24 (- 149) 10 = 10" using round_to_int [of 10 24 "- 149"] by simp
  moreover have "10 < two_pow 128" by (simp add: two_pow_def)
  ultimately show ?thesis using f64_of_f32_encode [of 10] by simp
qed

text \<open>
  Ten times a tone of \<open>k\<close> tenths of a hertz, computed in singles, is \<open>k\<close> exactly: the error of the first
  rounding is at most half a last place of the product, and in that case the tie goes to the even neighbour, \<open>k\<close>.
\<close>

lemma round_ne_even:
  assumes "even n" "\<bar>x - of_int n\<bar> \<le> 1 / 2"
  shows "round_ne x = n"
proof (cases "\<lfloor>x\<rfloor> = n")
  case True
  have "x - of_int n \<le> 1 / 2" using assms(2) by (simp only: abs_le_iff)
  then show ?thesis using True assms(1) by (auto simp: round_ne_def)
next
  case False
  have f: "of_int \<lfloor>x\<rfloor> \<le> x" "x < of_int \<lfloor>x\<rfloor> + 1" by linarith+
  have a: "x - of_int n \<le> 1 / 2" "of_int n - x \<le> 1 / 2" using assms(2) by (simp_all only: abs_le_iff) linarith
  have "of_int (n - 2) < (of_int \<lfloor>x\<rfloor> :: rat)" "of_int \<lfloor>x\<rfloor> < (of_int (n + 1) :: rat)"
    unfolding of_int_diff of_int_add of_int_1 of_int_numeral using a f by linarith+
  then have n: "\<lfloor>x\<rfloor> = n - 1" using False by (simp only: of_int_less_iff)
  then have "1 / 2 \<le> x - of_int \<lfloor>x\<rfloor>" "odd \<lfloor>x\<rfloor>" using a(2) assms(1) by simp_all
  then show ?thesis using n by (simp add: round_ne_def)
qed

lemma single_ten_times:
  assumes "1 \<le> k" "k < 65536"
  defines "v \<equiv> round_to 24 (- 149) (of_nat k / 10)"
  shows "round_to 24 (- 149) (v * 10) = of_nat k" "0 < v" "v \<le> of_nat k"
proof -
  let ?q = "of_nat k / 10 :: rat"
  define l where "l = log2_floor ?q"
  have k: "1 \<le> (of_nat k :: rat)" "(of_nat k :: rat) \<le> 65536" using assms by simp_all
  have q: "0 < ?q" using k by simp
  have l: "two_pow l \<le> ?q" "?q < two_pow (l + 1)" using log2_floor_le [OF q] log2_floor_less [OF q] by (simp_all add: l_def)
  have "two_pow (- 4) < two_pow (l + 1)" "two_pow l < two_pow 13" using l k by (simp_all add: two_pow_def [of "- 4"] two_pow_def [of 13])
  then have l2: "- 4 \<le> l" "l \<le> 12" by (simp_all add: two_pow_less_iff)
  define N where "N = int k * 2 ^ nat (23 - l)"
  have N: "of_int N = of_nat k * two_pow (23 - l)" using l2 by (simp add: N_def two_pow_def)
  have "nat (23 - l) = Suc (nat (22 - l))" using l2 by simp
  then have evN: "even N" by (simp add: N_def)
  have u: "two_pow (l - 23) * two_pow (23 - l) = 1" by (simp flip: two_pow_add) (simp add: two_pow_def)
  define m where "m = round_ne (of_int N / 10)"
  have v: "v = of_int m * two_pow (l - 23)"
  proof -
    have "ulp_exp 24 (- 149) ?q = l - 23" using l2 by (simp add: ulp_exp_def l_def [symmetric])
    moreover have "?q / two_pow (l - 23) = of_int N / 10" using u by (simp add: N field_simps)
    moreover have "v = of_int (round_ne (?q / two_pow (ulp_exp 24 (- 149) ?q))) * two_pow (ulp_exp 24 (- 149) ?q)"
      using q unfolding v_def round_to_def Let_def by (simp del: divide_divide_eq_left)
    ultimately show ?thesis by (simp only: m_def)
  qed
  have d: "\<bar>10 * m - N\<bar> \<le> 4"
  proof -
    have "\<bar>of_int m - (of_int N / 10 :: rat)\<bar> \<le> 1 / 2" unfolding m_def by (rule round_ne_error)
    then have "\<bar>of_int (10 * m - N) :: rat\<bar> \<le> of_int 5" unfolding abs_le_iff by simp
    then have "\<bar>10 * m - N\<bar> \<le> 5" by (simp only: of_int_abs [symmetric] of_int_le_iff)
    moreover have "even (10 * m - N)" using evN by simp
    ultimately show ?thesis by presburger
  qed
  let ?u = "two_pow (l - 23)"
  have y: "\<bar>v * 10 - of_nat k\<bar> \<le> 4 * ?u"
  proof -
    have "v * 10 - of_nat k = of_int (10 * m - N) * ?u"
      using u by (simp add: v left_diff_distrib N mult.assoc) (simp add: mult.commute)
    moreover have "\<bar>of_int (10 * m - N) :: rat\<bar> \<le> 4" using d by (metis of_int_abs of_int_le_iff of_int_numeral)
    ultimately show ?thesis by (simp add: abs_mult mult_right_mono less_imp_le)
  qed
  have u1: "two_pow l = 8388608 * ?u" using two_pow_add [of 23 "l - 23"] by (simp add: two_pow_def [of 23])
  have u0: "0 < ?u" by simp
  have ub: "8 * two_pow l < v * 10" "v * 10 < 32 * two_pow l"
    using y l u0 u1 two_pow_add [of l 1] by (simp_all only: abs_le_iff) (simp_all add: two_pow_def [of 1])
  have v0: "0 < v" using ub(1) u0 u1 by linarith
  have L: "l + 3 \<le> log2_floor (v * 10)" "log2_floor (v * 10) \<le> l + 4"
  proof -
    have y0: "0 < v * 10" using v0 by simp
    have "two_pow (l + 3) < v * 10" using ub(1) by (simp add: two_pow_add) (simp add: two_pow_def [of 3])
    then have "two_pow (l + 3) < two_pow (log2_floor (v * 10) + 1)" using log2_floor_less [OF y0] by linarith
    then show "l + 3 \<le> log2_floor (v * 10)" by (simp add: two_pow_less_iff)
    have "v * 10 < two_pow (l + 5)" using ub(2) by (simp add: two_pow_add) (simp add: two_pow_def [of 5])
    then have "two_pow (log2_floor (v * 10)) < two_pow (l + 5)" using log2_floor_le [OF y0] by linarith
    then show "log2_floor (v * 10) \<le> l + 4" by (simp add: two_pow_less_iff)
  qed
  define e where "e = log2_floor (v * 10) - 23"
  have e: "l - 20 \<le> e" "e \<le> - 1" "ulp_exp 24 (- 149) (v * 10) = e" using L l2 by (simp_all add: e_def ulp_exp_def)
  define n where "n = int k * 2 ^ nat (- e)"
  have n: "of_int n * two_pow e = of_nat k"
    using e(2) by (simp add: n_def two_pow_def)
  have "nat (- e) = Suc (nat (- e - 1))" using e(2) by simp
  then have ev: "even n" by (simp add: n_def)
  have "4 * ?u \<le> two_pow e / 2"
    using two_pow_le [OF e(1)] two_pow_add [of 3 "l - 23"] by (simp add: two_pow_def [of 3])
  then have "\<bar>v * 10 - of_int n * two_pow e\<bar> \<le> two_pow e / 2" using y n by linarith
  then have "\<bar>v * 10 / two_pow e - of_int n\<bar> \<le> 1 / 2"
    by (simp add: abs_le_iff field_simps)
  then have "round_ne (v * 10 / two_pow e) = n" by (rule round_ne_even [OF ev])
  then show "round_to 24 (- 149) (v * 10) = of_nat k"
    using v0 n by (simp add: round_to_def Let_def e(3))
  show "0 < v" by (rule v0)
  show "v \<le> of_nat k" using ub(2) l(1) k by linarith
qed

lemma ten_times_tone:
  assumes "1 \<le> k" "k < 65536"
  shows "f64_of_f32 (f32_mul (ctcss_of_tenths k) (f32_encode 10)) = Fin (of_nat k)"
proof -
  let ?v = "round_to 24 (- 149) (of_nat k / 10)"
  note v = single_ten_times [OF assms]
  have "(of_nat k :: rat) < 65536" using assms(2) by simp
  also have "65536 < two_pow 128" by (simp add: two_pow_def)
  finally have k: "of_nat k < two_pow 128" .
  have "f64_of_f32 (ctcss_of_tenths k) = Fin ?v"
    unfolding ctcss_of_tenths_def using assms(1) v(3) k by (intro f64_of_f32_encode) simp_all
  then show ?thesis
    unfolding f32_mul_def f64_of_f32_ten using f64_of_f32_encode [of "?v * 10"] v k by simp
qed

lemma ctcss_tenths_of_tenths:
  assumes "1 \<le> k" "k < 65536"
  shows "ctcss_tenths (ctcss_of_tenths k) = k"
proof -
  have "\<lfloor>of_nat k + 1 / 2 :: rat\<rfloor> = int k" by (simp add: floor_eq_iff)
  then show ?thesis using assms(2) by (simp add: ctcss_tenths_def ten_times_tone [OF assms])
qed

lemma ctcss_new_of_tenths:
  assumes "1 \<le> k" "k < 65536"
  shows "ctcss_new (ctcss_of_tenths k) =
    (if k \<in> set CTCSS_TENTHS then Inr (CtcssTone (ctcss_of_tenths k)) else Inl (InvalidCtcssTone (ctcss_of_tenths k)))"
proof -
  have T: "\<forall>t\<in>set CTCSS_TENTHS. 1 \<le> t \<and> t < 65536" by (simp add: CTCSS_TENTHS_def)
  then have "list_ex (\<lambda>t. ctcss_tenths t = k) ALL_CTCSS_TONES \<longleftrightarrow> k \<in> set CTCSS_TENTHS"
    unfolding ALL_CTCSS_TONES_tenths list_ex_iff by (auto simp: ctcss_tenths_of_tenths)
  then show ?thesis unfolding ctcss_new_def Let_def ctcss_tenths_of_tenths [OF assms] by simp
qed

lemma decode_ctcss:
  assumes "600 \<le> raw" "raw \<noteq> 0xFFFF"
  shows "decode_tone raw =
    (if unat raw \<in> set CTCSS_TENTHS then ToneCtcss (CtcssTone (ctcss_of_tenths (unat raw))) else ToneNone)"
proof -
  have r: "600 \<le> unat raw" "unat raw < 65536" using assms(1) unsigned_less [of raw] by (simp_all add: word_le_nat_alt)
  have x: "f64_of_f32 (f32_from_u16 raw) = Fin (of_nat (unat raw))"
  proof -
    have "round_to 24 (- 149) (of_nat (unat raw)) = of_nat (unat raw)"
      using round_to_int [of "int (unat raw)" 24 "- 149"] r by (simp del: of_nat_unat)
    moreover have "of_nat (unat raw) < two_pow 128"
    proof -
      have "of_nat (unat raw) \<le> (65536 :: rat)" using r by (simp del: of_nat_unat)
      also have "\<dots> < two_pow 128" by (simp add: two_pow_def)
      finally show ?thesis .
    qed
    ultimately show ?thesis unfolding f32_from_u16_def using f64_of_f32_encode [of "of_nat (unat raw)"] r by (simp del: of_nat_unat)
  qed
  have "f32_div (f32_from_u16 raw) (f32_encode 10) = ctcss_of_tenths (unat raw)"
    unfolding f32_div_def x f64_of_f32_ten by (simp add: ctcss_of_tenths_def)
  moreover have "raw \<noteq> 0" using r by auto
  ultimately show ?thesis using assms r by (simp add: decode_tone_def ctcss_new_of_tenths)
qed

lemma encode_ctcss:
  assumes "1 \<le> k" "k < 65536"
  shows "encode_tone (ToneCtcss (CtcssTone (ctcss_of_tenths k))) = word_of_nat k"
  using assms(2) by (simp add: encode_tone_def ten_times_tone [OF assms])

lemma dcs_table: "length ALL_DCS_CODES = 104" "distinct ALL_DCS_CODES"
proof -
  show "length ALL_DCS_CODES = 104" by (simp add: ALL_DCS_CODES_def)
  have "successively (<) ALL_DCS_CODES" by code_simp
  then have "sorted_wrt (<) ALL_DCS_CODES" by (simp add: successively_conv_sorted_wrt)
  then show "distinct ALL_DCS_CODES" by (simp add: strict_sorted_iff)
qed

lemma position_nth: "distinct xs \<Longrightarrow> i < length xs \<Longrightarrow> position (\<lambda>c. c = xs ! i) xs = Some i"
proof (induction xs arbitrary: i)
  case (Cons x xs)
  then show ?case by (cases i) (auto simp: nth_mem)
qed simp

lemma decode_dcs_in:
  assumes "lo \<le> raw" "raw \<le> hi" "unat raw - unat lo < 104"
  shows "decode_dcs raw lo hi pol = Some (ToneDcs (DcsCode (ALL_DCS_CODES ! (unat raw - unat lo))) pol)"
proof -
  have "unat (raw - lo) = unat raw - unat lo" using assms(1) by (simp add: unat_sub word_le_nat_alt)
  moreover have "ALL_DCS_CODES ! (unat raw - unat lo) \<in> set ALL_DCS_CODES" using assms(3) by (simp add: dcs_table)
  ultimately show ?thesis using assms by (simp add: decode_dcs_def dcs_new_def dcs_table)
qed

lemma decode_dcs_out: "\<not> (lo \<le> raw \<and> raw \<le> hi) \<Longrightarrow> decode_dcs raw lo hi pol = None"
  by (auto simp: decode_dcs_def)

lemma decode_tone_low:
  assumes "raw < 600"
  shows "decode_tone raw =
    (if 1 \<le> unat raw \<and> unat raw \<le> 104 then ToneDcs (DcsCode (ALL_DCS_CODES ! (unat raw - 1))) PolNormal
     else if 106 \<le> unat raw \<and> unat raw \<le> 209 then ToneDcs (DcsCode (ALL_DCS_CODES ! (unat raw - 106))) PolInverted
     else ToneNone)"
proof -
  have r: "raw \<noteq> 0xFFFF" "\<not> 600 \<le> raw" "raw = 0 \<longleftrightarrow> unat raw = 0"
    using assms by (auto simp: word_less_nat_alt word_le_nat_alt unat_eq_0)
  consider "1 \<le> unat raw" "unat raw \<le> 104" | "106 \<le> unat raw" "unat raw \<le> 209"
    | "\<not> (1 \<le> unat raw \<and> unat raw \<le> 104)" "\<not> (106 \<le> unat raw \<and> unat raw \<le> 209)" by linarith
  then show ?thesis
  proof cases
    case 1
    then have "decode_dcs raw 1 104 PolNormal = Some (ToneDcs (DcsCode (ALL_DCS_CODES ! (unat raw - 1))) PolNormal)"
      using decode_dcs_in [of 1 raw 104 PolNormal] by (simp add: word_le_nat_alt)
    with 1 r show ?thesis by (simp add: decode_tone_def)
  next
    case 2
    then have "decode_dcs raw 106 209 PolInverted = Some (ToneDcs (DcsCode (ALL_DCS_CODES ! (unat raw - 106))) PolInverted)"
      "decode_dcs raw 1 104 PolNormal = None"
      using decode_dcs_in [of 106 raw 209 PolInverted] by (simp_all add: word_le_nat_alt decode_dcs_out)
    with 2 r show ?thesis by (simp add: decode_tone_def)
  next
    case 3
    then have "decode_dcs raw 106 209 PolInverted = None" "decode_dcs raw 1 104 PolNormal = None"
      by (auto simp: word_le_nat_alt intro!: decode_dcs_out)
    with 3 r show ?thesis by (simp add: decode_tone_def)
  qed
qed

lemma encode_dcs:
  assumes "i < 104"
  shows "encode_tone (ToneDcs (DcsCode (ALL_DCS_CODES ! i)) PolNormal) = word_of_nat (i + 1)"
    and "encode_tone (ToneDcs (DcsCode (ALL_DCS_CODES ! i)) PolInverted) = word_of_nat (i + 106)"
  using assms by (simp_all add: encode_tone_def position_nth dcs_table)

text \<open>The tones of the two tables.\<close>

definition tone_standard :: "tone_mode \<Rightarrow> bool" where
  "tone_standard tone =
     (case tone of
        ToneNone \<Rightarrow> True
      | ToneCtcss ct \<Rightarrow> as_hz ct \<in> set ALL_CTCSS_TONES
      | ToneDcs code _ \<Rightarrow> as_code code \<in> set ALL_DCS_CODES)"

lemma tenths_bounds: "k \<in> set CTCSS_TENTHS \<Longrightarrow> 670 \<le> k \<and> k \<le> 2541"
  by (auto simp: CTCSS_TENTHS_def)

lemma decode_encode_tone:
  assumes "tone_standard tone"
  shows "decode_tone (encode_tone tone) = tone"
proof (cases tone)
  case ToneNone
  then show ?thesis by (simp add: encode_tone_def decode_tone_def)
next
  case (ToneCtcss ct)
  then obtain k where k: "k \<in> set CTCSS_TENTHS" and ct: "ct = CtcssTone (ctcss_of_tenths k)"
    using assms by (cases ct) (auto simp: tone_standard_def ALL_CTCSS_TONES_tenths)
  have b: "670 \<le> k" "k \<le> 2541" using tenths_bounds [OF k] by simp_all
  then have u: "unat (word_of_nat k :: u16) = k" by (simp add: unsigned_of_nat take_bit_nat_eq_self)
  moreover have "encode_tone tone = word_of_nat k" using encode_ctcss [of k] b by (simp add: ToneCtcss ct)
  moreover have "(600 :: u16) \<le> word_of_nat k" "(word_of_nat k :: u16) \<noteq> 0xFFFF"
    using b u by (auto simp: word_le_nat_alt)
  ultimately show ?thesis using decode_ctcss [of "word_of_nat k"] k by (simp add: ToneCtcss ct)
next
  case (ToneDcs code pol)
  then obtain i where i: "i < 104" and code: "code = DcsCode (ALL_DCS_CODES ! i)"
    using assms by (cases code) (auto simp: tone_standard_def in_set_conv_nth dcs_table)
  show ?thesis
  proof (cases pol)
    case PolNormal
    have u: "unat (word_of_nat (i + 1) :: u16) = i + 1" using i by (simp only: unsigned_of_nat) (simp add: take_bit_nat_eq_self)
    have "encode_tone tone = word_of_nat (i + 1)" using encode_dcs(1) [OF i] by (simp add: ToneDcs code PolNormal)
    moreover have "(word_of_nat (i + 1) :: u16) < 600" using i u by (simp add: word_less_nat_alt)
    ultimately show ?thesis using decode_tone_low [of "word_of_nat (i + 1)"] i u by (simp add: ToneDcs code PolNormal)
  next
    case PolInverted
    have u: "unat (word_of_nat (i + 106) :: u16) = i + 106" using i by (simp only: unsigned_of_nat) (simp add: take_bit_nat_eq_self)
    have "encode_tone tone = word_of_nat (i + 106)" using encode_dcs(2) [OF i] by (simp add: ToneDcs code PolInverted)
    moreover have "(word_of_nat (i + 106) :: u16) < 600" using i u by (simp add: word_less_nat_alt)
    ultimately show ?thesis using decode_tone_low [of "word_of_nat (i + 106)"] i u by (simp add: ToneDcs code PolInverted)
  qed
qed

lemma encode_decode_tone:
  assumes "decode_tone raw \<noteq> ToneNone"
  shows "tone_standard (decode_tone raw)" "encode_tone (decode_tone raw) = raw"
proof -
  have "tone_standard (decode_tone raw) \<and> encode_tone (decode_tone raw) = raw"
  proof (cases "raw < 600")
    case True
    then consider "1 \<le> unat raw" "unat raw \<le> 104" | "106 \<le> unat raw" "unat raw \<le> 209"
      using assms decode_tone_low by (auto split: if_splits)
    then show ?thesis
    proof cases
      case 1
      then have i: "unat raw - 1 < 104" by simp
      have "decode_tone raw = ToneDcs (DcsCode (ALL_DCS_CODES ! (unat raw - 1))) PolNormal"
        using 1 decode_tone_low [OF True] by simp
      moreover have "word_of_nat (unat raw - 1 + 1) = raw" using 1 by simp
      ultimately show ?thesis using encode_dcs(1) [OF i] i by (simp add: tone_standard_def dcs_table)
    next
      case 2
      then have i: "unat raw - 106 < 104" by simp
      have "decode_tone raw = ToneDcs (DcsCode (ALL_DCS_CODES ! (unat raw - 106))) PolInverted"
        using 2 decode_tone_low [OF True] by simp
      moreover have "word_of_nat (unat raw - 106 + 106) = raw" using 2 by simp
      ultimately show ?thesis using encode_dcs(2) [OF i] i by (simp add: tone_standard_def dcs_table)
    qed
  next
    case False
    then have r: "600 \<le> raw" "raw \<noteq> 0xFFFF" using assms by (auto simp: decode_tone_def)
    then have k: "unat raw \<in> set CTCSS_TENTHS" and d: "decode_tone raw = ToneCtcss (CtcssTone (ctcss_of_tenths (unat raw)))"
      using decode_ctcss [OF r] assms by (auto split: if_splits)
    have "1 \<le> unat raw" "unat raw < 65536" using tenths_bounds [OF k] by simp_all
    then show ?thesis using k encode_ctcss [of "unat raw"] by (simp add: d tone_standard_def ALL_CTCSS_TONES_tenths)
  qed
  then show "tone_standard (decode_tone raw)" "encode_tone (decode_tone raw) = raw" by simp_all
qed

subsection \<open>Reading and writing the image\<close>

lemma read_bytes_Some_iff:
  "read_bytes img addr n = Some bs \<longleftrightarrow>
    unat addr + n \<le> length img \<and> length bs = n \<and> (\<forall>i<n. bs ! i = img ! (unat addr + i))"
proof
  assume "read_bytes img addr n = Some bs"
  then show "unat addr + n \<le> length img \<and> length bs = n \<and> (\<forall>i<n. bs ! i = img ! (unat addr + i))"
    by (auto simp: read_bytes_def Let_def split: if_splits)
next
  assume "unat addr + n \<le> length img \<and> length bs = n \<and> (\<forall>i<n. bs ! i = img ! (unat addr + i))"
  then show "read_bytes img addr n = Some bs"
    by (auto simp: read_bytes_def Let_def intro!: nth_equalityI)
qed

lemma read_bytes_in: "unat addr + n \<le> length img \<Longrightarrow> read_bytes img addr n = Some (take n (drop (unat addr) img))"
  by (simp add: read_bytes_def)

lemma write_bytes_in:
  assumes "unat addr + length data \<le> length img"
  obtains img' where "write_bytes img addr data = Some img'" "length img' = length img"
    "\<forall>i<length img. img' ! i = (if unat addr \<le> i \<and> i < unat addr + length data then data ! (i - unat addr) else img ! i)"
proof
  show "write_bytes img addr data = Some (take (unat addr) img @ data @ drop (unat addr + length data) img)"
    using assms by (simp add: write_bytes_def Let_def)
  show "length (take (unat addr) img @ data @ drop (unat addr + length data) img) = length img" using assms by simp
  show "\<forall>i<length img. (take (unat addr) img @ data @ drop (unat addr + length data) img) ! i =
      (if unat addr \<le> i \<and> i < unat addr + length data then data ! (i - unat addr) else img ! i)"
    using assms by (auto simp: nth_append)
qed

lemma slot_addresses [simp]:
  "unat (channel_addr i) = 16 * unat i" "unat (name_addr i) = 0x1000 + 16 * unat i"
proof -
  have i: "unat i < 256" using unsigned_less [of i] by simp
  have "unat i < 2 ^ 16" by (rule less_trans [OF unsigned_less]) simp
  then have u: "unat (ucast i :: u16) = unat i" by (simp add: unsigned_ucast_eq take_bit_nat_eq_self)
  have b: "unat i * 16 < 65536" "4096 + unat i * 16 < 65536" using i by linarith+
  show "unat (channel_addr i) = 16 * unat i"
    by (simp add: channel_addr_def CHANNEL_BASE_def CHANNEL_STRIDE_def unat_word_ariths u mod_less [OF b(1)])
  show "unat (name_addr i) = 0x1000 + 16 * unat i"
    by (simp add: name_addr_def NAME_BASE_def NAME_STRIDE_def unat_word_ariths u mod_less [OF b(1)] mod_less [OF b(2)])
qed

text \<open>The bytes of slot \<open>i\<close>: its record and its name.\<close>

definition in_slot :: "nat \<Rightarrow> nat \<Rightarrow> bool" where
  "in_slot i k \<longleftrightarrow> 16 * i \<le> k \<and> k < 16 * i + 16 \<or> 0x1000 + 16 * i \<le> k \<and> k < 0x1000 + 16 * i + 16"

lemma write_slot:
  assumes img: "0x1800 \<le> length img" and i: "unat i < 128" and d: "length d = 16" and n: "length n = 16"
  obtains img1 img' where "write_bytes img (channel_addr i) d = Some img1" "write_bytes img1 (name_addr i) n = Some img'"
    "length img' = length img" "read_bytes img' (channel_addr i) 16 = Some d"
    "read_bytes img' (name_addr i) NAME_LENGTH = Some (take NAME_LENGTH n)"
    "\<forall>k<length img. \<not> in_slot (unat i) k \<longrightarrow> img' ! k = img ! k"
proof -
  obtain img1 where w1: "write_bytes img (channel_addr i) d = Some img1" "length img1 = length img"
    and e1: "\<forall>k<length img. img1 ! k = (if unat (channel_addr i) \<le> k \<and> k < unat (channel_addr i) + length d
        then d ! (k - unat (channel_addr i)) else img ! k)"
    by (rule write_bytes_in [of "channel_addr i" d img]) (use img i d in simp)
  obtain img' where w2: "write_bytes img1 (name_addr i) n = Some img'" "length img' = length img1"
    and e2: "\<forall>k<length img1. img' ! k = (if unat (name_addr i) \<le> k \<and> k < unat (name_addr i) + length n
        then n ! (k - unat (name_addr i)) else img1 ! k)"
    by (rule write_bytes_in [of "name_addr i" n img1]) (use img i n w1(2) in simp)
  note w2(2) [unfolded w1(2), simp] and e1 [unfolded slot_addresses d] and e2 [unfolded slot_addresses n w1(2)]
  note e = this
  show ?thesis
  proof (rule that [OF w1(1) w2(1)])
    show "length img' = length img" by simp
    show "read_bytes img' (channel_addr i) 16 = Some d"
      unfolding read_bytes_Some_iff using img i d e by auto
    show "read_bytes img' (name_addr i) NAME_LENGTH = Some (take NAME_LENGTH n)"
      unfolding read_bytes_Some_iff using img i n e by (auto simp: NAME_LENGTH_def)
    show "\<forall>k<length img. \<not> in_slot (unat i) k \<longrightarrow> img' ! k = img ! k"
      using e by (auto simp: in_slot_def)
  qed
qed

text \<open>Decoding a slot depends on the bytes of that slot only.\<close>

lemma read_bytes_cong:
  assumes "length img' = length img" "unat addr + n \<le> length img" "\<And>k. unat addr \<le> k \<Longrightarrow> k < unat addr + n \<Longrightarrow> img' ! k = img ! k"
  shows "read_bytes img' addr n = read_bytes img addr n"
proof -
  obtain bs where bs: "read_bytes img addr n = Some bs" using read_bytes_in [OF assms(2)] by blast
  then have "read_bytes img' addr n = Some bs" unfolding read_bytes_Some_iff using assms by simp
  with bs show ?thesis by simp
qed

lemma decode_channel_cong:
  assumes "length img' = length img" "0x1800 \<le> length img" "unat j < 128"
    and same: "\<forall>k<length img. in_slot (unat j) k \<longrightarrow> img' ! k = img ! k"
  shows "decode_channel img' j = decode_channel img j"
proof -
  have "read_bytes img' (channel_addr j) 16 = read_bytes img (channel_addr j) 16"
    using assms by (intro read_bytes_cong) (simp_all add: in_slot_def)
  moreover have "read_bytes img' (name_addr j) NAME_LENGTH = read_bytes img (name_addr j) NAME_LENGTH"
    using assms by (intro read_bytes_cong) (simp_all add: in_slot_def NAME_LENGTH_def)
  ultimately show ?thesis by (simp only: decode_channel_def)
qed

lemma in_slot_disjoint: "i < 128 \<Longrightarrow> j < 128 \<Longrightarrow> i \<noteq> j \<Longrightarrow> in_slot i k \<Longrightarrow> \<not> in_slot j k"
  by (auto simp: in_slot_def)

lemma decode_empty:
  assumes "read_bytes img (channel_addr i) 16 = Some d" "byte_at d 0 = 0xFF"
  shows "decode_channel img i = Some (Inr None)"
  using assms by (simp add: decode_channel_def)

lemma clear_channel_slot:
  assumes "0x1800 \<le> length img" "unat i < 128"
  obtains img' where "clear_channel img i = Some img'" "length img' = length img"
    "decode_channel img' i = Some (Inr None)" "\<forall>k<length img. \<not> in_slot (unat i) k \<longrightarrow> img' ! k = img ! k"
proof (rule write_slot [OF assms, of "replicate 16 0xFF" "replicate 16 0xFF"])
  fix img1 img'
  assume w: "write_bytes img (channel_addr i) (replicate 16 0xFF) = Some img1"
    "write_bytes img1 (name_addr i) (replicate 16 0xFF) = Some img'" "length img' = length img"
    and r: "read_bytes img' (channel_addr i) 16 = Some (replicate 16 0xFF)"
    and o: "\<forall>k<length img. \<not> in_slot (unat i) k \<longrightarrow> img' ! k = img ! k"
  show thesis
    using decode_empty [OF r] w o by (intro that [of img']) (simp_all add: clear_channel_def byte_at_def)
qed simp_all

subsection \<open>One channel\<close>

text \<open>
  What a slot can hold: frequencies below a gigahertz in steps of ten hertz, a tone of the tables, a
  name of at most seven ASCII characters without outer blanks. The direction and size of the
  duplex offset are not stored; they are recomputed from the two frequencies.
\<close>

definition freq_storable :: "frequency \<Rightarrow> bool" where
  "freq_storable f \<longleftrightarrow> f \<noteq> 0 \<and> unat f mod 10 = 0 \<and> unat f < 10 ^ 9"

definition name_storable :: "ustring \<Rightarrow> bool" where
  "name_storable s \<longleftrightarrow> length s \<le> 7 \<and> list_all (\<lambda>c. 0 < c \<and> c < 0x80) s \<and> str_trim s = s"

definition channel_storable :: "channel \<Rightarrow> bool" where
  "channel_storable ch \<longleftrightarrow>
     freq_storable (ch_rx_freq ch) \<and> (case ch_tx_freq ch of None \<Rightarrow> True | Some tx \<Rightarrow> freq_storable tx) \<and>
     tone_standard (ch_tone ch) \<and> name_storable (ch_name ch)"

definition derived_offset :: "frequency \<Rightarrow> frequency option \<Rightarrow> frequency_offset" where
  "derived_offset rx tx =
     (case tx of
        None \<Rightarrow> OffNone
      | Some t \<Rightarrow> if t = rx then OffNone else if rx < t then OffPlus (t - rx) else OffMinus (rx - t))"

definition stored_channel :: "channel \<Rightarrow> channel" where
  "stored_channel ch = ch\<lparr>ch_offset := derived_offset (ch_rx_freq ch) (ch_tx_freq ch)\<rparr>"

lemma freq_storable_bcd:
  assumes "freq_storable f"
  obtains b0 b1 b2 b3 where "lbcd4_encode f = Inr [b0, b1, b2, b3]" "b0 \<noteq> 0xFF" "lbcd4_decode [b0, b1, b2, b3] = Inr f"
proof -
  have f: "f \<noteq> 0" "unat f mod 10 = 0" "unat f mod 10 ^ 9 = unat f" using assms by (simp_all add: freq_storable_def)
  from f(1,2) show ?thesis
  proof (rule lbcd4_encode_decode)
    fix b0 b1 b2 b3
    assume "lbcd4_encode f = Inr [b0, b1, b2, b3]" "b0 \<noteq> 0xFF" "lbcd4_decode [b0, b1, b2, b3] = Inr (word_of_nat (unat f mod 10 ^ 9))"
    then show thesis unfolding f(3) by (intro that) simp_all
  qed
qed

lemma power_bits: "power_from_bits (power_to_bits p) = p"
  by (cases p) (simp_all add: power_from_bits_def)

lemma flag_bits:
  "bandwidth_from_bit (flag_byte ch) = ch_bandwidth ch" "scan_from_bit (flag_byte ch) = ch_scan ch"
  "bcl_from_bit (flag_byte ch) = ch_busy_lock ch"
proof -
  have "bandwidth_from_bit (flag_byte ch) = ch_bandwidth ch \<and> scan_from_bit (flag_byte ch) = ch_scan ch \<and>
      bcl_from_bit (flag_byte ch) = ch_busy_lock ch"
    by (cases "ch_bandwidth ch"; cases "ch_scan ch"; cases "ch_busy_lock ch")
      (simp_all add: bandwidth_from_bit_def scan_from_bit_def bcl_from_bit_def flag_byte_def)
  then show "bandwidth_from_bit (flag_byte ch) = ch_bandwidth ch" "scan_from_bit (flag_byte ch) = ch_scan ch"
    "bcl_from_bit (flag_byte ch) = ch_busy_lock ch" by simp_all
qed

lemma le_bytes16: "from_le_bytes16 (ucast w) (ucast (drop_bit 8 w)) = w"
proof (rule bit_eqI)
  fix n
  assume "possible_bit TYPE(16 word) n"
  then have "n < 16" by simp
  then show "bit (from_le_bytes16 (ucast w) (ucast (drop_bit 8 w))) n = bit w n"
    by (auto simp: from_le_bytes16_def bit_simps not_less)
qed

lemma decode_name_slot:
  assumes "name_storable s"
  shows "decode_name (take NAME_LENGTH (name_slot s)) = s" "length (name_slot s) = 16"
proof -
  have s: "length s \<le> 7" "\<forall>c\<in>set s. 0 < c \<and> c < 0x80" "str_trim s = s"
    using assms by (simp_all add: name_storable_def list_all_iff)
  have u: "utf8 s = map word_of_nat s"
    using s(2) by (induction s) (simp_all add: utf8_def utf8_char_def)
  have n: "name_slot s = map word_of_nat s @ replicate (16 - length s) 0xFF"
    using s(1) by (simp add: name_slot_def u NAME_LENGTH_def)
  then show "length (name_slot s) = 16" using s(1) by simp
  have c: "unat (word_of_nat c :: u8) = c" if "c \<in> set s" for c
  proof -
    have "c < 2 ^ 8" using s(2) that by fastforce
    then show ?thesis by (simp add: unsigned_of_nat take_bit_nat_eq_self)
  qed
  have "\<forall>b\<in>set (map word_of_nat s). b \<noteq> (0xFF :: u8) \<and> b \<noteq> 0"
  proof
    fix b :: u8
    assume "b \<in> set (map word_of_nat s)"
    then obtain x where "x \<in> set s" "b = word_of_nat x" by auto
    then have "unat b = x" "0 < x" "x < 0x80" using c s(2) by simp_all
    then show "b \<noteq> 0xFF \<and> b \<noteq> 0" by auto
  qed
  then have "takeWhile (\<lambda>b :: u8. b \<noteq> 0xFF \<and> b \<noteq> 0) (map word_of_nat s @ replicate (7 - length s) 0xFF) = map word_of_nat s"
    by (cases "7 - length s") (auto simp: takeWhile_append takeWhile_eq_all_conv)
  moreover have "take 7 (name_slot s) = map word_of_nat s @ replicate (7 - length s) 0xFF" using s(1) by (simp add: n min_def)
  moreover have "map unat (map (word_of_nat :: nat \<Rightarrow> u8) s) = s" using c by (simp add: map_idI)
  ultimately show "decode_name (take NAME_LENGTH (name_slot s)) = s"
    unfolding NAME_LENGTH_def by (simp add: decode_name_def s(3))
qed

lemma encode_tx_decode:
  assumes "case tx_freq of None \<Rightarrow> True | Some tx \<Rightarrow> freq_storable tx"
  obtains t0 t1 t2 t3 where "encode_tx tx_freq = Inr [t0, t1, t2, t3]"
    "decode_tx i rx [t0, t1, t2, t3] = Inr (tx_freq, derived_offset rx tx_freq)"
proof (cases tx_freq)
  case None
  have "encode_tx tx_freq = Inr [0xFF, 0xFF, 0xFF, 0xFF]" using None by (simp add: encode_tx_def)
  moreover have "decode_tx i rx [0xFF, 0xFF, 0xFF, 0xFF] = Inr (tx_freq, derived_offset rx tx_freq)"
    unfolding decode_tx_def using None by (simp add: derived_offset_def)
  ultimately show thesis by (rule that)
next
  case (Some tx)
  with assms have "freq_storable tx" by simp
  then show thesis
  proof (rule freq_storable_bcd)
    fix b0 b1 b2 b3
    assume "lbcd4_encode tx = Inr [b0, b1, b2, b3]" "b0 \<noteq> 0xFF" "lbcd4_decode [b0, b1, b2, b3] = Inr tx"
    then show thesis using Some by (intro that [of b0 b1 b2 b3]) (simp_all add: encode_tx_def decode_tx_def derived_offset_def)
  qed
qed

lemma encode_channel_slot:
  assumes img: "0x1800 \<le> length img" and i: "unat i < 128" and ch: "channel_storable ch" and idx: "ch_index ch = ucast i"
  obtains img' where "encode_channel ch img i = Some (Inr (), img')" "length img' = length img"
    "decode_channel img' i = Some (Inr (Some (stored_channel ch)))"
    "\<forall>k<length img. \<not> in_slot (unat i) k \<longrightarrow> img' ! k = img ! k"
proof -
  have sto: "freq_storable (ch_rx_freq ch)" "case ch_tx_freq ch of None \<Rightarrow> True | Some tx \<Rightarrow> freq_storable tx"
    "tone_standard (ch_tone ch)" "name_storable (ch_name ch)" using ch by (simp_all add: channel_storable_def)
  obtain r0 r1 r2 r3 where r: "lbcd4_encode (ch_rx_freq ch) = Inr [r0, r1, r2, r3]" "r0 \<noteq> 0xFF"
    "lbcd4_decode [r0, r1, r2, r3] = Inr (ch_rx_freq ch)" by (rule freq_storable_bcd [OF sto(1)])
  obtain t0 t1 t2 t3 where t: "encode_tx (ch_tx_freq ch) = Inr [t0, t1, t2, t3]"
    "decode_tx i (ch_rx_freq ch) [t0, t1, t2, t3] = Inr (ch_tx_freq ch, derived_offset (ch_rx_freq ch) (ch_tx_freq ch))"
    by (rule encode_tx_decode [OF sto(2)])
  define w where "w = encode_tone (ch_tone ch)"
  define d where "d = [r0, r1, r2, r3, t0, t1, t2, t3, ucast w, ucast (drop_bit 8 w), ucast w, ucast (drop_bit 8 w), 0, 0,
      power_to_bits (ch_power ch), flag_byte ch]"
  have len: "length d = 16" by (simp add: d_def)
  obtain img1 img' where w1: "write_bytes img (channel_addr i) d = Some img1"
    and w2: "write_bytes img1 (name_addr i) (name_slot (ch_name ch)) = Some img'" and l: "length img' = length img"
    and rd: "read_bytes img' (channel_addr i) 16 = Some d"
      "read_bytes img' (name_addr i) NAME_LENGTH = Some (take NAME_LENGTH (name_slot (ch_name ch)))"
    and o: "\<forall>k<length img. \<not> in_slot (unat i) k \<longrightarrow> img' ! k = img ! k"
    by (rule write_slot [OF img i len decode_name_slot(2) [OF sto(4)]])
  have enc: "encode_channel ch img i = Some (Inr (), img')"
    unfolding encode_channel_def r(1) t(1) sum.case Let_def to_le_bytes16_def w_def [symmetric]
    using w1 w2 by (simp add: d_def)
  have dec: "decode_channel img' i = Some (Inr (Some (stored_channel ch)))"
  proof -
    have b: "byte_at d 0 = r0" "byte_at d 1 = r1" "byte_at d 2 = r2" "byte_at d 3 = r3"
      "byte_at d 4 = t0" "byte_at d 5 = t1" "byte_at d 6 = t2" "byte_at d 7 = t3"
      "byte_at d 8 = ucast w" "byte_at d 9 = ucast (drop_bit 8 w)" "byte_at d 10 = ucast w"
      "byte_at d 11 = ucast (drop_bit 8 w)" "byte_at d 14 = power_to_bits (ch_power ch)" "byte_at d 15 = flag_byte ch"
      by (simp_all add: byte_at_def d_def)
    have "pick_tone w w = ch_tone ch"
      unfolding pick_tone_def w_def Let_def decode_encode_tone [OF sto(3)] by simp
    then show ?thesis
      unfolding decode_channel_def rd option.case b Let_def
      using r(2) by (simp add: r(3) t(2) le_bytes16 decode_name_slot(1) [OF sto(4)] power_bits flag_bits idx [symmetric] stored_channel_def)
  qed
  show ?thesis by (rule that [OF enc l dec o])
qed

subsection \<open>Whole plans\<close>

definition outside_slots :: "nat \<Rightarrow> bool" where
  "outside_slots k \<longleftrightarrow> (\<forall>i<128. \<not> in_slot i k)"

lemma u8_u16_index:
  assumes "unat idx < 128"
  shows "unat (ucast (idx :: u16) :: u8) = unat idx" "ucast (ucast idx :: u8) = idx" "word_of_nat (unat idx) = (ucast idx :: u8)"
proof -
  have "unat idx < 2 ^ 8" using assms by simp
  then show u: "unat (ucast (idx :: u16) :: u8) = unat idx" by (simp add: unsigned_ucast_eq take_bit_nat_eq_self)
  show "word_of_nat (unat idx) = (ucast idx :: u8)" by simp
  show "ucast (ucast idx :: u8) = idx"
    using \<open>unat idx < 2 ^ 8\<close> by (simp add: word_unat_eq_iff unsigned_ucast_eq unsigned_take_bit_eq take_bit_nat_eq_self)
qed

lemma clear_channels_slots:
  assumes "0x1800 \<le> length img" "\<forall>i\<in>set is. i < 128"
  obtains img' where "clear_channels img is = Some img'" "length img' = length img"
    "\<forall>i\<in>set is. decode_channel img' (word_of_nat i) = Some (Inr None)"
    "\<forall>k<length img. outside_slots k \<longrightarrow> img' ! k = img ! k"
proof -
  have "\<exists>img'. clear_channels img is = Some img' \<and> length img' = length img \<and>
      (\<forall>i<128. i \<in> set is \<or> decode_channel img (word_of_nat i) = Some (Inr None) \<longrightarrow> decode_channel img' (word_of_nat i) = Some (Inr None)) \<and>
      (\<forall>k<length img. outside_slots k \<longrightarrow> img' ! k = img ! k)"
    using assms
  proof (induction "is" arbitrary: img)
    case (Cons i "is")
    have i: "unat (word_of_nat i :: u8) = i" "i < 128" using Cons.prems(2) by (simp_all add: unsigned_of_nat take_bit_nat_eq_self)
    obtain img1 where c: "clear_channel img (word_of_nat i) = Some img1" "length img1 = length img"
      "decode_channel img1 (word_of_nat i) = Some (Inr None)" "\<forall>k<length img. \<not> in_slot i k \<longrightarrow> img1 ! k = img ! k"
      using clear_channel_slot [OF Cons.prems(1), of "word_of_nat i"] i by metis
    obtain img' where r: "clear_channels img1 is = Some img'" "length img' = length img1"
      "\<forall>j<128. j \<in> set is \<or> decode_channel img1 (word_of_nat j) = Some (Inr None) \<longrightarrow> decode_channel img' (word_of_nat j) = Some (Inr None)"
      "\<forall>k<length img1. outside_slots k \<longrightarrow> img' ! k = img1 ! k"
      using Cons.IH [of img1] Cons.prems c(2) by auto
    have "decode_channel img1 (word_of_nat j) = decode_channel img (word_of_nat j)" if "j < 128" "j \<noteq> i" for j
    proof (rule decode_channel_cong)
      have j: "unat (word_of_nat j :: u8) = j" using that(1) by (simp add: unsigned_of_nat take_bit_nat_eq_self)
      then show "unat (word_of_nat j :: u8) < 128" using that(1) by simp
      show "\<forall>k<length img. in_slot (unat (word_of_nat j :: u8)) k \<longrightarrow> img1 ! k = img ! k"
        unfolding j using c(4) that i(2) in_slot_disjoint by blast
    qed (use c(2) Cons.prems(1) in simp_all)
    then have "\<forall>j<128. j \<in> set (i # is) \<or> decode_channel img (word_of_nat j) = Some (Inr None) \<longrightarrow> decode_channel img' (word_of_nat j) = Some (Inr None)"
      using r(3) c(3) by (metis set_ConsD)
    moreover have "\<forall>k<length img. outside_slots k \<longrightarrow> img' ! k = img ! k"
      using r(2,4) c(2,4) i(2) by (simp add: outside_slots_def)
    ultimately show ?case using r c by auto
  qed auto
  then show ?thesis using assms(2) that by blast
qed

text \<open>What slot \<open>i\<close> holds once the channels \<open>chs\<close> have been written over an image.\<close>

lemma encode_channels_into_slots:
  assumes "0x1800 \<le> length img" "\<forall>ch\<in>set chs. channel_storable ch \<and> unat (ch_index ch) < 128" "distinct (map ch_index chs)"
  obtains img' where "encode_channels_into chs img = Some (Inr (), img')" "length img' = length img"
    "\<forall>i<128. decode_channel img' (word_of_nat i) =
      (case find (\<lambda>ch. ch_index ch = word_of_nat i) chs of
         Some ch \<Rightarrow> Some (Inr (Some (stored_channel ch))) | None \<Rightarrow> decode_channel img (word_of_nat i))"
    "\<forall>k<length img. outside_slots k \<longrightarrow> img' ! k = img ! k"
proof -
  have "\<exists>img'. encode_channels_into chs img = Some (Inr (), img') \<and> length img' = length img \<and>
      (\<forall>i<128. decode_channel img' (word_of_nat i) =
        (case find (\<lambda>ch. ch_index ch = word_of_nat i) chs of
           Some ch \<Rightarrow> Some (Inr (Some (stored_channel ch))) | None \<Rightarrow> decode_channel img (word_of_nat i))) \<and>
      (\<forall>k<length img. outside_slots k \<longrightarrow> img' ! k = img ! k)"
    using assms
  proof (induction chs arbitrary: img)
    case (Cons ch chs)
    let ?i = "ucast (ch_index ch) :: u8"
    have ch: "channel_storable ch" "unat (ch_index ch) < 128" using Cons.prems(2) by simp_all
    note u = u8_u16_index [OF ch(2)]
    obtain img1 where c: "encode_channel ch img ?i = Some (Inr (), img1)" "length img1 = length img"
      "decode_channel img1 ?i = Some (Inr (Some (stored_channel ch)))"
      "\<forall>k<length img. \<not> in_slot (unat (ch_index ch)) k \<longrightarrow> img1 ! k = img ! k"
      using encode_channel_slot [OF Cons.prems(1) _ ch(1), of ?i] u ch(2) by metis
    obtain img' where r: "encode_channels_into chs img1 = Some (Inr (), img')" "length img' = length img1"
      "\<forall>i<128. decode_channel img' (word_of_nat i) =
        (case find (\<lambda>ch. ch_index ch = word_of_nat i) chs of
           Some ch \<Rightarrow> Some (Inr (Some (stored_channel ch))) | None \<Rightarrow> decode_channel img1 (word_of_nat i))"
      "\<forall>k<length img1. outside_slots k \<longrightarrow> img' ! k = img1 ! k"
      using Cons.IH [of img1] Cons.prems c(2) by auto
    have other: "decode_channel img1 (word_of_nat j) = decode_channel img (word_of_nat j)"
      if "j < 128" "j \<noteq> unat (ch_index ch)" for j
    proof (rule decode_channel_cong)
      have j: "unat (word_of_nat j :: u8) = j" using that(1) by (simp add: unsigned_of_nat take_bit_nat_eq_self)
      then show "unat (word_of_nat j :: u8) < 128" using that(1) by simp
      show "\<forall>k<length img. in_slot (unat (word_of_nat j :: u8)) k \<longrightarrow> img1 ! k = img ! k"
        unfolding j using c(4) that ch(2) in_slot_disjoint by blast
    qed (use c(2) Cons.prems(1) in simp_all)
    have "decode_channel img' (word_of_nat i) =
        (case find (\<lambda>ch. ch_index ch = word_of_nat i) (ch # chs) of
           Some ch \<Rightarrow> Some (Inr (Some (stored_channel ch))) | None \<Rightarrow> decode_channel img (word_of_nat i))" if "i < 128" for i
    proof (cases "i = unat (ch_index ch)")
      case True
      have "\<not> (\<exists>c. c \<in> set chs \<and> ch_index c = ch_index ch)" using Cons.prems(3) by (metis distinct.simps(2) imageI list.set_map list.simps(9))
      then have "find (\<lambda>c. ch_index c = ch_index ch) chs = None" by (simp add: find_None_iff)
      then show ?thesis using r(3) [rule_format, OF that] True c(3) by simp
    next
      case False
      have "unat (word_of_nat i :: u16) = i" using that by (simp add: unsigned_of_nat take_bit_nat_eq_self)
      then have "ch_index ch \<noteq> word_of_nat i" using False by auto
      then show ?thesis using r(3) [rule_format, OF that] by (simp add: other [OF that False] cong: option.case_cong)
    qed
    moreover have "\<forall>k<length img. outside_slots k \<longrightarrow> img' ! k = img ! k"
      using r(2,4) c(2,4) ch(2) by (simp add: outside_slots_def)
    moreover have "ch_index ch < ucast CHANNEL_COUNT"
      using ch(2) by (simp add: word_less_nat_alt CHANNEL_COUNT_def)
    ultimately show ?case using r(1,2) c(1,2) by auto
  qed auto
  then show ?thesis using that by blast
qed

lemma decode_from_slots:
  "\<forall>i\<in>set is. decode_channel img (word_of_nat i) = Some (Inr (f i)) \<Longrightarrow> decode_from img is = Some (Inr (List.map_filter f is))"
  by (induction "is") (auto simp: List.map_filter_simps split: option.splits)

text \<open>The channels of a plan in the order of the slots, as they are read back.\<close>

definition slots_of_plan :: "frequency_plan \<Rightarrow> channel list" where
  "slots_of_plan plan = List.map_filter (\<lambda>i. map_option stored_channel (plan_channel plan (word_of_nat i))) [0..<128]"

lemma encode_all_decode_all:
  assumes img: "0x1800 \<le> length img" and st: "\<forall>ch\<in>set (fp_channels plan). channel_storable ch \<and> unat (ch_index ch) < 128"
    and dist: "distinct (map ch_index (fp_channels plan))"
  obtains img' where "encode_all_channels plan img = Some (Inr (), img')" "length img' = length img"
    "\<forall>i<128. decode_channel img' (word_of_nat i) = Some (Inr (map_option stored_channel (plan_channel plan (word_of_nat i))))"
    "\<forall>k<length img. outside_slots k \<longrightarrow> img' ! k = img ! k"
proof -
  obtain img1 where c: "clear_channels img [0..<128] = Some img1" "length img1 = length img"
    "\<forall>i\<in>set [0..<128]. decode_channel img1 (word_of_nat i) = Some (Inr None)"
    "\<forall>k<length img. outside_slots k \<longrightarrow> img1 ! k = img ! k"
    by (rule clear_channels_slots [OF img, of "[0..<128]"]) simp
  have img1: "0x1800 \<le> length img1" using c(2) img by simp
  obtain img' where e: "encode_channels_into (fp_channels plan) img1 = Some (Inr (), img')" "length img' = length img1"
    "\<forall>i<128. decode_channel img' (word_of_nat i) =
      (case find (\<lambda>ch. ch_index ch = word_of_nat i) (fp_channels plan) of
         Some ch \<Rightarrow> Some (Inr (Some (stored_channel ch))) | None \<Rightarrow> decode_channel img1 (word_of_nat i))"
    "\<forall>k<length img1. outside_slots k \<longrightarrow> img' ! k = img1 ! k"
    by (rule encode_channels_into_slots [OF img1 st dist])
  have "encode_all_channels plan img = Some (Inr (), img')"
    by (simp add: encode_all_channels_def CHANNEL_COUNT_def c(1) e(1))
  moreover have "\<forall>i<128. decode_channel img' (word_of_nat i) = Some (Inr (map_option stored_channel (plan_channel plan (word_of_nat i))))"
    using c(3) e(3) by (auto simp: plan_channel_def split: option.splits)
  moreover have "\<forall>k<length img. outside_slots k \<longrightarrow> img' ! k = img ! k" using c(2,4) e(4) by simp
  ultimately show ?thesis using c(2) e(2) by (intro that [of img']) simp_all
qed

lemma decode_all_slots:
  assumes "\<forall>i<128. decode_channel img (word_of_nat i) = Some (Inr (map_option stored_channel (plan_channel plan (word_of_nat i))))"
  shows "decode_all_channels img =
    Some (Inr \<lparr>fp_name = [], fp_radio_model = None, fp_channels = slots_of_plan plan, fp_created = None\<rparr>)"
  using decode_from_slots [of "[0..<128]" img "\<lambda>i. map_option stored_channel (plan_channel plan (word_of_nat i))"] assms
  by (simp add: decode_all_channels_def CHANNEL_COUNT_def slots_of_plan_def)

subsection \<open>Validated plans\<close>

lemma uv5r_bands:
  assumes "allows_frequency baofeng_uv5r_constraints f \<or> allows_frequency baofeng_f8hp_constraints f"
  shows "f \<noteq> 0 \<and> unat f < 10 ^ 9"
proof -
  have b: "unat (freq_mhz 136) = 136000000" "unat (freq_mhz 174) = 174000000" "unat (freq_mhz 400) = 400000000"
    "unat (freq_mhz 520) = 520000000" by (simp_all add: freq_mhz_def unat_saturating_mul)
  then have "136000000 \<le> unat f \<and> unat f \<le> 174000000 \<or> 400000000 \<le> unat f \<and> unat f \<le> 520000000"
    using assms by (auto simp: allows_frequency_def baofeng_uv5r_constraints_def baofeng_f8hp_constraints_def word_le_nat_alt)
  then have "0 < unat f" "unat f < 10 ^ 9" by auto
  then show ?thesis by auto
qed

lemma validate_channel_no_error:
  assumes "c = baofeng_uv5r_constraints \<or> c = baofeng_f8hp_constraints" "\<forall>issue\<in>set (validate_channel ch c). \<not> is_error issue"
  shows "ch_rx_freq ch \<noteq> 0 \<and> unat (ch_rx_freq ch) < 10 ^ 9"
    and "\<forall>tx. ch_tx_freq ch = Some tx \<longrightarrow> tx \<noteq> 0 \<and> unat tx < 10 ^ 9"
    and "unat (ch_index ch) < 128"
proof -
  have no: "IssueError t \<notin> set (validate_channel ch c)" for t using assms(2) is_error.simps(1) by blast
  have "allows_frequency c (ch_rx_freq ch)" using no [of "RxOutsideBands (ch_index ch) (ch_rx_freq ch)"]
    by (simp add: validate_channel_def split: if_splits)
  then show "ch_rx_freq ch \<noteq> 0 \<and> unat (ch_rx_freq ch) < 10 ^ 9" using assms(1) by (metis uv5r_bands)
  have "allows_frequency c tx" if "ch_tx_freq ch = Some tx" for tx
    using no [of "TxOutsideBands (ch_index ch) tx"] that by (simp add: validate_channel_def split: if_splits)
  then show "\<forall>tx. ch_tx_freq ch = Some tx \<longrightarrow> tx \<noteq> 0 \<and> unat tx < 10 ^ 9" using assms(1) by (metis uv5r_bands)
  have "\<not> rc_max_channels c \<le> ch_index ch"
    using no [of "IndexExceedsMaximum (ch_index ch) (rc_max_channels c - 1)"] by (simp add: validate_channel_def split: if_splits)
  then show "unat (ch_index ch) < 128"
    using assms(1) by (auto simp: baofeng_uv5r_constraints_def baofeng_f8hp_constraints_def word_le_nat_alt not_le)
qed

definition aligned_channel :: "channel \<Rightarrow> bool" where
  "aligned_channel ch \<longleftrightarrow>
     unat (ch_rx_freq ch) mod 10 = 0 \<and> (case ch_tx_freq ch of None \<Rightarrow> True | Some tx \<Rightarrow> unat tx mod 10 = 0) \<and>
     tone_standard (ch_tone ch) \<and> name_storable (ch_name ch)"

lemma validated_storable:
  assumes "c = baofeng_uv5r_constraints \<or> c = baofeng_f8hp_constraints" "\<forall>issue\<in>set (validate_plan plan c). \<not> is_error issue"
    and "\<forall>ch\<in>set (fp_channels plan). aligned_channel ch"
  shows "\<forall>ch\<in>set (fp_channels plan). channel_storable ch \<and> unat (ch_index ch) < 128"
proof
  fix ch
  assume ch: "ch \<in> set (fp_channels plan)"
  then have "\<forall>issue\<in>set (validate_channel ch c). \<not> is_error issue" using assms(2) by (auto simp: validate_plan_def)
  from validate_channel_no_error [OF assms(1) this] assms(3) ch
  show "channel_storable ch \<and> unat (ch_index ch) < 128"
    by (auto simp: channel_storable_def aligned_channel_def freq_storable_def split: option.splits)
qed

subsection \<open>Properties\<close>

definition demo_plan :: frequency_plan where
  "demo_plan =
     \<lparr>fp_name = ascii ''demo'', fp_radio_model = None,
      fp_channels =
        [\<lparr>ch_index = 3, ch_name = ascii ''RPT'', ch_rx_freq = 146940000, ch_tx_freq = Some 146340000,
          ch_offset = OffMinus 600000, ch_tone = ToneDcs (DcsCode 23) PolInverted, ch_power = PowLow,
          ch_bandwidth = BwNarrow, ch_scan = ScanSkip, ch_busy_lock = True\<rparr>,
         \<lparr>ch_index = 0, ch_name = ascii ''CALL'', ch_rx_freq = 146520000, ch_tx_freq = None,
          ch_offset = OffNone, ch_tone = ToneNone, ch_power = PowHigh,
          ch_bandwidth = BwWide, ch_scan = ScanInclude, ch_busy_lock = False\<rparr>],
      fp_created = None\<rparr>"

text \<open>
  C13. A plan that validation passes without an error and that besides, which validation does not enforce, has frequencies that are multiples of
  ten hertz, tones of the standard tables, ASCII names of at most seven characters without outer blanks, and distinct memory
  locations, is encoded into any image that covers the main block. Decoding the image gives back the plan's channels in the order of the
  slots, each with its repeater offset recomputed from its two frequencies. No byte outside the channel and name slots changes.
\<close>

theorem validated_plan_survives_image:
  assumes "c = baofeng_uv5r_constraints \<or> c = baofeng_f8hp_constraints"
    and "\<forall>issue\<in>set (validate_plan plan c). \<not> is_error issue"
    and "\<forall>ch\<in>set (fp_channels plan). aligned_channel ch"
    and "distinct (map ch_index (fp_channels plan))"
    and "0x1800 \<le> length img"
  shows "\<exists>img'. encode_all_channels plan img = Some (Inr (), img') \<and> length img' = length img \<and>
    decode_all_channels img' =
      Some (Inr \<lparr>fp_name = [], fp_radio_model = None, fp_channels = slots_of_plan plan, fp_created = None\<rparr>) \<and>
    (\<forall>k<length img. outside_slots k \<longrightarrow> img' ! k = img ! k)"
  using encode_all_decode_all [OF assms(5) validated_storable [OF assms(1-3)] assms(4)] decode_all_slots by metis

lemma demo_plan_ok:
  "\<forall>issue\<in>set (validate_plan demo_plan baofeng_uv5r_constraints). \<not> is_error issue"
  "\<forall>ch\<in>set (fp_channels demo_plan). aligned_channel ch" "distinct (map ch_index (fp_channels demo_plan))"
proof -
  have mhz: "freq_mhz 136 = 136000000" "freq_mhz 174 = 174000000" "freq_mhz 400 = 400000000" "freq_mhz 520 = 520000000"
    by (simp_all add: freq_mhz_def saturating_mul_def)
  have "length (utf8 (ascii ''RPT'')) = 3" "length (utf8 (ascii ''CALL'')) = 4"
    by (simp_all add: utf8_def utf8_char_def ascii_def)
  then have "validate_plan demo_plan baofeng_uv5r_constraints = []"
    by (simp add: validate_plan_def validate_channel_def demo_plan_def baofeng_uv5r_constraints_def allows_frequency_def
        allows_power_level_def mhz)
  then show "\<forall>issue\<in>set (validate_plan demo_plan baofeng_uv5r_constraints). \<not> is_error issue" by simp
  have "name_storable (ascii ''RPT'')" "name_storable (ascii ''CALL'')"
    by (simp_all add: name_storable_def ascii_def str_trim_def is_whitespace_def)
  moreover have "(23 :: u16) \<in> set ALL_DCS_CODES" by (simp add: ALL_DCS_CODES_def)
  ultimately show "\<forall>ch\<in>set (fp_channels demo_plan). aligned_channel ch"
    by (simp add: demo_plan_def aligned_channel_def tone_standard_def)
  show "distinct (map ch_index (fp_channels demo_plan))" by (simp add: demo_plan_def)
qed

theorem validated_plan_survives_image_witness:
  "\<exists>img'. encode_all_channels demo_plan (image_new 0x1800) = Some (Inr (), img') \<and> length img' = 0x1800 \<and>
    decode_all_channels img' =
      Some (Inr \<lparr>fp_name = [], fp_radio_model = None, fp_channels = slots_of_plan demo_plan, fp_created = None\<rparr>) \<and>
    (\<forall>k<0x1800. outside_slots k \<longrightarrow> img' ! k = image_new 0x1800 ! k)"
  using validated_plan_survives_image [OF disjI1 [OF refl] demo_plan_ok, of "image_new 0x1800"] by (simp add: image_new_def)

text \<open>
  The tone words of the memory image. Every word that is recognised denotes one of the fifty CTCSS tones or the
  104 digital codes, in either polarity, and is written back unchanged; and every tone of the tables is stored as a word that reads back as the
  same tone. The multiplication and division by ten in single precision lose nothing.
\<close>

theorem tone_words_roundtrip:
  "(decode_tone raw \<noteq> ToneNone \<longrightarrow> tone_standard (decode_tone raw) \<and> encode_tone (decode_tone raw) = raw) \<and>
   (tone_standard tone \<longrightarrow> decode_tone (encode_tone tone) = tone)"
  using encode_decode_tone decode_encode_tone by blast

text \<open>
  What the constructor of a CTCSS tone accepts is wider than what the image can hold. A value that rounds up to a standard tone is
  accepted and kept as it was given, but the image stores the truncated number of tenths, one below the standard tone:
  programmed into a radio, the channel comes back with no tone at all.
\<close>

theorem rounded_up_tone_is_lost:
  assumes "ctcss_new v = Inr ct" and "f64_of_f32 (f32_mul v (f32_encode 10)) = Fin w" and "w < of_nat (ctcss_tenths v)"
  shows "ct = CtcssTone v \<and> decode_tone (encode_tone (ToneCtcss ct)) = ToneNone"
proof -
  have ct: "ct = CtcssTone v" and "list_ex (\<lambda>t. ctcss_tenths t = ctcss_tenths v) ALL_CTCSS_TONES"
    using assms(1) by (auto simp: ctcss_new_def Let_def split: if_splits)
  then obtain k where k: "k \<in> set CTCSS_TENTHS" "ctcss_tenths v = k"
    unfolding ALL_CTCSS_TONES_tenths list_ex_iff using tenths_bounds ctcss_tenths_of_tenths by fastforce
  have b: "670 \<le> k" "k \<le> 2541" using tenths_bounds [OF k(1)] by simp_all
  have kn: "(if w < 0 then - \<lfloor>- w + 1 / 2\<rfloor> else \<lfloor>w + 1 / 2\<rfloor>) = int k"
    using k(2) b assms(2) by (auto simp: ctcss_tenths_def min_def split: if_splits)
  have "0 \<le> w"
  proof (rule ccontr)
    assume "\<not> 0 \<le> w"
    then have "0 \<le> \<lfloor>- w + 1 / 2\<rfloor>" "- \<lfloor>- w + 1 / 2\<rfloor> = int k" using kn by simp_all
    then show False using b by linarith
  qed
  then have "\<lfloor>w + 1 / 2\<rfloor> = int k" using kn by simp
  then have "of_nat k \<le> w + 1 / 2" by (simp add: floor_eq_iff)
  then have "\<lfloor>w\<rfloor> = int k - 1" using assms(3) k(2) by (simp add: floor_eq_iff)
  then have "encode_tone (ToneCtcss ct) = word_of_nat (k - 1)"
    using b by (simp add: encode_tone_def ct assms(2) nat_diff_distrib')
  moreover define r where "r = (word_of_nat (k - 1) :: u16)"
  ultimately have e: "encode_tone (ToneCtcss ct) = r" by simp
  have u: "unat r = k - 1" unfolding r_def using b by (simp only: unsigned_of_nat) (simp add: take_bit_nat_eq_self)
  have "\<forall>k\<in>set CTCSS_TENTHS. k - 1 \<notin> set CTCSS_TENTHS" by (simp add: CTCSS_TENTHS_def)
  then have "unat r \<notin> set CTCSS_TENTHS" using k(1) u by simp
  moreover have "600 \<le> r" "r \<noteq> 0xFFFF" using u b by (auto simp: word_le_nat_alt)
  ultimately have "decode_tone (encode_tone (ToneCtcss ct)) = ToneNone" using decode_ctcss [of r] by (simp add: e)
  with ct show ?thesis by blast
qed

lemma tone_99_97:
  defines "v \<equiv> f32_encode (3199 / 32)"
  shows "f64_of_f32 (f32_mul v (f32_encode 10)) = Fin (15995 / 16)" "ctcss_tenths v = 1000" "ctcss_new v = Inr (CtcssTone v)"
proof -
  have two: "two_pow (- 5) = 1 / 32" "two_pow (- 4) = 1 / 16" "1000 < two_pow 128" by (simp_all add: two_pow_def)
  have "round_to 24 (- 149) (3199 / 32) = 3199 / 32"
    using round_to_dyadic [of 3199 24 "- 149" "- 5"] by (simp add: two)
  then have v: "f64_of_f32 v = Fin (3199 / 32)" unfolding v_def using f64_of_f32_encode [of "3199 / 32"] two(3) by simp
  have "round_to 24 (- 149) (15995 / 16) = 15995 / 16"
    using round_to_dyadic [of 15995 24 "- 149" "- 4"] by (simp add: two)
  then have "f64_of_f32 (f32_encode (15995 / 16)) = Fin (15995 / 16)" using f64_of_f32_encode [of "15995 / 16"] two(3) by simp
  then show w: "f64_of_f32 (f32_mul v (f32_encode 10)) = Fin (15995 / 16)"
    unfolding f32_mul_def v f64_of_f32_ten by simp
  have "\<lfloor>15995 / 16 + 1 / 2 :: rat\<rfloor> = 1000" by (simp add: floor_eq_iff)
  then show t: "ctcss_tenths v = 1000" by (simp add: ctcss_tenths_def w)
  have "1000 \<in> set CTCSS_TENTHS" by (simp add: CTCSS_TENTHS_def)
  then have "list_ex (\<lambda>t. ctcss_tenths t = 1000) ALL_CTCSS_TONES"
    unfolding ALL_CTCSS_TONES_tenths list_ex_iff set_map
    using ctcss_tenths_of_tenths [of 1000] by (intro bexI [of _ "ctcss_of_tenths 1000"] imageI) simp_all
  then show "ctcss_new v = Inr (CtcssTone v)" by (simp add: ctcss_new_def t)
qed

text \<open>
  Packed decimal holds eight digits of ten hertz. A frequency in steps of ten hertz is always encoded without an error, and what is
  read back is the frequency modulo one gigahertz: below that it is exact, at or above it the
  leading digits are dropped silently.
\<close>

theorem stored_frequency_modulo_gigahertz:
  assumes "freq \<noteq> 0" and "unat freq mod 10 = 0"
  shows "\<exists>bs. lbcd4_encode freq = Inr bs \<and> length bs = 4 \<and> lbcd4_decode bs = Inr (word_of_nat (unat freq mod 10 ^ 9))"
proof -
  obtain b0 b1 b2 b3 where "lbcd4_encode freq = Inr [b0, b1, b2, b3]" "b0 \<noteq> 0xFF"
    "lbcd4_decode [b0, b1, b2, b3] = Inr (word_of_nat (unat freq mod 10 ^ 9))" by (rule lbcd4_encode_decode [OF assms])
  then show ?thesis by (intro exI [of _ "[b0, b1, b2, b3]"]) simp
qed

subsection \<open>What any image decodes to\<close>

lemma lbcd4_digits_bound:
  "lbcd4_digits r bs = Inr r' \<Longrightarrow> unat r < 100 ^ k \<Longrightarrow> k + length bs \<le> 4 \<Longrightarrow> unat r' < 100 ^ (k + length bs)"
proof (induction bs arbitrary: r k)
  case (Cons b bs)
  define hi lo where "hi = (ucast (drop_bit 4 b AND 0x0F) :: u64)" and "lo = (ucast (b AND 0x0F) :: u64)"
  have d: "\<not> 9 < hi" "\<not> 9 < lo" "lbcd4_digits (r * 100 + hi * 10 + lo) bs = Inr r'"
    using Cons.prems(1) by (auto simp: Let_def hi_def lo_def split: if_splits)
  have "unat hi \<le> 9" "unat lo \<le> 9" using d(1,2) by (simp_all add: word_less_nat_alt not_less)
  moreover have "unat r < 100 ^ 3"
    by (rule less_le_trans [OF Cons.prems(2)], rule power_increasing) (use Cons.prems(3) in simp_all)
  ultimately have "unat (r * 100 + hi * 10 + lo) = unat r * 100 + unat hi * 10 + unat lo"
    by (simp add: unat_word_ariths)
  also have "\<dots> < 100 ^ Suc k" using \<open>unat hi \<le> 9\<close> \<open>unat lo \<le> 9\<close> Cons.prems(2) by simp
  finally show ?case using Cons.IH [OF d(3), of "Suc k"] Cons.prems(3) by simp
qed auto

lemma lbcd4_decode_bound:
  assumes "lbcd4_decode bs = Inr f" "length bs = 4"
  shows "unat f mod 10 = 0 \<and> unat f < 10 ^ 9"
proof (cases "bs = [0xFF, 0xFF, 0xFF, 0xFF]")
  case True
  then show ?thesis using assms(1) by (simp add: lbcd4_decode_def)
next
  case False
  then obtain r where r: "lbcd4_digits 0 (rev bs) = Inr r" "f = r * 10"
    using assms(1) by (auto simp: lbcd4_decode_def split: sum.splits)
  have "unat r < 100 ^ 4" using lbcd4_digits_bound [OF r(1), of 0] assms(2) by simp
  then show ?thesis using r(2) by (simp add: unat_word_ariths)
qed

definition channel_decoded :: "channel \<Rightarrow> bool" where
  "channel_decoded ch \<longleftrightarrow>
     unat (ch_index ch) < 128 \<and>
     unat (ch_rx_freq ch) mod 10 = 0 \<and> unat (ch_rx_freq ch) < 10 ^ 9 \<and>
     (case ch_tx_freq ch of None \<Rightarrow> True | Some tx \<Rightarrow> unat tx mod 10 = 0 \<and> unat tx < 10 ^ 9) \<and>
     ch_offset ch = derived_offset (ch_rx_freq ch) (ch_tx_freq ch) \<and>
     tone_standard (ch_tone ch) \<and>
     length (ch_name ch) \<le> 7 \<and> list_all (\<lambda>c. 0 < c \<and> c < 255) (ch_name ch)"

lemma str_trim_subset: "set (str_trim s) \<subseteq> set s" "length (str_trim s) \<le> length s"
proof -
  show "set (str_trim s) \<subseteq> set s" by (auto simp: str_trim_def dest!: set_dropWhileD)
  show "length (str_trim s) \<le> length s"
    unfolding str_trim_def by (metis le_trans length_dropWhile_le length_rev)
qed

lemma decode_name_chars:
  assumes "length bs \<le> 7"
  shows "length (decode_name bs) \<le> 7" "list_all (\<lambda>c. 0 < c \<and> c < 255) (decode_name bs)"
proof -
  let ?t = "takeWhile (\<lambda>b :: u8. b \<noteq> 0xFF \<and> b \<noteq> 0x00) bs"
  show "length (decode_name bs) \<le> 7"
    using str_trim_subset(2) [of "map unat ?t"] length_takeWhile_le [of "\<lambda>b. b \<noteq> 0xFF \<and> b \<noteq> 0x00" bs] assms
    by (simp add: decode_name_def)
  have "0 < unat b \<and> unat b < 255" if "b \<in> set ?t" for b
  proof -
    have b: "b \<noteq> 0xFF" "b \<noteq> 0" using set_takeWhileD [OF that] by simp_all
    then have "unat b \<noteq> 255" "unat b \<noteq> 0" by (auto simp: word_unat_eq_iff)
    moreover have "unat b < 256" using unsigned_less [of b] by simp
    ultimately show ?thesis by linarith
  qed
  then have "\<forall>c\<in>set (map unat ?t). 0 < c \<and> c < 255" by auto
  then show "list_all (\<lambda>c. 0 < c \<and> c < 255) (decode_name bs)"
    unfolding list_all_iff decode_name_def using str_trim_subset(1) by blast
qed

lemma pick_tone_standard: "tone_standard (pick_tone rx tx)"
  using encode_decode_tone(1) by (simp add: pick_tone_def Let_def) (simp add: tone_standard_def)

lemma decode_channel_typed:
  assumes "decode_channel img i = Some (Inr (Some ch))" "unat i < 128"
  shows "channel_decoded ch \<and> ch_index ch = ucast i"
proof -
  obtain d where d: "read_bytes img (channel_addr i) 16 = Some d" and "byte_at d 0 \<noteq> 0xFF"
    using assms(1) by (auto simp: decode_channel_def split: option.splits if_splits)
  then obtain rx where rx: "lbcd4_decode [byte_at d 0, byte_at d 1, byte_at d 2, byte_at d 3] = Inr rx"
    using assms(1) by (auto simp: decode_channel_def split: sum.splits)
  then obtain tx off where tx: "decode_tx i rx [byte_at d 4, byte_at d 5, byte_at d 6, byte_at d 7] = Inr (tx, off)"
    using assms(1) d \<open>byte_at d 0 \<noteq> 0xFF\<close> by (auto simp: decode_channel_def split: sum.splits)
  then obtain nm where nm: "read_bytes img (name_addr i) NAME_LENGTH = Some nm"
    using assms(1) d rx \<open>byte_at d 0 \<noteq> 0xFF\<close> by (auto simp: decode_channel_def Let_def split: option.splits)
  have ch: "ch_index ch = ucast i" "ch_name ch = decode_name nm" "ch_rx_freq ch = rx" "ch_tx_freq ch = tx" "ch_offset ch = off"
    "ch_tone ch = pick_tone (from_le_bytes16 (byte_at d 8) (byte_at d 9)) (from_le_bytes16 (byte_at d 10) (byte_at d 11))"
    using assms(1) d rx tx nm \<open>byte_at d 0 \<noteq> 0xFF\<close> by (auto simp: decode_channel_def Let_def)
  have "length nm = 7" using nm by (simp add: read_bytes_Some_iff NAME_LENGTH_def)
  moreover have "off = derived_offset rx tx \<and> (case tx of None \<Rightarrow> True | Some t \<Rightarrow> unat t mod 10 = 0 \<and> unat t < 10 ^ 9)"
    using tx lbcd4_decode_bound [of "[byte_at d 4, byte_at d 5, byte_at d 6, byte_at d 7]"]
    by (auto simp: decode_tx_def derived_offset_def split: if_splits sum.splits)
  moreover have "unat (ucast i :: u16) = unat i"
  proof -
    have "unat i < 2 ^ 16" by (rule less_trans [OF unsigned_less]) simp
    then show ?thesis by (simp add: unsigned_ucast_eq take_bit_nat_eq_self)
  qed
  ultimately show ?thesis
    using assms(2) ch lbcd4_decode_bound [OF rx] decode_name_chars [of nm] pick_tone_standard
    by (simp add: channel_decoded_def)
qed

lemma decode_from_typed:
  "decode_from img is = Some (Inr chs) \<Longrightarrow> sorted_wrt (<) is \<Longrightarrow> \<forall>i\<in>set is. i < 128 \<Longrightarrow>
    (\<forall>ch\<in>set chs. channel_decoded ch \<and> unat (ch_index ch) \<in> set is) \<and> sorted_wrt (<) (map ch_index chs)"
proof (induction "is" arbitrary: chs)
  case (Cons i "is")
  obtain slot chs' where s: "decode_channel img (word_of_nat i) = Some (Inr slot)" "decode_from img is = Some (Inr chs')"
    "chs = (case slot of Some ch \<Rightarrow> ch # chs' | None \<Rightarrow> chs')"
    using Cons.prems(1) by (auto split: option.splits sum.splits)
  have IH: "\<forall>ch\<in>set chs'. channel_decoded ch \<and> unat (ch_index ch) \<in> set is" "sorted_wrt (<) (map ch_index chs')"
    using Cons.IH [OF s(2)] Cons.prems(2,3) by simp_all
  show ?case
  proof (cases slot)
    case None
    then show ?thesis using IH s(3) by auto
  next
    case (Some ch)
    have i: "unat (word_of_nat i :: u8) = i" "i < 128" using Cons.prems(3) by (simp_all add: unsigned_of_nat take_bit_nat_eq_self)
    have t: "channel_decoded ch" "ch_index ch = ucast (word_of_nat i :: u8)"
      using decode_channel_typed [of img "word_of_nat i" ch] s(1) Some i by simp_all
    then have u: "unat (ch_index ch) = i" using i by (simp add: unsigned_of_nat take_bit_nat_eq_self)
    have "ch_index ch < ch_index c" if "c \<in> set chs'" for c
      using IH(1) that Cons.prems(2) u by (auto simp: word_less_nat_alt)
    then show ?thesis using Some s(3) t(1) u IH by auto
  qed
qed auto

text \<open>
  C31. Decoding is safe on arbitrary bytes: an image that covers the main block never makes it panic, and the channels it
  returns are well formed whatever the bytes are. Slots are below 128 and strictly increasing, frequencies are multiples of ten hertz below a
  gigahertz, the offset agrees with the two frequencies, the tone is one of the standard tables and the name has at most seven
  characters, none of them a filler byte.
\<close>

theorem decoded_channels_well_formed:
  assumes "0x1800 \<le> length img"
  shows "\<exists>r. decode_all_channels img = Some r \<and>
    (\<forall>plan. r = Inr plan \<longrightarrow>
      (\<forall>ch\<in>set (fp_channels plan). channel_decoded ch) \<and> sorted_wrt (<) (map ch_index (fp_channels plan)))"
proof -
  have c: "decode_channel img (word_of_nat i) \<noteq> None" if "i < 128" for i
  proof -
    have "unat (word_of_nat i :: u8) = i" using that by (simp add: unsigned_of_nat take_bit_nat_eq_self)
    then have "read_bytes img (channel_addr (word_of_nat i)) 16 \<noteq> None" "read_bytes img (name_addr (word_of_nat i)) NAME_LENGTH \<noteq> None"
      using that assms read_bytes_in [of "channel_addr (word_of_nat i)" 16 img] read_bytes_in [of "name_addr (word_of_nat i)" NAME_LENGTH img]
      by (simp_all add: NAME_LENGTH_def)
    then show ?thesis by (auto simp: decode_channel_def Let_def split: sum.splits)
  qed
  have "decode_from img is \<noteq> None" if "\<forall>i\<in>set is. i < 128" for "is"
    using that by (induction "is") (auto dest!: c split: option.splits sum.splits)
  then obtain r where r: "decode_from img [0..<128] = Some r" by fastforce
  show ?thesis
  proof (cases r)
    case (Inl e)
    then show ?thesis using r by (simp add: decode_all_channels_def CHANNEL_COUNT_def)
  next
    case (Inr chs)
    then show ?thesis
      using r decode_from_typed [of img "[0..<128]" chs] by (simp add: decode_all_channels_def CHANNEL_COUNT_def)
  qed
qed

theorem decoded_channels_well_formed_witness:
  "\<exists>r. decode_all_channels (image_new 0x1800) = Some r \<and>
    (\<forall>plan. r = Inr plan \<longrightarrow>
      (\<forall>ch\<in>set (fp_channels plan). channel_decoded ch) \<and> sorted_wrt (<) (map ch_index (fp_channels plan)))"
  by (rule decoded_channels_well_formed) (simp add: image_new_def)

end
