(* ===== verification/Baofeng_Protocol.thy ===== *)
theory Baofeng_Protocol
  imports Baofeng_Codec
begin

unbundle bit_operations_syntax

section \<open>The UV-5R clone protocol\<close>

text \<open>
  Crate \<open>syntonia\<close>, \<open>serial.rs\<close>, \<open>baofeng/constants.rs\<close>, \<open>ident.rs\<close>, \<open>variant.rs\<close>, \<open>protocol.rs\<close> and \<open>detect.rs\<close>: the driver that puts a
  radio into programming mode, identifies it and transfers its memory over a serial port.

  The serial port is a library behind the trait \<open>SerialPort\<close>: a record of its four operations on a port state of any type, each
  returning an I/O error or a result and the next port state. A read of \<open>n\<close> bytes fills a buffer of \<open>n\<close> zero bytes (\<open>fill_buf\<close>). The
  \<open>?\<close> operator is \<open>and_then\<close>. Sleeping has no effect on the model. A panic, possible only in the image accesses of a
  transfer, is \<open>None\<close>; the address loops of a transfer carry a bound, \<open>LOOP_FUEL\<close>, far above the number of
  blocks of the memory, and running out of it is \<open>None\<close> as well.
\<close>

subsection \<open>Constants (\<open>constants.rs\<close>)\<close>

definition ACK :: u8 where "ACK = 0x06"

definition CMD_IDENT :: u8 where "CMD_IDENT = 0x02"

definition CMD_READ :: u8 where "CMD_READ = 0x53"

definition CMD_READ_RESPONSE :: u8 where "CMD_READ_RESPONSE = 0x58"

definition CMD_WRITE :: u8 where "CMD_WRITE = 0x58"

definition IDENT_TERMINATOR :: u8 where "IDENT_TERMINATOR = 0xDD"

definition MAIN_BLOCK_START :: u16 where "MAIN_BLOCK_START = 0x0000"

definition MAIN_BLOCK_END :: u16 where "MAIN_BLOCK_END = 0x1800"

definition AUX_BLOCK_START :: u16 where "AUX_BLOCK_START = 0x1E80"

definition AUX_BLOCK_END :: u16 where "AUX_BLOCK_END = 0x2000"

definition READ_BLOCK_SIZE :: u8 where "READ_BLOCK_SIZE = 0x40"

definition AUX_READ_BLOCK_SIZE :: u8 where "AUX_READ_BLOCK_SIZE = 0x10"

definition WRITE_BLOCK_SIZE :: u8 where "WRITE_BLOCK_SIZE = 0x10"

definition READ_TIMEOUT :: duration where "READ_TIMEOUT = from_millis 1500"

definition MAX_RETRIES :: u8 where "MAX_RETRIES = 3"

definition FORBIDDEN_RANGES :: "(u16 \<times> u16) list" where
  "FORBIDDEN_RANGES = [(0x1F00, 0x1F60), (0x1F70, 0x1F80), (0x1F90, 0x1FC0), (0x1FD0, 0x2000)]"

definition UPLOAD_RANGES_MAIN :: "(u16 \<times> u16) list" where
  "UPLOAD_RANGES_MAIN = [(0x0000, 0x0CF0), (0x0D00, 0x0DF0), (0x0E00, 0x1800)]"

definition UPLOAD_RANGES_AUX :: "(u16 \<times> u16) list" where
  "UPLOAD_RANGES_AUX = [(0x1EE0, 0x1EF0), (0x1F60, 0x1F70), (0x1F80, 0x1F90), (0x1FC0, 0x1FD0)]"

subsection \<open>Identification (\<open>ident.rs\<close>, \<open>variant.rs\<close>)\<close>

record radio_ident =
  ri_raw_bytes :: bytes
  ri_normalized :: bytes
  ri_firmware_prefix :: ustring

definition is_ascii_graphic :: "u8 \<Rightarrow> bool" where
  "is_ascii_graphic b \<longleftrightarrow> 0x21 \<le> b \<and> b \<le> 0x7E"

definition ident_from_raw :: "bytes \<Rightarrow> radio_ident option" where
  "ident_from_raw raw =
     (let normalized =
        (if length raw = 8 then Some raw
         else if length raw = 12 then
           Some [byte_at raw 0, byte_at raw 3, byte_at raw 5, byte_at raw 7, byte_at raw 8, byte_at raw 9,
                 byte_at raw 10, byte_at raw 11]
         else None)
      in map_option (\<lambda>n.
           \<lparr>ri_raw_bytes = raw, ri_normalized = n,
            ri_firmware_prefix = map (\<lambda>b. if is_ascii_graphic b then unat b else 63) (take 6 n)\<rparr>) normalized)"

definition MAGIC_UV5R_291 :: bytes where "MAGIC_UV5R_291 = [0x50, 0xBB, 0xFF, 0x20, 0x12, 0x04, 0x11]"

definition MAGIC_UV5R_ORIG :: bytes where "MAGIC_UV5R_ORIG = [0x50, 0xBB, 0xFF, 0x20, 0x12, 0x01, 0x11]"

definition MAGIC_BF_F8HP :: bytes where "MAGIC_BF_F8HP = [0x50, 0xBB, 0xFF, 0x20, 0x14, 0x04, 0x13]"

definition MAGIC_SETS :: "bytes list" where "MAGIC_SETS = [MAGIC_UV5R_291, MAGIC_BF_F8HP, MAGIC_UV5R_ORIG]"

datatype radio_variant = Uv5r | Uv5rOriginal | BfF8hp | Uv5rmPlus

record power_mapping =
  pm_level :: power_level
  pm_watts :: rat
  pm_eeprom_bits :: u8

record variant_config =
  vc_variant :: radio_variant
  vc_magic :: bytes
  vc_power_levels :: "power_mapping list"
  vc_has_aux_block :: bool
  vc_needs_aux_warmup :: bool
  vc_channel_count :: u8
  vc_max_name_length :: usize
  vc_baud_rate :: u32

definition vc_power_from_bits :: "variant_config \<Rightarrow> u8 \<Rightarrow> power_level option" where
  "vc_power_from_bits c bits = map_option pm_level (find (\<lambda>m. pm_eeprom_bits m = bits) (vc_power_levels c))"

definition vc_bits_from_power :: "variant_config \<Rightarrow> power_level \<Rightarrow> u8 option" where
  "vc_bits_from_power c level = map_option pm_eeprom_bits (find (\<lambda>m. pm_level m = level) (vc_power_levels c))"

definition uv5r_config :: variant_config where
  "uv5r_config =
     \<lparr>vc_variant = Uv5r, vc_magic = MAGIC_UV5R_291,
      vc_power_levels =
        [\<lparr>pm_level = PowHigh, pm_watts = 4, pm_eeprom_bits = 0\<rparr>,
         \<lparr>pm_level = PowLow, pm_watts = 1, pm_eeprom_bits = 1\<rparr>,
         \<lparr>pm_level = PowHigh, pm_watts = 4, pm_eeprom_bits = 2\<rparr>],
      vc_has_aux_block = False, vc_needs_aux_warmup = False,
      vc_channel_count = 128, vc_max_name_length = 7, vc_baud_rate = 9600\<rparr>"

definition uv5r_original_config :: variant_config where
  "uv5r_original_config = uv5r_config\<lparr>vc_variant := Uv5rOriginal, vc_magic := MAGIC_UV5R_ORIG\<rparr>"

definition bf_f8hp_config :: variant_config where
  "bf_f8hp_config =
     \<lparr>vc_variant = BfF8hp, vc_magic = MAGIC_BF_F8HP,
      vc_power_levels =
        [\<lparr>pm_level = PowHigh, pm_watts = 8, pm_eeprom_bits = 0\<rparr>,
         \<lparr>pm_level = PowLow, pm_watts = 1, pm_eeprom_bits = 1\<rparr>,
         \<lparr>pm_level = PowMid, pm_watts = 4, pm_eeprom_bits = 2\<rparr>],
      vc_has_aux_block = True, vc_needs_aux_warmup = True,
      vc_channel_count = 128, vc_max_name_length = 7, vc_baud_rate = 9600\<rparr>"

definition uv5rm_plus_config :: variant_config where
  "uv5rm_plus_config =
     \<lparr>vc_variant = Uv5rmPlus, vc_magic = MAGIC_BF_F8HP,
      vc_power_levels =
        [\<lparr>pm_level = PowHigh, pm_watts = 10, pm_eeprom_bits = 0\<rparr>,
         \<lparr>pm_level = PowLow, pm_watts = 1, pm_eeprom_bits = 1\<rparr>,
         \<lparr>pm_level = PowMid, pm_watts = 5, pm_eeprom_bits = 2\<rparr>],
      vc_has_aux_block = True, vc_needs_aux_warmup = True,
      vc_channel_count = 128, vc_max_name_length = 7, vc_baud_rate = 9600\<rparr>"

definition UV5R_PREFIXES :: "string list" where
  "UV5R_PREFIXES = [''BFB'', ''BFS'', ''N5R-2'', ''N5R2'', ''N5RV'', ''BTS'', ''D5R2'', ''B5R2'']"

definition BF_F8HP_PREFIXES :: "string list" where
  "BF_F8HP_PREFIXES = [''BFP3V3 F'', ''N5R-3'', ''N5R3'', ''F5R3'', ''BFT'', ''BFF'']"

text \<open>\<open>hex_encode\<close>: two upper-case digits per byte, separated by blanks.\<close>

definition hex_digit :: "nat \<Rightarrow> nat" where
  "hex_digit d = (if d < 10 then 48 + d else 55 + d)"

fun hex_encode :: "bytes \<Rightarrow> ustring" where
  "hex_encode [] = []"
| "hex_encode [b] = [hex_digit (unat b div 16), hex_digit (unat b mod 16)]"
| "hex_encode (b # bs) = hex_digit (unat b div 16) # hex_digit (unat b mod 16) # 32 # hex_encode bs"

datatype variant_error = UnknownVariant ustring

definition has_prefix :: "bytes \<Rightarrow> string \<Rightarrow> bool" where
  "has_prefix bs pfx \<longleftrightarrow> take (length pfx) bs = map of_char pfx"

definition identify_variant :: "radio_ident \<Rightarrow> variant_error + variant_config" where
  "identify_variant ident =
     (if list_ex (has_prefix (ri_normalized ident)) BF_F8HP_PREFIXES then Inr bf_f8hp_config
      else if list_ex (has_prefix (ri_normalized ident)) UV5R_PREFIXES then Inr uv5r_config
      else Inl (UnknownVariant (hex_encode (ri_raw_bytes ident))))"

subsection \<open>Block plans (\<open>protocol.rs\<close>)\<close>

record block_op =
  bo_addr :: u16
  bo_size :: u16
  bo_is_warmup :: bool

definition BLOCK_SIZE :: u16 where "BLOCK_SIZE = 16"

definition DROPPED_BYTE_ADDR :: u16 where "DROPPED_BYTE_ADDR = 0x1FCF"

definition LOOP_FUEL :: nat where "LOOP_FUEL = 4096"

text \<open>The addresses a loop \<open>while addr < stop { ...; addr += step }\<close> visits.\<close>

fun loop_addrs :: "nat \<Rightarrow> u16 \<Rightarrow> u16 \<Rightarrow> u16 \<Rightarrow> u16 list" where
  "loop_addrs 0 addr stop step = []"
| "loop_addrs (Suc fuel) addr stop step =
     (if addr < stop then addr # loop_addrs fuel (addr + step) stop step else [])"

definition plain_op :: "u16 \<Rightarrow> block_op" where
  "plain_op addr = \<lparr>bo_addr = addr, bo_size = BLOCK_SIZE, bo_is_warmup = False\<rparr>"

definition aux_ops :: "u16 \<Rightarrow> block_op list" where
  "aux_ops aux_addr =
     (let block_end = aux_addr + BLOCK_SIZE
      in if aux_addr \<le> DROPPED_BYTE_ADDR \<and> DROPPED_BYTE_ADDR < block_end then
           let before_size = DROPPED_BYTE_ADDR - aux_addr;
               after_start = DROPPED_BYTE_ADDR + 1;
               after_size = block_end - after_start
           in (if 0 < before_size then [\<lparr>bo_addr = aux_addr, bo_size = before_size, bo_is_warmup = False\<rparr>] else []) @
              [\<lparr>bo_addr = DROPPED_BYTE_ADDR, bo_size = 1, bo_is_warmup = False\<rparr>] @
              (if 0 < after_size then [\<lparr>bo_addr = after_start, bo_size = after_size, bo_is_warmup = False\<rparr>] else [])
         else [plain_op aux_addr])"

definition download_plan :: "variant_config \<Rightarrow> block_op list" where
  "download_plan config =
     map plain_op (loop_addrs LOOP_FUEL MAIN_BLOCK_START MAIN_BLOCK_END BLOCK_SIZE) @
     (if vc_has_aux_block config then
        (if vc_needs_aux_warmup config
         then [\<lparr>bo_addr = AUX_BLOCK_START, bo_size = BLOCK_SIZE, bo_is_warmup = True\<rparr>] else []) @
        concat (map aux_ops (loop_addrs LOOP_FUEL AUX_BLOCK_START AUX_BLOCK_END BLOCK_SIZE))
      else [])"

definition upload_plan :: "variant_config \<Rightarrow> block_op list" where
  "upload_plan config =
     map plain_op (loop_addrs LOOP_FUEL MAIN_BLOCK_START MAIN_BLOCK_END BLOCK_SIZE) @
     (if vc_has_aux_block config
      then map plain_op (loop_addrs LOOP_FUEL AUX_BLOCK_START AUX_BLOCK_END BLOCK_SIZE)
      else [])"

subsection \<open>The driver (\<open>serial.rs\<close>, \<open>protocol.rs\<close>)\<close>

datatype io_error = TimedOut | UnexpectedEof | WouldBlock | OtherIo string

record 'p serial_port =
  sp_write_all :: "bytes \<Rightarrow> 'p \<Rightarrow> (io_error + unit) \<times> 'p"
  sp_read_exact :: "usize \<Rightarrow> 'p \<Rightarrow> (io_error + bytes) \<times> 'p"
  sp_set_timeout :: "duration \<Rightarrow> 'p \<Rightarrow> (io_error + unit) \<times> 'p"
  sp_flush :: "'p \<Rightarrow> (io_error + unit) \<times> 'p"

datatype protocol_error =
    SerialIo io_error
  | Timeout
  | BadAck u8 u8
  | BadResponseHeader u16
  | IdentFailed
  | ForbiddenAddress u16
  | RetryExhausted u16 u8 protocol_error
  | ImageTooShort usize usize

type_synonym ('p, 'a) proto = "'p \<Rightarrow> (protocol_error + 'a) \<times> 'p"

definition and_then :: "('p \<Rightarrow> ('e + 'a) \<times> 'p) \<Rightarrow> ('a \<Rightarrow> 'p \<Rightarrow> ('e + 'b) \<times> 'p) \<Rightarrow> 'p \<Rightarrow> ('e + 'b) \<times> 'p" where
  "and_then f g p = (case f p of (Inl e, p') \<Rightarrow> (Inl e, p') | (Inr x, p') \<Rightarrow> g x p')"

definition ok :: "'a \<Rightarrow> 'p \<Rightarrow> ('e + 'a) \<times> 'p" where
  "ok x p = (Inr x, p)"

definition err :: "'e \<Rightarrow> 'p \<Rightarrow> ('e + 'a) \<times> 'p" where
  "err e p = (Inl e, p)"

definition serial_io :: "('p \<Rightarrow> (io_error + 'a) \<times> 'p) \<Rightarrow> ('p, 'a) proto" where
  "serial_io f p = (case f p of (Inl e, p') \<Rightarrow> (Inl (SerialIo e), p') | (Inr x, p') \<Rightarrow> (Inr x, p'))"

definition fill_buf :: "usize \<Rightarrow> bytes \<Rightarrow> bytes" where
  "fill_buf n bs = take n (bs @ replicate n 0)"

definition read_exact_timeout :: "'p serial_port \<Rightarrow> usize \<Rightarrow> ('p, bytes) proto" where
  "read_exact_timeout P n p =
     (case sp_read_exact P n p of
        (Inr bs, p') \<Rightarrow> (Inr (fill_buf n bs), p')
      | (Inl TimedOut, p') \<Rightarrow> (Inl Timeout, p')
      | (Inl e, p') \<Rightarrow> (Inl (SerialIo e), p'))"

definition read_ack :: "'p serial_port \<Rightarrow> ('p, unit) proto" where
  "read_ack P =
     and_then (read_exact_timeout P 1) (\<lambda>byte.
       if byte_at byte 0 \<noteq> ACK then err (BadAck ACK (byte_at byte 0)) else ok ())"

definition send_ack :: "'p serial_port \<Rightarrow> ('p, unit) proto" where
  "send_ack P = serial_io (sp_write_all P [ACK])"

fun send_each :: "'p serial_port \<Rightarrow> bytes \<Rightarrow> ('p, unit) proto" where
  "send_each P [] = ok ()"
| "send_each P (b # bs) = and_then (serial_io (sp_write_all P [b])) (\<lambda>_. send_each P bs)"

definition enter_programming_mode :: "'p serial_port \<Rightarrow> bytes \<Rightarrow> ('p, unit) proto" where
  "enter_programming_mode P magic =
     and_then (serial_io (sp_set_timeout P READ_TIMEOUT)) (\<lambda>_.
     and_then (send_each P magic) (\<lambda>_.
     and_then (serial_io (sp_flush P)) (\<lambda>_.
     read_ack P)))"

function (sequential) read_ident :: "'p serial_port \<Rightarrow> bytes \<Rightarrow> ('p, bytes) proto" where
  "read_ident P buf p =
     (case read_exact_timeout P 1 p of
        (Inl e, p') \<Rightarrow> (Inl e, p')
      | (Inr byte, p') \<Rightarrow>
          if byte_at byte 0 = IDENT_TERMINATOR then (Inr buf, p')
          else if 16 < length (buf @ [byte_at byte 0]) then (Inl IdentFailed, p')
          else read_ident P (buf @ [byte_at byte 0]) p')"
  by pat_completeness auto

termination read_ident
  by (relation "measure (\<lambda>(P, buf, p). 17 - length buf)") auto

declare read_ident.simps [simp del]

definition identify :: "'p serial_port \<Rightarrow> ('p, radio_ident) proto" where
  "identify P =
     and_then (serial_io (sp_write_all P [CMD_IDENT])) (\<lambda>_.
     and_then (read_ident P []) (\<lambda>buf.
       case ident_from_raw buf of
         None \<Rightarrow> err IdentFailed
       | Some ident \<Rightarrow>
           and_then (send_ack P) (\<lambda>_.
           and_then (read_ack P) (\<lambda>_.
           ok ident))))"

definition addr_h :: "u16 \<Rightarrow> u8" where "addr_h addr = ucast (drop_bit 8 addr)"

definition addr_l :: "u16 \<Rightarrow> u8" where "addr_l addr = ucast (addr AND 0xFF)"

definition read_block :: "'p serial_port \<Rightarrow> u16 \<Rightarrow> u8 \<Rightarrow> ('p, bytes) proto" where
  "read_block P addr len =
     and_then (serial_io (sp_write_all P [CMD_READ, addr_h addr, addr_l addr, len])) (\<lambda>_.
     and_then (read_exact_timeout P 4) (\<lambda>header.
       if byte_at header 0 \<noteq> CMD_READ_RESPONSE \<or> byte_at header 1 \<noteq> addr_h addr \<or>
          byte_at header 2 \<noteq> addr_l addr \<or> byte_at header 3 \<noteq> len
       then err (BadResponseHeader addr)
       else
         and_then (read_exact_timeout P (unat len)) (\<lambda>data.
         and_then (send_ack P) (\<lambda>_.
         ok data))))"

definition is_forbidden :: "u16 \<Rightarrow> usize \<Rightarrow> bool" where
  "is_forbidden addr len \<longleftrightarrow>
     (let stop = saturating_add addr (if len < 2 ^ 16 then word_of_nat len else - 1)
      in list_ex (\<lambda>(f_start, f_end). addr < f_end \<and> f_start < stop) FORBIDDEN_RANGES)"

definition write_block :: "'p serial_port \<Rightarrow> u16 \<Rightarrow> bytes \<Rightarrow> ('p, unit) proto" where
  "write_block P addr data =
     (if is_forbidden addr (length data) then err (ForbiddenAddress addr)
      else
        and_then (serial_io (sp_write_all P (CMD_WRITE # addr_h addr # addr_l addr # word_of_nat (length data) # data))) (\<lambda>_.
        read_ack P))"

text \<open>The attempts of a block operation: \<open>n\<close> further ones are allowed after this one.\<close>

fun read_attempts :: "'p serial_port \<Rightarrow> u16 \<Rightarrow> u8 \<Rightarrow> nat \<Rightarrow> ('p, bytes) proto" where
  "read_attempts P addr len 0 p =
     (case read_block P addr len p of
        (Inr data, p') \<Rightarrow> (Inr data, p')
      | (Inl e, p') \<Rightarrow> (Inl (RetryExhausted addr MAX_RETRIES e), p'))"
| "read_attempts P addr len (Suc n) p =
     (case read_block P addr len p of
        (Inr data, p') \<Rightarrow> (Inr data, p')
      | (Inl _, p') \<Rightarrow> read_attempts P addr len n p')"

definition read_block_with_retry :: "'p serial_port \<Rightarrow> u16 \<Rightarrow> u8 \<Rightarrow> ('p, bytes) proto" where
  "read_block_with_retry P addr len = read_attempts P addr len (unat MAX_RETRIES - 1)"

fun write_attempts :: "'p serial_port \<Rightarrow> u16 \<Rightarrow> bytes \<Rightarrow> nat \<Rightarrow> ('p, unit) proto" where
  "write_attempts P addr data 0 p =
     (case write_block P addr data p of
        (Inr u, p') \<Rightarrow> (Inr u, p')
      | (Inl (ForbiddenAddress _), p') \<Rightarrow> (Inl (ForbiddenAddress addr), p')
      | (Inl e, p') \<Rightarrow> (Inl (RetryExhausted addr MAX_RETRIES e), p'))"
| "write_attempts P addr data (Suc n) p =
     (case write_block P addr data p of
        (Inr u, p') \<Rightarrow> (Inr u, p')
      | (Inl (ForbiddenAddress _), p') \<Rightarrow> (Inl (ForbiddenAddress addr), p')
      | (Inl _, p') \<Rightarrow> write_attempts P addr data n p')"

definition write_block_with_retry :: "'p serial_port \<Rightarrow> u16 \<Rightarrow> bytes \<Rightarrow> ('p, unit) proto" where
  "write_block_with_retry P addr data = write_attempts P addr data (unat MAX_RETRIES - 1)"

subsection \<open>Transfers (\<open>protocol.rs\<close>)\<close>

fun read_blocks :: "'p serial_port \<Rightarrow> u8 \<Rightarrow> nat \<Rightarrow> u16 \<Rightarrow> u16 \<Rightarrow> memory_image \<Rightarrow> 'p \<Rightarrow>
    ((protocol_error + memory_image) \<times> 'p) option" where
  "read_blocks P len 0 addr stop img p = None"
| "read_blocks P len (Suc fuel) addr stop img p =
     (if addr < stop then
        (case read_block_with_retry P addr len p of
           (Inl e, p') \<Rightarrow> Some (Inl e, p')
         | (Inr data, p') \<Rightarrow>
             (case write_bytes img addr data of
                None \<Rightarrow> None
              | Some img' \<Rightarrow> read_blocks P len fuel (addr + ucast len) stop img' p'))
      else Some (Inr img, p))"

definition download_image :: "'p serial_port \<Rightarrow> variant_config \<Rightarrow> 'p \<Rightarrow> ((protocol_error + memory_image) \<times> 'p) option" where
  "download_image P config p =
     (let image_size = (if vc_has_aux_block config then unat AUX_BLOCK_END else unat MAIN_BLOCK_END)
      in case read_blocks P READ_BLOCK_SIZE LOOP_FUEL MAIN_BLOCK_START MAIN_BLOCK_END (image_new image_size) p of
           None \<Rightarrow> None
         | Some (Inl e, p) \<Rightarrow> Some (Inl e, p)
         | Some (Inr img, p) \<Rightarrow>
             if \<not> vc_has_aux_block config then Some (Inr img, p)
             else if vc_needs_aux_warmup config then
               (case read_block_with_retry P AUX_BLOCK_START AUX_READ_BLOCK_SIZE p of
                  (Inl e, p) \<Rightarrow> Some (Inl e, p)
                | (Inr warmup, p) \<Rightarrow>
                    (case write_bytes img AUX_BLOCK_START warmup of
                       None \<Rightarrow> None
                     | Some img \<Rightarrow>
                         read_blocks P AUX_READ_BLOCK_SIZE LOOP_FUEL (AUX_BLOCK_START + ucast AUX_READ_BLOCK_SIZE) AUX_BLOCK_END img p))
             else read_blocks P AUX_READ_BLOCK_SIZE LOOP_FUEL AUX_BLOCK_START AUX_BLOCK_END img p)"

text \<open>A completed upload returns the calls of its progress callback in order.\<close>

type_synonym progress = "(usize \<times> usize) list"

fun write_range :: "'p serial_port \<Rightarrow> memory_image \<Rightarrow> usize \<Rightarrow> nat \<Rightarrow> u16 \<Rightarrow> u16 \<Rightarrow> progress \<Rightarrow> 'p \<Rightarrow>
    ((protocol_error + progress) \<times> 'p) option" where
  "write_range P img total_blocks 0 addr stop prog p = None"
| "write_range P img total_blocks (Suc fuel) addr stop prog p =
     (if addr < stop then
        (case read_bytes img addr (unat WRITE_BLOCK_SIZE) of
           None \<Rightarrow> None
         | Some data \<Rightarrow>
             (case write_block_with_retry P addr data p of
                (Inl e, p') \<Rightarrow> Some (Inl e, p')
              | (Inr _, p') \<Rightarrow>
                  write_range P img total_blocks fuel (addr + ucast WRITE_BLOCK_SIZE) stop
                    (prog @ [(length prog + 1, total_blocks)]) p'))
      else Some (Inr prog, p))"

fun write_ranges :: "'p serial_port \<Rightarrow> memory_image \<Rightarrow> usize \<Rightarrow> (u16 \<times> u16) list \<Rightarrow> progress \<Rightarrow> 'p \<Rightarrow>
    ((protocol_error + progress) \<times> 'p) option" where
  "write_ranges P img total_blocks [] prog p = Some (Inr prog, p)"
| "write_ranges P img total_blocks ((start, stop) # ranges) prog p =
     (case write_range P img total_blocks LOOP_FUEL start stop prog p of
        Some (Inr prog, p) \<Rightarrow> write_ranges P img total_blocks ranges prog p
      | r \<Rightarrow> r)"

definition upload_ranges :: "variant_config \<Rightarrow> (u16 \<times> u16) list" where
  "upload_ranges config =
     (if vc_has_aux_block config then UPLOAD_RANGES_MAIN @ UPLOAD_RANGES_AUX else UPLOAD_RANGES_MAIN)"

definition upload_image :: "'p serial_port \<Rightarrow> variant_config \<Rightarrow> memory_image \<Rightarrow> 'p \<Rightarrow> ((protocol_error + progress) \<times> 'p) option" where
  "upload_image P config img p =
     (let ranges = upload_ranges config;
          required = fold max (map (\<lambda>(_, stop). unat stop) ranges) 0
      in if length img < required then Some (Inl (ImageTooShort required (length img)), p)
         else
           let total_blocks = sum_list (map (\<lambda>(start, stop). unat (stop - start) div unat WRITE_BLOCK_SIZE) ranges)
           in write_ranges P img total_blocks ranges [] p)"

definition exit_programming_mode :: "'p serial_port \<Rightarrow> ('p, unit) proto" where
  "exit_programming_mode P = send_ack P"

subsection \<open>Auto-detection (\<open>detect.rs\<close>)\<close>

text \<open>The module has a port trait of its own, whose operations return its own error type.\<close>

datatype detect_error =
    DetSerialIo string
  | DetTimeout
  | DetUnexpectedAck u8
  | DetNoRadioDetected
  | DetVariantIdentification variant_error
  | DetIdentFailed usize

record 'p detect_port =
  dp_write_all :: "bytes \<Rightarrow> 'p \<Rightarrow> (detect_error + unit) \<times> 'p"
  dp_read_exact :: "usize \<Rightarrow> 'p \<Rightarrow> (detect_error + bytes) \<times> 'p"
  dp_flush :: "'p \<Rightarrow> (detect_error + unit) \<times> 'p"

definition try_magic :: "'p detect_port \<Rightarrow> bytes \<Rightarrow> 'p \<Rightarrow> (detect_error + radio_ident \<times> variant_config) \<times> 'p" where
  "try_magic P magic =
     and_then (dp_write_all P magic) (\<lambda>_.
     and_then (dp_flush P) (\<lambda>_.
     and_then (dp_read_exact P 1) (\<lambda>ack.
       let got = byte_at (fill_buf 1 ack) 0
       in if got \<noteq> ACK then err (DetUnexpectedAck got)
          else
            and_then (dp_write_all P [CMD_IDENT]) (\<lambda>_.
            and_then (dp_flush P) (\<lambda>_.
            and_then (dp_read_exact P 1) (\<lambda>len_buf.
              let ident_len = unat (byte_at (fill_buf 1 len_buf) 0)
              in and_then (dp_read_exact P ident_len) (\<lambda>ident_data.
                   case ident_from_raw (fill_buf ident_len ident_data) of
                     None \<Rightarrow> err (DetIdentFailed ident_len)
                   | Some ident \<Rightarrow>
                       (case identify_variant ident of
                          Inl e \<Rightarrow> err (DetVariantIdentification e)
                        | Inr config \<Rightarrow> ok (ident, config)))))))))"

fun try_magics :: "'p detect_port \<Rightarrow> bytes list \<Rightarrow> 'p \<Rightarrow> (detect_error + radio_ident \<times> variant_config) \<times> 'p" where
  "try_magics P [] p = (Inl DetNoRadioDetected, p)"
| "try_magics P (magic # magics) p =
     (case try_magic P magic p of
        (Inr found, p') \<Rightarrow> (Inr found, p')
      | (Inl DetTimeout, p') \<Rightarrow> try_magics P magics p'
      | (Inl (DetUnexpectedAck _), p') \<Rightarrow> try_magics P magics p'
      | (Inl other, p') \<Rightarrow> (Inl other, p'))"

definition auto_detect :: "'p detect_port \<Rightarrow> 'p \<Rightarrow> (detect_error + radio_ident \<times> variant_config) \<times> 'p" where
  "auto_detect P = try_magics P MAGIC_SETS"

end
