(* ===== verification/Radio_Session.thy ===== *)
theory Radio_Session
  imports Baofeng_Protocol
begin

section \<open>Programming a radio from the command line\<close>

text \<open>
  Crate \<open>akroasis\<close>, \<open>radio/mod.rs\<close>, \<open>radio/serial_hardware.rs\<close>, \<open>radio/program.rs\<close> and the part of \<open>radio/read.rs\<close>
  that talks to the radio. Detection of radios and opening of a port are hardware access and enter as a record of functions
  (\<open>hardware\<close>); so do the parsed plan file, the answer to the confirmation prompt and the output stream. A message that embeds an error is that
  error.
\<close>

subsection \<open>Errors, variants, targets\<close>

datatype radio_error =
    NoRadioDetected
  | MultipleRadiosDetected
  | SerialTimeoutPort ustring
  | SerialTimeoutDownload protocol_error
  | PermissionDenied ustring io_error
  | UnrecognizedRadio ustring variant_error
  | ValidationFailed usize
  | PlanCodec codec_error
  | PlanPrompt
  | PlanFile
  | WriteAborted
  | VerificationUpload protocol_error
  | VerificationReadback
  | HardwareNotAvailable
  | HardwareDetect
  | RadioIo io_error

datatype cli_variant = CliUv5r | CliBfF8hp | CliUv5rmPlus

fun constraints :: "cli_variant \<Rightarrow> radio_constraints" where
  "constraints CliUv5r = baofeng_uv5r_constraints"
| "constraints CliUv5rmPlus = baofeng_uv5r_constraints"
| "constraints CliBfF8hp = baofeng_f8hp_constraints"

definition max_channels :: "cli_variant \<Rightarrow> u16" where
  "max_channels v = rc_max_channels (constraints v)"

record detected_radio =
  dr_variant :: cli_variant
  dr_port :: ustring
  dr_firmware :: ustring
  dr_warnings :: "ustring list"

record 'p hardware =
  hw_detect_radios :: "radio_error + detected_radio list"
  hw_detect_radio_on_port :: "ustring \<Rightarrow> radio_error + detected_radio option"
  hw_open_port :: "ustring \<Rightarrow> io_error + 'p"
  hw_serial :: "'p serial_port"

definition resolve_target :: "ustring option \<Rightarrow> 'p hardware \<Rightarrow> radio_error + detected_radio" where
  "resolve_target port hw =
     (case port of
        Some path \<Rightarrow>
          (case hw_detect_radio_on_port hw path of
             Inl e \<Rightarrow> Inl e
           | Inr None \<Rightarrow> Inr \<lparr>dr_variant = CliUv5r, dr_port = path, dr_firmware = [], dr_warnings = []\<rparr>
           | Inr (Some radio) \<Rightarrow> Inr radio)
      | None \<Rightarrow>
          (case hw_detect_radios hw of
             Inl e \<Rightarrow> Inl e
           | Inr [] \<Rightarrow> Inl NoRadioDetected
           | Inr [radio] \<Rightarrow> Inr radio
           | Inr (_ # _ # _) \<Rightarrow> Inl MultipleRadiosDetected))"

subsection \<open>Sessions (\<open>serial_hardware.rs\<close>)\<close>

record session =
  ses_config :: variant_config
  ses_variant :: cli_variant

definition variant_from_config :: "variant_config \<Rightarrow> cli_variant" where
  "variant_from_config config =
     (case vc_variant config of
        Uv5r \<Rightarrow> CliUv5r
      | Uv5rOriginal \<Rightarrow> CliUv5r
      | BfF8hp \<Rightarrow> CliBfF8hp
      | Uv5rmPlus \<Rightarrow> CliUv5rmPlus)"

fun probe_magics :: "'p serial_port \<Rightarrow> bytes list \<Rightarrow> 'p \<Rightarrow> radio_ident option \<times> 'p" where
  "probe_magics P [] p = (None, p)"
| "probe_magics P (magic # magics) p =
     (case enter_programming_mode P magic p of
        (Inl _, p) \<Rightarrow> probe_magics P magics p
      | (Inr _, p) \<Rightarrow>
          (case identify P p of
             (Inr ident, p) \<Rightarrow> (Some ident, p)
           | (Inl _, p) \<Rightarrow> probe_magics P magics p))"

definition open_session :: "'p hardware \<Rightarrow> ustring \<Rightarrow> radio_error + session \<times> 'p" where
  "open_session hw port_path =
     (case hw_open_port hw port_path of
        Inl e \<Rightarrow> Inl (PermissionDenied port_path e)
      | Inr p \<Rightarrow>
          (case probe_magics (hw_serial hw) MAGIC_SETS p of
             (None, _) \<Rightarrow> Inl (SerialTimeoutPort port_path)
           | (Some ident, p) \<Rightarrow>
               (case identify_variant ident of
                  Inl source \<Rightarrow> Inl (UnrecognizedRadio port_path source)
                | Inr config \<Rightarrow>
                    Inr (\<lparr>ses_config = config, ses_variant = variant_from_config config\<rparr>, p))))"

definition session_download :: "'p serial_port \<Rightarrow> session \<Rightarrow> 'p \<Rightarrow> ((radio_error + bytes) \<times> 'p) option" where
  "session_download P ses p =
     (case download_image P (ses_config ses) p of
        None \<Rightarrow> None
      | Some (Inl e, p) \<Rightarrow> Some (Inl (SerialTimeoutDownload e), p)
      | Some (Inr img, p) \<Rightarrow> Some (Inr img, p))"

definition session_upload :: "'p serial_port \<Rightarrow> session \<Rightarrow> bytes \<Rightarrow> 'p \<Rightarrow> ((radio_error + unit) \<times> 'p) option" where
  "session_upload P ses data p =
     (case upload_image P (ses_config ses) data p of
        None \<Rightarrow> None
      | Some (Inl e, p) \<Rightarrow> Some (Inl (VerificationUpload e), p)
      | Some (Inr _, p) \<Rightarrow> Some (Inr (), p))"

definition decode_channels :: "bytes \<Rightarrow> (radio_error + channel list) option" where
  "decode_channels img =
     (case decode_all_channels img of
        None \<Rightarrow> None
      | Some (Inl e) \<Rightarrow> Some (Inl (PlanCodec e))
      | Some (Inr plan) \<Rightarrow> Some (Inr (fp_channels plan)))"

definition IMAGE_SIZE :: usize where "IMAGE_SIZE = 0x2000"

definition encode_channels :: "channel list \<Rightarrow> (radio_error + bytes) option" where
  "encode_channels channels =
     (let plan = \<lparr>fp_name = ascii ''program'', fp_radio_model = None, fp_channels = channels, fp_created = None\<rparr>
      in case encode_all_channels plan (image_new IMAGE_SIZE) of
           None \<Rightarrow> None
         | Some (Inl e, _) \<Rightarrow> Some (Inl (PlanCodec e))
         | Some (Inr _, img) \<Rightarrow> Some (Inr img))"

subsection \<open>The program command (\<open>program.rs\<close>)\<close>

datatype out_line =
    LineError validation_issue
  | LineWarning validation_issue
  | LineAboutToProgram cli_variant ustring usize
  | LineVerifying
  | LineProgrammed usize
  | LineChannels "channel list"
  | LineRead usize u16

type_synonym 'o writer = "out_line \<Rightarrow> 'o \<Rightarrow> (io_error + unit) \<times> 'o"

fun write_lines :: "'o writer \<Rightarrow> out_line list \<Rightarrow> 'o \<Rightarrow> (radio_error + unit) \<times> 'o" where
  "write_lines w [] out = (Inr (), out)"
| "write_lines w (l # ls) out =
     (case w l out of (Inl e, out) \<Rightarrow> (Inl (RadioIo e), out) | (Inr _, out) \<Rightarrow> write_lines w ls out)"

text \<open>From the open session to the end of the command: encode, upload, read back, compare.\<close>

definition upload_and_verify :: "'p serial_port \<Rightarrow> session \<Rightarrow> 'o writer \<Rightarrow> frequency_plan \<Rightarrow> 'o \<Rightarrow> 'p \<Rightarrow>
    ((radio_error + unit) \<times> 'o \<times> 'p) option" where
  "upload_and_verify P ses w plan out p =
     (case encode_channels (fp_channels plan) of
        None \<Rightarrow> None
      | Some (Inl e) \<Rightarrow> Some (Inl e, out, p)
      | Some (Inr img) \<Rightarrow>
          (case session_upload P ses img p of
             None \<Rightarrow> None
           | Some (Inl e, p) \<Rightarrow> Some (Inl e, out, p)
           | Some (Inr _, p) \<Rightarrow>
               (case write_lines w [LineVerifying] out of
                  (Inl e, out) \<Rightarrow> Some (Inl e, out, p)
                | (Inr _, out) \<Rightarrow>
                    (case session_download P ses p of
                       None \<Rightarrow> None
                     | Some (Inl e, p) \<Rightarrow> Some (Inl e, out, p)
                     | Some (Inr readback, p) \<Rightarrow>
                         if readback \<noteq> img then Some (Inl VerificationReadback, out, p)
                         else case write_lines w [LineProgrammed (plan_channel_count plan)] out of
                                (r, out) \<Rightarrow> Some (r, out, p)))))"

definition program_run :: "'p hardware \<Rightarrow> 'o writer \<Rightarrow> ustring option \<Rightarrow> radio_error + frequency_plan \<Rightarrow> bool option \<Rightarrow> 'o \<Rightarrow>
    ((radio_error + unit) \<times> 'o \<times> 'p option) option" where
  "program_run hw w port loaded confirmed out =
     (case loaded of
        Inl e \<Rightarrow> Some (Inl e, out, None)
      | Inr plan \<Rightarrow>
          (case resolve_target port hw of
             Inl e \<Rightarrow> Some (Inl e, out, None)
           | Inr target \<Rightarrow>
               (let issues = validate_plan plan (constraints (dr_variant target));
                    errors = filter is_error issues;
                    warnings = filter (\<lambda>i. \<not> is_error i) issues
                in if errors \<noteq> [] then
                     (case write_lines w (map LineError errors) out of
                        (Inl e, out) \<Rightarrow> Some (Inl e, out, None)
                      | (Inr _, out) \<Rightarrow> Some (Inl (ValidationFailed (length errors)), out, None))
                   else
                     (case write_lines w (map LineWarning warnings @
                            [LineAboutToProgram (dr_variant target) (dr_port target) (plan_channel_count plan)]) out of
                        (Inl e, out) \<Rightarrow> Some (Inl e, out, None)
                      | (Inr _, out) \<Rightarrow>
                          (case confirmed of
                             None \<Rightarrow> Some (Inl PlanPrompt, out, None)
                           | Some False \<Rightarrow> Some (Inl WriteAborted, out, None)
                           | Some True \<Rightarrow>
                               (case open_session hw (dr_port target) of
                                  Inl e \<Rightarrow> Some (Inl e, out, None)
                                | Inr (ses, p) \<Rightarrow>
                                    (case upload_and_verify (hw_serial hw) ses w plan out p of
                                       None \<Rightarrow> None
                                     | Some (r, out, p) \<Rightarrow> Some (r, out, Some p))))))))"

subsection \<open>The read command (\<open>read.rs\<close>)\<close>

definition read_run :: "'p hardware \<Rightarrow> 'o writer \<Rightarrow> ustring option \<Rightarrow> 'o \<Rightarrow> ((radio_error + unit) \<times> 'o) option" where
  "read_run hw w port out =
     (case resolve_target port hw of
        Inl e \<Rightarrow> Some (Inl e, out)
      | Inr target \<Rightarrow>
          (case open_session hw (dr_port target) of
             Inl e \<Rightarrow> Some (Inl e, out)
           | Inr (ses, p) \<Rightarrow>
               (case session_download (hw_serial hw) ses p of
                  None \<Rightarrow> None
                | Some (Inl e, _) \<Rightarrow> Some (Inl e, out)
                | Some (Inr img, _) \<Rightarrow>
                    (case decode_channels img of
                       None \<Rightarrow> None
                     | Some (Inl e) \<Rightarrow> Some (Inl e, out)
                     | Some (Inr channels) \<Rightarrow>
                         (let programmed = filter (\<lambda>ch. 0 < ch_rx_freq ch) channels
                          in Some (write_lines w
                               [LineChannels programmed, LineRead (length programmed) (max_channels (ses_variant ses))] out))))))"

end
