(* ===== verification/Radio_Safety.thy ===== *)
theory Radio_Safety
  imports Baofeng_Protocol
begin

unbundle bit_operations_syntax

section \<open>The driver never writes calibration data\<close>

text \<open>
  The calls of the driver are run against an arbitrary serial port that also records every buffer handed to it
  (\<open>logged\<close>). Whatever the port answers, no call panics, and no write command sent overlaps a calibration range.
\<close>

subsection \<open>A recording port\<close>

definition logged :: "'p serial_port \<Rightarrow> ('p \<times> bytes list) serial_port" where
  "logged P =
     \<lparr>sp_write_all = \<lambda>bs (p, log). (let (r, p') = sp_write_all P bs p in (r, (p', log @ [bs]))),
      sp_read_exact = \<lambda>n (p, log). (let (r, p') = sp_read_exact P n p in (r, (p', log))),
      sp_set_timeout = \<lambda>d (p, log). (let (r, p') = sp_set_timeout P d p in (r, (p', log))),
      sp_flush = \<lambda>(p, log). (let (r, p') = sp_flush P p in (r, (p', log)))\<rparr>"

text \<open>The addresses of the calibration data, and the write packets that leave them alone.\<close>

definition calibration :: "nat \<Rightarrow> bool" where
  "calibration a \<longleftrightarrow> list_ex (\<lambda>(f_start, f_end). unat f_start \<le> a \<and> a < unat f_end) FORBIDDEN_RANGES"

fun spares_calibration :: "bytes \<Rightarrow> bool" where
  "spares_calibration (cmd # h # l # n # data) \<longleftrightarrow>
     cmd = CMD_WRITE \<longrightarrow> (\<forall>a. 256 * unat h + unat l \<le> a \<and> a < 256 * unat h + unat l + length data \<longrightarrow> \<not> calibration a)"
| "spares_calibration _ \<longleftrightarrow> True"

definition sends_safe :: "('p \<times> bytes list \<Rightarrow> 'r \<times> 'p \<times> bytes list) \<Rightarrow> bool" where
  "sends_safe f \<longleftrightarrow> (\<forall>p log r p' log'. f (p, log) = (r, p', log') \<longrightarrow> list_all spares_calibration log \<longrightarrow> list_all spares_calibration log')"

lemma sends_safeD: "sends_safe f \<Longrightarrow> f s = (r, s') \<Longrightarrow> list_all spares_calibration (snd s) \<Longrightarrow> list_all spares_calibration (snd s')"
  by (cases s; cases s') (auto simp: sends_safe_def)

lemma sends_safeI: "(\<And>s r s'. f s = (r, s') \<Longrightarrow> list_all spares_calibration (snd s) \<Longrightarrow> list_all spares_calibration (snd s')) \<Longrightarrow> sends_safe f"
  by (fastforce simp: sends_safe_def)

named_theorems safe_intros \<open>driver operations that send no dangerous packet\<close>

lemma safe_and_then [safe_intros]: "sends_safe f \<Longrightarrow> (\<And>x. sends_safe (g x)) \<Longrightarrow> sends_safe (and_then f g)"
proof (rule sends_safeI)
  fix s r s'
  assume f: "sends_safe f" and g: "\<And>x. sends_safe (g x)" and r: "and_then f g s = (r, s')"
    and s: "list_all spares_calibration (snd s)"
  obtain r1 s1 where s1: "f s = (r1, s1)" by (cases "f s")
  with f s have "list_all spares_calibration (snd s1)" by (blast dest: sends_safeD)
  then show "list_all spares_calibration (snd s')"
    using r s1 g by (cases r1) (auto simp: and_then_def dest: sends_safeD)
qed

lemma safe_ok [safe_intros]: "sends_safe (ok x)" "sends_safe (err e)"
  by (simp_all add: sends_safe_def ok_def err_def)

lemma safe_serial_io [safe_intros]: "sends_safe f \<Longrightarrow> sends_safe (serial_io f)"
  by (auto simp: sends_safe_def serial_io_def split: prod.splits sum.splits)

lemma safe_write [safe_intros]: "spares_calibration bs \<Longrightarrow> sends_safe (sp_write_all (logged P) bs)"
  by (auto simp: sends_safe_def logged_def Let_def split: prod.splits)

lemma safe_port [safe_intros]:
  "sends_safe (sp_read_exact (logged P) n)" "sends_safe (sp_set_timeout (logged P) d)" "sends_safe (sp_flush (logged P))"
  by (auto simp: sends_safe_def logged_def Let_def split: prod.splits)

lemma safe_read_exact [safe_intros]: "sends_safe (read_exact_timeout (logged P) n)"
proof (rule sends_safeI)
  fix s r s'
  assume r: "read_exact_timeout (logged P) n s = (r, s')" and s: "list_all spares_calibration (snd s)"
  obtain r1 s1 where s1: "sp_read_exact (logged P) n s = (r1, s1)" by (cases "sp_read_exact (logged P) n s")
  then have "s' = s1" using r by (auto simp: read_exact_timeout_def split: sum.splits io_error.splits)
  then show "list_all spares_calibration (snd s')" using s s1 sends_safeD [OF safe_port(1)] by blast
qed

lemma safe_if [safe_intros]: "sends_safe f \<Longrightarrow> sends_safe g \<Longrightarrow> sends_safe (if b then f else g)"
  by simp

lemma safe_acks [safe_intros]: "sends_safe (read_ack (logged P))" "sends_safe (send_ack (logged P))"
  unfolding read_ack_def send_ack_def by (intro safe_intros; simp)+

lemma safe_send_each [safe_intros]: "sends_safe (send_each (logged P) bs)"
  by (induction bs) (auto intro!: safe_intros)

lemma safe_enter [safe_intros]: "sends_safe (enter_programming_mode (logged P) magic)"
  unfolding enter_programming_mode_def by (intro safe_intros)

lemma safe_read_ident [safe_intros]: "sends_safe (read_ident (logged P) buf)"
proof (rule sends_safeI)
  fix s r s'
  assume "read_ident (logged P) buf s = (r, s')" "list_all spares_calibration (snd s)"
  then show "list_all spares_calibration (snd s')"
  proof (induction "logged P" buf s rule: read_ident.induct)
    case (1 buf s)
    obtain r1 s1 where s1: "read_exact_timeout (logged P) 1 s = (r1, s1)" by (cases "read_exact_timeout (logged P) 1 s")
    have safe: "list_all spares_calibration (snd s1)" using sends_safeD [OF safe_read_exact s1 "1.prems"(2)] .
    show ?case
    proof (cases r1)
      case (Inl e)
      then show ?thesis using "1.prems"(1) s1 safe by (simp add: read_ident.simps [of "logged P" buf s])
    next
      case (Inr byte)
      then show ?thesis
        using "1.prems"(1) s1 safe "1.hyps" [OF s1 [symmetric] Inr]
        by (simp add: read_ident.simps [of "logged P" buf s] split: if_splits)
    qed
  qed
qed

lemma safe_identify [safe_intros]: "sends_safe (identify (logged P))"
proof -
  have "sends_safe (case ident_from_raw buf of None \<Rightarrow> err IdentFailed
      | Some ident \<Rightarrow> and_then (send_ack (logged P)) (\<lambda>_. and_then (read_ack (logged P)) (\<lambda>_. ok ident)))" for buf
    by (cases "ident_from_raw buf") (auto intro!: safe_intros)
  then show ?thesis unfolding identify_def by (intro safe_intros) simp_all
qed

lemma safe_read_block [safe_intros]: "sends_safe (read_block (logged P) addr len)"
  unfolding read_block_def by (intro safe_intros) (simp_all add: CMD_READ_def CMD_WRITE_def)

subsection \<open>The write guard\<close>

lemma addr_bytes: "256 * unat (addr_h addr) + unat (addr_l addr) = unat addr"
proof -
  have a: "unat addr < 2 ^ 16" using unsigned_less [of addr] by simp
  then have "unat addr div 256 < 256" by simp
  then have "unat (addr_h addr) = unat addr div 256"
    by (simp add: unat_div addr_h_def unsigned_ucast_eq unsigned_take_bit_eq unsigned_drop_bit_eq take_bit_eq_mod drop_bit_eq_div)
  moreover have "unat (addr_l addr) = unat addr mod 256"
  proof -
    have m: "x AND 255 = x mod 256" for x :: nat
      using take_bit_eq_mask [of 8 x] by (simp add: take_bit_eq_mod mask_eq_exp_minus_1)
    show ?thesis by (simp add: addr_l_def unsigned_ucast_eq unsigned_take_bit_eq unsigned_and_eq take_bit_eq_mod m)
  qed
  ultimately show ?thesis by simp
qed

lemma not_forbidden:
  assumes "\<not> is_forbidden addr len" "unat addr \<le> a" "a < unat addr + len"
  shows "\<not> calibration a"
proof
  assume "calibration a"
  then obtain f_start f_end where f: "(f_start, f_end) \<in> set FORBIDDEN_RANGES" "unat f_start \<le> a" "a < unat f_end"
    by (auto simp: calibration_def list_ex_iff)
  have "unat f_end \<le> 0x2000" using f(1) by (auto simp: FORBIDDEN_RANGES_def)
  let ?stop = "saturating_add addr (if len < 2 ^ 16 then word_of_nat len else - 1)"
  have "unat (if len < 2 ^ 16 then word_of_nat len else - 1 :: u16) = min len (2 ^ 16 - 1)"
    by (simp add: unsigned_of_nat take_bit_nat_eq_self unat_max_word)
  then have "unat ?stop = min (unat addr + min len (2 ^ 16 - 1)) (2 ^ 16 - 1)" by (simp add: unat_saturating_add)
  then have "a < unat ?stop" using assms(3) f(3) \<open>unat f_end \<le> 0x2000\<close> by simp
  then have "f_start < ?stop" "addr < f_end" using f(2,3) assms(2) by (simp_all add: word_less_nat_alt)
  then have "is_forbidden addr len" using f(1) by (auto simp: is_forbidden_def Let_def list_ex_iff)
  with assms(1) show False ..
qed

lemma safe_write_block [safe_intros]: "sends_safe (write_block (logged P) addr data)"
proof (cases "is_forbidden addr (length data)")
  case True
  then show ?thesis unfolding write_block_def by (simp add: safe_ok)
next
  case False
  then have "spares_calibration (CMD_WRITE # addr_h addr # addr_l addr # word_of_nat (length data) # data)"
    by (simp add: addr_bytes not_forbidden)
  with False show ?thesis unfolding write_block_def by (simp add: safe_intros)
qed

lemma safe_read_attempts: "sends_safe (read_attempts (logged P) addr len n)"
proof (induction n)
  case 0
  show ?case
  proof (rule sends_safeI)
    fix s r s'
    assume "read_attempts (logged P) addr len 0 s = (r, s')" "list_all spares_calibration (snd s)"
    then show "list_all spares_calibration (snd s')"
      using sends_safeD [OF safe_read_block [of P addr len], of s]
      by (cases "read_block (logged P) addr len s") (auto split: sum.splits)
  qed
next
  case (Suc n)
  show ?case
  proof (rule sends_safeI)
    fix s r s'
    assume "read_attempts (logged P) addr len (Suc n) s = (r, s')" "list_all spares_calibration (snd s)"
    then show "list_all spares_calibration (snd s')"
      using sends_safeD [OF safe_read_block [of P addr len], of s] sends_safeD [OF Suc.IH]
      by (cases "read_block (logged P) addr len s") (auto split: sum.splits)
  qed
qed

lemma safe_write_attempts: "sends_safe (write_attempts (logged P) addr data n)"
proof (induction n)
  case 0
  show ?case
  proof (rule sends_safeI)
    fix s r s'
    assume "write_attempts (logged P) addr data 0 s = (r, s')" "list_all spares_calibration (snd s)"
    then show "list_all spares_calibration (snd s')"
      using sends_safeD [OF safe_write_block [of P addr data], of s]
      by (cases "write_block (logged P) addr data s") (auto split: sum.splits protocol_error.splits)
  qed
next
  case (Suc n)
  show ?case
  proof (rule sends_safeI)
    fix s r s'
    assume "write_attempts (logged P) addr data (Suc n) s = (r, s')" "list_all spares_calibration (snd s)"
    then show "list_all spares_calibration (snd s')"
      using sends_safeD [OF safe_write_block [of P addr data], of s] sends_safeD [OF Suc.IH]
      by (cases "write_block (logged P) addr data s") (auto split: sum.splits protocol_error.splits)
  qed
qed

lemma safe_retries [safe_intros]:
  "sends_safe (read_block_with_retry (logged P) addr len)" "sends_safe (write_block_with_retry (logged P) addr data)"
  by (simp_all add: read_block_with_retry_def write_block_with_retry_def safe_read_attempts safe_write_attempts)

subsection \<open>Transfers neither panic nor send a dangerous packet\<close>

lemma fill_buf_length [simp]: "length (fill_buf n bs) = n"
  by (simp add: fill_buf_def)

lemma read_exact_length: "read_exact_timeout P n p = (Inr bs, p') \<Longrightarrow> length bs = n"
  by (auto simp: read_exact_timeout_def split: prod.splits sum.splits io_error.splits)

lemma and_then_Inr:
  "and_then f g p = (Inr y, p') \<longleftrightarrow> (\<exists>x p1. f p = (Inr x, p1) \<and> g x p1 = (Inr y, p'))"
  by (auto simp: and_then_def split: prod.splits sum.splits)

lemma read_block_length:
  assumes "read_block P addr len p = (Inr data, p')"
  shows "length data = unat len"
  using assms by (auto simp: read_block_def and_then_Inr ok_def err_def split: if_splits dest!: read_exact_length)

lemma read_attempts_length: "read_attempts P addr len n p = (Inr data, p') \<Longrightarrow> length data = unat len"
  by (induction n arbitrary: p) (auto dest: read_block_length split: prod.splits sum.splits)

lemma read_retry_length: "read_block_with_retry P addr len p = (Inr data, p') \<Longrightarrow> length data = unat len"
  unfolding read_block_with_retry_def by (rule read_attempts_length)

lemma write_bytes_fits: "unat addr + length data \<le> length img \<Longrightarrow> \<exists>img'. write_bytes img addr data = Some img' \<and> length img' = length img"
  by (simp add: write_bytes_def Let_def)

lemma unat_step:
  assumes "unat addr + Suc k * unat len = unat (stop :: u16)" "0 < unat len"
  shows "addr < stop" "unat (addr + ucast (len :: u8)) + k * unat len = unat stop"
proof -
  show "addr < stop" using assms by (simp add: word_less_nat_alt)
  have l: "unat (ucast len :: u16) = unat len"
  proof -
    have "unat len < 2 ^ 16" by (rule less_trans [OF unsigned_less]) simp
    then show ?thesis by (simp add: unsigned_ucast_eq take_bit_nat_eq_self)
  qed
  have "unat addr + unat len \<le> unat stop" using assms(1) by simp
  then have "unat addr + unat len < 2 ^ 16" by (rule le_less_trans) (rule less_le_trans [OF unsigned_less], simp)
  then have "unat (addr + ucast len) = unat addr + unat len" by (simp add: unat_word_ariths l)
  with assms show "unat (addr + ucast len) + k * unat len = unat stop" by simp
qed

definition runs_safe :: "('p \<times> bytes list \<Rightarrow> ('r \<times> 'p \<times> bytes list) option) \<Rightarrow> bool" where
  "runs_safe f \<longleftrightarrow>
     (\<forall>s. list_all spares_calibration (snd s) \<longrightarrow> (\<exists>r s'. f s = Some (r, s') \<and> list_all spares_calibration (snd s')))"

lemma runs_safeE:
  assumes "runs_safe f" "list_all spares_calibration (snd s)"
  obtains r s' where "f s = Some (r, s')" "list_all spares_calibration (snd s')"
  using assms unfolding runs_safe_def by blast

lemma read_blocks_safe:
  assumes "unat addr + k * unat len = unat stop" "k < fuel" "0 < unat len" "unat stop \<le> length img"
    and "list_all spares_calibration (snd s)"
  shows "\<exists>r s'. read_blocks (logged P) len fuel addr stop img s = Some (r, s') \<and> list_all spares_calibration (snd s') \<and>
    (\<forall>img'. r = Inr img' \<longrightarrow> length img' = length img)"
  using assms
proof (induction k arbitrary: addr fuel img s)
  case 0
  then show ?case by (cases fuel) (simp_all add: word_less_nat_alt)
next
  case (Suc k)
  obtain f where f: "fuel = Suc f" using Suc.prems(2) by (cases fuel) auto
  note step = unat_step [OF Suc.prems(1,3)]
  obtain r1 s1 where s1: "read_block_with_retry (logged P) addr len s = (r1, s1)" by (cases "read_block_with_retry (logged P) addr len s")
  have safe: "list_all spares_calibration (snd s1)" using sends_safeD [OF safe_retries(1) s1 Suc.prems(5)] .
  show ?case
  proof (cases r1)
    case (Inl e)
    then show ?thesis using step(1) s1 safe by (simp add: f)
  next
    case (Inr data)
    have "unat addr + length data \<le> length img"
      using read_retry_length [of "logged P" addr len s data s1] s1 Inr Suc.prems(1,4) by simp
    then obtain img1 where w: "write_bytes img addr data = Some img1" "length img1 = length img" using write_bytes_fits by blast
    have "\<exists>r s'. read_blocks (logged P) len f (addr + ucast len) stop img1 s1 = Some (r, s') \<and> list_all spares_calibration (snd s') \<and>
        (\<forall>img'. r = Inr img' \<longrightarrow> length img' = length img1)"
      by (rule Suc.IH) (use step(2) Suc.prems f w safe in simp_all)
    then show ?thesis using step(1) s1 Inr w by (simp add: f)
  qed
qed

lemma write_range_safe:
  assumes "unat addr + k * 16 = unat stop" "k < fuel" "unat stop \<le> length img" "list_all spares_calibration (snd s)"
  shows "\<exists>r s'. write_range (logged P) img tot fuel addr stop prog s = Some (r, s') \<and> list_all spares_calibration (snd s')"
  using assms
proof (induction k arbitrary: addr fuel prog s)
  case 0
  then show ?case by (cases fuel) (simp_all add: word_less_nat_alt)
next
  case (Suc k)
  obtain f where f: "fuel = Suc f" using Suc.prems(2) by (cases fuel) auto
  have step: "addr < stop" "unat (addr + ucast WRITE_BLOCK_SIZE) + k * 16 = unat stop"
    using unat_step [of addr k WRITE_BLOCK_SIZE stop] Suc.prems(1) by (simp_all add: WRITE_BLOCK_SIZE_def)
  obtain data where d: "read_bytes img addr (unat WRITE_BLOCK_SIZE) = Some data"
    using Suc.prems(1,3) by (simp add: read_bytes_def WRITE_BLOCK_SIZE_def)
  obtain r1 s1 where s1: "write_block_with_retry (logged P) addr data s = (r1, s1)" by (cases "write_block_with_retry (logged P) addr data s")
  have safe: "list_all spares_calibration (snd s1)" using sends_safeD [OF safe_retries(2) s1 Suc.prems(4)] .
  show ?case
  proof (cases r1)
    case (Inl e)
    then show ?thesis using step(1) s1 safe d by (simp add: f)
  next
    case (Inr u)
    have "\<exists>r s'. write_range (logged P) img tot f (addr + ucast WRITE_BLOCK_SIZE) stop (prog @ [(length prog + 1, tot)]) s1 = Some (r, s') \<and>
        list_all spares_calibration (snd s')"
      by (rule Suc.IH) (use step(2) Suc.prems f safe in simp_all)
    then show ?thesis using step(1) s1 Inr d by (simp add: f)
  qed
qed

text \<open>A range of whole blocks inside an image, within the bound of the loops.\<close>

definition range_ok :: "usize \<Rightarrow> u16 \<times> u16 \<Rightarrow> bool" where
  "range_ok n r \<longleftrightarrow> unat (fst r) \<le> unat (snd r) \<and> (unat (snd r) - unat (fst r)) mod 16 = 0 \<and> unat (snd r) \<le> n \<and> unat (snd r) \<le> 0x2000"

lemma write_ranges_safe:
  assumes "list_all (range_ok (length img)) ranges" "list_all spares_calibration (snd s)"
  shows "\<exists>r s'. write_ranges (logged P) img tot ranges prog s = Some (r, s') \<and> list_all spares_calibration (snd s')"
  using assms
proof (induction ranges arbitrary: prog s)
  case (Cons rg ranges)
  obtain start stop where rg: "rg = (start, stop)" by (cases rg)
  let ?k = "(unat stop - unat start) div 16"
  have "unat start + ?k * 16 = unat stop" "?k < LOOP_FUEL" "unat stop \<le> length img"
    using Cons.prems(1) by (auto simp: rg range_ok_def LOOP_FUEL_def)
  then obtain r1 s1 where s1: "write_range (logged P) img tot LOOP_FUEL start stop prog s = Some (r1, s1)" "list_all spares_calibration (snd s1)"
    using write_range_safe Cons.prems(2) by blast
  show ?case
  proof (cases r1)
    case (Inl e)
    then show ?thesis using s1 by (simp add: rg)
  next
    case (Inr prog1)
    then show ?thesis using s1 Cons.IH [of s1 prog1] Cons.prems(1) by (simp add: rg)
  qed
qed simp

lemma upload_ranges_ok: "0x1800 \<le> n \<Longrightarrow> list_all (range_ok n) UPLOAD_RANGES_MAIN"
  "0x1FD0 \<le> n \<Longrightarrow> list_all (range_ok n) UPLOAD_RANGES_AUX"
  by (simp_all add: range_ok_def UPLOAD_RANGES_MAIN_def UPLOAD_RANGES_AUX_def)

lemma upload_required:
  "fold max (map (\<lambda>(_, stop). unat stop) (upload_ranges config)) 0 = (if vc_has_aux_block config then 0x1FD0 else 0x1800)"
  by (simp add: upload_ranges_def UPLOAD_RANGES_MAIN_def UPLOAD_RANGES_AUX_def)

lemma upload_safe: "runs_safe (upload_image (logged P) config img)"
proof -
  have "list_all (range_ok (length img)) (upload_ranges config)"
    if "\<not> length img < fold max (map (\<lambda>(_, stop). unat stop) (upload_ranges config)) 0"
    using that unfolding upload_required by (auto simp: upload_ranges_def upload_ranges_ok split: if_splits)
  then show ?thesis unfolding runs_safe_def upload_image_def Let_def using write_ranges_safe by fastforce
qed

lemma download_safe: "runs_safe (download_image (logged P) config)"
  unfolding runs_safe_def
proof (intro allI impI)
  fix s :: "'a \<times> bytes list"
  assume s: "list_all spares_calibration (snd s)"
  let ?n = "if vc_has_aux_block config then unat AUX_BLOCK_END else unat MAIN_BLOCK_END"
  have "\<exists>r s'. read_blocks (logged P) READ_BLOCK_SIZE LOOP_FUEL MAIN_BLOCK_START MAIN_BLOCK_END (image_new ?n) s = Some (r, s') \<and>
      list_all spares_calibration (snd s') \<and> (\<forall>img'. r = Inr img' \<longrightarrow> length img' = length (image_new ?n))"
    by (rule read_blocks_safe [where k = 96])
      (use s in \<open>simp_all add: MAIN_BLOCK_START_def MAIN_BLOCK_END_def AUX_BLOCK_END_def READ_BLOCK_SIZE_def LOOP_FUEL_def image_new_def\<close>)
  then obtain r1 s1 where m: "read_blocks (logged P) READ_BLOCK_SIZE LOOP_FUEL MAIN_BLOCK_START MAIN_BLOCK_END (image_new ?n) s = Some (r1, s1)"
    and s1: "list_all spares_calibration (snd s1)" and l1: "\<forall>img'. r1 = Inr img' \<longrightarrow> length img' = ?n"
    by (auto simp: image_new_def)
  show "\<exists>r s'. download_image (logged P) config s = Some (r, s') \<and> list_all spares_calibration (snd s')"
  proof (cases r1)
    case (Inl e)
    then show ?thesis using m s1 by (simp add: download_image_def)
  next
    case (Inr img)
    show ?thesis
    proof (cases "vc_has_aux_block config")
      case False
      then show ?thesis using m s1 Inr by (simp add: download_image_def)
    next
      case True
      have l: "length img = 0x2000" using l1 Inr True by (simp add: AUX_BLOCK_END_def)
      obtain r2 s2 where a: "read_block_with_retry (logged P) AUX_BLOCK_START AUX_READ_BLOCK_SIZE s1 = (r2, s2)"
        by (cases "read_block_with_retry (logged P) AUX_BLOCK_START AUX_READ_BLOCK_SIZE s1")
      have s2: "list_all spares_calibration (snd s2)" using sends_safeD [OF safe_retries(1) a s1] .
      have w: "\<exists>r s'. read_blocks (logged P) AUX_READ_BLOCK_SIZE LOOP_FUEL addr AUX_BLOCK_END img' t = Some (r, s') \<and> list_all spares_calibration (snd s')"
        if "unat addr = 0x1E80 \<or> unat addr = 0x1E90" "length img' = 0x2000" "list_all spares_calibration (snd t)" for addr img' t
        using that read_blocks_safe [of addr 24 AUX_READ_BLOCK_SIZE AUX_BLOCK_END LOOP_FUEL img' t P]
          read_blocks_safe [of addr 23 AUX_READ_BLOCK_SIZE AUX_BLOCK_END LOOP_FUEL img' t P]
        by (auto simp: AUX_READ_BLOCK_SIZE_def AUX_BLOCK_END_def LOOP_FUEL_def)
      show ?thesis
      proof (cases "vc_needs_aux_warmup config")
        case False
        then show ?thesis using m s1 Inr True w [of AUX_BLOCK_START img s1] l by (simp add: download_image_def AUX_BLOCK_START_def)
      next
        case warm: True
        show ?thesis
        proof (cases r2)
          case (Inl e)
          then show ?thesis using m Inr True warm a s2 \<open>r1 = Inr img\<close> by (simp add: download_image_def)
        next
          case (Inr data)
          have "unat AUX_BLOCK_START + length data \<le> length img"
            using read_retry_length [of "logged P"] a Inr l by (auto simp: AUX_BLOCK_START_def AUX_READ_BLOCK_SIZE_def)
          then obtain img2 where "write_bytes img AUX_BLOCK_START data = Some img2" "length img2 = 0x2000"
            using write_bytes_fits [of AUX_BLOCK_START data img] l by auto
          then show ?thesis
            using m \<open>r1 = Inr img\<close> True warm a Inr w [of "AUX_BLOCK_START + ucast AUX_READ_BLOCK_SIZE" img2 s2] s2
            by (simp add: download_image_def AUX_BLOCK_START_def AUX_READ_BLOCK_SIZE_def)
        qed
      qed
    qed
  qed
qed

subsection \<open>Sessions of any calls\<close>

datatype driver_call =
    CallEnter bytes
  | CallIdentify
  | CallReadBlock u16 u8
  | CallWriteBlock u16 bytes
  | CallDownload variant_config
  | CallUpload variant_config memory_image
  | CallExit

fun run_call :: "'p serial_port \<Rightarrow> driver_call \<Rightarrow> 'p \<Rightarrow> 'p option" where
  "run_call P (CallEnter magic) p = Some (snd (enter_programming_mode P magic p))"
| "run_call P CallIdentify p = Some (snd (identify P p))"
| "run_call P (CallReadBlock addr len) p = Some (snd (read_block P addr len p))"
| "run_call P (CallWriteBlock addr data) p = Some (snd (write_block P addr data p))"
| "run_call P (CallDownload config) p = map_option snd (download_image P config p)"
| "run_call P (CallUpload config img) p = map_option snd (upload_image P config img p)"
| "run_call P CallExit p = Some (snd (exit_programming_mode P p))"

fun run_calls :: "'p serial_port \<Rightarrow> driver_call list \<Rightarrow> 'p \<Rightarrow> 'p option" where
  "run_calls P [] p = Some p"
| "run_calls P (c # cs) p = (case run_call P c p of None \<Rightarrow> None | Some p' \<Rightarrow> run_calls P cs p')"

lemma run_call_safe:
  assumes "list_all spares_calibration (snd s)"
  shows "\<exists>s'. run_call (logged P) c s = Some s' \<and> list_all spares_calibration (snd s')"
proof -
  have direct: "list_all spares_calibration (snd (snd (f s)))" if "sends_safe f" for f :: "'a \<times> bytes list \<Rightarrow> 'r \<times> 'a \<times> bytes list"
    using sends_safeD [OF that _ assms] by (cases "f s") auto
  show ?thesis
  proof (cases c)
    case (CallDownload config)
    show ?thesis using runs_safeE [OF download_safe assms] by (metis CallDownload option.simps(9) run_call.simps(5) snd_conv)
  next
    case (CallUpload config img)
    show ?thesis using runs_safeE [OF upload_safe assms] by (metis CallUpload option.simps(9) run_call.simps(6) snd_conv)
  qed (simp_all add: direct safe_intros exit_programming_mode_def)
qed

text \<open>
  C3. The calibration data of a radio is out of reach of the driver. For every serial port, whatever it answers and whichever
  of its operations fail, and every sequence of driver calls with any arguments, the calls run to the end without a panic, and no buffer handed to the port is a
  write command whose payload overlaps a calibration address.
\<close>

theorem driver_spares_calibration:
  "\<exists>p' log. run_calls (logged P) calls (p, []) = Some (p', log) \<and> list_all spares_calibration log"
proof -
  have "\<exists>s'. run_calls (logged P) calls s = Some s' \<and> list_all spares_calibration (snd s')"
    if "list_all spares_calibration (snd s)" for s
    using that
  proof (induction calls arbitrary: s)
    case (Cons c cs)
    then show ?case using run_call_safe [OF Cons.prems, of P c] by auto
  qed simp
  from this [of "(p, [])"] show ?thesis by auto
qed

end
