(* ===== verification/Radio_Props.thy ===== *)
theory Radio_Props
  imports Radio_Session Radio_Safety Baofeng_Image
begin

unbundle bit_operations_syntax

section \<open>Programming a radio that follows the protocol\<close>

text \<open>
  The radio at the other end of the serial port is not part of the program. \<open>eeprom_radio\<close> states the answers that the documentation of
  \<open>protocol.rs\<close> expects of it: a read command is answered by its header and the bytes of the memory, a write command
  changes the memory and is acknowledged. On such a radio transfers have an exact effect, and with the codec and the
  plan validation they give the outcome of the commands.
\<close>

subsection \<open>The radio\<close>

definition patch :: "bytes \<Rightarrow> nat \<Rightarrow> bytes \<Rightarrow> bytes" where
  "patch E a data = take a E @ data @ drop (a + length data) E"

text \<open>\<open>idle E p\<close>: the radio behind port state \<open>p\<close> waits for a command and its memory is \<open>E\<close>.\<close>

definition eeprom_radio :: "'p serial_port \<Rightarrow> (bytes \<Rightarrow> 'p \<Rightarrow> bool) \<Rightarrow> bool" where
  "eeprom_radio P idle \<longleftrightarrow>
     (\<forall>E p addr len. idle E p \<longrightarrow> unat addr + unat len \<le> length E \<longrightarrow>
        (\<exists>p1 p2 p3 p4. sp_write_all P [CMD_READ, addr_h addr, addr_l addr, len] p = (Inr (), p1) \<and>
           sp_read_exact P 4 p1 = (Inr [CMD_READ_RESPONSE, addr_h addr, addr_l addr, len], p2) \<and>
           sp_read_exact P (unat len) p2 = (Inr (take (unat len) (drop (unat addr) E)), p3) \<and>
           sp_write_all P [ACK] p3 = (Inr (), p4) \<and> idle E p4)) \<and>
     (\<forall>E p addr data. idle E p \<longrightarrow> length data < 256 \<longrightarrow> unat addr + length data \<le> length E \<longrightarrow>
        (\<exists>p1 p2. sp_write_all P (CMD_WRITE # addr_h addr # addr_l addr # word_of_nat (length data) # data) p = (Inr (), p1) \<and>
           sp_read_exact P 1 p1 = (Inr [ACK], p2) \<and> idle (patch E (unat addr) data) p2))"

lemma patch_nth:
  "a + length data \<le> length E \<Longrightarrow> length (patch E a data) = length E"
  "a + length data \<le> length E \<Longrightarrow> i < length E \<Longrightarrow>
    patch E a data ! i = (if a \<le> i \<and> i < a + length data then data ! (i - a) else E ! i)"
  by (auto simp: patch_def nth_append)

lemma fill_buf_exact: "length bs = n \<Longrightarrow> fill_buf n bs = bs"
  by (simp add: fill_buf_def)

lemma retries: "unat MAX_RETRIES - 1 = Suc 1"
  by (simp add: MAX_RETRIES_def)

lemma read_block_serves:
  assumes "eeprom_radio P idle" "idle E p" "unat addr + unat len \<le> length E"
  shows "\<exists>p'. read_block_with_retry P addr len p = (Inr (take (unat len) (drop (unat addr) E)), p') \<and> idle E p'"
proof -
  obtain p1 p2 p3 p4 where "sp_write_all P [CMD_READ, addr_h addr, addr_l addr, len] p = (Inr (), p1)"
    "sp_read_exact P 4 p1 = (Inr [CMD_READ_RESPONSE, addr_h addr, addr_l addr, len], p2)"
    "sp_read_exact P (unat len) p2 = (Inr (take (unat len) (drop (unat addr) E)), p3)"
    "sp_write_all P [ACK] p3 = (Inr (), p4)" and idle: "idle E p4"
    using assms unfolding eeprom_radio_def by blast
  then have "read_block P addr len p = (Inr (take (unat len) (drop (unat addr) E)), p4)"
    using assms(3) by (simp add: read_block_def and_then_def serial_io_def read_exact_timeout_def fill_buf_exact byte_at_def send_ack_def ok_def)
  then show ?thesis using idle unfolding read_block_with_retry_def retries by simp
qed

lemma write_block_serves:
  assumes "eeprom_radio P idle" "idle E p" "unat addr + length data \<le> length E" "length data < 256"
    and "\<not> is_forbidden addr (length data)"
  shows "\<exists>p'. write_block_with_retry P addr data p = (Inr (), p') \<and> idle (patch E (unat addr) data) p'"
proof -
  obtain p1 p2 where "sp_write_all P (CMD_WRITE # addr_h addr # addr_l addr # word_of_nat (length data) # data) p = (Inr (), p1)"
    "sp_read_exact P 1 p1 = (Inr [ACK], p2)" and idle: "idle (patch E (unat addr) data) p2"
    using assms(1-4) unfolding eeprom_radio_def by blast
  then have "write_block P addr data p = (Inr (), p2)"
    using assms(5) by (simp add: write_block_def and_then_def serial_io_def read_ack_def read_exact_timeout_def fill_buf_exact byte_at_def ok_def)
  then show ?thesis using idle unfolding write_block_with_retry_def retries by simp
qed

subsection \<open>Transfers\<close>

text \<open>The memory after the selected addresses were taken from an image.\<close>

definition overlay :: "(nat \<Rightarrow> bool) \<Rightarrow> bytes \<Rightarrow> bytes \<Rightarrow> bytes" where
  "overlay sel img E = map (\<lambda>i. if sel i then img ! i else E ! i) [0..<length E]"

lemma overlay_nth [simp]:
  "length (overlay sel img E) = length E"
  "i < length E \<Longrightarrow> overlay sel img E ! i = (if sel i then img ! i else E ! i)"
  by (simp_all add: overlay_def)

definition in_range :: "u16 \<times> u16 \<Rightarrow> nat \<Rightarrow> bool" where
  "in_range r i \<longleftrightarrow> unat (fst r) \<le> i \<and> i < unat (snd r)"

text \<open>A range of addresses that holds no calibration data.\<close>

definition range_clear :: "u16 \<times> u16 \<Rightarrow> bool" where
  "range_clear r \<longleftrightarrow> list_all (\<lambda>(f_start, f_end). snd r \<le> f_start \<or> f_end \<le> fst r) FORBIDDEN_RANGES"

lemma block_not_forbidden:
  assumes "range_clear (start, stop)" "start \<le> addr" "unat addr + n \<le> unat stop" "n < 256"
  shows "\<not> is_forbidden addr n"
proof -
  have "unat addr + n < 2 ^ 16" by (rule le_less_trans [OF assms(3)]) (rule less_le_trans [OF unsigned_less], simp)
  moreover have "unat (word_of_nat n :: u16) = n" using assms(4) by (simp add: unsigned_of_nat take_bit_nat_eq_self)
  ultimately have "saturating_add addr (word_of_nat n) \<le> stop"
    using assms(3) by (simp add: word_le_nat_alt unat_saturating_add)
  then show ?thesis
    using assms(1,2,4) unfolding is_forbidden_def range_clear_def Let_def list_ex_iff list_all_iff by fastforce
qed

lemma write_range_serves:
  assumes radio: "eeprom_radio P idle" and clear: "range_clear (start, stop)" and img: "unat stop \<le> length img"
    and "idle E p" "unat stop \<le> length E" "start \<le> addr" "unat addr + k * 16 = unat stop" "k < fuel"
  shows "\<exists>prog' p'. write_range P img tot fuel addr stop prog p = Some (Inr prog', p') \<and>
    idle (overlay (in_range (addr, stop)) img E) p'"
  using assms(4-)
proof (induction k arbitrary: addr fuel prog p E)
  case 0
  have "overlay (in_range (addr, stop)) img E = E"
    using 0(4) by (auto simp: in_range_def intro!: nth_equalityI)
  with 0 show ?case by (cases fuel) (simp_all add: word_less_nat_alt)
next
  case (Suc k)
  obtain f where f: "fuel = Suc f" using Suc.prems(5) by (cases fuel) auto
  have step: "addr < stop" "unat (addr + ucast WRITE_BLOCK_SIZE) + k * 16 = unat stop"
    using unat_step [of addr k WRITE_BLOCK_SIZE stop] Suc.prems(4) by (simp_all add: WRITE_BLOCK_SIZE_def)
  then have next_addr: "unat (addr + ucast WRITE_BLOCK_SIZE) = unat addr + 16" using Suc.prems(4) by simp
  obtain data where d: "read_bytes img addr (unat WRITE_BLOCK_SIZE) = Some data" "length data = 16"
      "\<forall>i<16. data ! i = img ! (unat addr + i)"
    using Suc.prems(4) img read_bytes_in [of addr "unat WRITE_BLOCK_SIZE" img] read_bytes_Some_iff [of img addr "unat WRITE_BLOCK_SIZE"]
    by (auto simp: WRITE_BLOCK_SIZE_def)
  have fits: "unat addr + length data \<le> length E" using Suc.prems(2,4) d(2) by simp
  have "\<not> is_forbidden addr (length data)"
    by (rule block_not_forbidden [OF clear Suc.prems(3)]) (use Suc.prems(4) d(2) in simp_all)
  then obtain p1 where p1: "write_block_with_retry P addr data p = (Inr (), p1)" "idle (patch E (unat addr) data) p1"
    using write_block_serves [OF radio Suc.prems(1) fits] d(2) by auto
  have "\<exists>prog' p'. write_range P img tot f (addr + ucast WRITE_BLOCK_SIZE) stop (prog @ [(length prog + 1, tot)]) p1 = Some (Inr prog', p') \<and>
      idle (overlay (in_range (addr + ucast WRITE_BLOCK_SIZE, stop)) img (patch E (unat addr) data)) p'"
    by (rule Suc.IH [OF p1(2)])
      (use Suc.prems f fits step(2) next_addr in \<open>simp_all add: patch_nth word_le_nat_alt\<close>)
  moreover have "overlay (in_range (addr + ucast WRITE_BLOCK_SIZE, stop)) img (patch E (unat addr) data) = overlay (in_range (addr, stop)) img E"
    using fits d(2,3) Suc.prems(4) next_addr by (auto simp: patch_nth in_range_def intro!: nth_equalityI)
  ultimately show ?case using step(1) d(1) p1(1) by (simp add: f)
qed

lemma write_ranges_serves:
  assumes radio: "eeprom_radio P idle" and "list_all (range_ok (length img)) ranges" "list_all range_clear ranges"
    and "idle E p" "length E = 0x2000"
  shows "\<exists>prog' p'. write_ranges P img tot ranges prog p = Some (Inr prog', p') \<and>
    idle (overlay (\<lambda>i. list_ex (\<lambda>r. in_range r i) ranges) img E) p'"
  using assms(2-)
proof (induction ranges arbitrary: prog p E)
  case Nil
  have "overlay (\<lambda>i. False) img E = E" by (auto intro!: nth_equalityI)
  with Nil show ?case by simp
next
  case (Cons rg ranges)
  obtain start stop where rg: "rg = (start, stop)" by (cases rg)
  let ?k = "(unat stop - unat start) div 16"
  have ok: "unat start + ?k * 16 = unat stop" "?k < LOOP_FUEL" "unat stop \<le> length img" "unat stop \<le> length E"
    using Cons.prems(1,4) by (auto simp: rg range_ok_def LOOP_FUEL_def)
  obtain prog1 p1 where p1: "write_range P img tot LOOP_FUEL start stop prog p = Some (Inr prog1, p1)"
      "idle (overlay (in_range rg) img E) p1"
    using write_range_serves [OF radio _ ok(3) Cons.prems(3) ok(4) order_refl ok(1,2)] Cons.prems(2) by (fastforce simp: rg)
  obtain prog2 p2 where p2: "write_ranges P img tot ranges prog1 p1 = Some (Inr prog2, p2)"
      "idle (overlay (\<lambda>i. list_ex (\<lambda>r. in_range r i) ranges) img (overlay (in_range rg) img E)) p2"
    using Cons.IH [OF _ _ p1(2), of prog1] Cons.prems by auto
  have "overlay (\<lambda>i. list_ex (\<lambda>r. in_range r i) ranges) img (overlay (in_range rg) img E) =
      overlay (\<lambda>i. list_ex (\<lambda>r. in_range r i) (rg # ranges)) img E"
    by (auto intro!: nth_equalityI)
  then show ?case using p1(1) p2 by (simp add: rg)
qed

lemma read_blocks_serves:
  assumes radio: "eeprom_radio P idle" and "idle E p" "unat stop \<le> length E" "unat stop \<le> length img"
    and "unat addr + k * unat len = unat stop" "0 < unat len" "k < fuel"
  shows "\<exists>p'. read_blocks P len fuel addr stop img p = Some (Inr (overlay (in_range (addr, stop)) E img), p') \<and> idle E p'"
  using assms(2-)
proof (induction k arbitrary: addr fuel img p)
  case 0
  have "overlay (in_range (addr, stop)) E img = img" using 0(4) by (auto simp: in_range_def intro!: nth_equalityI)
  with 0 show ?case by (cases fuel) (simp_all add: word_less_nat_alt)
next
  case (Suc k)
  obtain f where f: "fuel = Suc f" using Suc.prems(6) by (cases fuel) auto
  note step = unat_step [OF Suc.prems(4,5)]
  have next_addr: "unat (addr + ucast len) = unat addr + unat len" using step(2) Suc.prems(4) by simp
  let ?data = "take (unat len) (drop (unat addr) E)"
  have fits: "unat addr + unat len \<le> length E" "unat addr + length ?data \<le> length img" "length ?data = unat len"
    using Suc.prems(2-4) by simp_all
  obtain p1 where p1: "read_block_with_retry P addr len p = (Inr ?data, p1)" "idle E p1"
    using read_block_serves [OF radio Suc.prems(1) fits(1)] by auto
  obtain img1 where w: "write_bytes img addr ?data = Some img1" "length img1 = length img"
      "\<forall>i<length img. img1 ! i = (if unat addr \<le> i \<and> i < unat addr + length ?data then ?data ! (i - unat addr) else img ! i)"
    using write_bytes_in [OF fits(2)] by blast
  have "\<exists>p'. read_blocks P len f (addr + ucast len) stop img1 p1 =
      Some (Inr (overlay (in_range (addr + ucast len, stop)) E img1), p') \<and> idle E p'"
    by (rule Suc.IH [OF p1(2)]) (use Suc.prems f w(2) step(2) in simp_all)
  moreover have "overlay (in_range (addr + ucast len, stop)) E img1 = overlay (in_range (addr, stop)) E img"
    using w(2,3) fits Suc.prems(4) next_addr by (auto simp: in_range_def intro!: nth_equalityI)
  ultimately show ?case using step(1) p1(1) w(1) by (simp add: f)
qed

text \<open>The addresses an upload writes and a download reads.\<close>

definition uploaded :: "variant_config \<Rightarrow> nat \<Rightarrow> bool" where
  "uploaded config i \<longleftrightarrow> list_ex (\<lambda>r. in_range r i) (upload_ranges config)"

definition downloaded :: "variant_config \<Rightarrow> nat \<Rightarrow> bool" where
  "downloaded config i \<longleftrightarrow> i < 0x1800 \<or> vc_has_aux_block config \<and> 0x1E80 \<le> i \<and> i < 0x2000"

definition download_size :: "variant_config \<Rightarrow> nat" where
  "download_size config = (if vc_has_aux_block config then 0x2000 else 0x1800)"

lemma upload_ranges_clear: "list_all range_clear (upload_ranges config)"
  by (simp add: upload_ranges_def UPLOAD_RANGES_MAIN_def UPLOAD_RANGES_AUX_def range_clear_def FORBIDDEN_RANGES_def)

lemma upload_serves:
  assumes "eeprom_radio P idle" "idle E p" "length E = 0x2000" "length img = 0x2000"
  shows "\<exists>p'. session_upload P ses img p = Some (Inr (), p') \<and> idle (overlay (uploaded (ses_config ses)) img E) p'"
proof -
  let ?c = "ses_config ses"
  have ok: "list_all (range_ok (length img)) (upload_ranges ?c)"
    using assms(4) by (simp add: upload_ranges_def upload_ranges_ok)
  have "\<not> length img < fold max (map (\<lambda>(_, stop). unat stop) (upload_ranges ?c)) 0"
    using assms(4) unfolding upload_required by simp
  then obtain prog p' where "upload_image P ?c img p = Some (Inr prog, p')" "idle (overlay (uploaded ?c) img E) p'"
    using write_ranges_serves [OF assms(1) ok upload_ranges_clear assms(2,3)] unfolding upload_image_def Let_def uploaded_def by (metis (no_types))
  then show ?thesis by (simp add: session_upload_def)
qed

lemma download_serves:
  assumes radio: "eeprom_radio P idle" and E: "idle E p" "length E = 0x2000"
  shows "\<exists>p'. session_download P ses p =
    Some (Inr (overlay (downloaded (ses_config ses)) E (image_new (download_size (ses_config ses)))), p') \<and> idle E p'"
proof -
  let ?c = "ses_config ses"
  let ?new = "image_new (download_size ?c)"
  let ?main = "overlay (in_range (MAIN_BLOCK_START, MAIN_BLOCK_END)) E ?new"
  have len: "length ?new = download_size ?c" by (simp add: image_new_def)
  have "\<exists>p'. read_blocks P READ_BLOCK_SIZE LOOP_FUEL MAIN_BLOCK_START MAIN_BLOCK_END ?new p = Some (Inr ?main, p') \<and> idle E p'"
    by (rule read_blocks_serves [OF radio E(1), where k = 96])
      (simp_all add: E(2) image_new_def download_size_def MAIN_BLOCK_START_def MAIN_BLOCK_END_def READ_BLOCK_SIZE_def LOOP_FUEL_def)
  then obtain p1 where p1: "read_blocks P READ_BLOCK_SIZE LOOP_FUEL MAIN_BLOCK_START MAIN_BLOCK_END ?new p = Some (Inr ?main, p1)" "idle E p1"
    by blast
  have size: "(if vc_has_aux_block ?c then unat AUX_BLOCK_END else unat MAIN_BLOCK_END) = download_size ?c"
    by (simp add: download_size_def AUX_BLOCK_END_def MAIN_BLOCK_END_def)
  have "\<exists>p'. download_image P ?c p = Some (Inr (overlay (downloaded ?c) E ?new), p') \<and> idle E p'"
  proof (cases "vc_has_aux_block ?c")
    case False
    then have "?main = overlay (downloaded ?c) E ?new"
      by (auto simp: in_range_def downloaded_def MAIN_BLOCK_START_def MAIN_BLOCK_END_def intro!: nth_equalityI)
    then show ?thesis using False p1 unfolding download_image_def Let_def size by simp
  next
    case True
    then have n: "length ?main = 0x2000" by (simp add: image_new_def download_size_def)
    have aux: "\<exists>p'. read_blocks P AUX_READ_BLOCK_SIZE LOOP_FUEL addr AUX_BLOCK_END img q =
        Some (Inr (overlay (in_range (addr, AUX_BLOCK_END)) E img), p') \<and> idle E p'"
      if "idle E q" "length img = 0x2000" "unat addr = 0x1E80 \<or> unat addr = 0x1E90" for addr img q
      by (rule read_blocks_serves [OF radio that(1), where k = "(0x2000 - unat addr) div 16"])
        (use that in \<open>auto simp: E(2) AUX_READ_BLOCK_SIZE_def AUX_BLOCK_END_def LOOP_FUEL_def\<close>)
    let ?data = "take (unat AUX_READ_BLOCK_SIZE) (drop (unat AUX_BLOCK_START) E)"
    have d: "unat AUX_BLOCK_START + unat AUX_READ_BLOCK_SIZE \<le> length E" "unat AUX_BLOCK_START + length ?data \<le> length ?main"
      "length ?data = 16"
      using E(2) n by (simp_all add: AUX_BLOCK_START_def AUX_READ_BLOCK_SIZE_def)
    obtain p2 where p2: "read_block_with_retry P AUX_BLOCK_START AUX_READ_BLOCK_SIZE p1 = (Inr ?data, p2)" "idle E p2"
      using read_block_serves [OF radio p1(2) d(1)] by blast
    obtain img2 where w: "write_bytes ?main AUX_BLOCK_START ?data = Some img2" "length img2 = length ?main"
      "\<forall>i<length ?main. img2 ! i = (if unat AUX_BLOCK_START \<le> i \<and> i < unat AUX_BLOCK_START + length ?data
         then ?data ! (i - unat AUX_BLOCK_START) else ?main ! i)"
      using write_bytes_in [OF d(2)] by blast
    have warm: "overlay (in_range (AUX_BLOCK_START + ucast AUX_READ_BLOCK_SIZE, AUX_BLOCK_END)) E img2 = overlay (downloaded ?c) E ?new"
      using w(2,3) True n d(3) len E(2)
      by (auto simp: in_range_def downloaded_def AUX_BLOCK_START_def AUX_BLOCK_END_def AUX_READ_BLOCK_SIZE_def MAIN_BLOCK_START_def MAIN_BLOCK_END_def
          intro!: nth_equalityI)
    have cold: "overlay (in_range (AUX_BLOCK_START, AUX_BLOCK_END)) E ?main = overlay (downloaded ?c) E ?new"
      using True n len
      by (auto simp: in_range_def downloaded_def AUX_BLOCK_START_def AUX_BLOCK_END_def MAIN_BLOCK_START_def MAIN_BLOCK_END_def intro!: nth_equalityI)
    show ?thesis
    proof (cases "vc_needs_aux_warmup ?c")
      case warmup: True
      show ?thesis
        using aux [OF p2(2), of img2 "AUX_BLOCK_START + ucast AUX_READ_BLOCK_SIZE"] True warmup p1(1) p2(1) w(1,2) n warm
        unfolding download_image_def Let_def size by (simp add: AUX_BLOCK_START_def AUX_READ_BLOCK_SIZE_def)
    next
      case no_warmup: False
      show ?thesis
        using aux [OF p1(2) n, of AUX_BLOCK_START] True no_warmup p1(1) cold
        unfolding download_image_def Let_def size by (simp add: AUX_BLOCK_START_def)
    qed
  qed
  then show ?thesis by (auto simp: session_download_def)
qed

subsection \<open>The program command\<close>

lemma encode_channels_plan:
  assumes "c = baofeng_uv5r_constraints \<or> c = baofeng_f8hp_constraints"
    and "\<forall>issue\<in>set (validate_plan plan c). \<not> is_error issue"
    and "\<forall>ch\<in>set (fp_channels plan). aligned_channel ch"
    and "distinct (map ch_index (fp_channels plan))"
  obtains img where "encode_channels (fp_channels plan) = Some (Inr img)" "length img = 0x2000"
    "\<forall>i<128. decode_channel img (word_of_nat i) = Some (Inr (map_option stored_channel (plan_channel plan (word_of_nat i))))"
    "\<forall>k<0x2000. outside_slots k \<longrightarrow> img ! k = 0xFF"
proof -
  let ?plan = "\<lparr>fp_name = ascii ''program'', fp_radio_model = None, fp_channels = fp_channels plan, fp_created = None\<rparr>"
  have st: "\<forall>ch\<in>set (fp_channels ?plan). channel_storable ch \<and> unat (ch_index ch) < 128"
    using validated_storable [OF assms(1-3)] by simp
  have same: "plan_channel ?plan i = plan_channel plan i" for i by (simp add: plan_channel_def)
  obtain img where "encode_all_channels ?plan (image_new IMAGE_SIZE) = Some (Inr (), img)" "length img = length (image_new IMAGE_SIZE)"
    "\<forall>i<128. decode_channel img (word_of_nat i) = Some (Inr (map_option stored_channel (plan_channel ?plan (word_of_nat i))))"
    "\<forall>k<length (image_new IMAGE_SIZE). outside_slots k \<longrightarrow> img ! k = image_new IMAGE_SIZE ! k"
    using encode_all_decode_all [of "image_new IMAGE_SIZE" ?plan, OF _ st] assms(4) by (auto simp: image_new_def IMAGE_SIZE_def)
  then show thesis by (intro that [of img]) (simp_all add: encode_channels_def Let_def same image_new_def IMAGE_SIZE_def)
qed

lemma in_slot_uploaded: "i < 128 \<Longrightarrow> in_slot i k \<Longrightarrow> uploaded config k \<and> k < 0x1800"
  by (auto simp: in_slot_def uploaded_def upload_ranges_def UPLOAD_RANGES_MAIN_def in_range_def)

text \<open>What a download returns after an upload.\<close>

definition readback :: "variant_config \<Rightarrow> bytes \<Rightarrow> bytes \<Rightarrow> bytes" where
  "readback config img E = overlay (downloaded config) (overlay (uploaded config) img E) (image_new (download_size config))"

lemma readback_nth:
  assumes "length E = 0x2000"
  shows "length (readback config img E) = download_size config"
    "k < download_size config \<Longrightarrow> readback config img E ! k =
      (if downloaded config k then if uploaded config k then img ! k else E ! k else 0xFF)"
  using assms by (auto simp: readback_def image_new_def download_size_def split: if_splits)

lemma read_bytes_take:
  "unat addr + n \<le> m \<Longrightarrow> m \<le> length img \<Longrightarrow> read_bytes (take m img) addr n = read_bytes img addr n"
  by (simp add: read_bytes_in drop_take min_def)

lemma decode_channel_take:
  assumes "0x1800 \<le> length img" "unat j < 128"
  shows "decode_channel (take 0x1800 img) j = decode_channel img j"
proof -
  have "read_bytes (take 0x1800 img) (channel_addr j) 16 = read_bytes img (channel_addr j) 16"
    "read_bytes (take 0x1800 img) (name_addr j) NAME_LENGTH = read_bytes img (name_addr j) NAME_LENGTH"
    using assms by (intro read_bytes_take; simp add: NAME_LENGTH_def)+
  then show ?thesis by (simp only: decode_channel_def)
qed

lemma readback_decodes:
  assumes E: "length E = 0x2000" and img: "length img = 0x2000"
    and plan: "\<forall>i<128. decode_channel img (word_of_nat i) = Some (Inr (map_option stored_channel (plan_channel plan (word_of_nat i))))"
  shows "decode_channels (readback config img E) = Some (Inr (slots_of_plan plan))"
proof -
  let ?rb = "readback config img E"
  have len: "0x1800 \<le> length ?rb" using readback_nth(1) [OF E] by (simp add: download_size_def)
  have "decode_channel ?rb (word_of_nat i) = decode_channel img (word_of_nat i)" if i: "i < 128" for i
  proof -
    have j: "unat (word_of_nat i :: u8) = i" using i by (simp add: unsigned_of_nat take_bit_nat_eq_self)
    have "?rb ! k = img ! k" if "in_slot i k" for k
      using readback_nth(2) [OF E, of k config img] in_slot_uploaded [OF i that, of config]
      by (simp add: downloaded_def download_size_def split: if_splits)
    then have "decode_channel (take 0x1800 ?rb) (word_of_nat i) = decode_channel (take 0x1800 img) (word_of_nat i)"
      using len img i by (intro decode_channel_cong) (simp_all add: j)
    then show ?thesis using len img i by (simp add: decode_channel_take j)
  qed
  then have "\<forall>i<128. decode_channel ?rb (word_of_nat i) = Some (Inr (map_option stored_channel (plan_channel plan (word_of_nat i))))"
    using plan by simp
  from decode_all_slots [OF this] show ?thesis by (simp add: decode_channels_def)
qed

text \<open>The bytes the verification compares that the upload never wrote.\<close>

definition unwritten_blank :: "variant_config \<Rightarrow> bytes \<Rightarrow> bool" where
  "unwritten_blank config E \<longleftrightarrow> (\<forall>k<0x2000. downloaded config k \<longrightarrow> \<not> uploaded config k \<longrightarrow> E ! k = 0xFF)"

lemma uploaded_downloaded: "uploaded config k \<Longrightarrow> downloaded config k \<and> k < 0x2000"
  by (auto simp: uploaded_def downloaded_def upload_ranges_def UPLOAD_RANGES_MAIN_def UPLOAD_RANGES_AUX_def in_range_def split: if_splits)

lemma readback_equal_iff:
  assumes E: "length E = 0x2000" and img: "length img = 0x2000" "\<forall>k<0x2000. outside_slots k \<longrightarrow> img ! k = 0xFF"
  shows "readback config img E = img \<longleftrightarrow> vc_has_aux_block config \<and> unwritten_blank config E"
proof -
  have out: "img ! k = 0xFF" if "k < 0x2000" "\<not> uploaded config k" for k
    using that img(2) in_slot_uploaded unfolding outside_slots_def by blast
  show ?thesis
  proof (cases "vc_has_aux_block config")
    case False
    then have "length (readback config img E) = 0x1800" using readback_nth(1) [OF E] by (simp add: download_size_def)
    with img(1) False show ?thesis by auto
  next
    case True
    then have n: "download_size config = 0x2000" by (simp add: download_size_def)
    have "readback config img E = img \<longleftrightarrow> (\<forall>k<0x2000. readback config img E ! k = img ! k)"
      using readback_nth(1) [OF E] img(1) n by (simp add: list_eq_iff_nth_eq)
    also have "\<dots> \<longleftrightarrow> unwritten_blank config E"
      unfolding unwritten_blank_def using readback_nth(2) [OF E] out uploaded_downloaded n by auto
    finally show ?thesis using True by simp
  qed
qed

lemma write_lines_ok:
  assumes "\<forall>l out. \<exists>out'. w l out = (Inr (), out')"
  shows "\<exists>out'. write_lines w ls out = (Inr (), out')"
proof (induction ls arbitrary: out)
  case (Cons l ls)
  obtain out1 where "w l out = (Inr (), out1)" using assms by blast
  then show ?case using Cons.IH [of out1] by simp
qed simp

lemma upload_and_verify_serves:
  assumes "eeprom_radio P idle" "idle E p" "length E = 0x2000" and w: "\<forall>l out. \<exists>out'. w l out = (Inr (), out')"
    and enc: "encode_channels (fp_channels plan) = Some (Inr img)" "length img = 0x2000"
  shows "\<exists>out' p'. upload_and_verify P ses w plan out p =
      Some (if readback (ses_config ses) img E = img then Inr () else Inl VerificationReadback, out', p') \<and>
    idle (overlay (uploaded (ses_config ses)) img E) p'"
proof -
  obtain p1 where p1: "session_upload P ses img p = Some (Inr (), p1)" "idle (overlay (uploaded (ses_config ses)) img E) p1"
    using upload_serves [OF assms(1-3) enc(2)] by blast
  obtain p2 where p2: "session_download P ses p1 = Some (Inr (readback (ses_config ses) img E), p2)"
      "idle (overlay (uploaded (ses_config ses)) img E) p2"
    using download_serves [OF assms(1) p1(2), of ses] assms(3) unfolding readback_def by (metis overlay_nth(1))
  obtain out1 where o1: "write_lines w [LineVerifying] out = (Inr (), out1)" using write_lines_ok [OF w] by blast
  obtain out2 where o2: "write_lines w [LineProgrammed (plan_channel_count plan)] out1 = (Inr (), out2)"
    using write_lines_ok [OF w] by blast
  have "upload_and_verify P ses w plan out p =
      (if readback (ses_config ses) img E \<noteq> img then Some (Inl VerificationReadback, out1, p2) else Some (Inr (), out2, p2))"
    unfolding upload_and_verify_def enc(1) option.case sum.case p1(1) prod.case o1 p2(1) o2 ..
  then show ?thesis using p2(2) by auto
qed

lemma constraints_cases: "constraints v = baofeng_uv5r_constraints \<or> constraints v = baofeng_f8hp_constraints"
  by (cases v) simp_all

text \<open>The whole command from a validated plan and a confirmed prompt to its outcome.\<close>

lemma program_run_serves:
  assumes target: "resolve_target port hw = Inr target" and ses: "open_session hw (dr_port target) = Inr (ses, p)"
    and radio: "eeprom_radio (hw_serial hw) idle" "idle E p" "length E = 0x2000"
    and w: "\<forall>l out. \<exists>out'. w l out = (Inr (), out')"
    and plan: "\<forall>issue\<in>set (validate_plan plan (constraints (dr_variant target))). \<not> is_error issue"
      "\<forall>ch\<in>set (fp_channels plan). aligned_channel ch" "distinct (map ch_index (fp_channels plan))"
  obtains img out' p' where
    "program_run hw w port (Inr plan) (Some True) out =
      Some (if vc_has_aux_block (ses_config ses) \<and> unwritten_blank (ses_config ses) E then Inr () else Inl VerificationReadback, out', Some p')"
    "idle (overlay (uploaded (ses_config ses)) img E) p'" "\<forall>k<0x2000. outside_slots k \<longrightarrow> img ! k = 0xFF"
proof -
  let ?issues = "validate_plan plan (constraints (dr_variant target))"
  obtain img where img: "encode_channels (fp_channels plan) = Some (Inr img)" "length img = 0x2000"
      "\<forall>k<0x2000. outside_slots k \<longrightarrow> img ! k = 0xFF"
    by (rule encode_channels_plan [OF constraints_cases plan])
  have no_error: "filter is_error ?issues = []" using plan(1) by (simp add: filter_empty_conv)
  obtain out1 where o1: "write_lines w (map LineWarning (filter (\<lambda>i. \<not> is_error i) ?issues) @
      [LineAboutToProgram (dr_variant target) (dr_port target) (plan_channel_count plan)]) out = (Inr (), out1)"
    using write_lines_ok [OF w] by blast
  obtain out2 p2 where v: "upload_and_verify (hw_serial hw) ses w plan out1 p =
      Some (if readback (ses_config ses) img E = img then Inr () else Inl VerificationReadback, out2, p2)"
      "idle (overlay (uploaded (ses_config ses)) img E) p2"
    using upload_and_verify_serves [OF radio w img(1,2), of ses out1] by (elim exE conjE)
  show thesis
  proof (rule that)
    show "program_run hw w port (Inr plan) (Some True) out =
      Some (if vc_has_aux_block (ses_config ses) \<and> unwritten_blank (ses_config ses) E then Inr () else Inl VerificationReadback, out2, Some p2)"
      unfolding program_run_def sum.case target Let_def no_error o1 prod.case option.case ses v(1)
        readback_equal_iff [OF radio(3) img(2,3)] by (simp only: simp_thms if_False bool.case)
  qed (fact v(2), fact img(3))
qed

subsection \<open>A simulated radio\<close>

text \<open>It accepts any magic sequence, identifies itself and then serves its memory.\<close>

datatype sim_mode = AwaitMagic nat | AwaitIdent | AwaitConfirm | Serving

fun sim_command :: "bytes \<Rightarrow> sim_mode \<times> bytes \<Rightarrow> bytes \<Rightarrow> sim_mode \<times> bytes \<times> bytes" where
  "sim_command ident (AwaitMagic n, E) bs = (if n < 6 then (AwaitMagic (Suc n), E, []) else (AwaitIdent, E, [ACK]))"
| "sim_command ident (AwaitIdent, E) bs = (AwaitConfirm, E, ident @ [IDENT_TERMINATOR])"
| "sim_command ident (AwaitConfirm, E) bs = (Serving, E, [ACK])"
| "sim_command ident (Serving, E) (cmd # h # l # n # data) =
     (let a = 256 * unat h + unat l
      in if cmd = CMD_READ then (Serving, E, [CMD_READ_RESPONSE, h, l, n] @ take (unat n) (drop a E))
         else (Serving, patch E a data, [ACK]))"
| "sim_command ident (Serving, E) bs = (Serving, E, [])"

definition sim_port :: "bytes \<Rightarrow> (sim_mode \<times> bytes \<times> bytes) serial_port" where
  "sim_port ident =
     \<lparr>sp_write_all = \<lambda>bs (m, E, q). (case sim_command ident (m, E) bs of (m, E, r) \<Rightarrow> (Inr (), m, E, q @ r)),
      sp_read_exact = \<lambda>n (m, E, q). (if length q < n then (Inl TimedOut, m, E, q) else (Inr (take n q), m, E, drop n q)),
      sp_set_timeout = \<lambda>_ p. (Inr (), p),
      sp_flush = \<lambda>p. (Inr (), p)\<rparr>"

definition sim_idle :: "bytes \<Rightarrow> sim_mode \<times> bytes \<times> bytes \<Rightarrow> bool" where
  "sim_idle E p \<longleftrightarrow> p = (Serving, E, [])"

lemma sim_radio: "eeprom_radio (sim_port ident) sim_idle"
proof -
  have r: "sp_write_all (sim_port ident) [CMD_READ, addr_h addr, addr_l addr, len] p =
        (Inr (), Serving, E, [CMD_READ_RESPONSE, addr_h addr, addr_l addr, len] @ take (unat len) (drop (unat addr) E)) \<and>
      sp_read_exact (sim_port ident) 4 (Serving, E, [CMD_READ_RESPONSE, addr_h addr, addr_l addr, len] @ take (unat len) (drop (unat addr) E)) =
        (Inr [CMD_READ_RESPONSE, addr_h addr, addr_l addr, len], Serving, E, take (unat len) (drop (unat addr) E)) \<and>
      sp_read_exact (sim_port ident) (unat len) (Serving, E, take (unat len) (drop (unat addr) E)) =
        (Inr (take (unat len) (drop (unat addr) E)), Serving, E, []) \<and>
      sp_write_all (sim_port ident) [ACK] (Serving, E, []) = (Inr (), Serving, E, []) \<and> sim_idle E (Serving, E, [])"
    if "sim_idle E p" "unat addr + unat len \<le> length E" for E p addr len
    using that by (simp add: sim_port_def sim_idle_def addr_bytes)
  have w: "sp_write_all (sim_port ident) (CMD_WRITE # addr_h addr # addr_l addr # word_of_nat (length data) # data) p =
        (Inr (), Serving, patch E (unat addr) data, [ACK]) \<and>
      sp_read_exact (sim_port ident) 1 (Serving, patch E (unat addr) data, [ACK]) = (Inr [ACK], Serving, patch E (unat addr) data, []) \<and>
      sim_idle (patch E (unat addr) data) (Serving, patch E (unat addr) data, [])"
    if "sim_idle E p" for E p addr data
    using that by (simp add: sim_port_def sim_idle_def addr_bytes CMD_READ_def CMD_WRITE_def)
  show ?thesis
    unfolding eeprom_radio_def
  proof (intro conjI allI impI, goal_cases)
    case (1 E p addr len)
    from r [OF this] show ?case by (intro exI)
  next
    case (2 E p addr data)
    from w [OF 2(1)] show ?case by (intro exI)
  qed
qed

definition sim_hw :: "bytes \<Rightarrow> bytes \<Rightarrow> cli_variant \<Rightarrow> (sim_mode \<times> bytes \<times> bytes) hardware" where
  "sim_hw ident E v =
     \<lparr>hw_detect_radios = Inr [\<lparr>dr_variant = v, dr_port = [], dr_firmware = [], dr_warnings = []\<rparr>],
      hw_detect_radio_on_port = \<lambda>_. Inr None,
      hw_open_port = \<lambda>_. Inr (AwaitMagic 0, E, []),
      hw_serial = sim_port ident\<rparr>"

definition uv5r_ident :: bytes where "uv5r_ident = map of_char ''BFB29100''"

lemma sim_open:
  "open_session (sim_hw uv5r_ident E v) port = Inr (\<lparr>ses_config = uv5r_config, ses_variant = CliUv5r\<rparr>, Serving, E, [])"
  by (simp add: open_session_def sim_hw_def MAGIC_SETS_def MAGIC_UV5R_291_def enter_programming_mode_def and_then_def serial_io_def
     sim_port_def ok_def read_ack_def read_exact_timeout_def fill_buf_def byte_at_def identify_def read_ident.simps uv5r_ident_def
     ident_from_raw_def send_ack_def IDENT_TERMINATOR_def identify_variant_def UV5R_PREFIXES_def BF_F8HP_PREFIXES_def has_prefix_def
     variant_from_config_def uv5r_config_def)

subsection \<open>Properties\<close>

text \<open>
  C4. Validation, codec and driver compose. Take a radio that follows the protocol and a plan that validates without errors and besides, which
  validation does not enforce, has frequencies that are multiples of ten hertz, tones of the standard tables, ASCII names of at most seven
  characters without outer blanks, and distinct indices. The plan is encoded, the upload succeeds, the download after it succeeds, and decoding
  what was downloaded gives the channels of the plan in slot order, each with its repeater offset recomputed from its two
  frequencies, whatever the memory held before and whether or not the variant has an auxiliary block.
\<close>

theorem programmed_plan_reads_back:
  assumes "eeprom_radio P idle" "idle E p" "length E = 0x2000"
    and "c = baofeng_uv5r_constraints \<or> c = baofeng_f8hp_constraints"
    and "\<forall>issue\<in>set (validate_plan plan c). \<not> is_error issue"
    and "\<forall>ch\<in>set (fp_channels plan). aligned_channel ch" "distinct (map ch_index (fp_channels plan))"
  shows "\<exists>img p1 rb p2. encode_channels (fp_channels plan) = Some (Inr img) \<and>
    session_upload P ses img p = Some (Inr (), p1) \<and> session_download P ses p1 = Some (Inr rb, p2) \<and>
    decode_channels rb = Some (Inr (slots_of_plan plan))"
proof -
  obtain img where img: "encode_channels (fp_channels plan) = Some (Inr img)" "length img = 0x2000"
    "\<forall>i<128. decode_channel img (word_of_nat i) = Some (Inr (map_option stored_channel (plan_channel plan (word_of_nat i))))"
    by (rule encode_channels_plan [OF assms(4-7)])
  let ?c = "ses_config ses"
  obtain p1 where p1: "session_upload P ses img p = Some (Inr (), p1)" "idle (overlay (uploaded ?c) img E) p1"
    using upload_serves [OF assms(1-3) img(2)] by blast
  obtain p2 where "session_download P ses p1 = Some (Inr (readback ?c img E), p2)"
    using download_serves [OF assms(1) p1(2), of ses] assms(3) unfolding readback_def by (metis overlay_nth(1))
  then show ?thesis using img(1) p1(1) readback_decodes [OF assms(3) img(2,3), of ?c] by blast
qed

theorem programmed_plan_reads_back_witness:
  "\<exists>img p1 rb p2. encode_channels (fp_channels demo_plan) = Some (Inr img) \<and>
    session_upload (sim_port uv5r_ident) \<lparr>ses_config = bf_f8hp_config, ses_variant = CliBfF8hp\<rparr> img (Serving, replicate 0x2000 0, []) = Some (Inr (), p1) \<and>
    session_download (sim_port uv5r_ident) \<lparr>ses_config = bf_f8hp_config, ses_variant = CliBfF8hp\<rparr> p1 = Some (Inr rb, p2) \<and>
    decode_channels rb = Some (Inr (slots_of_plan demo_plan))"
proof (rule programmed_plan_reads_back [OF sim_radio _ _ disjI1 [OF refl] demo_plan_ok])
  show "sim_idle (replicate 0x2000 0) (Serving, replicate 0x2000 0, [])" by (simp add: sim_idle_def)
qed (rule length_replicate)

text \<open>
  C28. The exact verdict of the \<open>program\<close> command. On a radio that follows the protocol, with a valid plan and a confirmed prompt, the
  command ends without an error only if the variant has an auxiliary block and every byte that is read back but never uploaded
  already is \<open>0xFF\<close>; in every other case it reports a failed verification. On a UV-5R it always does so, since the image that was
  encoded has \<open>0x2000\<close> bytes and the one read back \<open>0x1800\<close>; on a BF-F8HP it does so as soon as the calibration data is not blank.
\<close>

theorem programming_verdict:
  assumes "resolve_target port hw = Inr target" "open_session hw (dr_port target) = Inr (ses, p)"
    and "eeprom_radio (hw_serial hw) idle" "idle E p" "length E = 0x2000"
    and "\<forall>l out. \<exists>out'. w l out = (Inr (), out')"
    and "\<forall>issue\<in>set (validate_plan plan (constraints (dr_variant target))). \<not> is_error issue"
    and "\<forall>ch\<in>set (fp_channels plan). aligned_channel ch" "distinct (map ch_index (fp_channels plan))"
  shows "\<exists>out' p'. program_run hw w port (Inr plan) (Some True) out =
    Some (if vc_has_aux_block (ses_config ses) \<and> unwritten_blank (ses_config ses) E then Inr () else Inl VerificationReadback, out', Some p')"
  by (rule program_run_serves [OF assms]) (intro exI)

definition demo_hw :: "(sim_mode \<times> bytes \<times> bytes) hardware" where
  "demo_hw = sim_hw uv5r_ident (replicate 0x2000 0) CliUv5r"

lemma demo_hw_ok:
  "resolve_target None demo_hw = Inr \<lparr>dr_variant = CliUv5r, dr_port = [], dr_firmware = [], dr_warnings = []\<rparr>"
  "open_session demo_hw port = Inr (\<lparr>ses_config = uv5r_config, ses_variant = CliUv5r\<rparr>, Serving, replicate 0x2000 0, [])"
  "eeprom_radio (hw_serial demo_hw) sim_idle" "sim_idle (replicate 0x2000 0) (Serving, replicate 0x2000 0, [])"
  using sim_radio sim_open
  by (simp_all add: demo_hw_def resolve_target_def sim_hw_def sim_idle_def)

lemma sink_ok: "\<forall>l out. \<exists>out'. (\<lambda>l out. (Inr () :: io_error + unit, out @ [l])) l out = (Inr (), out')"
  by simp

theorem programming_verdict_witness:
  "\<exists>out' p'. program_run demo_hw (\<lambda>l out. (Inr (), out @ [l])) None (Inr demo_plan) (Some True) [] =
    Some (Inl VerificationReadback, out', Some p')"
proof -
  have "\<not> vc_has_aux_block uv5r_config" by (simp add: uv5r_config_def)
  then show ?thesis
    using programming_verdict [OF demo_hw_ok length_replicate sink_ok, where plan = demo_plan]
      demo_plan_ok by simp
qed

text \<open>
  C29. What programming does to the rest of the memory. After the \<open>program\<close> command, whatever its verdict, every byte of the upload ranges that is
  not part of a channel or a name has become \<open>0xFF\<close>: the settings of the radio are erased, since the image is not built on the memory that was
  there. All bytes outside the upload ranges, the calibration data among them, are as before.
\<close>

theorem programming_erases_settings:
  assumes "resolve_target port hw = Inr target" "open_session hw (dr_port target) = Inr (ses, p)"
    and "eeprom_radio (hw_serial hw) idle" "idle E p" "length E = 0x2000"
    and "\<forall>l out. \<exists>out'. w l out = (Inr (), out')"
    and "\<forall>issue\<in>set (validate_plan plan (constraints (dr_variant target))). \<not> is_error issue"
    and "\<forall>ch\<in>set (fp_channels plan). aligned_channel ch" "distinct (map ch_index (fp_channels plan))"
  shows "\<exists>verdict out' p' E'. program_run hw w port (Inr plan) (Some True) out = Some (verdict, out', Some p') \<and> idle E' p' \<and>
    length E' = 0x2000 \<and>
    (\<forall>k<0x2000. outside_slots k \<longrightarrow> E' ! k = (if uploaded (ses_config ses) k then 0xFF else E ! k)) \<and>
    (\<forall>k<0x2000. calibration k \<longrightarrow> E' ! k = E ! k)"
proof -
  obtain img verdict out' p' where run: "program_run hw w port (Inr plan) (Some True) out = Some (verdict, out', Some p')"
    and idle: "idle (overlay (uploaded (ses_config ses)) img E) p'" and img: "\<forall>k<0x2000. outside_slots k \<longrightarrow> img ! k = 0xFF"
    by (rule program_run_serves [OF assms])
  have "\<not> uploaded (ses_config ses) k" if "calibration k" for k
    using that by (auto simp: calibration_def FORBIDDEN_RANGES_def uploaded_def upload_ranges_def UPLOAD_RANGES_MAIN_def UPLOAD_RANGES_AUX_def in_range_def)
  with run idle img assms(5) show ?thesis by (intro exI [of _ verdict] exI [of _ out'] exI [of _ p']
        exI [of _ "overlay (uploaded (ses_config ses)) img E"] conjI) simp_all
qed

theorem programming_erases_settings_witness:
  "\<exists>verdict out' p' E'. program_run demo_hw (\<lambda>l out. (Inr (), out @ [l])) None (Inr demo_plan) (Some True) [] =
      Some (verdict, out', Some p') \<and> sim_idle E' p' \<and> length E' = 0x2000 \<and>
    (\<forall>k<0x2000. outside_slots k \<longrightarrow> E' ! k = (if uploaded uv5r_config k then 0xFF else replicate 0x2000 0 ! k)) \<and>
    (\<forall>k<0x2000. calibration k \<longrightarrow> E' ! k = replicate 0x2000 0 ! k)"
  by (rule programming_erases_settings [OF demo_hw_ok length_replicate sink_ok,
        unfolded session.simps detected_radio.simps constraints.simps, OF demo_plan_ok])

end
