(* ===== verification/Vault_Crypto.thy ===== *)
theory Vault_Crypto
  imports Tamper_Props
begin

section \<open>Keys, envelopes and identities of the credential vault\<close>

text \<open>
  Crate \<open>kryphos\<close>: the data model of \<open>vault.rs\<close>, the key derivation and the envelopes of \<open>crypto.rs\<close>, the installation identity of
  \<open>key.rs\<close> and the errors of \<open>error.rs\<close>. A Rust string is its UTF-8 bytes. The text of an error message is the datum it prints.

  Argon2id, ChaCha20-Poly1305, Ed25519, BLAKE3 and the JSON encodings are library code and are the fields of \<open>vault_prims\<close>; what the vault relies on is
  \<open>vault_prims_ok\<close>: decryption undoes encryption under the same key, nonce and associated data, parsing undoes printing, sizes are as documented.
  Nonces, salts and new keys are random and enter as arguments. Wiping memory has no effect on the model.
\<close>

subsection \<open>Data (\<open>vault.rs\<close>)\<close>

type_synonym vault_key = bytes
type_synonym vault_time = int

definition NONCE_LEN :: usize where "NONCE_LEN = 12"

definition VAULT_VERSION :: u32 where "VAULT_VERSION = 2"

definition MIN_SUPPORTED_VAULT_VERSION :: u32 where "MIN_SUPPORTED_VAULT_VERSION = 2"

datatype credential_type = ApiKey | Psk | Certificate | RadioKey | Custom bytes

datatype entry_status = StActive | StRevoked | StExpired

datatype history_event_kind = EvCreated | EvRotated | EvRevoked

record history_event =
  he_timestamp :: vault_time
  he_kind :: history_event_kind

record entry_metadata =
  em_created_at :: vault_time
  em_rotated_at :: "vault_time option"
  em_revoked_at :: "vault_time option"
  em_rotation_count :: u32
  em_tags :: "bytes list"

record kdf_params =
  kp_memory_cost_kib :: u32
  kp_time_cost :: u32
  kp_parallelism :: u32

definition kdf_default :: kdf_params where
  "kdf_default = \<lparr>kp_memory_cost_kib = 65536, kp_time_cost = 3, kp_parallelism = 4\<rparr>"

subsection \<open>Stored records (\<open>storage.rs\<close>)\<close>

record stored_header =
  sh_version :: u32
  sh_salt :: bytes
  sh_kdf_params :: kdf_params
  sh_key_check :: bytes
  sh_installation_public_key :: "bytes option"
  sh_sealed_signing_key :: "bytes option"

record stored_entry =
  se_envelope_version :: u8
  se_encrypted_secret :: bytes
  se_encrypted_metadata :: bytes

record entry_record =
  er_name :: bytes
  er_credential_type :: credential_type
  er_metadata :: entry_metadata
  er_status :: entry_status
  er_history :: "history_event list"

subsection \<open>Library functions\<close>

record vault_prims =
  vp_log :: prims
  vp_blake3 :: "bytes \<Rightarrow> bytes"
  vp_argon2_accepts :: "kdf_params \<Rightarrow> bool"
  vp_argon2 :: "kdf_params \<Rightarrow> bytes \<Rightarrow> bytes \<Rightarrow> bytes option"
  vp_seal :: "vault_key \<Rightarrow> bytes \<Rightarrow> bytes \<Rightarrow> bytes \<Rightarrow> bytes option"
  vp_open :: "vault_key \<Rightarrow> bytes \<Rightarrow> bytes \<Rightarrow> bytes \<Rightarrow> bytes option"
  vp_public :: "bytes \<Rightarrow> bytes"
  vp_on_curve :: "bytes \<Rightarrow> bool"
  vp_sign :: "bytes \<Rightarrow> bytes \<Rightarrow> bytes"
  vp_verify :: "bytes \<Rightarrow> bytes \<Rightarrow> bytes \<Rightarrow> bool"
  vp_type_json :: "credential_type \<Rightarrow> bytes option"
  vp_header_enc :: "stored_header \<Rightarrow> bytes option"
  vp_header_dec :: "bytes \<Rightarrow> stored_header option"
  vp_entry_enc :: "stored_entry \<Rightarrow> bytes option"
  vp_entry_dec :: "bytes \<Rightarrow> stored_entry option"
  vp_record_enc :: "entry_record \<Rightarrow> bytes option"
  vp_record_dec :: "bytes \<Rightarrow> entry_record option"

text \<open>The arguments of \<open>vp_seal\<close> and \<open>vp_open\<close> are the key, the nonce, the associated data and the text.\<close>

definition vault_prims_ok :: "vault_prims \<Rightarrow> bool" where
  "vault_prims_ok V \<longleftrightarrow>
     prims_ok (vp_log V) \<and>
     (\<forall>k n a m c. length n = NONCE_LEN \<longrightarrow> vp_seal V k n a m = Some c \<longrightarrow> vp_open V k n a c = Some m) \<and>
     (\<forall>s. length s = 32 \<longrightarrow> length (vp_public V s) = 32 \<and> vp_on_curve V (vp_public V s)) \<and>
     (\<forall>s m. length (vp_sign V s m) = 64) \<and>
     (\<forall>h b. vp_header_enc V h = Some b \<longrightarrow> vp_header_dec V b = Some h) \<and>
     (\<forall>e b. vp_entry_enc V e = Some b \<longrightarrow> vp_entry_dec V b = Some e) \<and>
     (\<forall>r b. vp_record_enc V r = Some b \<longrightarrow> vp_record_dec V b = Some r)"

lemma vault_prims_laws:
  assumes "vault_prims_ok V"
  shows "prims_ok (vp_log V)"
    and "length n = NONCE_LEN \<Longrightarrow> vp_seal V k n a m = Some c \<Longrightarrow> vp_open V k n a c = Some m"
    and "length s = 32 \<Longrightarrow> length (vp_public V s) = 32" and "length s = 32 \<Longrightarrow> vp_on_curve V (vp_public V s)"
    and "length (vp_sign V s m) = 64"
    and "vp_header_enc V h = Some b \<Longrightarrow> vp_header_dec V b = Some h"
    and "vp_entry_enc V e = Some b \<Longrightarrow> vp_entry_dec V b = Some e"
    and "vp_record_enc V r = Some b \<Longrightarrow> vp_record_dec V b = Some r"
  using assms unfolding vault_prims_ok_def by blast+

subsection \<open>Errors (\<open>error.rs\<close>)\<close>

datatype key_error = InvalidEd25519Key | WrongKeyLength usize usize

datatype kdf_reason = KdfOutside string u32 u32 u32 | KdfRejected

datatype enc_reason = AeadFailed | Argon2Failed

datatype crypto_error =
    DecryptionFailed
  | EncryptionFailed enc_reason
  | KeyParse key_error
  | SignatureInvalid
  | InvalidNonceLength usize usize
  | InvalidKdfParams kdf_reason
  | InvalidSaltLength usize usize

datatype header_reason =
    UnsupportedVersion u32
  | KeyDerivation crypto_error
  | KeyCheckTooShort usize
  | BadVerifyingKey key_error
  | HalfIdentity bool bool
  | IdentityMismatch
  | TipUnsigned

datatype vault_error =
    InvalidHeader header_reason
  | EntryNotFound bytes
  | DuplicateEntry bytes
  | Serialization
  | VaultIo path
  | WrongPassphrase
  | EmptyPassphrase
  | VaultLocked string
  | AlreadyExists string
  | NotInitialized string
  | StorageBackend string
  | EntryCrypto crypto_error
  | EntryRevoked bytes
  | EntryExpired bytes
  | EntryNotDeletable bytes
  | AuditedMutationFailed bytes string vault_error
  | TamperLogFailed tamper_log_error
  | FieldTooLarge string usize

subsection \<open>Key derivation and envelopes (\<open>crypto.rs\<close>)\<close>

definition SALT_LEN :: usize where "SALT_LEN = 32"

definition ENTRY_ENVELOPE_VERSION :: u8 where "ENTRY_ENVELOPE_VERSION = 1"

definition MIN_KDF_MEMORY_KIB :: u32 where "MIN_KDF_MEMORY_KIB = 65536"

definition MIN_KDF_TIME_COST :: u32 where "MIN_KDF_TIME_COST = 3"

definition MIN_KDF_PARALLELISM :: u32 where "MIN_KDF_PARALLELISM = 4"

definition MAX_KDF_MEMORY_KIB :: u32 where "MAX_KDF_MEMORY_KIB = 1048576"

definition MAX_KDF_TIME_COST :: u32 where "MAX_KDF_TIME_COST = 16"

definition MAX_KDF_PARALLELISM :: u32 where "MAX_KDF_PARALLELISM = 16"

fun check_ranges :: "(string \<times> u32 \<times> u32 \<times> u32) list \<Rightarrow> crypto_error + unit" where
  "check_ranges [] = Inr ()"
| "check_ranges ((label, v, mn, mx) # rest) =
     (if v < mn \<or> mx < v then Inl (InvalidKdfParams (KdfOutside label v mn mx)) else check_ranges rest)"

definition check_kdf_params :: "kdf_params \<Rightarrow> crypto_error + unit" where
  "check_kdf_params params = check_ranges
     [(''memory_cost_kib'', kp_memory_cost_kib params, MIN_KDF_MEMORY_KIB, MAX_KDF_MEMORY_KIB),
      (''time_cost'', kp_time_cost params, MIN_KDF_TIME_COST, MAX_KDF_TIME_COST),
      (''parallelism'', kp_parallelism params, MIN_KDF_PARALLELISM, MAX_KDF_PARALLELISM)]"

definition derive_key :: "vault_prims \<Rightarrow> bytes \<Rightarrow> bytes \<Rightarrow> kdf_params \<Rightarrow> crypto_error + vault_key" where
  "derive_key V passphrase salt kdf =
     (if length salt \<noteq> SALT_LEN then Inl (InvalidSaltLength SALT_LEN (length salt))
      else case check_kdf_params kdf of
             Inl e \<Rightarrow> Inl e
           | Inr _ \<Rightarrow>
               if \<not> vp_argon2_accepts V kdf then Inl (InvalidKdfParams KdfRejected)
               else case vp_argon2 V kdf passphrase salt of
                      None \<Rightarrow> Inl (EncryptionFailed Argon2Failed)
                    | Some key \<Rightarrow> Inr key)"

definition vault_encrypt :: "vault_prims \<Rightarrow> bytes \<Rightarrow> vault_key \<Rightarrow> bytes \<Rightarrow> bytes \<Rightarrow> crypto_error + bytes" where
  "vault_encrypt V nonce key plaintext aad =
     (case vp_seal V key nonce aad plaintext of
        None \<Rightarrow> Inl (EncryptionFailed AeadFailed)
      | Some ciphertext \<Rightarrow> Inr (nonce @ ciphertext))"

definition vault_decrypt :: "vault_prims \<Rightarrow> vault_key \<Rightarrow> bytes \<Rightarrow> bytes \<Rightarrow> crypto_error + bytes" where
  "vault_decrypt V key ciphertext aad =
     (if length ciphertext < NONCE_LEN then Inl (InvalidNonceLength NONCE_LEN (length ciphertext))
      else case vp_open V key (take NONCE_LEN ciphertext) aad (drop NONCE_LEN ciphertext) of
             None \<Rightarrow> Inl DecryptionFailed
           | Some plaintext \<Rightarrow> Inr plaintext)"

definition checked_len_prefix :: "string \<Rightarrow> usize \<Rightarrow> vault_error + bytes" where
  "checked_len_prefix field len =
     (if len < 2 ^ 32 then Inr (rev (to_le_bytes 4 len)) else Inl (FieldTooLarge field len))"

definition entry_aad :: "vault_prims \<Rightarrow> bytes \<Rightarrow> bytes \<Rightarrow> credential_type \<Rightarrow> u8 \<Rightarrow> vault_error + bytes" where
  "entry_aad V vault_salt name credential_type envelope_version =
     (case vp_type_json V credential_type of
        None \<Rightarrow> Inl Serialization
      | Some type_bytes \<Rightarrow>
          (case checked_len_prefix ''vault_salt'' (length vault_salt) of
             Inl e \<Rightarrow> Inl e
           | Inr p1 \<Rightarrow>
               (case checked_len_prefix ''name'' (length name) of
                  Inl e \<Rightarrow> Inl e
                | Inr p2 \<Rightarrow>
                    (case checked_len_prefix ''credential_type'' (length type_bytes) of
                       Inl e \<Rightarrow> Inl e
                     | Inr p3 \<Rightarrow>
                         Inr ([envelope_version] @ p1 @ vault_salt @ p2 @ name @ p3 @ type_bytes)))))"

subsection \<open>Installation identity (\<open>key.rs\<close>)\<close>

definition SIGNING_KEY_LEN :: usize where "SIGNING_KEY_LEN = 32"

definition VERIFYING_KEY_LEN :: usize where "VERIFYING_KEY_LEN = 32"

definition signing_from_bytes :: "bytes \<Rightarrow> key_error + bytes" where
  "signing_from_bytes bs =
     (if length bs = SIGNING_KEY_LEN then Inr bs else Inl (WrongKeyLength SIGNING_KEY_LEN (length bs)))"

definition verifying_from_bytes :: "vault_prims \<Rightarrow> bytes \<Rightarrow> key_error + bytes" where
  "verifying_from_bytes V bs =
     (if length bs \<noteq> VERIFYING_KEY_LEN then Inl (WrongKeyLength VERIFYING_KEY_LEN (length bs))
      else if \<not> vp_on_curve V bs then Inl InvalidEd25519Key
      else Inr bs)"

definition verify_signature :: "vault_prims \<Rightarrow> bytes \<Rightarrow> bytes \<Rightarrow> bytes \<Rightarrow> crypto_error + unit" where
  "verify_signature V verifying message signature =
     (if vp_verify V verifying message signature then Inr () else Inl SignatureInvalid)"

record installation_identity =
  ii_signing :: bytes
  ii_verifying :: bytes

definition identity_from_signing_key :: "vault_prims \<Rightarrow> bytes \<Rightarrow> installation_identity" where
  "identity_from_signing_key V signing = \<lparr>ii_signing = signing, ii_verifying = vp_public V signing\<rparr>"

definition KEY_ID_DOMAIN :: bytes where "KEY_ID_DOMAIN = ascii ''kryphos/installation/key-id/v1''"

definition installation_key_id :: "vault_prims \<Rightarrow> bytes \<Rightarrow> bytes" where
  "installation_key_id V verifying = take KEY_ID_LEN (blake3_keyed (vp_log V) (vp_blake3 V KEY_ID_DOMAIN) verifying)"

definition identity_tip_signer :: "vault_prims \<Rightarrow> installation_identity \<Rightarrow> tip_signer" where
  "identity_tip_signer V ident =
     \<lparr>ts_key_id = installation_key_id V (ii_verifying ident), ts_sign_tip = vp_sign V (ii_signing ident)\<rparr>"

definition verifying_tip_verifier :: "vault_prims \<Rightarrow> bytes \<Rightarrow> tip_verifier" where
  "verifying_tip_verifier V verifying =
     \<lparr>tv_key_id = installation_key_id V verifying,
      tv_verify_tip = (\<lambda>payload signature. verify_signature V verifying payload signature = Inr ())\<rparr>"

subsection \<open>The sealed signing key (\<open>vault.rs\<close>)\<close>

definition SIGNING_KEY_ENVELOPE_VERSION :: u8 where "SIGNING_KEY_ENVELOPE_VERSION = 1"

definition SIGNING_KEY_AAD_TAG :: bytes where "SIGNING_KEY_AAD_TAG = ascii ''kryphos/vault/signing-key''"

definition signing_key_aad :: bytes where
  "signing_key_aad = SIGNING_KEY_ENVELOPE_VERSION # SIGNING_KEY_AAD_TAG"

definition seal_signing_key :: "vault_prims \<Rightarrow> bytes \<Rightarrow> installation_identity \<Rightarrow> vault_key \<Rightarrow> crypto_error + bytes" where
  "seal_signing_key V nonce ident key =
     (case vp_seal V key nonce signing_key_aad (ii_signing ident) of
        None \<Rightarrow> Inl (EncryptionFailed AeadFailed)
      | Some ciphertext \<Rightarrow> Inr (nonce @ ciphertext))"

definition unseal_signing_key :: "vault_prims \<Rightarrow> bytes \<Rightarrow> vault_key \<Rightarrow> crypto_error + installation_identity" where
  "unseal_signing_key V sealed key =
     (if length sealed < NONCE_LEN then Inl (InvalidNonceLength NONCE_LEN (length sealed))
      else case vp_open V key (take NONCE_LEN sealed) signing_key_aad (drop NONCE_LEN sealed) of
             None \<Rightarrow> Inl DecryptionFailed
           | Some plaintext \<Rightarrow>
               (case signing_from_bytes plaintext of
                  Inl e \<Rightarrow> Inl (KeyParse e)
                | Inr signing \<Rightarrow> Inr (identity_from_signing_key V signing)))"

end
