(* ===== verification/Vault_Storage.thy ===== *)
theory Vault_Storage
  imports Vault_Crypto
begin

section \<open>The credential vault\<close>

text \<open>
  Crate \<open>kryphos\<close>, \<open>storage.rs\<close>: creating and opening a vault, its entries, and the audit log that records every mutation before it happens.

  The world of a vault is the file system of the tamper log (header, lock file and log are files of the vault directory), the directories that
  exist, and the state of the key-value store in the data directory. The store (fjall) is a library: a record of its operations on a state of any
  type, each of which may fail. A vault handle is the derived key, the salt and the path; holding it means holding the lock of the directory. The four
  mutating methods run under one mutex and are single steps here; reads are single look-ups. File permissions are not modelled.
  Opening takes a flag \<open>lock_fails\<close>: the lock file cannot be opened or locked for a reason other than a lock held elsewhere.
\<close>

subsection \<open>Names\<close>

definition LEGACY_ENVELOPE_VERSION :: u8 where "LEGACY_ENVELOPE_VERSION = 0"

definition KEY_CHECK_PLAINTEXT :: bytes where "KEY_CHECK_PLAINTEXT = ascii ''kryphos-vault-key-check-v1''"

definition HEADER_FILE :: string where "HEADER_FILE = ''header.json''"

definition LOCK_FILE :: string where "LOCK_FILE = ''vault.lock''"

definition DATA_DIR :: string where "DATA_DIR = ''data''"

definition TAMPER_LOG_FILE :: string where "TAMPER_LOG_FILE = ''tamper.log''"

definition CHAIN_KEY_DOMAIN :: bytes where "CHAIN_KEY_DOMAIN = ascii ''kryphos/tamper-log/chain-key/v1''"

definition LOOKUP_KEY_DOMAIN :: bytes where "LOOKUP_KEY_DOMAIN = ascii ''kryphos/vault/lookup-key/v1''"

definition AUDIT_REF_DOMAIN :: bytes where "AUDIT_REF_DOMAIN = ascii ''kryphos/vault/audit-ref/v1''"

subsection \<open>State\<close>

record 'kv kv_store =
  kv_open :: "'kv \<Rightarrow> (string + unit) \<times> 'kv"
  kv_get :: "'kv \<Rightarrow> bytes \<Rightarrow> string + bytes option"
  kv_insert :: "bytes \<Rightarrow> bytes \<Rightarrow> 'kv \<Rightarrow> (string + unit) \<times> 'kv"
  kv_remove :: "bytes \<Rightarrow> 'kv \<Rightarrow> (string + unit) \<times> 'kv"
  kv_iter :: "'kv \<Rightarrow> (string + bytes \<times> bytes) list"
  kv_persist :: "'kv \<Rightarrow> (string + unit) \<times> 'kv"

record 'kv vault_world =
  vw_disk :: disk
  vw_dirs :: "string list"
  vw_kv :: 'kv

record vault =
  v_key :: vault_key
  v_salt :: bytes
  v_path :: string

record decrypted_entry =
  de_name :: bytes
  de_credential_type :: credential_type
  de_secret :: bytes
  de_metadata :: entry_metadata

record entry_info =
  ei_name :: bytes
  ei_credential_type :: credential_type
  ei_status :: entry_status
  ei_metadata :: entry_metadata

record vault_listing =
  vl_entries :: "entry_info list"
  vl_unreadable :: usize

record entry_history =
  eh_name :: bytes
  eh_status :: entry_status
  eh_metadata :: entry_metadata
  eh_events :: "history_event list"

text \<open>
  What a call takes from its environment: two nonces, the time stamped into the entry, the time of the audit entry, and which step of the
  audit append fails, if one does.
\<close>

record vault_env =
  ve_nonce1 :: bytes
  ve_nonce2 :: bytes
  ve_now :: vault_time
  ve_now_ms :: int
  ve_seal_fault :: "seal_stage option"
  ve_io :: io_plan

subsection \<open>Directory, lock and header\<close>

datatype create_fault = FaultDir | FaultLockFile | FaultHeaderOpen | FaultHeaderWrite nat | FaultDataDir

definition path_exists :: "'kv vault_world \<Rightarrow> string \<Rightarrow> bool" where
  "path_exists w path \<longleftrightarrow> path \<in> set (vw_dirs w) \<or> (\<exists>f \<in> set (d_files (vw_disk w)). fst (fst f) @ ''/'' @ snd (fst f) = path)"

definition create_owner_only_dir :: "string \<Rightarrow> 'kv vault_world \<Rightarrow> 'kv vault_world" where
  "create_owner_only_dir path w = w\<lparr>vw_dirs := path # vw_dirs w\<rparr>"

definition acquire_lock :: "string \<Rightarrow> bool \<Rightarrow> 'kv vault_world \<Rightarrow> (vault_error + unit) \<times> 'kv vault_world" where
  "acquire_lock path io_fails w =
     (if io_fails then (Inl (VaultIo (path, LOCK_FILE)), w)
      else let d = put_file (vw_disk w) (path, LOCK_FILE) []
           in if (path, LOCK_FILE) \<in> set (d_locks d) then (Inl (VaultLocked path), w\<lparr>vw_disk := d\<rparr>)
              else (Inr (), w\<lparr>vw_disk := d\<lparr>d_locks := (path, LOCK_FILE) # d_locks d\<rparr>\<rparr>))"

definition unlock :: "string \<Rightarrow> 'kv vault_world \<Rightarrow> 'kv vault_world" where
  "unlock path w = w\<lparr>vw_disk := release_lock (vw_disk w) (path, LOCK_FILE)\<rparr>"

definition write_owner_only_file :: "path \<Rightarrow> bytes \<Rightarrow> 'kv vault_world \<Rightarrow> 'kv vault_world" where
  "write_owner_only_file p contents w = w\<lparr>vw_disk := put_file (vw_disk w) p contents\<rparr>"

definition open_fjall :: "'kv kv_store \<Rightarrow> 'kv vault_world \<Rightarrow> (vault_error + unit) \<times> 'kv vault_world" where
  "open_fjall K w =
     (case kv_open K (vw_kv w) of
        (Inl e, kv) \<Rightarrow> (Inl (StorageBackend e), w\<lparr>vw_kv := kv\<rparr>)
      | (Inr _, kv) \<Rightarrow> (Inr (), w\<lparr>vw_kv := kv\<rparr>))"

text \<open>The header of a new vault.\<close>

definition new_header :: "vault_prims \<Rightarrow> bytes \<Rightarrow> bytes \<Rightarrow> bytes \<Rightarrow> bytes \<Rightarrow> bytes \<Rightarrow> vault_error + vault_key \<times> bytes" where
  "new_header V passphrase salt n1 n2 signing =
     (case derive_key V passphrase salt kdf_default of
        Inl e \<Rightarrow> Inl (InvalidHeader (KeyDerivation e))
      | Inr key \<Rightarrow>
          (case vault_encrypt V n1 key KEY_CHECK_PLAINTEXT [] of
             Inl e \<Rightarrow> Inl (EntryCrypto e)
           | Inr key_check \<Rightarrow>
               let identity = identity_from_signing_key V signing
               in case seal_signing_key V n2 identity key of
                    Inl e \<Rightarrow> Inl (EntryCrypto e)
                  | Inr sealed \<Rightarrow>
                      (case vp_header_enc V \<lparr>sh_version = VAULT_VERSION, sh_salt = salt, sh_kdf_params = kdf_default,
                              sh_key_check = key_check, sh_installation_public_key = Some (ii_verifying identity),
                              sh_sealed_signing_key = Some sealed\<rparr> of
                         None \<Rightarrow> Inl Serialization
                       | Some json \<Rightarrow> Inr (key, json))))"

definition vault_create ::
    "vault_prims \<Rightarrow> 'kv kv_store \<Rightarrow> string \<Rightarrow> bytes \<Rightarrow> bytes \<Rightarrow> bytes \<Rightarrow> bytes \<Rightarrow> bytes \<Rightarrow> create_fault option \<Rightarrow> 'kv vault_world \<Rightarrow>
       (vault_error + vault) \<times> 'kv vault_world" where
  "vault_create V K path passphrase salt n1 n2 signing fault w =
     (if passphrase = [] then (Inl EmptyPassphrase, w)
      else if path_exists w path then (Inl (AlreadyExists path), w)
      else if fault = Some FaultDir then (Inl (VaultIo (path, [])), w)
      else
        (case acquire_lock path (fault = Some FaultLockFile) (create_owner_only_dir path w) of
           (Inl e, w1) \<Rightarrow> (Inl e, w1)
         | (Inr _, w1) \<Rightarrow>
             (case new_header V passphrase salt n1 n2 signing of
                Inl e \<Rightarrow> (Inl e, unlock path w1)
              | Inr (key, json) \<Rightarrow>
                  (case fault of
                     Some FaultHeaderOpen \<Rightarrow> (Inl (VaultIo (path, HEADER_FILE)), unlock path w1)
                   | Some (FaultHeaderWrite k) \<Rightarrow>
                       (Inl (VaultIo (path, HEADER_FILE)), unlock path (write_owner_only_file (path, HEADER_FILE) (take k json) w1))
                   | _ \<Rightarrow>
                       (let w2 = write_owner_only_file (path, HEADER_FILE) json w1
                        in if fault = Some FaultDataDir then (Inl (VaultIo (path @ ''/'' @ DATA_DIR, [])), unlock path w2)
                           else case open_fjall K (create_owner_only_dir (path @ ''/'' @ DATA_DIR) w2) of
                                  (Inl e, w3) \<Rightarrow> (Inl e, unlock path w3)
                                | (Inr _, w3) \<Rightarrow> (Inr \<lparr>v_key = key, v_salt = salt, v_path = path\<rparr>, w3))))))"

text \<open>From the parsed header to the key: version, key derivation and key check.\<close>

definition unlock_header :: "vault_prims \<Rightarrow> bytes \<Rightarrow> stored_header \<Rightarrow> vault_error + vault_key" where
  "unlock_header V passphrase header =
     (if \<not> (MIN_SUPPORTED_VAULT_VERSION \<le> sh_version header \<and> sh_version header \<le> VAULT_VERSION)
      then Inl (InvalidHeader (UnsupportedVersion (sh_version header)))
      else case derive_key V passphrase (sh_salt header) (sh_kdf_params header) of
             Inl e \<Rightarrow> Inl (InvalidHeader (KeyDerivation e))
           | Inr key \<Rightarrow>
               (case vault_decrypt V key (sh_key_check header) [] of
                  Inl (InvalidNonceLength expected actual) \<Rightarrow> Inl (InvalidHeader (KeyCheckTooShort actual))
                | Inl _ \<Rightarrow> Inl WrongPassphrase
                | Inr plaintext \<Rightarrow> if plaintext \<noteq> KEY_CHECK_PLAINTEXT then Inl WrongPassphrase else Inr key))"

definition read_header :: "vault_prims \<Rightarrow> string \<Rightarrow> 'kv vault_world \<Rightarrow> vault_error + stored_header" where
  "read_header V path w =
     (case read_file (vw_disk w) (path, HEADER_FILE) of
        None \<Rightarrow> Inl (VaultIo (path, []))
      | Some bs \<Rightarrow> (case vp_header_dec V bs of None \<Rightarrow> Inl Serialization | Some header \<Rightarrow> Inr header))"

definition vault_open ::
    "vault_prims \<Rightarrow> 'kv kv_store \<Rightarrow> string \<Rightarrow> bytes \<Rightarrow> bool \<Rightarrow> 'kv vault_world \<Rightarrow> (vault_error + vault) \<times> 'kv vault_world" where
  "vault_open V K path passphrase lock_fails w =
     (if read_file (vw_disk w) (path, HEADER_FILE) = None then (Inl (NotInitialized path), w)
      else
        (case acquire_lock path lock_fails w of
           (Inl e, w1) \<Rightarrow> (Inl e, w1)
         | (Inr _, w1) \<Rightarrow>
             (case read_header V path w1 of
                Inl e \<Rightarrow> (Inl e, unlock path w1)
              | Inr header \<Rightarrow>
                  (case unlock_header V passphrase header of
                     Inl e \<Rightarrow> (Inl e, unlock path w1)
                   | Inr key \<Rightarrow>
                       (case open_fjall K w1 of
                          (Inl e, w2) \<Rightarrow> (Inl e, unlock path w2)
                        | (Inr _, w2) \<Rightarrow> (Inr \<lparr>v_key = key, v_salt = sh_salt header, v_path = path\<rparr>, w2))))))"

definition vault_drop :: "vault \<Rightarrow> 'kv vault_world \<Rightarrow> 'kv vault_world" where
  "vault_drop v w = unlock (v_path v) w"

subsection \<open>Identity\<close>

definition installation_public_key :: "vault_prims \<Rightarrow> string \<Rightarrow> 'kv vault_world \<Rightarrow> vault_error + bytes option" where
  "installation_public_key V path w =
     (case read_header V path w of
        Inl e \<Rightarrow> Inl e
      | Inr header \<Rightarrow>
          (case sh_installation_public_key header of
             None \<Rightarrow> Inr None
           | Some bs \<Rightarrow>
               (case verifying_from_bytes V bs of
                  Inl e \<Rightarrow> Inl (InvalidHeader (BadVerifyingKey e))
                | Inr key \<Rightarrow> Inr (Some key))))"

definition vault_identity :: "vault_prims \<Rightarrow> vault \<Rightarrow> 'kv vault_world \<Rightarrow> vault_error + installation_identity option" where
  "vault_identity V v w =
     (case read_header V (v_path v) w of
        Inl e \<Rightarrow> Inl e
      | Inr header \<Rightarrow>
          (case (sh_sealed_signing_key header, sh_installation_public_key header) of
             (None, None) \<Rightarrow> Inr None
           | (Some sealed, Some recorded) \<Rightarrow>
               (case unseal_signing_key V sealed (v_key v) of
                  Inl e \<Rightarrow> Inl (EntryCrypto e)
                | Inr identity \<Rightarrow>
                    if recorded \<noteq> ii_verifying identity then Inl (InvalidHeader IdentityMismatch) else Inr (Some identity))
           | (sealed, recorded) \<Rightarrow> Inl (InvalidHeader (HalfIdentity (sealed \<noteq> None) (recorded \<noteq> None)))))"

subsection \<open>Derived keys\<close>

definition vault_chain_key :: "vault_prims \<Rightarrow> vault \<Rightarrow> chain_key" where
  "vault_chain_key V v = blake3_keyed (vp_log V) (v_key v) CHAIN_KEY_DOMAIN"

definition hex_char :: "nat \<Rightarrow> char" where
  "hex_char n = (if n < 10 then char_of (48 + n) else char_of (87 + n))"

definition hex_string :: "bytes \<Rightarrow> string" where
  "hex_string bs = concat (map (\<lambda>b. [hex_char (unat b div 16), hex_char (unat b mod 16)]) bs)"

definition audit_ref :: "vault_prims \<Rightarrow> vault \<Rightarrow> bytes \<Rightarrow> string" where
  "audit_ref V v name =
     (let subkey = blake3_keyed (vp_log V) (v_key v) AUDIT_REF_DOMAIN
      in hex_string (take 8 (blake3_keyed (vp_log V) subkey name)))"

definition lookup_key :: "vault_prims \<Rightarrow> vault \<Rightarrow> bytes \<Rightarrow> bytes" where
  "lookup_key V v name =
     (let subkey = blake3_keyed (vp_log V) (v_key v) LOOKUP_KEY_DOMAIN
      in blake3_keyed (vp_log V) subkey name)"

definition decrypt_metadata :: "vault_prims \<Rightarrow> vault \<Rightarrow> stored_entry \<Rightarrow> vault_error + entry_record" where
  "decrypt_metadata V v entry =
     (case vault_decrypt V (v_key v) (se_encrypted_metadata entry) [] of
        Inl e \<Rightarrow> Inl (EntryCrypto e)
      | Inr bs \<Rightarrow> (case vp_record_dec V bs of None \<Rightarrow> Inl Serialization | Some r \<Rightarrow> Inr r))"

definition encrypt_metadata :: "vault_prims \<Rightarrow> vault \<Rightarrow> bytes \<Rightarrow> entry_record \<Rightarrow> vault_error + bytes" where
  "encrypt_metadata V v nonce r =
     (case vp_record_enc V r of
        None \<Rightarrow> Inl Serialization
      | Some bs \<Rightarrow>
          (case vault_encrypt V nonce (v_key v) bs [] of Inl e \<Rightarrow> Inl (EntryCrypto e) | Inr c \<Rightarrow> Inr c))"

definition tamper_log_path :: "vault \<Rightarrow> path" where
  "tamper_log_path v = (v_path v, TAMPER_LOG_FILE)"

subsection \<open>The audit log\<close>

definition append_vault_audit ::
    "vault_prims \<Rightarrow> vault \<Rightarrow> bytes \<Rightarrow> string \<Rightarrow> vault_env \<Rightarrow> 'kv vault_world \<Rightarrow> (vault_error + unit) \<times> 'kv vault_world" where
  "append_vault_audit V v name operation env w =
     (case vault_identity V v w of
        Inl e \<Rightarrow> (Inl e, w)
      | Inr identity \<Rightarrow>
          (case open_inner (vp_log V) (vw_disk w) (tamper_log_path v) (vault_chain_key V v) DEFAULT_MAX_FILE_BYTES
                  (map_option (identity_tip_signer V) identity) (ve_seal_fault env) of
             (Inl e, d) \<Rightarrow> (Inl (TamperLogFailed e), w\<lparr>vw_disk := d\<rparr>)
           | (Inr lg, d) \<Rightarrow>
               (case append_entry (vp_log V) lg d (ve_now_ms env) (VaultMutation (audit_ref V v name) operation) (ve_io env) of
                  (Inl e, lg', d') \<Rightarrow> (Inl (TamperLogFailed e), w\<lparr>vw_disk := drop_log lg' d'\<rparr>)
                | (Inr _, lg', d') \<Rightarrow> (Inr (), w\<lparr>vw_disk := drop_log lg' d'\<rparr>))))"

definition commit_audited ::
    "vault_prims \<Rightarrow> 'kv kv_store \<Rightarrow> vault \<Rightarrow> bytes \<Rightarrow> string \<Rightarrow> vault_env \<Rightarrow> ('kv \<Rightarrow> (string + unit) \<times> 'kv) \<Rightarrow> 'kv vault_world \<Rightarrow>
       (vault_error + unit) \<times> 'kv vault_world" where
  "commit_audited V K v name operation env mutate w =
     (case append_vault_audit V v name operation env w of
        (Inl e, w1) \<Rightarrow> (Inl e, w1)
      | (Inr _, w1) \<Rightarrow>
          (case mutate (vw_kv w1) of
             (Inl e, kv) \<Rightarrow> (Inl (AuditedMutationFailed name operation (StorageBackend e)), w1\<lparr>vw_kv := kv\<rparr>)
           | (Inr _, kv) \<Rightarrow>
               (case kv_persist K kv of
                  (Inl e, kv') \<Rightarrow> (Inl (AuditedMutationFailed name operation (StorageBackend e)), w1\<lparr>vw_kv := kv'\<rparr>)
                | (Inr _, kv') \<Rightarrow> (Inr (), w1\<lparr>vw_kv := kv'\<rparr>))))"

subsection \<open>Operations on entries\<close>

text \<open>Look-up, parsing and decryption of the metadata, the common start of the operations on an existing entry.\<close>

definition load_entry :: "vault_prims \<Rightarrow> 'kv kv_store \<Rightarrow> vault \<Rightarrow> bytes \<Rightarrow> 'kv vault_world \<Rightarrow> vault_error + stored_entry \<times> entry_record" where
  "load_entry V K v name w =
     (case kv_get K (vw_kv w) (lookup_key V v name) of
        Inl e \<Rightarrow> Inl (StorageBackend e)
      | Inr None \<Rightarrow> Inl (EntryNotFound name)
      | Inr (Some raw) \<Rightarrow>
          (case vp_entry_dec V raw of
             None \<Rightarrow> Inl Serialization
           | Some entry \<Rightarrow> (case decrypt_metadata V v entry of Inl e \<Rightarrow> Inl e | Inr r \<Rightarrow> Inr (entry, r))))"

text \<open>Encoding of a record with a given secret ciphertext, the common end of the operations that write one.\<close>

definition store_entry ::
    "vault_prims \<Rightarrow> 'kv kv_store \<Rightarrow> vault \<Rightarrow> bytes \<Rightarrow> string \<Rightarrow> vault_env \<Rightarrow> u8 \<Rightarrow> bytes \<Rightarrow> entry_record \<Rightarrow> 'kv vault_world \<Rightarrow>
       (vault_error + unit) \<times> 'kv vault_world" where
  "store_entry V K v name operation env version encrypted_secret r w =
     (case encrypt_metadata V v (ve_nonce2 env) r of
        Inl e \<Rightarrow> (Inl e, w)
      | Inr encrypted_metadata \<Rightarrow>
          (case vp_entry_enc V \<lparr>se_envelope_version = version, se_encrypted_secret = encrypted_secret,
                  se_encrypted_metadata = encrypted_metadata\<rparr> of
             None \<Rightarrow> (Inl Serialization, w)
           | Some json \<Rightarrow> commit_audited V K v name operation env (kv_insert K (lookup_key V v name) json) w))"

definition seal_secret :: "vault_prims \<Rightarrow> vault \<Rightarrow> bytes \<Rightarrow> credential_type \<Rightarrow> bytes \<Rightarrow> bytes \<Rightarrow> vault_error + bytes" where
  "seal_secret V v name credential_type nonce secret =
     (case entry_aad V (v_salt v) name credential_type ENTRY_ENVELOPE_VERSION of
        Inl e \<Rightarrow> Inl e
      | Inr aad \<Rightarrow>
          (case vault_encrypt V nonce (v_key v) secret aad of Inl e \<Rightarrow> Inl (EntryCrypto e) | Inr c \<Rightarrow> Inr c))"

definition vault_add ::
    "vault_prims \<Rightarrow> 'kv kv_store \<Rightarrow> vault \<Rightarrow> bytes \<Rightarrow> credential_type \<Rightarrow> bytes \<Rightarrow> vault_env \<Rightarrow> 'kv vault_world \<Rightarrow>
       (vault_error + unit) \<times> 'kv vault_world" where
  "vault_add V K v name credential_type secret env w =
     (case kv_get K (vw_kv w) (lookup_key V v name) of
        Inl e \<Rightarrow> (Inl (StorageBackend e), w)
      | Inr (Some _) \<Rightarrow> (Inl (DuplicateEntry name), w)
      | Inr None \<Rightarrow>
          (case seal_secret V v name credential_type (ve_nonce1 env) secret of
             Inl e \<Rightarrow> (Inl e, w)
           | Inr encrypted_secret \<Rightarrow>
               store_entry V K v name ''add'' env ENTRY_ENVELOPE_VERSION encrypted_secret
                 \<lparr>er_name = name, er_credential_type = credential_type,
                  er_metadata = \<lparr>em_created_at = ve_now env, em_rotated_at = None, em_revoked_at = None,
                                 em_rotation_count = 0, em_tags = []\<rparr>,
                  er_status = StActive,
                  er_history = [\<lparr>he_timestamp = ve_now env, he_kind = EvCreated\<rparr>]\<rparr> w))"

definition vault_get :: "vault_prims \<Rightarrow> 'kv kv_store \<Rightarrow> vault \<Rightarrow> bytes \<Rightarrow> 'kv vault_world \<Rightarrow> vault_error + decrypted_entry" where
  "vault_get V K v name w =
     (case load_entry V K v name w of
        Inl e \<Rightarrow> Inl e
      | Inr (entry, r) \<Rightarrow>
          (case er_status r of
             StRevoked \<Rightarrow> Inl (EntryRevoked name)
           | StExpired \<Rightarrow> Inl (EntryExpired name)
           | StActive \<Rightarrow>
               (case (if se_envelope_version entry = LEGACY_ENVELOPE_VERSION then Inr []
                      else entry_aad V (v_salt v) name (er_credential_type r) (se_envelope_version entry)) of
                  Inl e \<Rightarrow> Inl e
                | Inr aad \<Rightarrow>
                    (case vault_decrypt V (v_key v) (se_encrypted_secret entry) aad of
                       Inl e \<Rightarrow> Inl (EntryCrypto e)
                     | Inr secret \<Rightarrow>
                         Inr \<lparr>de_name = er_name r, de_credential_type = er_credential_type r, de_secret = secret,
                              de_metadata = er_metadata r\<rparr>))))"

fun list_loop :: "vault_prims \<Rightarrow> vault \<Rightarrow> (string + bytes \<times> bytes) list \<Rightarrow> entry_info list \<Rightarrow> usize \<Rightarrow> vault_error + vault_listing" where
  "list_loop V v [] entries unreadable = Inr \<lparr>vl_entries = entries, vl_unreadable = unreadable\<rparr>"
| "list_loop V v (Inl e # items) entries unreadable = Inl (StorageBackend e)"
| "list_loop V v (Inr (_, raw) # items) entries unreadable =
     (case vp_entry_dec V raw of
        None \<Rightarrow> list_loop V v items entries (unreadable + 1)
      | Some entry \<Rightarrow>
          (case decrypt_metadata V v entry of
             Inl _ \<Rightarrow> list_loop V v items entries (unreadable + 1)
           | Inr r \<Rightarrow>
               list_loop V v items
                 (entries @ [\<lparr>ei_name = er_name r, ei_credential_type = er_credential_type r, ei_status = er_status r,
                              ei_metadata = er_metadata r\<rparr>]) unreadable))"

definition vault_list :: "vault_prims \<Rightarrow> 'kv kv_store \<Rightarrow> vault \<Rightarrow> 'kv vault_world \<Rightarrow> vault_error + vault_listing" where
  "vault_list V K v w = list_loop V v (kv_iter K (vw_kv w)) [] 0"

definition vault_remove ::
    "vault_prims \<Rightarrow> 'kv kv_store \<Rightarrow> vault \<Rightarrow> bytes \<Rightarrow> vault_env \<Rightarrow> 'kv vault_world \<Rightarrow> (vault_error + unit) \<times> 'kv vault_world" where
  "vault_remove V K v name env w =
     (case load_entry V K v name w of
        Inl e \<Rightarrow> (Inl e, w)
      | Inr (entry, r) \<Rightarrow>
          if er_status r = StRevoked then (Inl (EntryNotDeletable name), w)
          else commit_audited V K v name ''remove'' env (kv_remove K (lookup_key V v name)) w)"

definition vault_rotate ::
    "vault_prims \<Rightarrow> 'kv kv_store \<Rightarrow> vault \<Rightarrow> bytes \<Rightarrow> bytes \<Rightarrow> vault_env \<Rightarrow> 'kv vault_world \<Rightarrow> (vault_error + unit) \<times> 'kv vault_world" where
  "vault_rotate V K v name new_secret env w =
     (case load_entry V K v name w of
        Inl e \<Rightarrow> (Inl e, w)
      | Inr (entry, r) \<Rightarrow>
          if er_status r = StRevoked then (Inl (EntryRevoked name), w)
          else case seal_secret V v name (er_credential_type r) (ve_nonce1 env) new_secret of
                 Inl e \<Rightarrow> (Inl e, w)
               | Inr encrypted_secret \<Rightarrow>
                   let md = er_metadata r;
                       r' = r\<lparr>er_metadata := md\<lparr>em_rotated_at := Some (ve_now env), em_rotation_count := em_rotation_count md + 1\<rparr>,
                              er_history := er_history r @ [\<lparr>he_timestamp = ve_now env, he_kind = EvRotated\<rparr>]\<rparr>
                   in store_entry V K v name ''rotate'' env ENTRY_ENVELOPE_VERSION encrypted_secret r' w)"

definition vault_revoke ::
    "vault_prims \<Rightarrow> 'kv kv_store \<Rightarrow> vault \<Rightarrow> bytes \<Rightarrow> vault_env \<Rightarrow> 'kv vault_world \<Rightarrow> (vault_error + unit) \<times> 'kv vault_world" where
  "vault_revoke V K v name env w =
     (case load_entry V K v name w of
        Inl e \<Rightarrow> (Inl e, w)
      | Inr (entry, r) \<Rightarrow>
          if er_status r = StRevoked then (Inl (EntryRevoked name), w)
          else
            let r' = r\<lparr>er_status := StRevoked, er_metadata := (er_metadata r)\<lparr>em_revoked_at := Some (ve_now env)\<rparr>,
                       er_history := er_history r @ [\<lparr>he_timestamp = ve_now env, he_kind = EvRevoked\<rparr>]\<rparr>
            in store_entry V K v name ''revoke'' env (se_envelope_version entry) (se_encrypted_secret entry) r' w)"

definition vault_history :: "vault_prims \<Rightarrow> 'kv kv_store \<Rightarrow> vault \<Rightarrow> bytes \<Rightarrow> 'kv vault_world \<Rightarrow> vault_error + entry_history" where
  "vault_history V K v name w =
     (case load_entry V K v name w of
        Inl e \<Rightarrow> Inl e
      | Inr (entry, r) \<Rightarrow>
          Inr \<lparr>eh_name = er_name r, eh_status = er_status r, eh_metadata = er_metadata r, eh_events = er_history r\<rparr>)"

subsection \<open>Checking the audit log\<close>

definition verify_tamper_log :: "vault_prims \<Rightarrow> vault \<Rightarrow> 'kv vault_world \<Rightarrow> vault_error + verification_result" where
  "verify_tamper_log V v w =
     (case verify_chain (vp_log V) (vw_disk w) (tamper_log_path v) (vault_chain_key V v) of
        Inl e \<Rightarrow> Inl (TamperLogFailed e) | Inr r \<Rightarrow> Inr r)"

definition no_installation :: tip_verifier where
  "no_installation = \<lparr>tv_key_id = replicate KEY_ID_LEN 0, tv_verify_tip = (\<lambda>_ _. False)\<rparr>"

definition verify_tamper_log_provenance :: "vault_prims \<Rightarrow> vault \<Rightarrow> 'kv vault_world \<Rightarrow> vault_error + tip_status" where
  "verify_tamper_log_provenance V v w =
     (case vault_identity V v w of
        Inl e \<Rightarrow> Inl e
      | Inr None \<Rightarrow>
          (case verify_tip_provenance (vp_log V) (vw_disk w) (tamper_log_path v) (vault_chain_key V v) no_installation of
             Inl e \<Rightarrow> Inl (TamperLogFailed e) | Inr st \<Rightarrow> Inr st)
      | Inr (Some identity) \<Rightarrow>
          (case verify_tip_provenance (vp_log V) (vw_disk w) (tamper_log_path v) (vault_chain_key V v)
                  (verifying_tip_verifier V (ii_verifying identity)) of
             Inl e \<Rightarrow> Inl (TamperLogFailed e)
           | Inr st \<Rightarrow> if st = Unsigned then Inl (InvalidHeader TipUnsigned) else Inr st))"

end
