(* ===== verification/Vault_Audit.thy ===== *)
theory Vault_Audit
  imports Vault_Storage
begin

section \<open>The vault and its audit log share a directory\<close>

text \<open>
  The header of a vault lies in the directory of its audit log. Appending to the log, with any fault, changes only files whose name starts with the stem
  of the log; so the header, and with it the identity that signs the log, stays what it was. On top of the representation
  of the log this gives the effect of one audit append, on a log that exists and on one that does not exist yet.
\<close>

subsection \<open>Files of a log\<close>

definition log_family :: "path \<Rightarrow> path \<Rightarrow> bool" where
  "log_family p q \<longleftrightarrow> fst q = fst p \<and> (\<exists>x. snd q = log_stem p @ x)"

lemma log_family_paths [simp]:
  "log_family p p" "log_family p q \<Longrightarrow> log_family p (seal_path q)" "log_family p q \<Longrightarrow> log_family p (lock_path q)"
  "log_family p q \<Longrightarrow> log_family p (tmp_path q)" "log_family p (rotation_path p n)"
proof -
  have "snd p = log_stem p @ [] \<or> (\<exists>x. snd p = log_stem p @ x)" using log_stem_cases [of p] by auto
  then show "log_family p p" unfolding log_family_def by blast
qed (auto simp: log_family_def seal_path_def lock_path_def tmp_path_def rotation_path_def)

definition log_frame :: "path \<Rightarrow> disk \<Rightarrow> disk \<Rightarrow> bool" where
  "log_frame p d d' \<longleftrightarrow> (\<forall>q. \<not> log_family p q \<longrightarrow> read_file d' q = read_file d q)"

named_theorems frames \<open>steps that change files of the log only\<close>

lemma frame_refl [simp, intro]: "log_frame p d d"
  by (simp add: log_frame_def)

lemma frame_trans: "log_frame p d d1 \<Longrightarrow> log_frame p d1 d2 \<Longrightarrow> log_frame p d d2"
  by (simp add: log_frame_def)

lemma frame_put [frames]: "log_family p q \<Longrightarrow> log_frame p d (put_file d q bs)"
  by (auto simp: log_frame_def)

lemma frame_remove [frames]: "log_family p q \<Longrightarrow> log_frame p d (remove_file d q)"
  by (auto simp: log_frame_def)

lemma frame_append [frames]: "log_family p q \<Longrightarrow> log_frame p d (append_file d q bs)"
  by (auto simp: append_file_def log_frame_def split: option.splits)

lemma frame_open_append [frames]: "log_family p q \<Longrightarrow> log_frame p d (open_append d q)"
  by (auto simp: log_frame_def read_open_append)

lemma frame_release [frames]: "log_frame p d (release_lock d q)"
  by (simp add: log_frame_def)

lemma frame_rename [frames]: "rename_file d q q' = Some d' \<Longrightarrow> log_family p q \<Longrightarrow> log_family p q' \<Longrightarrow> log_frame p d d'"
  by (auto simp: log_frame_def dest: read_rename_file)

lemma frame_rename_seal [frames]: "log_family p q \<Longrightarrow> log_family p q' \<Longrightarrow> log_frame p d (rename_seal d q q')"
  unfolding rename_seal_def by (auto split: option.splits intro: frames log_family_paths)

lemma frame_refresh [frames]: "refresh_seal P lg d fault = (res, d') \<Longrightarrow> log_family p (tl_path lg) \<Longrightarrow> log_frame p d d'"
  unfolding refresh_seal_eq log_frame_def using write_seal_effect(3) log_family_paths by metis

lemma frame_dev_write [frames]: "dev_write space d q bs = (r, n, space', d') \<Longrightarrow> log_family p q \<Longrightarrow> log_frame p d d'"
  by (auto simp: dev_write_def split: option.splits if_splits intro: frames)

lemma frame_buf_flush [frames]: "buf_flush space lg d = (r, space', lg', d') \<Longrightarrow> log_family p (tl_fd lg) \<Longrightarrow> log_frame p d d'"
  by (auto simp: buf_flush_def split: prod.splits intro: frames)

lemma buf_flush_handle: "buf_flush space lg d = (r, space', lg', d') \<Longrightarrow> tl_fd lg' = tl_fd lg \<and> tl_path lg' = tl_path lg"
  by (auto simp: buf_flush_def split: prod.splits)

lemma buf_write_all_frame:
  assumes "buf_write_all space lg d bs = (r, space', lg', d')" "log_family p (tl_fd lg)"
  shows "log_frame p d d'" "tl_fd lg' = tl_fd lg" "tl_path lg' = tl_path lg"
proof -
  obtain r1 s1 lg1 d1 where f: "buf_flush space lg d = (r1, s1, lg1, d1)" by (cases "buf_flush space lg d")
  obtain r2 n2 s2 d2 where w: "dev_write s1 d1 (tl_fd lg1) bs = (r2, n2, s2, d2)" by (cases "dev_write s1 d1 (tl_fd lg1) bs")
  obtain r3 n3 s3 d3 where w3: "dev_write space d (tl_fd lg) bs = (r3, n3, s3, d3)" by (cases "dev_write space d (tl_fd lg) bs")
  note h = buf_flush_handle [OF f]
  have fr: "log_frame p d d1" "log_frame p d1 d2" "log_frame p d d3"
    using frame_buf_flush [OF f] frame_dev_write [OF w] frame_dev_write [OF w3] assms(2) h by auto
  show "log_frame p d d'" "tl_fd lg' = tl_fd lg" "tl_path lg' = tl_path lg"
    using assms(1) f w w3 h fr frame_trans [OF fr(1,2)]
    by (auto simp: buf_write_all_def Let_def split: if_splits bool.splits)
qed

lemma rotate_log_frame:
  assumes "rotate_log P lg d fault = (res, lg', d')" "tl_path lg = p" "log_family p (tl_fd lg)"
  shows "log_frame p d d' \<and> tl_path lg' = p \<and> log_family p (tl_fd lg')"
proof -
  obtain r1 s1 lg1 d1 where f: "buf_flush None lg d = (r1, s1, lg1, d1)" by (cases "buf_flush None lg d")
  have h: "tl_fd lg1 = tl_fd lg" "tl_path lg1 = p" using buf_flush_handle [OF f] assms(2) by auto
  have fr: "log_frame p d d1" using frame_buf_flush [OF f assms(3)] .
  have step: "log_frame p d dr" "log_frame p d (rename_seal dr p (rotation_path p n))" "log_frame p d (open_append (rename_seal dr p (rotation_path p n)) p)"
    if "rename_file d1 p (rotation_path p n) = Some dr" for n dr
  proof -
    show a: "log_frame p d dr" using frame_trans [OF fr frame_rename [OF that]] by simp
    show b: "log_frame p d (rename_seal dr p (rotation_path p n))" by (rule frame_trans [OF a]) (simp add: frames)
    show "log_frame p d (open_append (rename_seal dr p (rotation_path p n)) p)" by (rule frame_trans [OF b]) (simp add: frames)
  qed
  have seal: "log_frame p d d4" if "refresh_seal P lg2 d3 x = (rs, d4)" "log_frame p d d3" "tl_path lg2 = p" for lg2 d3 x rs d4
    using frame_trans [OF that(2) frame_refresh [OF that(1)]] that(3) by simp
  show ?thesis
    using assms(1,3) f h fr step seal
    by (auto simp: rotate_log_def Let_def split: sum.splits option.splits if_splits prod.splits)
qed

lemma append_entry_frame:
  assumes "append_entry P lg d now kind io = (res, lg', d')" "tl_path lg = p" "log_family p (tl_fd lg)"
  shows "log_frame p d d' \<and> tl_path lg' = p \<and> log_family p (tl_fd lg')"
proof (cases "encode_entry P \<lparr>le_sequence = tl_sequence lg, le_timestamp_ms = now, le_kind = kind\<rparr> (tl_prev_hash lg) (tl_chain_key lg)")
  case (Inl e)
  then show ?thesis using assms by (auto simp: append_entry_def)
next
  case (Inr wh)
  obtain wire hash where wh: "wh = (wire, hash)" by (cases wh)
  obtain r1 s1 lg1 d1 where w: "buf_write_all (io_space io) lg d wire = (r1, s1, lg1, d1)" by (cases "buf_write_all (io_space io) lg d wire")
  note fw = buf_write_all_frame [OF w assms(3)]
  obtain r2 s2 lg2 d2 where f: "buf_flush s1 lg1 d1 = (r2, s2, lg2, d2)" by (cases "buf_flush s1 lg1 d1")
  have h2: "tl_fd lg2 = tl_fd lg" "tl_path lg2 = p" using buf_flush_handle [OF f] fw(2,3) assms(2) by auto
  have f2: "log_frame p d d2" using frame_trans [OF fw(1) frame_buf_flush [OF f]] fw(2) assms(3) by simp
  define lg3 where "lg3 = lg2\<lparr>tl_prev_hash := hash, tl_sequence := Suc (tl_sequence lg2), tl_bytes_written := tl_bytes_written lg2 + length wire\<rparr>"
  have h3: "tl_fd lg3 = tl_fd lg" "tl_path lg3 = p" using h2 by (simp_all add: lg3_def)
  obtain r3 d3 where r: "refresh_seal P lg3 d2 (io_seal io) = (r3, d3)" by (cases "refresh_seal P lg3 d2 (io_seal io)")
  have f3: "log_frame p d d3" using frame_trans [OF f2 frame_refresh [OF r]] h3 by simp
  obtain r4 lg4 d4 where ro: "rotate_log P lg3 d3 (io_rotate io) = (r4, lg4, d4)" by (cases "rotate_log P lg3 d3 (io_rotate io)")
  have f4: "log_frame p d3 d4" "tl_path lg4 = p" "log_family p (tl_fd lg4)" using rotate_log_frame [OF ro h3(2)] h3(1) assms(3) by auto
  show ?thesis
    using assms Inr wh w f r ro fw f2 f3 f4 h2 h3 frame_trans [OF f3 f4(1)]
    by (auto simp: append_entry_def Let_def lg3_def [symmetric] split: bool.splits option.splits if_splits)
qed

lemma open_inner_frame:
  assumes "open_inner P d p key mx signer fault = (res, d')"
  shows "log_frame p d d' \<and> (\<forall>lg. res = Inr lg \<longrightarrow> tl_path lg = p \<and> tl_fd lg = p)"
proof -
  have lock: "log_frame p d d1" if "lock_acquire d p = Inr d1" for d1
    using that frame_open_append [of p "lock_path p" d] by (auto simp: lock_acquire_def Let_def log_frame_def split: if_splits)
  have rel: "log_frame p d (release_lock d1 p)" if "log_frame p d d1" for d1 using that frame_trans frame_release by blast
  have opened: "log_frame p d (open_append d1 p)" if "log_frame p d d1" for d1 using that frame_trans frame_open_append [of p p] by auto
  have seal: "log_frame p d d4" if "refresh_seal P lg2 d3 x = (rs, d4)" "log_frame p d d3" "tl_path lg2 = p" for lg2 d3 x rs d4
    using frame_trans [OF that(2) frame_refresh [OF that(1)]] that(3) by simp
  have app: "log_frame p d (open_append d (lock_path p))" by (simp add: frames)
  show ?thesis
    using assms app
    by (auto simp: open_inner_def Let_def split: sum.splits option.splits if_splits prod.splits
        intro: rel opened lock dest!: seal)
qed

lemma drop_log_frame: "tl_path lg = p \<Longrightarrow> log_family p (tl_fd lg) \<Longrightarrow> log_frame p d (drop_log lg d)"
  unfolding drop_log_def by (auto split: prod.splits intro: frame_trans frames)

subsection \<open>One audit append\<close>

lemma header_outside: "\<not> log_family (tamper_log_path v) (v_path v, HEADER_FILE)"
proof -
  have "log_stem (tamper_log_path v) = ''tamper''"
    by (simp add: log_stem_def tamper_log_path_def TAMPER_LOG_FILE_def)
  then show ?thesis by (simp add: log_family_def HEADER_FILE_def)
qed

lemma frame_identity:
  assumes "log_frame (tamper_log_path v) (vw_disk w) d"
  shows "vault_identity V v (w\<lparr>vw_disk := d\<rparr>) = vault_identity V v w"
proof -
  have "read_file d (v_path v, HEADER_FILE) = read_file (vw_disk w) (v_path v, HEADER_FILE)"
    using assms header_outside by (simp add: log_frame_def)
  then have "read_header V (v_path v) (w\<lparr>vw_disk := d\<rparr>) = read_header V (v_path v) w" by (simp add: read_header_def)
  then show ?thesis by (simp add: vault_identity_def)
qed

text \<open>Whatever fails, an append leaves the store, the directories and the identity as they were.\<close>

lemma append_vault_audit_frame:
  assumes "append_vault_audit V v name operation env w = (res, w')"
  shows "vw_kv w' = vw_kv w \<and> vw_dirs w' = vw_dirs w \<and> vault_identity V v w' = vault_identity V v w \<and>
    log_frame (tamper_log_path v) (vw_disk w) (vw_disk w')"
proof (cases "vault_identity V v w")
  case (Inl e)
  then show ?thesis using assms by (auto simp: append_vault_audit_def)
next
  case (Inr ident)
  let ?p = "tamper_log_path v" and ?P = "vp_log V"
  obtain r1 d1 where o: "open_inner ?P (vw_disk w) ?p (vault_chain_key V v) DEFAULT_MAX_FILE_BYTES
      (map_option (identity_tip_signer V) ident) (ve_seal_fault env) = (r1, d1)" by fastforce
  note fo = open_inner_frame [OF o]
  show ?thesis
  proof (cases r1)
    case (Inl e)
    then show ?thesis using assms Inr o fo frame_identity [of v w d1] by (auto simp: append_vault_audit_def)
  next
    case lg: (Inr lg)
    obtain r2 lg2 d2 where a: "append_entry ?P lg d1 (ve_now_ms env) (VaultMutation (audit_ref V v name) operation) (ve_io env) = (r2, lg2, d2)"
      by (cases "append_entry ?P lg d1 (ve_now_ms env) (VaultMutation (audit_ref V v name) operation) (ve_io env)")
    have fa: "log_frame ?p d1 d2" "tl_path lg2 = ?p" "log_family ?p (tl_fd lg2)" using append_entry_frame [OF a] fo lg by auto
    have fr: "log_frame ?p (vw_disk w) (drop_log lg2 d2)"
      using frame_trans [OF frame_trans [OF conjunct1 [OF fo] fa(1)] drop_log_frame [OF fa(2,3)]] .
    from frame_identity [OF fr] show ?thesis
      using assms Inr o lg a fr by (auto simp: append_vault_audit_def split: sum.splits)
  qed
qed

text \<open>The audit log on disk: not there yet, or a represented log.\<close>

definition audit_rep :: "prims \<Rightarrow> chain_key \<Rightarrow> path \<Rightarrow> disk \<Rightarrow> log_entry list list \<Rightarrow> log_entry list \<Rightarrow> bool" where
  "audit_rep P key p d segs live \<longleftrightarrow>
     fst p \<noteq> [] \<and> p \<notin> set (d_locks d) \<and>
     (read_file d p = None \<and> no_segments d p \<and> segs = [] \<and> live = [] \<or> disk_rep P key p d segs live (length live))"

lemma open_audit:
  assumes P: "prims_ok P" and rep: "audit_rep P key p d segs live" and signer: "signer_ok signer"
  obtains lg d' where "open_inner P d p key mx signer None = (Inr lg, d')" "handle_rep P lg d' segs live"
    "tl_path lg = p" "tl_chain_key lg = key" "tl_max_file_bytes lg = mx"
proof (cases "read_file d p = None \<and> no_segments d p \<and> segs = [] \<and> live = []")
  case True
  obtain lg d' where "open_inner P d p key mx signer None = (Inr lg, d')" "handle_rep P lg d' [] []"
    "tl_path lg = p" "tl_chain_key lg = key" "tl_max_file_bytes lg = mx"
  proof (rule open_fresh [OF P _ _ _ signer])
    show "fst p \<noteq> []" "read_file d p = None" "p \<notin> set (d_locks d)" using rep True by (simp_all add: audit_rep_def)
    show "parse_rotation_number name (log_stem p) = None" if "read_file d (fst p, name) \<noteq> None" for name
      using True that by (auto simp: no_segments_def)
  qed
  then show ?thesis using that True by simp
next
  case False
  then have r: "disk_rep P key p d segs live (length live)" "p \<notin> set (d_locks d)" using rep by (auto simp: audit_rep_def)
  show ?thesis by (rule open_rep [OF P r signer, of mx]) (rule that)
qed

lemma audit_append:
  assumes V: "vault_prims_ok V" and ident: "vault_identity V v w = Inr ident"
    and rep: "audit_rep (vp_log V) (vault_chain_key V v) (tamper_log_path v) (vw_disk w) segs live"
    and env: "ve_seal_fault env = None" "ve_io env = io_ok"
    and recd: "recordable (vp_log V) \<lparr>le_sequence = length live, le_timestamp_ms = ve_now_ms env,
      le_kind = VaultMutation (audit_ref V v name) operation\<rparr>"
    and bound: "length live + 1 < 2 ^ 64" "length segs + 1 < 2 ^ 32"
    and signer: "signer_ok (map_option (identity_tip_signer V) ident)"
  obtains w' segs' live' where "append_vault_audit V v name operation env w = (Inr (), w')"
    "vw_kv w' = vw_kv w" "vw_dirs w' = vw_dirs w" "vault_identity V v w' = Inr ident"
    "abs_append (vp_log V) DEFAULT_MAX_FILE_BYTES (ve_now_ms env, VaultMutation (audit_ref V v name) operation) (segs, live) = (segs', live')"
    "audit_rep (vp_log V) (vault_chain_key V v) (tamper_log_path v) (vw_disk w') segs' live'"
proof -
  let ?P = "vp_log V" and ?p = "tamper_log_path v" and ?key = "vault_chain_key V v"
  note P = vault_prims_laws(1) [OF V]
  obtain lg d1 where o: "open_inner ?P (vw_disk w) ?p ?key DEFAULT_MAX_FILE_BYTES (map_option (identity_tip_signer V) ident) None = (Inr lg, d1)"
      "handle_rep ?P lg d1 segs live" "tl_path lg = ?p" "tl_chain_key lg = ?key" "tl_max_file_bytes lg = DEFAULT_MAX_FILE_BYTES"
    by (rule open_audit [OF P rep signer])
  obtain lg2 d2 segs' live' where a: "append_entry ?P lg d1 (ve_now_ms env) (VaultMutation (audit_ref V v name) operation) io_ok = (Inr (length live), lg2, d2)"
      "abs_append ?P DEFAULT_MAX_FILE_BYTES (ve_now_ms env, VaultMutation (audit_ref V v name) operation) (segs, live) = (segs', live')"
      "handle_rep ?P lg2 d2 segs' live'" "tl_path lg2 = ?p" "tl_chain_key lg2 = ?key"
    by (rule append_step [OF P o(2), of "(ve_now_ms env, VaultMutation (audit_ref V v name) operation)"])
      (use recd bound o(3-5) in simp_all)
  let ?w = "w\<lparr>vw_disk := drop_log lg2 d2\<rparr>"
  have res: "append_vault_audit V v name operation env w = (Inr (), ?w)"
    using o(1) a(1) env by (simp add: append_vault_audit_def ident)
  note drop = drop_rep [OF a(3)]
  have "audit_rep ?P ?key ?p (vw_disk ?w) segs' live'"
    using drop(2,3) a(4,5) rep by (simp add: audit_rep_def)
  with append_vault_audit_frame [OF res] ident res a(2) show ?thesis by (intro that [of ?w]) simp_all
qed

end
