(* ===== verification/Vault_Refinement.thy ===== *)
theory Vault_Refinement
  imports Vault_Audit
begin

section \<open>The vault implements a map from names to credentials\<close>

text \<open>
  The abstract vault is a map from names to credentials together with the list of mutations that took effect. As long as the store and the
  encoders do not fail, every operation answers as the abstract one does, and the audit log holds exactly the mutations, in order. The names in use
  are assumed to have different lookup keys, which are keyed hashes.
\<close>

subsection \<open>The abstract vault\<close>

record credential =
  cr_record :: entry_record
  cr_secret :: bytes

datatype vault_op =
    OpAdd bytes credential_type bytes
  | OpGet bytes
  | OpRemove bytes
  | OpRotate bytes bytes
  | OpRevoke bytes
  | OpHistory bytes

datatype vault_reply =
    ReplyDone "vault_error + unit"
  | ReplyEntry "vault_error + decrypted_entry"
  | ReplyHistory "vault_error + entry_history"

fun op_name :: "vault_op \<Rightarrow> bytes" where
  "op_name (OpAdd n _ _) = n"
| "op_name (OpGet n) = n"
| "op_name (OpRemove n) = n"
| "op_name (OpRotate n _) = n"
| "op_name (OpRevoke n) = n"
| "op_name (OpHistory n) = n"

fun op_tag :: "vault_op \<Rightarrow> string" where
  "op_tag (OpAdd _ _ _) = ''add''"
| "op_tag (OpRemove _) = ''remove''"
| "op_tag (OpRotate _ _) = ''rotate''"
| "op_tag (OpRevoke _) = ''revoke''"
| "op_tag _ = ''''"

definition new_record :: "bytes \<Rightarrow> credential_type \<Rightarrow> vault_time \<Rightarrow> entry_record" where
  "new_record n t now =
     \<lparr>er_name = n, er_credential_type = t,
      er_metadata = \<lparr>em_created_at = now, em_rotated_at = None, em_revoked_at = None, em_rotation_count = 0, em_tags = []\<rparr>,
      er_status = StActive, er_history = [\<lparr>he_timestamp = now, he_kind = EvCreated\<rparr>]\<rparr>"

definition rotated_record :: "entry_record \<Rightarrow> vault_time \<Rightarrow> entry_record" where
  "rotated_record r now =
     r\<lparr>er_metadata := (er_metadata r)\<lparr>em_rotated_at := Some now, em_rotation_count := em_rotation_count (er_metadata r) + 1\<rparr>,
       er_history := er_history r @ [\<lparr>he_timestamp = now, he_kind = EvRotated\<rparr>]\<rparr>"

definition revoked_record :: "entry_record \<Rightarrow> vault_time \<Rightarrow> entry_record" where
  "revoked_record r now =
     r\<lparr>er_status := StRevoked, er_metadata := (er_metadata r)\<lparr>em_revoked_at := Some now\<rparr>,
       er_history := er_history r @ [\<lparr>he_timestamp = now, he_kind = EvRevoked\<rparr>]\<rparr>"

text \<open>One abstract step: the reply, the next map, and whether a mutation took effect.\<close>

fun abs_step :: "vault_op \<Rightarrow> vault_time \<Rightarrow> (bytes \<rightharpoonup> credential) \<Rightarrow> vault_reply \<times> (bytes \<rightharpoonup> credential) \<times> bool" where
  "abs_step (OpAdd n t s) now m =
     (case m n of
        Some _ \<Rightarrow> (ReplyDone (Inl (DuplicateEntry n)), m, False)
      | None \<Rightarrow> (ReplyDone (Inr ()), m(n \<mapsto> \<lparr>cr_record = new_record n t now, cr_secret = s\<rparr>), True))"
| "abs_step (OpGet n) now m =
     (case m n of
        None \<Rightarrow> (ReplyEntry (Inl (EntryNotFound n)), m, False)
      | Some c \<Rightarrow>
          (ReplyEntry
             (case er_status (cr_record c) of
                StRevoked \<Rightarrow> Inl (EntryRevoked n)
              | StExpired \<Rightarrow> Inl (EntryExpired n)
              | StActive \<Rightarrow>
                  Inr \<lparr>de_name = er_name (cr_record c), de_credential_type = er_credential_type (cr_record c),
                       de_secret = cr_secret c, de_metadata = er_metadata (cr_record c)\<rparr>), m, False))"
| "abs_step (OpRemove n) now m =
     (case m n of
        None \<Rightarrow> (ReplyDone (Inl (EntryNotFound n)), m, False)
      | Some c \<Rightarrow>
          if er_status (cr_record c) = StRevoked then (ReplyDone (Inl (EntryNotDeletable n)), m, False)
          else (ReplyDone (Inr ()), m(n := None), True))"
| "abs_step (OpRotate n s) now m =
     (case m n of
        None \<Rightarrow> (ReplyDone (Inl (EntryNotFound n)), m, False)
      | Some c \<Rightarrow>
          if er_status (cr_record c) = StRevoked then (ReplyDone (Inl (EntryRevoked n)), m, False)
          else (ReplyDone (Inr ()), m(n \<mapsto> \<lparr>cr_record = rotated_record (cr_record c) now, cr_secret = s\<rparr>), True))"
| "abs_step (OpRevoke n) now m =
     (case m n of
        None \<Rightarrow> (ReplyDone (Inl (EntryNotFound n)), m, False)
      | Some c \<Rightarrow>
          if er_status (cr_record c) = StRevoked then (ReplyDone (Inl (EntryRevoked n)), m, False)
          else (ReplyDone (Inr ()), m(n \<mapsto> \<lparr>cr_record = revoked_record (cr_record c) now, cr_secret = cr_secret c\<rparr>), True))"
| "abs_step (OpHistory n) now m =
     (case m n of
        None \<Rightarrow> (ReplyHistory (Inl (EntryNotFound n)), m, False)
      | Some c \<Rightarrow>
          (ReplyHistory (Inr \<lparr>eh_name = er_name (cr_record c), eh_status = er_status (cr_record c),
             eh_metadata = er_metadata (cr_record c), eh_events = er_history (cr_record c)\<rparr>), m, False))"

text \<open>A run, with the audit requests of the mutations that took effect.\<close>

fun abs_vault_run ::
    "vault_prims \<Rightarrow> vault \<Rightarrow> (vault_op \<times> vault_env) list \<Rightarrow> (bytes \<rightharpoonup> credential) \<Rightarrow>
       vault_reply list \<times> (bytes \<rightharpoonup> credential) \<times> (int \<times> log_entry_kind) list" where
  "abs_vault_run V v [] m = ([], m, [])"
| "abs_vault_run V v ((op, env) # ops) m =
     (case abs_step op (ve_now env) m of
        (reply, m1, mutated) \<Rightarrow>
          (case abs_vault_run V v ops m1 of
             (replies, m2, reqs) \<Rightarrow>
               (reply # replies, m2,
                (if mutated then [(ve_now_ms env, VaultMutation (audit_ref V v (op_name op)) (op_tag op))] else []) @ reqs)))"

subsection \<open>The concrete run\<close>

fun vault_step :: "vault_prims \<Rightarrow> 'kv kv_store \<Rightarrow> vault \<Rightarrow> vault_op \<Rightarrow> vault_env \<Rightarrow> 'kv vault_world \<Rightarrow> vault_reply \<times> 'kv vault_world" where
  "vault_step V K v (OpAdd n t s) env w = (case vault_add V K v n t s env w of (r, w') \<Rightarrow> (ReplyDone r, w'))"
| "vault_step V K v (OpGet n) env w = (ReplyEntry (vault_get V K v n w), w)"
| "vault_step V K v (OpRemove n) env w = (case vault_remove V K v n env w of (r, w') \<Rightarrow> (ReplyDone r, w'))"
| "vault_step V K v (OpRotate n s) env w = (case vault_rotate V K v n s env w of (r, w') \<Rightarrow> (ReplyDone r, w'))"
| "vault_step V K v (OpRevoke n) env w = (case vault_revoke V K v n env w of (r, w') \<Rightarrow> (ReplyDone r, w'))"
| "vault_step V K v (OpHistory n) env w = (ReplyHistory (vault_history V K v n w), w)"

fun vault_run ::
    "vault_prims \<Rightarrow> 'kv kv_store \<Rightarrow> vault \<Rightarrow> (vault_op \<times> vault_env) list \<Rightarrow> 'kv vault_world \<Rightarrow> vault_reply list \<times> 'kv vault_world" where
  "vault_run V K v [] w = ([], w)"
| "vault_run V K v ((op, env) # ops) w =
     (case vault_step V K v op env w of
        (reply, w1) \<Rightarrow> (case vault_run V K v ops w1 of (replies, w2) \<Rightarrow> (reply # replies, w2)))"

subsection \<open>Representation\<close>

text \<open>A store whose operations succeed, with the map it represents.\<close>

definition kv_reliable :: "'kv kv_store \<Rightarrow> ('kv \<Rightarrow> bytes \<rightharpoonup> bytes) \<Rightarrow> bool" where
  "kv_reliable K view \<longleftrightarrow>
     (\<forall>s. \<exists>s'. kv_open K s = (Inr (), s') \<and> view s' = view s) \<and>
     (\<forall>s k. kv_get K s k = Inr (view s k)) \<and>
     (\<forall>s k b. \<exists>s'. kv_insert K k b s = (Inr (), s') \<and> view s' = (view s)(k \<mapsto> b)) \<and>
     (\<forall>s k. \<exists>s'. kv_remove K k s = (Inr (), s') \<and> view s' = (view s)(k := None)) \<and>
     (\<forall>s. \<exists>s'. kv_persist K s = (Inr (), s') \<and> view s' = view s)"

text \<open>Encoders that do not fail.\<close>

definition vault_prims_total :: "vault_prims \<Rightarrow> bool" where
  "vault_prims_total V \<longleftrightarrow>
     (\<forall>k n a m. vp_seal V k n a m \<noteq> None) \<and> (\<forall>e. vp_entry_enc V e \<noteq> None) \<and> (\<forall>r. vp_record_enc V r \<noteq> None) \<and>
     (\<forall>h. vp_header_enc V h \<noteq> None)"

text \<open>The names and types in use fit the length prefixes of the associated data.\<close>

definition bindable :: "vault_prims \<Rightarrow> vault \<Rightarrow> bytes set \<Rightarrow> credential_type set \<Rightarrow> bool" where
  "bindable V v N T \<longleftrightarrow>
     length (v_salt v) < 2 ^ 32 \<and> (\<forall>n\<in>N. length n < 2 ^ 32) \<and>
     (\<forall>t\<in>T. \<exists>j. vp_type_json V t = Some j \<and> length j < 2 ^ 32)"

definition secret_aad :: "vault_prims \<Rightarrow> vault \<Rightarrow> bytes \<Rightarrow> credential_type \<Rightarrow> u8 \<Rightarrow> vault_error + bytes" where
  "secret_aad V v name t version =
     (if version = LEGACY_ENVELOPE_VERSION then Inr [] else entry_aad V (v_salt v) name t version)"

definition credential_stored :: "vault_prims \<Rightarrow> vault \<Rightarrow> bytes \<Rightarrow> bytes \<Rightarrow> credential \<Rightarrow> bool" where
  "credential_stored V v name b c \<longleftrightarrow>
     (\<exists>e aad. vp_entry_dec V b = Some e \<and> decrypt_metadata V v e = Inr (cr_record c) \<and>
        secret_aad V v name (er_credential_type (cr_record c)) (se_envelope_version e) = Inr aad \<and>
        vault_decrypt V (v_key v) (se_encrypted_secret e) aad = Inr (cr_secret c))"

definition vault_rep ::
    "vault_prims \<Rightarrow> ('kv \<Rightarrow> bytes \<rightharpoonup> bytes) \<Rightarrow> vault \<Rightarrow> bytes set \<Rightarrow> credential_type set \<Rightarrow> 'kv vault_world \<Rightarrow> (bytes \<rightharpoonup> credential) \<Rightarrow> bool" where
  "vault_rep V view v N T w m \<longleftrightarrow>
     (\<forall>n\<in>N. case m n of
        None \<Rightarrow> view (vw_kv w) (lookup_key V v n) = None
      | Some c \<Rightarrow> er_credential_type (cr_record c) \<in> T \<and>
          (\<exists>b. view (vw_kv w) (lookup_key V v n) = Some b \<and> credential_stored V v n b c))"

definition env_ok :: "vault_env \<Rightarrow> bool" where
  "env_ok env \<longleftrightarrow> length (ve_nonce1 env) = NONCE_LEN \<and> length (ve_nonce2 env) = NONCE_LEN \<and>
     ve_seal_fault env = None \<and> ve_io env = io_ok"

fun op_ok :: "bytes set \<Rightarrow> credential_type set \<Rightarrow> vault_op \<Rightarrow> bool" where
  "op_ok N T (OpAdd n t s) \<longleftrightarrow> n \<in> N \<and> t \<in> T"
| "op_ok N T op \<longleftrightarrow> op_name op \<in> N"

definition vault_state ::
    "vault_prims \<Rightarrow> ('kv \<Rightarrow> bytes \<rightharpoonup> bytes) \<Rightarrow> vault \<Rightarrow> bytes set \<Rightarrow> credential_type set \<Rightarrow> 'kv vault_world \<Rightarrow> (bytes \<rightharpoonup> credential) \<Rightarrow>
       log_entry list list \<times> log_entry list \<Rightarrow> bool" where
  "vault_state V view v N T w m lg \<longleftrightarrow>
     bindable V v N T \<and> inj_on (lookup_key V v) N \<and> vault_rep V view v N T w m \<and>
     (\<exists>ident. vault_identity V v w = Inr ident) \<and>
     audit_rep (vp_log V) (vault_chain_key V v) (tamper_log_path v) (vw_disk w) (fst lg) (snd lg)"

subsection \<open>Encryption\<close>

lemma vault_decrypt_encrypt:
  assumes "vault_prims_ok V" "length nonce = NONCE_LEN" "vault_encrypt V nonce key m aad = Inr c"
  shows "vault_decrypt V key c aad = Inr m"
  using assms vault_prims_laws(2) [OF assms(1,2)]
  by (auto simp: vault_encrypt_def vault_decrypt_def split: option.splits)

lemma decrypt_encrypt_metadata:
  assumes "vault_prims_ok V" "length nonce = NONCE_LEN" "encrypt_metadata V v nonce r = Inr c" "se_encrypted_metadata e = c"
  shows "decrypt_metadata V v e = Inr r"
  using assms vault_decrypt_encrypt [OF assms(1,2)] vault_prims_laws(8) [OF assms(1)]
  by (fastforce simp: encrypt_metadata_def decrypt_metadata_def split: option.splits sum.splits)

lemma entry_aad_ok:
  assumes "bindable V v N T" "n \<in> N" "t \<in> T"
  obtains aad where "entry_aad V (v_salt v) n t version = Inr aad"
  using assms by (fastforce simp: bindable_def entry_aad_def checked_len_prefix_def)

lemma seal_secret_ok:
  assumes "vault_prims_ok V" "vault_prims_total V" "bindable V v N T" "n \<in> N" "t \<in> T" "length nonce = NONCE_LEN"
  obtains c aad where "seal_secret V v n t nonce s = Inr c" "secret_aad V v n t ENTRY_ENVELOPE_VERSION = Inr aad"
    "vault_decrypt V (v_key v) c aad = Inr s"
proof -
  obtain aad where aad: "entry_aad V (v_salt v) n t ENTRY_ENVELOPE_VERSION = Inr aad" by (rule entry_aad_ok [OF assms(3-5)])
  obtain c where c: "vault_encrypt V nonce (v_key v) s aad = Inr c"
    using assms(2) by (fastforce simp: vault_prims_total_def vault_encrypt_def split: option.splits)
  show ?thesis
    using that [of c aad] aad c vault_decrypt_encrypt [OF assms(1,6) c]
    by (simp add: seal_secret_def secret_aad_def ENTRY_ENVELOPE_VERSION_def LEGACY_ENVELOPE_VERSION_def)
qed

lemma encrypt_metadata_ok:
  assumes "vault_prims_total V"
  obtains c where "encrypt_metadata V v nonce r = Inr c"
proof -
  obtain j where j: "vp_record_enc V r = Some j" using assms by (fastforce simp: vault_prims_total_def)
  obtain c where "vp_seal V (v_key v) nonce [] j = Some c" using assms by (fastforce simp: vault_prims_total_def)
  with j show ?thesis by (intro that) (simp add: encrypt_metadata_def vault_encrypt_def)
qed

lemma vault_signer_ok:
  assumes "vault_prims_ok V"
  shows "signer_ok (map_option (identity_tip_signer V) ident)"
  using vault_prims_laws(1,5) [OF assms]
  by (auto simp: signer_ok_def identity_tip_signer_def installation_key_id_def prims_ok_def KEY_ID_LEN_def)

subsection \<open>One step\<close>

text \<open>What a step on the log does: nothing, or one append.\<close>

definition log_step ::
    "vault_prims \<Rightarrow> (int \<times> log_entry_kind) list \<Rightarrow> log_entry list list \<times> log_entry list \<Rightarrow> log_entry list list \<times> log_entry list" where
  "log_step V reqs lg = snd (abs_run (vp_log V) DEFAULT_MAX_FILE_BYTES reqs lg)"

lemma log_step_simps [simp]:
  "log_step V [] lg = lg"
  "log_step V (req # reqs) lg = log_step V reqs (abs_append (vp_log V) DEFAULT_MAX_FILE_BYTES req lg)"
  by (simp_all add: log_step_def case_prod_beta Let_def)

text \<open>The mutation's request can be recorded at the end of the log.\<close>

definition log_room :: "vault_prims \<Rightarrow> vault \<Rightarrow> vault_op \<times> vault_env \<Rightarrow> log_entry list list \<times> log_entry list \<Rightarrow> bool" where
  "log_room V v oe lg \<longleftrightarrow>
     recordable (vp_log V) \<lparr>le_sequence = length (snd lg), le_timestamp_ms = ve_now_ms (snd oe),
       le_kind = VaultMutation (audit_ref V v (op_name (fst oe))) (op_tag (fst oe))\<rparr> \<and>
     length (snd lg) + 1 < 2 ^ 64 \<and> length (fst lg) + 1 < 2 ^ 32"

lemma vault_rep_update:
  assumes "vault_rep V view v N T w m" "inj_on (lookup_key V v) N" "n \<in> N"
    "view (vw_kv w') = (view (vw_kv w))(lookup_key V v n := ob)"
    "case oc of None \<Rightarrow> ob = None | Some c \<Rightarrow> er_credential_type (cr_record c) \<in> T \<and> (\<exists>b. ob = Some b \<and> credential_stored V v n b c)"
  shows "vault_rep V view v N T w' (m(n := oc))"
  unfolding vault_rep_def
proof
  fix k
  assume k: "k \<in> N"
  show "case (m(n := oc)) k of
      None \<Rightarrow> view (vw_kv w') (lookup_key V v k) = None
    | Some c \<Rightarrow> er_credential_type (cr_record c) \<in> T \<and>
        (\<exists>b. view (vw_kv w') (lookup_key V v k) = Some b \<and> credential_stored V v k b c)"
  proof (cases "k = n")
    case True
    with assms(4,5) show ?thesis by (cases oc) auto
  next
    case False
    then have "lookup_key V v k \<noteq> lookup_key V v n" using assms(2,3) k by (auto dest: inj_onD)
    then have "view (vw_kv w') (lookup_key V v k) = view (vw_kv w) (lookup_key V v k)" using assms(4) by simp
    moreover note bspec [OF assms(1) [unfolded vault_rep_def] k]
    ultimately show ?thesis using False by (cases "m k") auto
  qed
qed

text \<open>An audited commit of a mutation that turns the binding of one name into another.\<close>

lemma commit_audited_step:
  assumes V: "vault_prims_ok V" and K: "kv_reliable K view" and st: "vault_state V view v N T w m lg"
    and env: "env_ok env" and room: "log_room V v (op, env) lg" and n: "op_name op \<in> N"
    and mutate: "\<And>s. \<exists>s'. mutate s = (Inr (), s') \<and> view s' = (view s)(lookup_key V v (op_name op) := ob)"
    and oc: "case oc of None \<Rightarrow> ob = None
      | Some c \<Rightarrow> er_credential_type (cr_record c) \<in> T \<and> (\<exists>b. ob = Some b \<and> credential_stored V v (op_name op) b c)"
  shows "\<exists>w'. commit_audited V K v (op_name op) (op_tag op) env mutate w = (Inr (), w') \<and>
    vault_state V view v N T w' (m(op_name op := oc))
      (log_step V [(ve_now_ms env, VaultMutation (audit_ref V v (op_name op)) (op_tag op))] lg)"
proof -
  note s = st [unfolded vault_state_def]
  obtain ident where ident: "vault_identity V v w = Inr ident" using s by blast
  obtain w1 segs' live' where a: "append_vault_audit V v (op_name op) (op_tag op) env w = (Inr (), w1)"
      "vw_kv w1 = vw_kv w" "vault_identity V v w1 = Inr ident"
      "abs_append (vp_log V) DEFAULT_MAX_FILE_BYTES (ve_now_ms env, VaultMutation (audit_ref V v (op_name op)) (op_tag op)) (fst lg, snd lg) = (segs', live')"
      "audit_rep (vp_log V) (vault_chain_key V v) (tamper_log_path v) (vw_disk w1) segs' live'"
  proof (rule audit_append [OF V ident, of "fst lg" "snd lg" env "op_name op" "op_tag op"])
    show "signer_ok (map_option (identity_tip_signer V) ident)" by (rule vault_signer_ok [OF V])
  qed (use s env room in \<open>simp_all add: env_ok_def log_room_def\<close>)
  obtain s1 where s1: "mutate (vw_kv w) = (Inr (), s1)" "view s1 = (view (vw_kv w))(lookup_key V v (op_name op) := ob)"
    using mutate by blast
  obtain s2 where s2: "kv_persist K s1 = (Inr (), s2)" "view s2 = view s1" using K unfolding kv_reliable_def by blast
  let ?w = "w1\<lparr>vw_kv := s2\<rparr>"
  have "commit_audited V K v (op_name op) (op_tag op) env mutate w = (Inr (), ?w)"
    using a(1,2) s1(1) s2(1) by (simp add: commit_audited_def)
  moreover have "vault_rep V view v N T ?w (m(op_name op := oc))"
    by (rule vault_rep_update [where w = w and ob = ob]) (use s n oc s1(2) s2(2) in simp_all)
  moreover have "vault_identity V v ?w = vault_identity V v w1" by (simp add: vault_identity_def read_header_def path_exists_def)
  ultimately show ?thesis using s a(3-5) by (simp add: vault_state_def)
qed

lemma store_entry_step:
  assumes V: "vault_prims_ok V" "vault_prims_total V" and K: "kv_reliable K view" and st: "vault_state V view v N T w m lg"
    and env: "env_ok env" and room: "log_room V v (op, env) lg" and n: "op_name op \<in> N"
    and c: "er_credential_type (cr_record c) \<in> T"
    and aad: "secret_aad V v (op_name op) (er_credential_type (cr_record c)) version = Inr aad"
    and dec: "vault_decrypt V (v_key v) ct aad = Inr (cr_secret c)"
  shows "\<exists>w'. store_entry V K v (op_name op) (op_tag op) env version ct (cr_record c) w = (Inr (), w') \<and>
    vault_state V view v N T w' (m(op_name op \<mapsto> c))
      (log_step V [(ve_now_ms env, VaultMutation (audit_ref V v (op_name op)) (op_tag op))] lg)"
proof -
  obtain mc where mc: "encrypt_metadata V v (ve_nonce2 env) (cr_record c) = Inr mc" by (rule encrypt_metadata_ok [OF V(2)])
  let ?e = "\<lparr>se_envelope_version = version, se_encrypted_secret = ct, se_encrypted_metadata = mc\<rparr>"
  obtain json where json: "vp_entry_enc V ?e = Some json" using V(2) by (fastforce simp: vault_prims_total_def)
  have nonce: "length (ve_nonce2 env) = NONCE_LEN" using env by (simp add: env_ok_def)
  have "decrypt_metadata V v ?e = Inr (cr_record c)" by (rule decrypt_encrypt_metadata [OF V(1) nonce mc]) simp
  then have stored: "credential_stored V v (op_name op) json c"
    using vault_prims_laws(7) [OF V(1) json] aad dec by (auto simp: credential_stored_def)
  have ins: "\<exists>s'. kv_insert K (lookup_key V v (op_name op)) json s = (Inr (), s') \<and>
      view s' = (view s)(lookup_key V v (op_name op) := Some json)" for s
    using K by (simp add: kv_reliable_def)
  show ?thesis
    using commit_audited_step [OF V(1) K st env room n ins, of "Some c"] stored c mc json by (simp add: store_entry_def)
qed

lemma load_entry_present:
  assumes "kv_reliable K view" "vault_state V view v N T w m lg" "n \<in> N" "m n = Some c"
  obtains e aad where "load_entry V K v n w = Inr (e, cr_record c)" "er_credential_type (cr_record c) \<in> T"
    "secret_aad V v n (er_credential_type (cr_record c)) (se_envelope_version e) = Inr aad"
    "vault_decrypt V (v_key v) (se_encrypted_secret e) aad = Inr (cr_secret c)"
proof -
  have "vault_rep V view v N T w m" using assms(2) by (simp add: vault_state_def)
  then obtain b where T: "er_credential_type (cr_record c) \<in> T" and b: "view (vw_kv w) (lookup_key V v n) = Some b"
      and st: "credential_stored V v n b c"
    using assms(3,4) unfolding vault_rep_def by fastforce
  obtain e aad where e: "vp_entry_dec V b = Some e" "decrypt_metadata V v e = Inr (cr_record c)"
      "secret_aad V v n (er_credential_type (cr_record c)) (se_envelope_version e) = Inr aad"
      "vault_decrypt V (v_key v) (se_encrypted_secret e) aad = Inr (cr_secret c)"
    using st unfolding credential_stored_def by blast
  have "load_entry V K v n w = Inr (e, cr_record c)" using b e(1,2) assms(1) by (simp add: load_entry_def kv_reliable_def)
  with T e(3,4) show ?thesis by (intro that)
qed

lemma absent_entry:
  assumes "kv_reliable K view" "vault_state V view v N T w m lg" "n \<in> N" "m n = None"
  shows "kv_get K (vw_kv w) (lookup_key V v n) = Inr None" "load_entry V K v n w = Inl (EntryNotFound n)"
proof -
  have "vault_rep V view v N T w m" using assms(2) by (simp add: vault_state_def)
  then have "view (vw_kv w) (lookup_key V v n) = None" using assms(3,4) unfolding vault_rep_def by fastforce
  then show "kv_get K (vw_kv w) (lookup_key V v n) = Inr None" using assms(1) by (simp add: kv_reliable_def)
  then show "load_entry V K v n w = Inl (EntryNotFound n)" by (simp add: load_entry_def)
qed

text \<open>A mutation answers as the abstract vault does and appends its request; every other step leaves the log alone.\<close>

definition step_reqs :: "vault_prims \<Rightarrow> vault \<Rightarrow> vault_op \<times> vault_env \<Rightarrow> bool \<Rightarrow> (int \<times> log_entry_kind) list" where
  "step_reqs V v oe mutated =
     (if mutated then [(ve_now_ms (snd oe), VaultMutation (audit_ref V v (op_name (fst oe))) (op_tag (fst oe)))] else [])"

definition simulates ::
    "vault_prims \<Rightarrow> ('kv \<Rightarrow> bytes \<rightharpoonup> bytes) \<Rightarrow> 'kv kv_store \<Rightarrow> vault \<Rightarrow> bytes set \<Rightarrow> credential_type set \<Rightarrow> 'kv vault_world \<Rightarrow>
       (bytes \<rightharpoonup> credential) \<Rightarrow> log_entry list list \<times> log_entry list \<Rightarrow> vault_op \<times> vault_env \<Rightarrow> bool" where
  "simulates V view K v N T w m lg oe \<longleftrightarrow>
     (\<exists>reply w' m' mutated. vault_step V K v (fst oe) (snd oe) w = (reply, w') \<and>
        abs_step (fst oe) (ve_now (snd oe)) m = (reply, m', mutated) \<and>
        vault_state V view v N T w' m' (log_step V (step_reqs V v oe mutated) lg))"

lemma simulates_refusal:
  assumes "vault_step V K v op env w = (reply, w)" "abs_step op (ve_now env) m = (reply, m, False)" "vault_state V view v N T w m lg"
  shows "simulates V view K v N T w m lg (op, env)"
  unfolding simulates_def step_reqs_def using assms by (intro exI [of _ reply] exI [of _ w] exI [of _ m] exI [of _ False]) simp

lemma simulates_mutation:
  assumes "\<exists>w'. vault_step V K v op env w = (reply, w') \<and>
      vault_state V view v N T w' m' (log_step V [(ve_now_ms env, VaultMutation (audit_ref V v (op_name op)) (op_tag op))] lg)"
    "abs_step op (ve_now env) m = (reply, m', True)"
  shows "simulates V view K v N T w m lg (op, env)"
proof -
  obtain w' where "vault_step V K v op env w = (reply, w')"
    "vault_state V view v N T w' m' (log_step V [(ve_now_ms env, VaultMutation (audit_ref V v (op_name op)) (op_tag op))] lg)"
    using assms(1) by blast
  with assms(2) show ?thesis
    unfolding simulates_def step_reqs_def by (intro exI [of _ reply] exI [of _ w'] exI [of _ m'] exI [of _ True]) simp
qed

lemma add_simulates:
  assumes V: "vault_prims_ok V" "vault_prims_total V" and K: "kv_reliable K view" and st: "vault_state V view v N T w m lg"
    and env: "env_ok env" and room: "log_room V v (OpAdd n t s, env) lg" and nt: "n \<in> N" "t \<in> T"
  shows "simulates V view K v N T w m lg (OpAdd n t s, env)"
proof (cases "m n")
  case None
  let ?c = "\<lparr>cr_record = new_record n t (ve_now env), cr_secret = s\<rparr>"
  have bind: "bindable V v N T" and nonce: "length (ve_nonce1 env) = NONCE_LEN"
    using st env by (simp_all add: vault_state_def env_ok_def)
  obtain ct aad where c: "seal_secret V v n t (ve_nonce1 env) s = Inr ct" "secret_aad V v n t ENTRY_ENVELOPE_VERSION = Inr aad"
      "vault_decrypt V (v_key v) ct aad = Inr s"
    by (rule seal_secret_ok [OF V bind nt nonce])
  have "\<exists>w'. store_entry V K v n ''add'' env ENTRY_ENVELOPE_VERSION ct (cr_record ?c) w = (Inr (), w') \<and>
      vault_state V view v N T w' (m(n \<mapsto> ?c)) (log_step V [(ve_now_ms env, VaultMutation (audit_ref V v n) ''add'')] lg)"
    using store_entry_step [OF V K st env room, of ?c ENTRY_ENVELOPE_VERSION aad ct] nt c by (simp add: new_record_def)
  then show ?thesis
    using absent_entry(1) [OF K st nt(1) None] c(1) None
    by (intro simulates_mutation [where reply = "ReplyDone (Inr ())"]) (auto simp: vault_add_def new_record_def)
next
  case (Some c)
  have "vault_rep V view v N T w m" using st by (simp add: vault_state_def)
  then obtain b where "view (vw_kv w) (lookup_key V v n) = Some b" using nt(1) Some unfolding vault_rep_def by fastforce
  then have "vault_step V K v (OpAdd n t s) env w = (ReplyDone (Inl (DuplicateEntry n)), w)"
    using K by (simp add: vault_add_def kv_reliable_def)
  then show ?thesis using Some st by (intro simulates_refusal) simp_all
qed

lemma remove_simulates:
  assumes V: "vault_prims_ok V" and K: "kv_reliable K view" and st: "vault_state V view v N T w m lg"
    and env: "env_ok env" and room: "log_room V v (OpRemove n, env) lg" and n: "n \<in> N"
  shows "simulates V view K v N T w m lg (OpRemove n, env)"
proof (cases "m n")
  case None
  with absent_entry(2) [OF K st n None] st show ?thesis by (intro simulates_refusal) (simp_all add: vault_remove_def)
next
  case (Some c)
  obtain e where e: "load_entry V K v n w = Inr (e, cr_record c)" by (rule load_entry_present [OF K st n Some])
  have rem: "\<exists>s'. kv_remove K (lookup_key V v n) s = (Inr (), s') \<and> view s' = (view s)(lookup_key V v n := None)" for s
    using K by (simp add: kv_reliable_def)
  show ?thesis
  proof (cases "er_status (cr_record c) = StRevoked")
    case True
    with Some e st show ?thesis by (intro simulates_refusal) (simp_all add: vault_remove_def)
  next
    case False
    have "\<exists>w'. commit_audited V K v n ''remove'' env (kv_remove K (lookup_key V v n)) w = (Inr (), w') \<and>
        vault_state V view v N T w' (m(n := None)) (log_step V [(ve_now_ms env, VaultMutation (audit_ref V v n) ''remove'')] lg)"
      using commit_audited_step [OF V K st env room, of "kv_remove K (lookup_key V v n)" None None] n rem by simp
    with False Some e show ?thesis
      by (intro simulates_mutation [where reply = "ReplyDone (Inr ())"]) (auto simp: vault_remove_def)
  qed
qed

lemma rotate_simulates:
  assumes V: "vault_prims_ok V" "vault_prims_total V" and K: "kv_reliable K view" and st: "vault_state V view v N T w m lg"
    and env: "env_ok env" and room: "log_room V v (OpRotate n s, env) lg" and n: "n \<in> N"
  shows "simulates V view K v N T w m lg (OpRotate n s, env)"
proof (cases "m n")
  case None
  with absent_entry(2) [OF K st n None] st show ?thesis by (intro simulates_refusal) (simp_all add: vault_rotate_def)
next
  case (Some c)
  obtain e where e: "load_entry V K v n w = Inr (e, cr_record c)" "er_credential_type (cr_record c) \<in> T"
    by (rule load_entry_present [OF K st n Some])
  show ?thesis
  proof (cases "er_status (cr_record c) = StRevoked")
    case True
    with Some e st show ?thesis by (intro simulates_refusal) (simp_all add: vault_rotate_def)
  next
    case False
    let ?c = "\<lparr>cr_record = rotated_record (cr_record c) (ve_now env), cr_secret = s\<rparr>"
    have bind: "bindable V v N T" and nonce: "length (ve_nonce1 env) = NONCE_LEN"
      using st env by (simp_all add: vault_state_def env_ok_def)
    obtain ct aad where ct: "seal_secret V v n (er_credential_type (cr_record c)) (ve_nonce1 env) s = Inr ct"
        "secret_aad V v n (er_credential_type (cr_record c)) ENTRY_ENVELOPE_VERSION = Inr aad" "vault_decrypt V (v_key v) ct aad = Inr s"
      by (rule seal_secret_ok [OF V bind n e(2) nonce])
    have "\<exists>w'. store_entry V K v n ''rotate'' env ENTRY_ENVELOPE_VERSION ct (cr_record ?c) w = (Inr (), w') \<and>
        vault_state V view v N T w' (m(n \<mapsto> ?c)) (log_step V [(ve_now_ms env, VaultMutation (audit_ref V v n) ''rotate'')] lg)"
      using store_entry_step [OF V K st env room, of ?c ENTRY_ENVELOPE_VERSION aad ct] n e(2) ct(2,3) by (simp add: rotated_record_def)
    with False Some e(1) ct(1) show ?thesis
      by (intro simulates_mutation [where reply = "ReplyDone (Inr ())"]) (auto simp: vault_rotate_def rotated_record_def Let_def)
  qed
qed

lemma revoke_simulates:
  assumes V: "vault_prims_ok V" "vault_prims_total V" and K: "kv_reliable K view" and st: "vault_state V view v N T w m lg"
    and env: "env_ok env" and room: "log_room V v (OpRevoke n, env) lg" and n: "n \<in> N"
  shows "simulates V view K v N T w m lg (OpRevoke n, env)"
proof (cases "m n")
  case None
  with absent_entry(2) [OF K st n None] st show ?thesis by (intro simulates_refusal) (simp_all add: vault_revoke_def)
next
  case (Some c)
  obtain e aad where e: "load_entry V K v n w = Inr (e, cr_record c)" "er_credential_type (cr_record c) \<in> T"
      "secret_aad V v n (er_credential_type (cr_record c)) (se_envelope_version e) = Inr aad"
      "vault_decrypt V (v_key v) (se_encrypted_secret e) aad = Inr (cr_secret c)"
    by (rule load_entry_present [OF K st n Some])
  show ?thesis
  proof (cases "er_status (cr_record c) = StRevoked")
    case True
    with Some e st show ?thesis by (intro simulates_refusal) (simp_all add: vault_revoke_def)
  next
    case False
    let ?c = "\<lparr>cr_record = revoked_record (cr_record c) (ve_now env), cr_secret = cr_secret c\<rparr>"
    have "\<exists>w'. store_entry V K v n ''revoke'' env (se_envelope_version e) (se_encrypted_secret e) (cr_record ?c) w = (Inr (), w') \<and>
        vault_state V view v N T w' (m(n \<mapsto> ?c)) (log_step V [(ve_now_ms env, VaultMutation (audit_ref V v n) ''revoke'')] lg)"
      using store_entry_step [OF V K st env room, of ?c "se_envelope_version e" aad "se_encrypted_secret e"] n e(2-4)
      by (simp add: revoked_record_def)
    with False Some e(1) show ?thesis
      by (intro simulates_mutation [where reply = "ReplyDone (Inr ())"]) (auto simp: vault_revoke_def revoked_record_def Let_def)
  qed
qed

lemma get_simulates:
  assumes K: "kv_reliable K view" and st: "vault_state V view v N T w m lg" and n: "n \<in> N"
  shows "simulates V view K v N T w m lg (OpGet n, env)"
proof (cases "m n")
  case None
  with absent_entry(2) [OF K st n None] st show ?thesis by (intro simulates_refusal) (simp_all add: vault_get_def)
next
  case (Some c)
  obtain e aad where e: "load_entry V K v n w = Inr (e, cr_record c)"
      "secret_aad V v n (er_credential_type (cr_record c)) (se_envelope_version e) = Inr aad"
      "vault_decrypt V (v_key v) (se_encrypted_secret e) aad = Inr (cr_secret c)"
    by (rule load_entry_present [OF K st n Some])
  then show ?thesis using st Some
    by (intro simulates_refusal [where reply = "ReplyEntry (vault_get V K v n w)"])
      (auto simp: vault_get_def secret_aad_def split: entry_status.splits if_splits)
qed

lemma history_simulates:
  assumes K: "kv_reliable K view" and st: "vault_state V view v N T w m lg" and n: "n \<in> N"
  shows "simulates V view K v N T w m lg (OpHistory n, env)"
proof (cases "m n")
  case None
  with absent_entry(2) [OF K st n None] st show ?thesis by (intro simulates_refusal) (simp_all add: vault_history_def)
next
  case (Some c)
  obtain e where "load_entry V K v n w = Inr (e, cr_record c)" by (rule load_entry_present [OF K st n Some])
  with st Some show ?thesis by (intro simulates_refusal) (simp_all add: vault_history_def)
qed

lemma step_simulates:
  assumes "vault_prims_ok V" "vault_prims_total V" "kv_reliable K view" "vault_state V view v N T w m lg"
    and "env_ok env" and "log_room V v (op, env) lg" and "op_ok N T op"
  shows "simulates V view K v N T w m lg (op, env)"
proof (cases op)
  case (OpAdd n t s)
  with assms show ?thesis using add_simulates [OF assms(1-5)] by simp
next
  case (OpRemove n)
  with assms show ?thesis using remove_simulates [OF assms(1,3-5)] by simp
next
  case (OpRotate n s)
  with assms show ?thesis using rotate_simulates [OF assms(1-5)] by simp
next
  case (OpRevoke n)
  with assms show ?thesis using revoke_simulates [OF assms(1-5)] by simp
next
  case (OpGet n)
  with assms show ?thesis using get_simulates [OF assms(3,4)] by simp
next
  case (OpHistory n)
  with assms show ?thesis using history_simulates [OF assms(3,4)] by simp
qed

subsection \<open>Runs\<close>

text \<open>
  Every mutation of the run can be recorded, wherever in the live segment it falls.
\<close>

definition run_room :: "vault_prims \<Rightarrow> vault \<Rightarrow> (vault_op \<times> vault_env) list \<Rightarrow> log_entry list list \<times> log_entry list \<Rightarrow> bool" where
  "run_room V v ops lg \<longleftrightarrow>
     (\<forall>oe\<in>set ops. \<forall>i < length (snd lg) + length ops.
        recordable (vp_log V) \<lparr>le_sequence = i, le_timestamp_ms = ve_now_ms (snd oe),
          le_kind = VaultMutation (audit_ref V v (op_name (fst oe))) (op_tag (fst oe))\<rparr>) \<and>
     length (snd lg) + length ops < 2 ^ 64 \<and> length (fst lg) + length ops < 2 ^ 32"

lemma run_room_Cons:
  assumes "run_room V v (oe # ops) lg"
  shows "log_room V v oe lg" "run_room V v ops (log_step V (step_reqs V v oe mutated) lg)"
proof -
  show "log_room V v oe lg" using assms by (simp add: run_room_def log_room_def)
  obtain segs live where lg: "lg = (segs, live)" by (cases lg)
  obtain segs' live' where lg': "log_step V (step_reqs V v oe mutated) lg = (segs', live')" by fastforce
  then have "length live' \<le> length live + 1 \<and> length segs' \<le> length segs + 1"
    using abs_append_lengths by (auto simp: step_reqs_def lg split: if_splits)
  with assms show "run_room V v ops (log_step V (step_reqs V v oe mutated) lg)"
    unfolding lg' by (simp add: run_room_def lg)
qed

lemma log_step_append: "log_step V (xs @ ys) lg = log_step V ys (log_step V xs lg)"
  by (induction xs arbitrary: lg) simp_all

lemma vault_run_simulates:
  assumes V: "vault_prims_ok V" "vault_prims_total V" and K: "kv_reliable K view" and "vault_state V view v N T w m lg"
    and "\<forall>oe\<in>set ops. op_ok N T (fst oe) \<and> env_ok (snd oe)" and "run_room V v ops lg"
  shows "\<exists>replies w' m' reqs. vault_run V K v ops w = (replies, w') \<and> abs_vault_run V v ops m = (replies, m', reqs) \<and>
    vault_state V view v N T w' m' (log_step V reqs lg)"
  using assms(4-)
proof (induction ops arbitrary: w m lg)
  case Nil
  then show ?case by simp
next
  case (Cons oe ops)
  obtain op env where oe: "oe = (op, env)" by (cases oe)
  have ops: "\<forall>oe\<in>set ops. op_ok N T (fst oe) \<and> env_ok (snd oe)" using Cons.prems(2) by simp
  note room = run_room_Cons [OF Cons.prems(3)]
  have "simulates V view K v N T w m lg (op, env)"
    by (rule step_simulates [OF V K Cons.prems(1)]) (use Cons.prems(2) room(1) oe in simp_all)
  then obtain reply w1 m1 mutated where s: "vault_step V K v op env w = (reply, w1)"
      "abs_step op (ve_now env) m = (reply, m1, mutated)" "vault_state V view v N T w1 m1 (log_step V (step_reqs V v oe mutated) lg)"
    unfolding simulates_def oe fst_conv snd_conv by (elim exE conjE)
  obtain replies w' m' reqs where r: "vault_run V K v ops w1 = (replies, w')" "abs_vault_run V v ops m1 = (replies, m', reqs)"
      "vault_state V view v N T w' m' (log_step V reqs (log_step V (step_reqs V v oe mutated) lg))"
    using Cons.IH [OF s(3) ops room(2)] by (elim exE conjE)
  have "vault_run V K v (oe # ops) w = (reply # replies, w')" using s(1) r(1) oe by simp
  moreover have "abs_vault_run V v (oe # ops) m = (reply # replies, m', step_reqs V v oe mutated @ reqs)"
    using s(2) r(2) oe by (simp add: step_reqs_def)
  moreover note r(3) [folded log_step_append]
  ultimately show ?case by (intro exI conjI)
qed

end
