(* ===== verification/Vault_Instance.thy ===== *)
theory Vault_Instance
  imports Vault_Refinement
begin

section \<open>A concrete instance of the libraries under the vault\<close>

text \<open>
  A cipher, a hash, encoders and a key-value store that satisfy what the vault relies on. They stand in for ChaCha20-Poly1305, BLAKE3, Argon2, Ed25519,
  the JSON encoding and fjall where a theorem about the vault is applied to a concrete vault; nothing about the vault is defined with them.
\<close>

subsection \<open>Self-delimiting encodings\<close>

definition codec :: "('a \<Rightarrow> bytes) \<Rightarrow> (bytes \<Rightarrow> ('a \<times> bytes) option) \<Rightarrow> bool" where
  "codec enc dec \<longleftrightarrow> (\<forall>x r. dec (enc x @ r) = Some (x, r))"

named_theorems codecs \<open>encodings that are self-delimiting\<close>

definition enc_nat :: "nat \<Rightarrow> bytes" where
  "enc_nat n = replicate n 1 @ [0]"

fun dec_nat :: "bytes \<Rightarrow> (nat \<times> bytes) option" where
  "dec_nat [] = None"
| "dec_nat (b # bs) = (if b = 0 then Some (0, bs) else case dec_nat bs of None \<Rightarrow> None | Some (n, r) \<Rightarrow> Some (Suc n, r))"

fun dec_seq :: "(bytes \<Rightarrow> ('a \<times> bytes) option) \<Rightarrow> nat \<Rightarrow> bytes \<Rightarrow> ('a list \<times> bytes) option" where
  "dec_seq dec 0 bs = Some ([], bs)"
| "dec_seq dec (Suc n) bs =
     (case dec bs of None \<Rightarrow> None
      | Some (x, r) \<Rightarrow> (case dec_seq dec n r of None \<Rightarrow> None | Some (xs, r') \<Rightarrow> Some (x # xs, r')))"

definition enc_list :: "('a \<Rightarrow> bytes) \<Rightarrow> 'a list \<Rightarrow> bytes" where
  "enc_list enc xs = enc_nat (length xs) @ concat (map enc xs)"

definition dec_list :: "(bytes \<Rightarrow> ('a \<times> bytes) option) \<Rightarrow> bytes \<Rightarrow> ('a list \<times> bytes) option" where
  "dec_list dec bs = (case dec_nat bs of None \<Rightarrow> None | Some (n, r) \<Rightarrow> dec_seq dec n r)"

definition enc_pair :: "('a \<Rightarrow> bytes) \<Rightarrow> ('b \<Rightarrow> bytes) \<Rightarrow> 'a \<times> 'b \<Rightarrow> bytes" where
  "enc_pair e1 e2 p = e1 (fst p) @ e2 (snd p)"

definition dec_pair ::
    "(bytes \<Rightarrow> ('a \<times> bytes) option) \<Rightarrow> (bytes \<Rightarrow> ('b \<times> bytes) option) \<Rightarrow> bytes \<Rightarrow> (('a \<times> 'b) \<times> bytes) option" where
  "dec_pair d1 d2 bs =
     (case d1 bs of None \<Rightarrow> None
      | Some (x, r) \<Rightarrow> (case d2 r of None \<Rightarrow> None | Some (y, r') \<Rightarrow> Some ((x, y), r')))"

definition dec_via :: "('a \<Rightarrow> 'b) \<Rightarrow> (bytes \<Rightarrow> ('a \<times> bytes) option) \<Rightarrow> bytes \<Rightarrow> ('b \<times> bytes) option" where
  "dec_via g d bs = (case d bs of None \<Rightarrow> None | Some (x, r) \<Rightarrow> Some (g x, r))"

lemma codec_nat [codecs]: "codec enc_nat dec_nat"
proof -
  have "dec_nat (enc_nat n @ r) = Some (n, r)" for n r by (induction n) (simp_all add: enc_nat_def)
  then show ?thesis by (simp add: codec_def)
qed

lemma codec_list [codecs]:
  assumes "codec enc dec"
  shows "codec (enc_list enc) (dec_list dec)"
proof -
  have "dec_seq dec (length xs) (concat (map enc xs) @ r) = Some (xs, r)" for xs r
    using assms by (induction xs) (simp_all add: codec_def)
  then show ?thesis using codec_nat by (simp add: codec_def enc_list_def dec_list_def)
qed

lemma codec_pair [codecs]: "codec e1 d1 \<Longrightarrow> codec e2 d2 \<Longrightarrow> codec (enc_pair e1 e2) (dec_pair d1 d2)"
  by (simp add: codec_def enc_pair_def dec_pair_def)

lemma codec_via: "codec enc dec \<Longrightarrow> (\<And>x. g (f x) = x) \<Longrightarrow> codec (\<lambda>x. enc (f x)) (dec_via g dec)"
  by (simp add: codec_def dec_via_def)

text \<open>Decoding a whole string.\<close>

definition whole :: "(bytes \<Rightarrow> ('a \<times> bytes) option) \<Rightarrow> bytes \<Rightarrow> 'a option" where
  "whole dec bs = (case dec bs of Some (x, []) \<Rightarrow> Some x | _ \<Rightarrow> None)"

lemma whole_codec: "codec enc dec \<Longrightarrow> whole dec (enc x) = Some x"
  using append_Nil2 [of "enc x"] unfolding codec_def whole_def by (metis (no_types, lifting) list.case(1) option.case(2) prod.case)

subsection \<open>The records of the vault\<close>

definition enc_u8 :: "u8 \<Rightarrow> bytes" where "enc_u8 b = [b]"

fun dec_u8 :: "bytes \<Rightarrow> (u8 \<times> bytes) option" where
  "dec_u8 [] = None"
| "dec_u8 (b # bs) = Some (b, bs)"

lemma codec_u8 [codecs]: "codec enc_u8 dec_u8"
  by (simp add: codec_def enc_u8_def)

definition enc_u32 :: "u32 \<Rightarrow> bytes" where "enc_u32 w = enc_nat (unat w)"

definition dec_u32 :: "bytes \<Rightarrow> (u32 \<times> bytes) option" where "dec_u32 = dec_via word_of_nat dec_nat"

lemma codec_u32 [codecs]: "codec enc_u32 dec_u32"
  unfolding enc_u32_def dec_u32_def by (rule codec_via [OF codec_nat]) simp

definition enc_int :: "int \<Rightarrow> bytes" where "enc_int i = enc_pair enc_nat enc_nat (nat i, nat (- i))"

definition dec_int :: "bytes \<Rightarrow> (int \<times> bytes) option" where "dec_int = dec_via (\<lambda>(a, b). int a - int b) (dec_pair dec_nat dec_nat)"

lemma codec_int [codecs]: "codec enc_int dec_int"
  unfolding enc_int_def dec_int_def by (rule codec_via) (simp_all add: codecs)

definition enc_option :: "('a \<Rightarrow> bytes) \<Rightarrow> 'a option \<Rightarrow> bytes" where
  "enc_option enc x = enc_list enc (case x of None \<Rightarrow> [] | Some y \<Rightarrow> [y])"

definition dec_option :: "(bytes \<Rightarrow> ('a \<times> bytes) option) \<Rightarrow> bytes \<Rightarrow> ('a option \<times> bytes) option" where
  "dec_option dec = dec_via (\<lambda>ys. case ys of [] \<Rightarrow> None | y # _ \<Rightarrow> Some y) (dec_list dec)"

lemma codec_option [codecs]: "codec enc dec \<Longrightarrow> codec (enc_option enc) (dec_option dec)"
  unfolding enc_option_def dec_option_def by (rule codec_via) (simp_all add: codecs split: option.splits)

fun type_tuple :: "credential_type \<Rightarrow> nat \<times> bytes" where
  "type_tuple ApiKey = (0, [])"
| "type_tuple Psk = (1, [])"
| "type_tuple Certificate = (2, [])"
| "type_tuple RadioKey = (3, [])"
| "type_tuple (Custom s) = (4, s)"

definition tuple_type :: "nat \<times> bytes \<Rightarrow> credential_type" where
  "tuple_type t = (if fst t = 0 then ApiKey else if fst t = 1 then Psk else if fst t = 2 then Certificate
     else if fst t = 3 then RadioKey else Custom (snd t))"

definition enc_bytes :: "bytes \<Rightarrow> bytes" where "enc_bytes = enc_list enc_u8"

definition dec_bytes :: "bytes \<Rightarrow> (bytes \<times> bytes) option" where "dec_bytes = dec_list dec_u8"

lemma codec_bytes [codecs]: "codec enc_bytes dec_bytes"
  unfolding enc_bytes_def dec_bytes_def by (rule codec_list [OF codec_u8])

definition enc_type :: "credential_type \<Rightarrow> bytes" where "enc_type t = enc_pair enc_nat enc_bytes (type_tuple t)"

definition dec_type :: "bytes \<Rightarrow> (credential_type \<times> bytes) option" where "dec_type = dec_via tuple_type (dec_pair dec_nat dec_bytes)"

lemma tuple_type_inverse: "tuple_type (type_tuple t) = t"
  by (cases t) (simp_all add: tuple_type_def)

lemma codec_type [codecs]: "codec enc_type dec_type"
  unfolding enc_type_def dec_type_def by (rule codec_via) (simp_all add: codecs tuple_type_inverse)

definition status_nat :: "entry_status \<Rightarrow> nat" where
  "status_nat s = (case s of StActive \<Rightarrow> 0 | StRevoked \<Rightarrow> 1 | StExpired \<Rightarrow> 2)"

definition nat_status :: "nat \<Rightarrow> entry_status" where
  "nat_status n = (if n = 0 then StActive else if n = 1 then StRevoked else StExpired)"

definition kind_nat :: "history_event_kind \<Rightarrow> nat" where
  "kind_nat k = (case k of EvCreated \<Rightarrow> 0 | EvRotated \<Rightarrow> 1 | EvRevoked \<Rightarrow> 2)"

definition nat_kind :: "nat \<Rightarrow> history_event_kind" where
  "nat_kind n = (if n = 0 then EvCreated else if n = 1 then EvRotated else EvRevoked)"

lemma enum_inverse: "nat_status (status_nat s) = s" "nat_kind (kind_nat k) = k"
  by (cases s; simp add: nat_status_def status_nat_def) (cases k; simp add: nat_kind_def kind_nat_def)

definition enc_event :: "history_event \<Rightarrow> bytes" where
  "enc_event h = enc_pair enc_int enc_nat (he_timestamp h, kind_nat (he_kind h))"

definition dec_event :: "bytes \<Rightarrow> (history_event \<times> bytes) option" where
  "dec_event = dec_via (\<lambda>(t, k). \<lparr>he_timestamp = t, he_kind = nat_kind k\<rparr>) (dec_pair dec_int dec_nat)"

lemma codec_event [codecs]: "codec enc_event dec_event"
  unfolding enc_event_def dec_event_def by (rule codec_via) (simp_all add: codecs enum_inverse)

definition enc_metadata :: "entry_metadata \<Rightarrow> bytes" where
  "enc_metadata m = enc_pair enc_int (enc_pair (enc_option enc_int) (enc_pair (enc_option enc_int) (enc_pair enc_u32 (enc_list enc_bytes))))
     (em_created_at m, em_rotated_at m, em_revoked_at m, em_rotation_count m, em_tags m)"

definition dec_metadata :: "bytes \<Rightarrow> (entry_metadata \<times> bytes) option" where
  "dec_metadata = dec_via (\<lambda>(c, ro, re, n, t). \<lparr>em_created_at = c, em_rotated_at = ro, em_revoked_at = re, em_rotation_count = n, em_tags = t\<rparr>)
     (dec_pair dec_int (dec_pair (dec_option dec_int) (dec_pair (dec_option dec_int) (dec_pair dec_u32 (dec_list dec_bytes)))))"

lemma codec_metadata [codecs]: "codec enc_metadata dec_metadata"
  unfolding enc_metadata_def dec_metadata_def by (rule codec_via) (simp_all add: codecs)

definition enc_record :: "entry_record \<Rightarrow> bytes" where
  "enc_record r = enc_pair enc_bytes (enc_pair enc_type (enc_pair enc_metadata (enc_pair enc_nat (enc_list enc_event))))
     (er_name r, er_credential_type r, er_metadata r, status_nat (er_status r), er_history r)"

definition dec_record :: "bytes \<Rightarrow> (entry_record \<times> bytes) option" where
  "dec_record = dec_via (\<lambda>(n, t, m, s, h). \<lparr>er_name = n, er_credential_type = t, er_metadata = m, er_status = nat_status s, er_history = h\<rparr>)
     (dec_pair dec_bytes (dec_pair dec_type (dec_pair dec_metadata (dec_pair dec_nat (dec_list dec_event)))))"

lemma codec_record [codecs]: "codec enc_record dec_record"
  unfolding enc_record_def dec_record_def by (rule codec_via) (simp_all add: codecs enum_inverse)

definition enc_entry :: "stored_entry \<Rightarrow> bytes" where
  "enc_entry e = enc_pair enc_u8 (enc_pair enc_bytes enc_bytes) (se_envelope_version e, se_encrypted_secret e, se_encrypted_metadata e)"

definition dec_entry :: "bytes \<Rightarrow> (stored_entry \<times> bytes) option" where
  "dec_entry = dec_via (\<lambda>(v, s, m). \<lparr>se_envelope_version = v, se_encrypted_secret = s, se_encrypted_metadata = m\<rparr>)
     (dec_pair dec_u8 (dec_pair dec_bytes dec_bytes))"

lemma codec_entry [codecs]: "codec enc_entry dec_entry"
  unfolding enc_entry_def dec_entry_def by (rule codec_via) (simp_all add: codecs)

definition enc_header :: "stored_header \<Rightarrow> bytes" where
  "enc_header h = enc_pair enc_u32 (enc_pair enc_bytes (enc_pair enc_u32 (enc_pair enc_u32 (enc_pair enc_u32
       (enc_pair enc_bytes (enc_pair (enc_option enc_bytes) (enc_option enc_bytes)))))))
     (sh_version h, sh_salt h, kp_memory_cost_kib (sh_kdf_params h), kp_time_cost (sh_kdf_params h), kp_parallelism (sh_kdf_params h),
      sh_key_check h, sh_installation_public_key h, sh_sealed_signing_key h)"

definition dec_header :: "bytes \<Rightarrow> (stored_header \<times> bytes) option" where
  "dec_header = dec_via (\<lambda>(v, s, m, t, p, c, i, k).
       \<lparr>sh_version = v, sh_salt = s, sh_kdf_params = \<lparr>kp_memory_cost_kib = m, kp_time_cost = t, kp_parallelism = p\<rparr>, sh_key_check = c,
        sh_installation_public_key = i, sh_sealed_signing_key = k\<rparr>)
     (dec_pair dec_u32 (dec_pair dec_bytes (dec_pair dec_u32 (dec_pair dec_u32 (dec_pair dec_u32
       (dec_pair dec_bytes (dec_pair (dec_option dec_bytes) (dec_option dec_bytes))))))))"

lemma codec_header [codecs]: "codec enc_header dec_header"
  unfolding enc_header_def dec_header_def by (rule codec_via) (simp_all add: codecs)

subsection \<open>Log entries\<close>

definition enc_string :: "string \<Rightarrow> bytes" where "enc_string t = enc_bytes (map (\<lambda>c. word_of_nat (of_char c)) t)"

definition dec_string :: "bytes \<Rightarrow> (string \<times> bytes) option" where "dec_string = dec_via (map (\<lambda>b. char_of (unat b))) dec_bytes"

lemma codec_string [codecs]: "codec enc_string dec_string"
proof -
  have "char_of (unat (word_of_nat (of_char c) :: u8)) = c" for c :: char
    by (simp add: unsigned_of_nat take_bit_eq_mod)
  then show ?thesis unfolding enc_string_def dec_string_def by (intro codec_via) (simp_all add: codecs comp_def)
qed

definition sim_cbor_enc :: "log_entry \<Rightarrow> bytes option" where
  "sim_cbor_enc e =
     (case le_kind e of
        VaultMutation r operation \<Rightarrow>
          Some (enc_pair enc_nat (enc_pair enc_int (enc_pair enc_string enc_string)) (le_sequence e, le_timestamp_ms e, r, operation))
      | _ \<Rightarrow> None)"

definition sim_cbor_dec :: "bytes \<Rightarrow> log_entry option" where
  "sim_cbor_dec bs = whole (dec_via (\<lambda>(n, t, r, operation). \<lparr>le_sequence = n, le_timestamp_ms = t, le_kind = VaultMutation r operation\<rparr>)
     (dec_pair dec_nat (dec_pair dec_int (dec_pair dec_string dec_string)))) bs"

lemma sim_cbor: "sim_cbor_enc e = Some b \<Longrightarrow> sim_cbor_dec b = Some e"
proof (cases "le_kind e")
  case (VaultMutation r operation)
  have c: "codec (enc_pair enc_nat (enc_pair enc_int (enc_pair enc_string enc_string)))
      (dec_pair dec_nat (dec_pair dec_int (dec_pair dec_string dec_string)))" by (simp add: codecs)
  assume "sim_cbor_enc e = Some b"
  with VaultMutation have "b = enc_pair enc_nat (enc_pair enc_int (enc_pair enc_string enc_string)) (le_sequence e, le_timestamp_ms e, r, operation)"
    by (simp add: sim_cbor_enc_def)
  moreover have "dec_pair dec_nat (dec_pair dec_int (dec_pair dec_string dec_string))
      (enc_pair enc_nat (enc_pair enc_int (enc_pair enc_string enc_string)) x @ []) = Some (x, [])" for x
    using c unfolding codec_def by blast
  ultimately show ?thesis using VaultMutation by (simp add: sim_cbor_dec_def whole_def dec_via_def)
qed (simp_all add: sim_cbor_enc_def)

definition sim_log :: prims where
  "sim_log = \<lparr>blake3_keyed = (\<lambda>key d. take 32 (d @ replicate 32 0)), cbor_enc = sim_cbor_enc, cbor_dec = sim_cbor_dec\<rparr>"

lemma sim_log_ok: "prims_ok sim_log"
  using sim_cbor by (simp add: prims_ok_def sim_log_def min_def)

lemma length_encodings:
  "length (enc_nat n) = n + 1" "length (enc_int i) = nat \<bar>i\<bar> + 2" "length (enc_bytes b) = 2 * length b + 1"
  "length (enc_string t) = 2 * length t + 1"
proof -
  show l: "length (enc_bytes b) = 2 * length b + 1" for b
    by (simp add: enc_bytes_def enc_list_def enc_nat_def enc_u8_def length_concat comp_def sum_list_triv)
  show "length (enc_nat n) = n + 1" "length (enc_int i) = nat \<bar>i\<bar> + 2"
    by (simp_all add: enc_nat_def enc_int_def enc_pair_def)
  show "length (enc_string t) = 2 * length t + 1" by (simp add: enc_string_def l)
qed

lemma length_hex_string: "length (hex_string bs) = 2 * length bs"
  by (induction bs) (simp_all add: hex_string_def)

lemma sim_recordable:
  assumes "i < 1000" "\<bar>t\<bar> < 1000" "length r < 1000" "length operation < 1000"
  shows "recordable sim_log \<lparr>le_sequence = i, le_timestamp_ms = t, le_kind = VaultMutation r operation\<rparr>"
  using assms by (simp add: recordable_def sim_log_def sim_cbor_enc_def enc_pair_def length_encodings MAX_ENTRY_BYTES_def)

subsection \<open>Cipher, key derivation and store\<close>

definition sim_frame :: "bytes \<Rightarrow> bytes \<Rightarrow> bytes \<Rightarrow> bytes" where
  "sim_frame key nonce aad = enc_pair enc_bytes (enc_pair enc_bytes enc_bytes) (key, nonce, aad)"

definition sim_open :: "bytes \<Rightarrow> bytes \<Rightarrow> bytes \<Rightarrow> bytes \<Rightarrow> bytes option" where
  "sim_open key nonce aad c =
     (case dec_pair dec_bytes (dec_pair dec_bytes dec_bytes) c of
        None \<Rightarrow> None | Some (x, m) \<Rightarrow> if x = (key, nonce, aad) then Some m else None)"

text \<open>The cipher authenticates: a ciphertext opens under its own key, nonce and associated data only.\<close>

lemma sim_open_frame: "sim_open key' nonce' aad' (sim_frame key nonce aad @ m) = (if (key, nonce, aad) = (key', nonce', aad') then Some m else None)"
proof -
  have "codec (enc_pair enc_bytes (enc_pair enc_bytes enc_bytes)) (dec_pair dec_bytes (dec_pair dec_bytes dec_bytes))" by (simp add: codecs)
  then have "dec_pair dec_bytes (dec_pair dec_bytes dec_bytes) (sim_frame key nonce aad @ m) = Some ((key, nonce, aad), m)"
    unfolding codec_def sim_frame_def by blast
  then show ?thesis by (simp add: sim_open_def)
qed

definition sim_prims :: vault_prims where
  "sim_prims =
     \<lparr>vp_log = sim_log, vp_blake3 = (\<lambda>d. take 32 (d @ replicate 32 0)),
      vp_argon2_accepts = (\<lambda>_. True), vp_argon2 = (\<lambda>_ passphrase _. Some (take 32 (passphrase @ replicate 32 0))),
      vp_seal = (\<lambda>key nonce aad m. Some (sim_frame key nonce aad @ m)), vp_open = sim_open,
      vp_public = (\<lambda>s. s), vp_on_curve = (\<lambda>_. True), vp_sign = (\<lambda>_ _. replicate 64 0), vp_verify = (\<lambda>_ _ s. s = replicate 64 0),
      vp_type_json = (\<lambda>t. Some (enc_type t)),
      vp_header_enc = (\<lambda>h. Some (enc_header h)), vp_header_dec = whole dec_header,
      vp_entry_enc = (\<lambda>e. Some (enc_entry e)), vp_entry_dec = whole dec_entry,
      vp_record_enc = (\<lambda>r. Some (enc_record r)), vp_record_dec = whole dec_record\<rparr>"

lemma sim_prims_simps [simp]:
  "vp_log sim_prims = sim_log" "vp_argon2_accepts sim_prims k" "vp_argon2 sim_prims k p s = Some (take 32 (p @ replicate 32 0))"
  "vp_seal sim_prims key nonce aad m = Some (sim_frame key nonce aad @ m)" "vp_open sim_prims = sim_open" "vp_public sim_prims s = s"
  "vp_type_json sim_prims t = Some (enc_type t)" "vp_header_enc sim_prims h = Some (enc_header h)"
  "vp_entry_enc sim_prims e = Some (enc_entry e)" "vp_record_enc sim_prims r = Some (enc_record r)"
  "vp_entry_dec sim_prims (enc_entry e) = Some e" "vp_header_dec sim_prims (enc_header h) = Some h"
  "vp_record_dec sim_prims (enc_record r) = Some r"
  by (simp_all add: sim_prims_def whole_codec codecs)

lemma sim_prims_ok: "vault_prims_ok sim_prims"
  by (auto simp: vault_prims_ok_def sim_log_ok sim_open_frame) (simp_all add: sim_prims_def)

lemma sim_prims_total: "vault_prims_total sim_prims"
  by (simp add: vault_prims_total_def)

type_synonym sim_kv = "(bytes \<times> bytes) list"

definition sim_store :: "sim_kv kv_store" where
  "sim_store =
     \<lparr>kv_open = (\<lambda>s. (Inr (), s)), kv_get = (\<lambda>s k. Inr (map_of s k)),
      kv_insert = (\<lambda>k b s. (Inr (), (k, b) # filter (\<lambda>x. fst x \<noteq> k) s)),
      kv_remove = (\<lambda>k s. (Inr (), filter (\<lambda>x. fst x \<noteq> k) s)), kv_iter = map Inr, kv_persist = (\<lambda>s. (Inr (), s))\<rparr>"

lemma map_of_filter_ne: "map_of (filter (\<lambda>x. fst x \<noteq> k) s) = (map_of s)(k := None)"
  by (induction s) (auto simp: fun_eq_iff)

lemma sim_store_reliable: "kv_reliable sim_store map_of"
  by (simp add: kv_reliable_def sim_store_def map_of_filter_ne)

lemma sim_lookup:
  assumes "length n \<le> 32" "length n' \<le> 32" "lookup_key sim_prims v n = lookup_key sim_prims v n'" "0 \<notin> set n" "0 \<notin> set n'"
  shows "n = n'"
proof -
  have "n @ replicate (32 - length n) 0 = n' @ replicate (32 - length n') 0"
    using assms(1-3) by (simp add: lookup_key_def Let_def sim_log_def)
  then have "takeWhile (\<lambda>b. b \<noteq> 0) (n @ replicate (32 - length n) 0) = takeWhile (\<lambda>b. b \<noteq> 0) (n' @ replicate (32 - length n') 0)" by simp
  moreover have "takeWhile (\<lambda>b. b \<noteq> 0) (x @ replicate j 0) = x" if "0 \<notin> set x" for x :: bytes and j
    using that by (induction x) (auto simp: takeWhile_replicate)
  ultimately show ?thesis using assms(4,5) by simp
qed

end
