(* ===== verification/Vault_Lifecycle.thy ===== *)
theory Vault_Lifecycle
  imports Vault_Instance
begin

section \<open>Creating, closing and reopening a vault\<close>

text \<open>
  A vault that has just been created represents the empty map, a run of operations keeps the header and the lock as they are, and closing and
  reopening with the passphrase gives the same handle on the same contents. Together with the refinement of single runs this gives the life of a vault
  as a whole.
\<close>

subsection \<open>What the log depends on\<close>

lemma rotation_name_family: "parse_rotation_number name (log_stem p) = Some n \<Longrightarrow> log_family p (fst p, name)"
  by (auto simp: parse_rotation_number_def log_family_def bind_eq_Some_conv strip_prefix_def split: if_splits)
    (metis append_take_drop_id append.assoc)

lemma audit_rep_cong:
  assumes "audit_rep P key p d segs live" "\<And>q. log_family p q \<Longrightarrow> read_file d' q = read_file d q" "p \<in> set (d_locks d') \<Longrightarrow> p \<in> set (d_locks d)"
  shows "audit_rep P key p d' segs live"
proof -
  have files: "read_file d' (rotation_path p n) = read_file d (rotation_path p n)"
      "read_file d' (seal_path (rotation_path p n)) = read_file d (seal_path (rotation_path p n))"
      "read_file d' p = read_file d p" "read_file d' (seal_path p) = read_file d (seal_path p)" for n
    by (simp_all add: assms(2))
  have seals: "read_seal P d' (rotation_path p n) key = read_seal P d (rotation_path p n) key" "read_seal P d' p key = read_seal P d p key" for n
    by (rule read_seal_cong, rule files)+
  have names: "read_file d' (fst p, name) = read_file d (fst p, name)" if "parse_rotation_number name (log_stem p) = Some n" for name n
    using assms(2) rotation_name_family [OF that] by blast
  have none: "no_segments d' p" if "no_segments d p"
    unfolding no_segments_def
  proof (intro allI impI)
    fix name
    assume "read_file d' (fst p, name) \<noteq> None"
    with that names show "parse_rotation_number name (log_stem p) = None" by (cases "parse_rotation_number name (log_stem p)") (auto simp: no_segments_def)
  qed
  have stored: "segs_stored P key p d' segs = segs_stored P key p d segs" "stored P key d' p h live k = stored P key d p h live k" for h k
    unfolding segs_stored_def stored_def files seals by (rule refl)+
  have rep: "disk_rep P key p d' segs live k" if "disk_rep P key p d segs live k" for k
    using that names unfolding disk_rep_def segs_rep_def stored by fastforce
  show ?thesis using assms(1,3) none rep unfolding audit_rep_def files by blast
qed

text \<open>Files of the vault directory that are not files of the log.\<close>

lemma lock_outside: "\<not> log_family (tamper_log_path v) (v_path v, LOCK_FILE)"
proof -
  have "log_stem (tamper_log_path v) = ''tamper''" by (simp add: log_stem_def tamper_log_path_def TAMPER_LOG_FILE_def)
  then show ?thesis by (simp add: log_family_def LOCK_FILE_def)
qed

lemma vault_file_names [simp]: "HEADER_FILE \<noteq> LOCK_FILE" "LOCK_FILE \<noteq> HEADER_FILE" "TAMPER_LOG_FILE \<noteq> LOCK_FILE" "TAMPER_LOG_FILE \<noteq> HEADER_FILE"
  "LOCK_FILE \<noteq> TAMPER_LOG_FILE"
  by (simp_all add: HEADER_FILE_def LOCK_FILE_def TAMPER_LOG_FILE_def)

subsection \<open>Runs keep the header\<close>

text \<open>Whatever fails, an operation changes files of the log only.\<close>

lemma commit_audited_frame:
  assumes "commit_audited V K v name operation env mutate w = (res, w')"
  shows "log_frame (tamper_log_path v) (vw_disk w) (vw_disk w')"
proof -
  obtain r w1 where a: "append_vault_audit V v name operation env w = (r, w1)" by fastforce
  from append_vault_audit_frame [OF a] assms a show ?thesis
    by (auto simp: commit_audited_def split: sum.splits prod.splits)
qed

lemma store_entry_frame:
  "store_entry V K v name operation env version ct r w = (res, w') \<Longrightarrow> log_frame (tamper_log_path v) (vw_disk w) (vw_disk w')"
  by (auto simp: store_entry_def split: sum.splits option.splits dest: commit_audited_frame)

lemma vault_step_frame:
  "vault_step V K v op env w = (reply, w') \<Longrightarrow> log_frame (tamper_log_path v) (vw_disk w) (vw_disk w')"
proof (cases op)
  case (OpAdd n t s)
  assume "vault_step V K v op env w = (reply, w')"
  with OpAdd obtain r where "vault_add V K v n t s env w = (r, w')" by (auto split: prod.splits)
  then show ?thesis unfolding vault_add_def by (auto split: sum.splits option.splits dest: store_entry_frame)
next
  case (OpRemove n)
  assume "vault_step V K v op env w = (reply, w')"
  with OpRemove obtain r where "vault_remove V K v n env w = (r, w')" by (auto split: prod.splits)
  then show ?thesis unfolding vault_remove_def by (auto split: sum.splits prod.splits if_splits dest: commit_audited_frame)
next
  case (OpRotate n s)
  assume "vault_step V K v op env w = (reply, w')"
  with OpRotate obtain r where "vault_rotate V K v n s env w = (r, w')" by (auto split: prod.splits)
  then show ?thesis unfolding vault_rotate_def Let_def by (auto split: sum.splits prod.splits if_splits dest: store_entry_frame)
next
  case (OpRevoke n)
  assume "vault_step V K v op env w = (reply, w')"
  with OpRevoke obtain r where "vault_revoke V K v n env w = (r, w')" by (auto split: prod.splits)
  then show ?thesis unfolding vault_revoke_def Let_def by (auto split: sum.splits prod.splits if_splits dest: store_entry_frame)
qed simp_all

lemma vault_run_frame: "vault_run V K v ops w = (replies, w') \<Longrightarrow> log_frame (tamper_log_path v) (vw_disk w) (vw_disk w')"
proof (induction ops arbitrary: w replies)
  case Nil
  then show ?case by simp
next
  case (Cons oe ops)
  obtain op env where oe: "oe = (op, env)" by (cases oe)
  obtain reply w1 where s: "vault_step V K v op env w = (reply, w1)" by fastforce
  obtain replies1 w2 where r: "vault_run V K v ops w1 = (replies1, w2)" by fastforce
  have r': "vault_run V K v ops w1 = (replies1, w')" using Cons.prems s r oe by simp
  show ?case by (rule frame_trans [OF vault_step_frame [OF s] Cons.IH [OF r']])
qed

subsection \<open>Reopening\<close>

text \<open>The header on disk leads from the passphrase to the key of the handle.\<close>

definition header_opens :: "vault_prims \<Rightarrow> bytes \<Rightarrow> vault \<Rightarrow> 'kv vault_world \<Rightarrow> bool" where
  "header_opens V passphrase v w \<longleftrightarrow>
     (\<exists>bs header. read_file (vw_disk w) (v_path v, HEADER_FILE) = Some bs \<and> vp_header_dec V bs = Some header \<and>
        unlock_header V passphrase header = Inr (v_key v) \<and> sh_salt header = v_salt v)"

lemma header_opens_frame:
  assumes "header_opens V passphrase v w" "log_frame (tamper_log_path v) (vw_disk w) (vw_disk w')"
  shows "header_opens V passphrase v w'"
proof -
  have "read_file (vw_disk w') (v_path v, HEADER_FILE) = read_file (vw_disk w) (v_path v, HEADER_FILE)"
    using assms(2) header_outside by (simp add: log_frame_def)
  with assms(1) show ?thesis by (simp add: header_opens_def)
qed

lemma vault_reopen:
  assumes K: "kv_reliable K view" and st: "vault_state V view v N T w m lg" and header: "header_opens V passphrase v w"
  shows "\<exists>w'. vault_open V K (v_path v) passphrase False (vault_drop v w) = (Inr v, w') \<and> vault_state V view v N T w' m lg \<and>
    header_opens V passphrase v w'"
proof -
  let ?h = "(v_path v, HEADER_FILE)" and ?l = "(v_path v, LOCK_FILE)"
  obtain bs header where h: "read_file (vw_disk w) ?h = Some bs" "vp_header_dec V bs = Some header"
      "unlock_header V passphrase header = Inr (v_key v)" "sh_salt header = v_salt v"
    using header by (auto simp: header_opens_def)
  obtain s where s: "kv_open K (vw_kv w) = (Inr (), s)" "view s = view (vw_kv w)" using K unfolding kv_reliable_def by blast
  define d where "d = put_file (release_lock (vw_disk w) ?l) ?l []"
  define w' where "w' = w\<lparr>vw_disk := d\<lparr>d_locks := ?l # d_locks d\<rparr>, vw_kv := s\<rparr>"
  have rd: "read_file (vw_disk w') = (read_file (vw_disk w))(?l \<mapsto> [])" and locks: "set (d_locks (vw_disk w')) = insert ?l (set (d_locks (vw_disk w)))"
    by (auto simp: w'_def d_def read_file_def release_lock_def put_file_def)
  have free: "?l \<notin> set (d_locks d)" by (simp add: d_def release_lock_def put_file_def)
  have "vault_open V K (v_path v) passphrase False (vault_drop v w) = (Inr v, w')"
    using h s free
    by (simp add: vault_open_def vault_drop_def unlock_def acquire_lock_def Let_def read_header_def open_fjall_def d_def [symmetric] w'_def)
      (simp add: d_def open_fjall_def)
  moreover have "vault_state V view v N T w' m lg"
  proof -
    have "read_header V (v_path v) w' = read_header V (v_path v) w" using rd by (simp add: read_header_def)
    then have "vault_identity V v w' = vault_identity V v w" by (simp add: vault_identity_def)
    moreover have kv: "view (vw_kv w') = view (vw_kv w)" by (simp add: w'_def s(2))
    have "vault_rep V view v N T w' m = vault_rep V view v N T w m" unfolding vault_rep_def kv by (rule refl)
    moreover have "audit_rep (vp_log V) (vault_chain_key V v) (tamper_log_path v) (vw_disk w') (fst lg) (snd lg)"
    proof (rule audit_rep_cong)
      show "audit_rep (vp_log V) (vault_chain_key V v) (tamper_log_path v) (vw_disk w) (fst lg) (snd lg)" using st by (simp add: vault_state_def)
      show "read_file (vw_disk w') q = read_file (vw_disk w) q" if "log_family (tamper_log_path v) q" for q
        using that lock_outside [of v] rd by (cases "q = ?l") auto
      show "tamper_log_path v \<in> set (d_locks (vw_disk w)) " if "tamper_log_path v \<in> set (d_locks (vw_disk w'))"
        using that locks by (simp add: tamper_log_path_def)
    qed
    ultimately show ?thesis using st by (simp add: vault_state_def)
  qed
  moreover have "header_opens V passphrase v w'" using h rd by (simp add: header_opens_def)
  ultimately show ?thesis by blast
qed

subsection \<open>A new vault\<close>

text \<open>Nothing of the vault is there: no directory, no file or lock in it, an empty store.\<close>

definition fresh_path :: "('kv \<Rightarrow> bytes \<rightharpoonup> bytes) \<Rightarrow> string \<Rightarrow> 'kv vault_world \<Rightarrow> bool" where
  "fresh_path view path w \<longleftrightarrow>
     path \<noteq> [] \<and> \<not> path_exists w path \<and> (\<forall>name. read_file (vw_disk w) (path, name) = None \<and> (path, name) \<notin> set (d_locks (vw_disk w))) \<and>
     view (vw_kv w) = Map.empty"

text \<open>The random inputs have the lengths the code draws.\<close>

definition create_inputs_ok :: "bytes \<Rightarrow> bytes \<Rightarrow> bytes \<Rightarrow> bytes \<Rightarrow> bool" where
  "create_inputs_ok salt n1 n2 signing \<longleftrightarrow>
     length salt = SALT_LEN \<and> length n1 = NONCE_LEN \<and> length n2 = NONCE_LEN \<and> length signing = SIGNING_KEY_LEN"

lemma kdf_default_in_range: "check_kdf_params kdf_default = Inr ()"
  by (simp add: check_kdf_params_def kdf_default_def MIN_KDF_MEMORY_KIB_def MAX_KDF_MEMORY_KIB_def MIN_KDF_TIME_COST_def
      MAX_KDF_TIME_COST_def MIN_KDF_PARALLELISM_def MAX_KDF_PARALLELISM_def)

lemma unseal_seal_signing_key:
  assumes "vault_prims_ok V" "length n = NONCE_LEN" "length (ii_signing ident) = SIGNING_KEY_LEN" "seal_signing_key V n ident key = Inr c"
  shows "unseal_signing_key V c key = Inr (identity_from_signing_key V (ii_signing ident))"
  using assms vault_prims_laws(2) [OF assms(1,2)]
  by (auto simp: seal_signing_key_def unseal_signing_key_def signing_from_bytes_def split: option.splits)

text \<open>The header that creation writes opens with the passphrase and carries a consistent identity.\<close>

lemma new_header_opens:
  assumes V: "vault_prims_ok V" "vault_prims_total V" and ins: "create_inputs_ok salt n1 n2 signing"
    and key: "vp_argon2_accepts V kdf_default" "vp_argon2 V kdf_default passphrase salt = Some key"
  obtains json header sealed where "new_header V passphrase salt n1 n2 signing = Inr (key, json)" "vp_header_dec V json = Some header"
    "unlock_header V passphrase header = Inr key" "sh_salt header = salt" "sh_sealed_signing_key header = Some sealed"
    "unseal_signing_key V sealed key = Inr (identity_from_signing_key V signing)"
    "sh_installation_public_key header = Some (ii_verifying (identity_from_signing_key V signing))"
proof -
  let ?id = "identity_from_signing_key V signing"
  have ls: "length salt = SALT_LEN" "length n1 = NONCE_LEN" "length n2 = NONCE_LEN" "length (ii_signing ?id) = SIGNING_KEY_LEN"
    using ins by (simp_all add: create_inputs_ok_def identity_from_signing_key_def)
  have dk: "derive_key V passphrase salt kdf_default = Inr key" using ls(1) key kdf_default_in_range by (simp add: derive_key_def)
  obtain kc where kc: "vault_encrypt V n1 key KEY_CHECK_PLAINTEXT [] = Inr kc"
    using V(2) by (fastforce simp: vault_prims_total_def vault_encrypt_def split: option.splits)
  obtain sealed where sealed: "seal_signing_key V n2 ?id key = Inr sealed"
    using V(2) by (fastforce simp: vault_prims_total_def seal_signing_key_def split: option.splits)
  let ?h = "\<lparr>sh_version = VAULT_VERSION, sh_salt = salt, sh_kdf_params = kdf_default, sh_key_check = kc,
    sh_installation_public_key = Some (ii_verifying ?id), sh_sealed_signing_key = Some sealed\<rparr>"
  obtain json where json: "vp_header_enc V ?h = Some json" using V(2) by (fastforce simp: vault_prims_total_def)
  have "new_header V passphrase salt n1 n2 signing = Inr (key, json)" using dk kc sealed json by (simp add: new_header_def Let_def)
  moreover have "vp_header_dec V json = Some ?h" by (rule vault_prims_laws(6) [OF V(1) json])
  moreover have "unlock_header V passphrase ?h = Inr key"
    using dk vault_decrypt_encrypt [OF V(1) ls(2) kc] by (simp add: unlock_header_def VAULT_VERSION_def MIN_SUPPORTED_VAULT_VERSION_def)
  moreover have "unseal_signing_key V sealed key = Inr ?id"
    using unseal_seal_signing_key [OF V(1) ls(3,4) sealed] by (simp add: identity_from_signing_key_def)
  ultimately show ?thesis by (intro that [of json ?h sealed]) simp_all
qed

lemma vault_create_state:
  assumes V: "vault_prims_ok V" "vault_prims_total V" and K: "kv_reliable K view" and fresh: "fresh_path view path w"
    and pass: "passphrase \<noteq> []" and ins: "create_inputs_ok salt n1 n2 signing"
    and key: "vp_argon2_accepts V kdf_default" "vp_argon2 V kdf_default passphrase salt = Some key"
    and v: "v = \<lparr>v_key = key, v_salt = salt, v_path = path\<rparr>"
    and names: "bindable V v N T" "inj_on (lookup_key V v) N"
  shows "\<exists>w'. vault_create V K path passphrase salt n1 n2 signing None w = (Inr v, w') \<and>
    vault_state V view v N T w' Map.empty ([], []) \<and> header_opens V passphrase v w'"
proof -
  obtain json header sealed where h: "new_header V passphrase salt n1 n2 signing = Inr (key, json)" "vp_header_dec V json = Some header"
      "unlock_header V passphrase header = Inr key" "sh_salt header = salt" "sh_sealed_signing_key header = Some sealed"
      "unseal_signing_key V sealed key = Inr (identity_from_signing_key V signing)"
      "sh_installation_public_key header = Some (ii_verifying (identity_from_signing_key V signing))"
    by (rule new_header_opens [OF V ins key])
  note f = fresh [unfolded fresh_path_def]
  let ?l = "(path, LOCK_FILE)" and ?h = "(path, HEADER_FILE)"
  obtain s where s: "kv_open K (vw_kv w) = (Inr (), s)" "view s = view (vw_kv w)" using K unfolding kv_reliable_def by blast
  define d where "d = put_file (vw_disk w) ?l []"
  define d' where "d' = put_file (d\<lparr>d_locks := ?l # d_locks d\<rparr>) ?h json"
  define w' where "w' = w\<lparr>vw_dirs := (path @ ''/'' @ DATA_DIR) # path # vw_dirs w, vw_disk := d', vw_kv := s\<rparr>"
  have rd: "read_file (vw_disk w') = (read_file (vw_disk w))(?l \<mapsto> [], ?h \<mapsto> json)"
      and locks: "set (d_locks (vw_disk w')) = insert ?l (set (d_locks (vw_disk w)))"
    by (auto simp: w'_def d_def d'_def read_file_def put_file_def)
  have free: "?l \<notin> set (d_locks d)" using f by (simp add: d_def put_file_def)
  have "vault_create V K path passphrase salt n1 n2 signing None w = (Inr v, w')"
    using f pass h(1) s free
    by (simp add: vault_create_def acquire_lock_def create_owner_only_dir_def Let_def d_def [symmetric] write_owner_only_file_def
        open_fjall_def w'_def d'_def v)
  moreover have "vault_state V view v N T w' Map.empty ([], [])"
  proof -
    have "vault_identity V v w' = Inr (Some (identity_from_signing_key V signing))"
      using rd h by (simp add: vault_identity_def read_header_def v)
    moreover have "vault_rep V view v N T w' Map.empty" using s(2) f by (simp add: vault_rep_def w'_def)
    moreover have "audit_rep (vp_log V) (vault_chain_key V v) (tamper_log_path v) (vw_disk w') [] []"
    proof -
      have "parse_rotation_number name (log_stem (tamper_log_path v)) = None" if "read_file (vw_disk w') (path, name) \<noteq> None" for name
      proof (rule ccontr)
        assume "parse_rotation_number name (log_stem (tamper_log_path v)) \<noteq> None"
        then have "log_family (tamper_log_path v) (path, name)" using rotation_name_family [of name "tamper_log_path v"] by (auto simp: tamper_log_path_def v)
        moreover have "name = LOCK_FILE \<or> name = HEADER_FILE" using that rd f by (auto split: if_splits)
        ultimately show False using lock_outside [of v] header_outside [of v] by (auto simp: v)
      qed
      then show ?thesis using rd locks f by (simp add: audit_rep_def no_segments_def tamper_log_path_def v)
    qed
    ultimately show ?thesis using names by (auto simp: vault_state_def)
  qed
  moreover have "header_opens V passphrase v w'" using h rd by (simp add: header_opens_def v)
  ultimately show ?thesis by blast
qed

end
