(* ===== verification/Vault_Props.thy ===== *)
theory Vault_Props
  imports Vault_Lifecycle
begin

section \<open>Properties of the credential vault\<close>

text \<open>
  The life of a vault against its abstract specification, what the audit log promises, what the envelopes promise against somebody who can write
  the store, and what opening checks.
\<close>

subsection \<open>The life of a vault\<close>

lemma log_step_lengths:
  "length (fst (log_step V reqs lg)) \<le> length (fst lg) + length reqs \<and> length (snd (log_step V reqs lg)) \<le> length (snd lg) + length reqs"
proof (induction reqs arbitrary: lg)
  case (Cons req reqs)
  obtain segs live segs' live' where "lg = (segs, live)" "abs_append (vp_log V) DEFAULT_MAX_FILE_BYTES req lg = (segs', live')"
    by (metis prod.exhaust)
  with abs_append_lengths [of "vp_log V" DEFAULT_MAX_FILE_BYTES req segs live segs' live'] Cons.IH [of "(segs', live')"] show ?case by simp
qed simp

lemma abs_vault_run_append:
  "abs_vault_run V v (xs @ ys) m =
     (case abs_vault_run V v xs m of (r1, m1, q1) \<Rightarrow> (case abs_vault_run V v ys m1 of (r2, m2, q2) \<Rightarrow> (r1 @ r2, m2, q1 @ q2)))"
proof (induction xs arbitrary: m)
  case Nil
  then show ?case by (simp split: prod.splits)
next
  case (Cons oe xs)
  obtain op env where "oe = (op, env)" by (cases oe)
  with Cons show ?case by (simp split: prod.splits)
qed

lemma abs_vault_run_reqs: "abs_vault_run V v ops m = (r, m', q) \<Longrightarrow> length q \<le> length ops"
proof (induction ops arbitrary: m r q)
  case (Cons oe ops)
  obtain op env where oe: "oe = (op, env)" by (cases oe)
  obtain reply m1 mutated where s: "abs_step op (ve_now env) m = (reply, m1, mutated)" by (metis prod.exhaust)
  obtain r1 m2 q1 where r1: "abs_vault_run V v ops m1 = (r1, m2, q1)" by (metis prod.exhaust)
  have "length q \<le> Suc (length q1)" using Cons.prems oe s r1 by auto
  with Cons.IH [of m1 r1 q1] r1 Cons.prems oe s show ?case by auto
qed simp

lemma run_room_append:
  assumes "run_room V v (xs @ ys) lg" "length reqs \<le> length xs"
  shows "run_room V v xs lg" "run_room V v ys (log_step V reqs lg)"
proof -
  show "run_room V v xs lg" using assms(1) by (simp add: run_room_def)
  show "run_room V v ys (log_step V reqs lg)"
    using assms log_step_lengths [of V reqs lg] by (auto simp: run_room_def)
qed

lemma vault_state_verifies:
  assumes "vault_prims_ok V" "vault_state V view v N T w m (log_step V reqs ([], []))" "reqs \<noteq> []"
    "abs_run (vp_log V) DEFAULT_MAX_FILE_BYTES reqs ([], []) = (seqs, segs, live)"
  shows "verify_segment_chain (vp_log V) (vw_disk w) (tamper_log_path v) (vault_chain_key V v) =
    Inr (SegmentsIntact (length reqs) (length segs + 1))"
proof -
  have count: "length (concat segs) + length live = length reqs" using abs_run_count [OF assms(4)] by simp
  with assms(3) have "segs \<noteq> [] \<or> live \<noteq> []" by auto
  moreover have "log_step V reqs ([], []) = (segs, live)" by (simp add: log_step_def assms(4))
  ultimately have "disk_rep (vp_log V) (vault_chain_key V v) (tamper_log_path v) (vw_disk w) segs live (length live)"
    using assms(2) by (auto simp: vault_state_def audit_rep_def)
  from rep_verify_segments [OF vault_prims_laws(1) [OF assms(1)] this] count show ?thesis by simp
qed

text \<open>
  C5. The life of a vault refines a map from names to credentials. A vault is created at a path where nothing is, used, closed, opened again with the
  passphrase and used again: creating and opening succeed with the same handle, every add, get, remove, rotate, revoke and history
  answers exactly as the map does, refusals included, the store represents the final map, and the audit log holds exactly the mutations that took
  effect, in order, and verifies as intact.
\<close>

theorem vault_refines:
  assumes "vault_prims_ok V" and "vault_prims_total V" and "kv_reliable K view" and "fresh_path view path w"
    and "passphrase \<noteq> []" and "create_inputs_ok salt n1 n2 signing"
    and "vp_argon2_accepts V kdf_default" and "vp_argon2 V kdf_default passphrase salt = Some key"
    and "v = \<lparr>v_key = key, v_salt = salt, v_path = path\<rparr>" and "bindable V v N T" and "inj_on (lookup_key V v) N"
    and "\<forall>oe\<in>set (ops1 @ ops2). op_ok N T (fst oe) \<and> env_ok (snd oe)" and "run_room V v (ops1 @ ops2) ([], [])"
  shows "\<exists>w1 replies1 w2 w3 replies2 w4 m reqs seqs segs live.
    vault_create V K path passphrase salt n1 n2 signing None w = (Inr v, w1) \<and>
    vault_run V K v ops1 w1 = (replies1, w2) \<and>
    vault_open V K path passphrase False (vault_drop v w2) = (Inr v, w3) \<and>
    vault_run V K v ops2 w3 = (replies2, w4) \<and>
    abs_vault_run V v (ops1 @ ops2) Map.empty = (replies1 @ replies2, m, reqs) \<and>
    vault_rep V view v N T w4 m \<and>
    abs_run (vp_log V) DEFAULT_MAX_FILE_BYTES reqs ([], []) = (seqs, segs, live) \<and>
    audit_rep (vp_log V) (vault_chain_key V v) (tamper_log_path v) (vw_disk w4) segs live \<and>
    (reqs = [] \<or> verify_segment_chain (vp_log V) (vw_disk w4) (tamper_log_path v) (vault_chain_key V v) =
       Inr (SegmentsIntact (length reqs) (length segs + 1)))"
proof -
  have path: "v_path v = path" using assms(9) by simp
  obtain w1 where c: "vault_create V K path passphrase salt n1 n2 signing None w = (Inr v, w1)"
      "vault_state V view v N T w1 Map.empty ([], [])" "header_opens V passphrase v w1"
    using vault_create_state [OF assms(1-11)] by blast
  have ops: "\<forall>oe\<in>set ops1. op_ok N T (fst oe) \<and> env_ok (snd oe)" "\<forall>oe\<in>set ops2. op_ok N T (fst oe) \<and> env_ok (snd oe)"
    using assms(12) by simp_all
  obtain r1 w2 m1 q1 where a: "vault_run V K v ops1 w1 = (r1, w2)" "abs_vault_run V v ops1 Map.empty = (r1, m1, q1)"
      "vault_state V view v N T w2 m1 (log_step V q1 ([], []))"
    using vault_run_simulates [OF assms(1-3) c(2) ops(1)] run_room_append(1) [OF assms(13), of "[]"] by auto
  obtain w3 where o: "vault_open V K path passphrase False (vault_drop v w2) = (Inr v, w3)" "vault_state V view v N T w3 m1 (log_step V q1 ([], []))"
    using vault_reopen [OF assms(3) a(3) header_opens_frame [OF c(3) vault_run_frame [OF a(1)]]] path by auto
  obtain r2 w4 m2 q2 where b: "vault_run V K v ops2 w3 = (r2, w4)" "abs_vault_run V v ops2 m1 = (r2, m2, q2)"
      "vault_state V view v N T w4 m2 (log_step V q2 (log_step V q1 ([], [])))"
    using vault_run_simulates [OF assms(1-3) o(2) ops(2) run_room_append(2) [OF assms(13) abs_vault_run_reqs [OF a(2)]]] by blast
  obtain seqs segs live where run: "abs_run (vp_log V) DEFAULT_MAX_FILE_BYTES (q1 @ q2) ([], []) = (seqs, segs, live)" by (metis prod.exhaust)
  note st = b(3) [folded log_step_append]
  have lg: "log_step V (q1 @ q2) ([], []) = (segs, live)" by (simp add: log_step_def run)
  have "vault_rep V view v N T w4 m2" "audit_rep (vp_log V) (vault_chain_key V v) (tamper_log_path v) (vw_disk w4) segs live"
    using st by (simp_all add: vault_state_def lg)
  moreover have "abs_vault_run V v (ops1 @ ops2) Map.empty = (r1 @ r2, m2, q1 @ q2)" using a(2) b(2) by (simp add: abs_vault_run_append)
  moreover have "q1 @ q2 = [] \<or> verify_segment_chain (vp_log V) (vw_disk w4) (tamper_log_path v) (vault_chain_key V v) =
       Inr (SegmentsIntact (length (q1 @ q2)) (length segs + 1))"
    using vault_state_verifies [OF assms(1) st _ run] by blast
  ultimately show ?thesis using c(1) a(1) o(1) b(1) run by blast
qed

definition sim_world :: "sim_kv vault_world" where
  "sim_world = \<lparr>vw_disk = \<lparr>d_files = [], d_locks = []\<rparr>, vw_dirs = [], vw_kv = []\<rparr>"

definition sim_pass :: bytes where "sim_pass = [7]"

definition sim_vault :: vault where
  "sim_vault = \<lparr>v_key = take 32 (sim_pass @ replicate 32 0), v_salt = replicate 32 9, v_path = ''/vault''\<rparr>"

definition sim_env :: "int \<Rightarrow> vault_env" where
  "sim_env t = \<lparr>ve_nonce1 = replicate 12 1, ve_nonce2 = replicate 12 2, ve_now = t, ve_now_ms = t, ve_seal_fault = None, ve_io = io_ok\<rparr>"

definition sim_ops1 :: "(vault_op \<times> vault_env) list" where
  "sim_ops1 = [(OpAdd [1] ApiKey [42], sim_env 1), (OpAdd [2] Psk [43], sim_env 2), (OpAdd [1] Psk [44], sim_env 3)]"

definition sim_ops2 :: "(vault_op \<times> vault_env) list" where
  "sim_ops2 = [(OpRotate [1] [45], sim_env 4), (OpRevoke [2], sim_env 5), (OpGet [1], sim_env 6), (OpGet [2], sim_env 7), (OpRemove [2], sim_env 8),
     (OpRemove [1], sim_env 9)]"

lemma sim_names:
  "bindable sim_prims sim_vault {[1], [2]} {ApiKey, Psk}" "inj_on (lookup_key sim_prims v) {[1], [2]}"
proof -
  show "bindable sim_prims sim_vault {[1], [2]} {ApiKey, Psk}"
    unfolding bindable_def sim_vault_def by (simp add: enc_type_def enc_pair_def length_encodings)
  show "inj_on (lookup_key sim_prims v) {[1], [2]}"
  proof (rule inj_onI)
    fix x y
    assume xy: "x \<in> {[1 :: u8], [2]}" "y \<in> {[1 :: u8], [2]}" and eq: "lookup_key sim_prims v x = lookup_key sim_prims v y"
    have "length x \<le> 32" "length y \<le> 32" "0 \<notin> set x" "0 \<notin> set y" using xy by auto
    then show "x = y" by (rule sim_lookup [OF _ _ eq])
  qed
qed

lemma sim_run_room: "run_room sim_prims sim_vault (sim_ops1 @ sim_ops2) ([], [])"
proof -
  have "recordable sim_log \<lparr>le_sequence = i, le_timestamp_ms = t, le_kind = VaultMutation (audit_ref sim_prims sim_vault n) operation\<rparr>"
    if "i < 9" "\<bar>t\<bar> < 10" "length operation < 10" for i t n operation
    using that by (intro sim_recordable) (simp_all add: audit_ref_def Let_def length_hex_string sim_log_def)
  then show ?thesis by (simp add: run_room_def sim_ops1_def sim_ops2_def sim_env_def)
qed

lemma sim_setup:
  "fresh_path map_of ''/vault'' sim_world" "sim_pass \<noteq> []" "create_inputs_ok (replicate 32 9) (replicate 12 1) (replicate 12 2) (replicate 32 5)"
  "vp_argon2 sim_prims kdf_default sim_pass (replicate 32 9) = Some (v_key sim_vault)"
  "sim_vault = \<lparr>v_key = v_key sim_vault, v_salt = replicate 32 9, v_path = ''/vault''\<rparr>"
  "\<forall>oe\<in>set (sim_ops1 @ sim_ops2). op_ok {[1], [2]} {ApiKey, Psk} (fst oe) \<and> env_ok (snd oe)"
  by (simp_all add: fresh_path_def sim_world_def path_exists_def read_file_def sim_pass_def create_inputs_ok_def SALT_LEN_def NONCE_LEN_def
      SIGNING_KEY_LEN_def sim_vault_def sim_ops1_def sim_ops2_def env_ok_def sim_env_def)

definition sim_replies :: "vault_reply list" where
  "sim_replies =
     [ReplyDone (Inr ()), ReplyDone (Inr ()), ReplyDone (Inl (DuplicateEntry [1])), ReplyDone (Inr ()), ReplyDone (Inr ()),
      ReplyEntry (Inr \<lparr>de_name = [1], de_credential_type = ApiKey, de_secret = [45],
        de_metadata = \<lparr>em_created_at = 1, em_rotated_at = Some 4, em_revoked_at = None, em_rotation_count = 1, em_tags = []\<rparr>\<rparr>),
      ReplyEntry (Inl (EntryRevoked [2])), ReplyDone (Inl (EntryNotDeletable [2])), ReplyDone (Inr ())]"

lemma sim_abs_run: "fst (abs_vault_run sim_prims sim_vault (sim_ops1 @ sim_ops2) Map.empty) = sim_replies"
  by (simp add: sim_ops1_def sim_ops2_def sim_env_def new_record_def rotated_record_def revoked_record_def sim_replies_def)

theorem vault_refines_witness:
  "\<exists>w1 replies1 w2 w3 replies2 w4.
    vault_create sim_prims sim_store ''/vault'' sim_pass (replicate 32 9) (replicate 12 1) (replicate 12 2) (replicate 32 5) None sim_world
      = (Inr sim_vault, w1) \<and>
    vault_run sim_prims sim_store sim_vault sim_ops1 w1 = (replies1, w2) \<and>
    vault_open sim_prims sim_store ''/vault'' sim_pass False (vault_drop sim_vault w2) = (Inr sim_vault, w3) \<and>
    vault_run sim_prims sim_store sim_vault sim_ops2 w3 = (replies2, w4) \<and>
    replies1 @ replies2 = sim_replies"
proof -
  have acc: "vp_argon2_accepts sim_prims kdf_default" by simp
  show ?thesis
    using vault_refines [OF sim_prims_ok sim_prims_total sim_store_reliable sim_setup(1-3) acc sim_setup(4,5) sim_names sim_setup(6) sim_run_room]
      sim_abs_run
    by (elim exE conjE) (intro exI conjI, assumption+, simp)
qed

subsection \<open>The audit log comes first\<close>

lemma commit_audited_first:
  assumes "commit_audited V K v name operation env mutate w = (res, w')"
  shows "vw_kv w' = vw_kv w \<or>
    (\<exists>w1. append_vault_audit V v name operation env w = (Inr (), w1) \<and> vw_disk w' = vw_disk w1 \<and>
       (res = Inr () \<or> (\<exists>e. res = Inl (AuditedMutationFailed name operation (StorageBackend e)))))"
proof -
  obtain r w1 where a: "append_vault_audit V v name operation env w = (r, w1)" by fastforce
  then show ?thesis
    using assms append_vault_audit_frame [OF a]
    by (cases r) (auto simp: commit_audited_def split: sum.splits prod.splits)
qed

lemma store_entry_audited_first:
  assumes "store_entry V K v name operation env version ct r w = (res, w')"
  shows "vw_kv w' = vw_kv w \<or>
    (\<exists>w1. append_vault_audit V v name operation env w = (Inr (), w1) \<and> vw_disk w' = vw_disk w1 \<and>
       (res = Inr () \<or> (\<exists>e. res = Inl (AuditedMutationFailed name operation (StorageBackend e)))))"
  using assms by (auto simp: store_entry_def split: sum.splits option.splits dest: commit_audited_first)

text \<open>
  C14. No mutation without its audit entry. For any store, any library functions and any failure of the log or the store: if an operation changes
  the store, then the audit append for that name and operation succeeded before, its result is what the disk holds, and the caller is told
  either that the operation succeeded or that a recorded mutation failed.
\<close>

theorem mutation_audited_first:
  assumes "vault_step V K v op env w = (reply, w')" and "vw_kv w' \<noteq> vw_kv w"
  shows "\<exists>w1. append_vault_audit V v (op_name op) (op_tag op) env w = (Inr (), w1) \<and> vw_disk w' = vw_disk w1 \<and>
    (reply = ReplyDone (Inr ()) \<or>
     (\<exists>e. reply = ReplyDone (Inl (AuditedMutationFailed (op_name op) (op_tag op) (StorageBackend e)))))"
proof (cases op)
  case (OpAdd n t s)
  with assms(1) obtain r where r: "vault_add V K v n t s env w = (r, w')" "reply = ReplyDone r" by (auto split: prod.splits)
  with assms(2) OpAdd show ?thesis unfolding vault_add_def by (auto split: sum.splits option.splits dest: store_entry_audited_first)
next
  case (OpRemove n)
  with assms(1) obtain r where "vault_remove V K v n env w = (r, w')" "reply = ReplyDone r" by (auto split: prod.splits)
  with assms(2) OpRemove show ?thesis unfolding vault_remove_def by (auto split: sum.splits prod.splits if_splits dest: commit_audited_first)
next
  case (OpRotate n s)
  with assms(1) obtain r where "vault_rotate V K v n s env w = (r, w')" "reply = ReplyDone r" by (auto split: prod.splits)
  with assms(2) OpRotate show ?thesis
    unfolding vault_rotate_def Let_def by (auto split: sum.splits prod.splits if_splits dest: store_entry_audited_first)
next
  case (OpRevoke n)
  with assms(1) obtain r where "vault_revoke V K v n env w = (r, w')" "reply = ReplyDone r" by (auto split: prod.splits)
  with assms(2) OpRevoke show ?thesis
    unfolding vault_revoke_def Let_def by (auto split: sum.splits prod.splits if_splits dest: store_entry_audited_first)
qed (use assms in simp_all)

lemma sim_started:
  "\<exists>w w'. vault_state sim_prims map_of sim_vault {[1], [2]} {ApiKey, Psk} w Map.empty ([], []) \<and> header_opens sim_prims sim_pass sim_vault w \<and>
    vault_step sim_prims sim_store sim_vault (OpAdd [1] ApiKey [42]) (sim_env 1) w = (ReplyDone (Inr ()), w') \<and>
    vault_state sim_prims map_of sim_vault {[1], [2]} {ApiKey, Psk} w'
      [[1] \<mapsto> \<lparr>cr_record = new_record [1] ApiKey 1, cr_secret = [42]\<rparr>]
      (log_step sim_prims (step_reqs sim_prims sim_vault (OpAdd [1] ApiKey [42], sim_env 1) True) ([], []))"
proof -
  have acc: "vp_argon2_accepts sim_prims kdf_default" by simp
  obtain w where w: "vault_state sim_prims map_of sim_vault {[1], [2]} {ApiKey, Psk} w Map.empty ([], [])" "header_opens sim_prims sim_pass sim_vault w"
    using vault_create_state [OF sim_prims_ok sim_prims_total sim_store_reliable sim_setup(1-3) acc sim_setup(4,5) sim_names] by blast
  have env: "env_ok (sim_env 1)" and room: "log_room sim_prims sim_vault (OpAdd [1] ApiKey [42], sim_env 1) ([], [])"
    using sim_setup(6) run_room_Cons(1) [OF sim_run_room [unfolded sim_ops1_def append_Cons]] by (simp_all add: sim_ops1_def)
  have "simulates sim_prims map_of sim_store sim_vault {[1], [2]} {ApiKey, Psk} w Map.empty ([], []) (OpAdd [1] ApiKey [42], sim_env 1)"
    by (rule step_simulates [OF sim_prims_ok sim_prims_total sim_store_reliable w(1) env room]) simp
  then obtain reply w' m' mutated where s: "vault_step sim_prims sim_store sim_vault (OpAdd [1] ApiKey [42]) (sim_env 1) w = (reply, w')"
      "abs_step (OpAdd [1] ApiKey [42]) (ve_now (sim_env 1)) Map.empty = (reply, m', mutated)"
      "vault_state sim_prims map_of sim_vault {[1], [2]} {ApiKey, Psk} w' m'
        (log_step sim_prims (step_reqs sim_prims sim_vault (OpAdd [1] ApiKey [42], sim_env 1) mutated) ([], []))"
    unfolding simulates_def fst_conv snd_conv by (elim exE conjE)
  have eqs: "reply = ReplyDone (Inr ())" "m' = [[1] \<mapsto> \<lparr>cr_record = new_record [1] ApiKey 1, cr_secret = [42]\<rparr>]" "mutated = True"
    using s(2) by (simp_all add: sim_env_def)
  show ?thesis by (intro exI conjI) (rule w s(1) [unfolded eqs] s(3) [unfolded eqs])+
qed

theorem mutation_audited_first_witness:
  "\<exists>w w' w1. vault_step sim_prims sim_store sim_vault (OpAdd [1] ApiKey [42]) (sim_env 1) w = (ReplyDone (Inr ()), w') \<and> vw_kv w' \<noteq> vw_kv w \<and>
     append_vault_audit sim_prims sim_vault [1] ''add'' (sim_env 1) w = (Inr (), w1) \<and> vw_disk w' = vw_disk w1"
proof -
  obtain w w' lg where s: "vault_state sim_prims map_of sim_vault {[1], [2]} {ApiKey, Psk} w Map.empty ([], [])"
      "vault_step sim_prims sim_store sim_vault (OpAdd [1] ApiKey [42]) (sim_env 1) w = (ReplyDone (Inr ()), w')"
      "vault_state sim_prims map_of sim_vault {[1], [2]} {ApiKey, Psk} w' [[1] \<mapsto> \<lparr>cr_record = new_record [1] ApiKey 1, cr_secret = [42]\<rparr>] lg"
    using sim_started by blast
  have "map_of (vw_kv w) (lookup_key sim_prims sim_vault [1]) = None" using s(1) by (simp add: vault_state_def vault_rep_def)
  moreover have "map_of (vw_kv w') (lookup_key sim_prims sim_vault [1]) \<noteq> None" using s(3) by (auto simp: vault_state_def vault_rep_def)
  ultimately have "vw_kv w' \<noteq> vw_kv w" by auto
  with mutation_audited_first [OF s(2) this] s(2) show ?thesis by auto
qed

subsection \<open>Entries are bound to their names\<close>

lemma len_prefix_inj:
  assumes "checked_len_prefix f n = Inr p" "checked_len_prefix g n' = Inr p'"
  shows "length p = 4" "p = p' \<Longrightarrow> n = n'"
proof -
  have p: "p = rev (to_le_bytes 4 n)" "n < 2 ^ 32" and p': "p' = rev (to_le_bytes 4 n')" "n' < 2 ^ 32"
    using assms by (auto simp: checked_len_prefix_def split: if_splits)
  show "length p = 4" using p by simp
  assume "p = p'"
  then have "from_le_bytes (to_le_bytes 4 n) = from_le_bytes (to_le_bytes 4 n')" using p p' by simp
  then show "n = n'" using from_to_le_bytes_id [of n 4] from_to_le_bytes_id [of n' 4] p p' by simp
qed

lemma entry_aad_parts:
  assumes "entry_aad V s n t version = Inr a"
  obtains j p1 p2 p3 where "vp_type_json V t = Some j" "checked_len_prefix ''vault_salt'' (length s) = Inr p1"
    "checked_len_prefix ''name'' (length n) = Inr p2" "checked_len_prefix ''credential_type'' (length j) = Inr p3"
    "a = version # p1 @ s @ p2 @ n @ p3 @ j"
  using assms by (auto simp: entry_aad_def split: option.splits sum.splits)

lemma append_parts: "xs @ ys = xs' @ ys' \<Longrightarrow> length xs = length xs' \<Longrightarrow> xs = xs' \<and> ys = ys'"
  by simp

lemma entry_aad_inj:
  assumes "entry_aad V s n t version = Inr a" "entry_aad V s n' t' version' = Inr a"
  shows "version' = version \<and> n' = n \<and> vp_type_json V t' = vp_type_json V t"
proof -
  obtain j p1 p2 p3 where a: "vp_type_json V t = Some j" "checked_len_prefix ''vault_salt'' (length s) = Inr p1"
      "checked_len_prefix ''name'' (length n) = Inr p2" "checked_len_prefix ''credential_type'' (length j) = Inr p3"
      "a = version # p1 @ s @ p2 @ n @ p3 @ j"
    by (rule entry_aad_parts [OF assms(1)])
  obtain j' p2' p3' where b: "vp_type_json V t' = Some j'"
      "checked_len_prefix ''name'' (length n') = Inr p2'" "checked_len_prefix ''credential_type'' (length j') = Inr p3'"
      "a = version' # p1 @ s @ p2' @ n' @ p3' @ j'"
    by (rule entry_aad_parts [OF assms(2)]) (use a(2) in simp)
  have eq: "version' = version" "p2' @ n' @ p3' @ j' = p2 @ n @ p3 @ j" using a(5) b(4) by auto
  have p2: "p2' = p2 \<and> n' @ p3' @ j' = n @ p3 @ j"
    by (rule append_parts [OF eq(2)]) (simp add: len_prefix_inj(1) [OF a(3) a(3)] len_prefix_inj(1) [OF b(2) b(2)])
  have n: "n' = n \<and> p3' @ j' = p3 @ j"
    by (rule append_parts [OF conjunct2 [OF p2]]) (rule len_prefix_inj(2) [OF b(2) a(3) conjunct1 [OF p2]])
  have "p3' = p3 \<and> j' = j"
    by (rule append_parts [OF conjunct2 [OF n]]) (simp add: len_prefix_inj(1) [OF a(4) a(4)] len_prefix_inj(1) [OF b(3) b(3)])
  with n eq(1) a(1) b(1) show ?thesis by simp
qed

text \<open>
  C18. A secret cannot be moved. When the cipher authenticates its associated data, a ciphertext that \<open>add\<close> or \<open>rotate\<close> sealed for one name and
  type never opens under another name, under another type, or with an edited envelope version, the legacy version included: \<open>get\<close> answers that
  decryption failed.
\<close>

theorem relocated_secret_refused:
  assumes "\<forall>m c a a'. vp_seal V (v_key v) nonce a m = Some c \<longrightarrow> vp_open V (v_key v) nonce a' c \<noteq> None \<longrightarrow> a' = a"
    and "length nonce = NONCE_LEN" and "seal_secret V v name t nonce secret = Inr ct"
    and "load_entry V K v name' w = Inr (e, r)" and "se_encrypted_secret e = ct" and "er_status r = StActive"
    and "bindable V v {name'} {er_credential_type r}"
    and "name' \<noteq> name \<or> vp_type_json V (er_credential_type r) \<noteq> vp_type_json V t \<or> se_envelope_version e \<noteq> ENTRY_ENVELOPE_VERSION"
  shows "vault_get V K v name' w = Inl (EntryCrypto DecryptionFailed)"
proof -
  obtain a c where a: "entry_aad V (v_salt v) name t ENTRY_ENVELOPE_VERSION = Inr a" and c: "vp_seal V (v_key v) nonce a secret = Some c"
      and ct: "ct = nonce @ c"
    using assms(3) by (auto simp: seal_secret_def vault_encrypt_def split: sum.splits option.splits)
  obtain b where "entry_aad V (v_salt v) name' (er_credential_type r) (se_envelope_version e) = Inr b"
    by (rule entry_aad_ok [OF assms(7), of name' "er_credential_type r" "se_envelope_version e"]) simp_all
  then obtain a' where a': "secret_aad V v name' (er_credential_type r) (se_envelope_version e) = Inr a'"
    by (cases "se_envelope_version e = LEGACY_ENVELOPE_VERSION") (simp_all add: secret_aad_def)
  have "a' \<noteq> a"
  proof (cases "se_envelope_version e = LEGACY_ENVELOPE_VERSION")
    case True
    with a' have "a' = []" by (simp add: secret_aad_def)
    moreover obtain x xs where "a = x # xs" by (rule entry_aad_parts [OF a]) blast
    ultimately show ?thesis by simp
  next
    case False
    with a' have "entry_aad V (v_salt v) name' (er_credential_type r) (se_envelope_version e) = Inr a'" by (simp add: secret_aad_def)
    with entry_aad_inj [OF a, of name' "er_credential_type r" "se_envelope_version e"] assms(8) show ?thesis by auto
  qed
  then have "vp_open V (v_key v) nonce a' c = None" using assms(1) c by blast
  then have "vault_decrypt V (v_key v) ct a' = Inl DecryptionFailed" using assms(2) by (simp add: vault_decrypt_def ct)
  with assms(4-6) a' [unfolded secret_aad_def] show ?thesis by (simp add: vault_get_def)
qed

text \<open>A stored entry of the concrete vault, and a world whose store holds it under a name.\<close>

definition sim_meta :: "entry_record \<Rightarrow> bytes" where
  "sim_meta r = replicate 12 2 @ sim_frame (v_key sim_vault) (replicate 12 2) [] @ enc_record r"

definition sim_stored :: "bytes \<Rightarrow> stored_entry \<Rightarrow> sim_kv vault_world" where
  "sim_stored name e = sim_world\<lparr>vw_kv := [(lookup_key sim_prims sim_vault name, enc_entry e)]\<rparr>"

lemma sim_load:
  assumes "se_encrypted_metadata e = sim_meta r" "map_of (vw_kv w) (lookup_key sim_prims sim_vault name) = Some (enc_entry e)"
  shows "load_entry sim_prims sim_store sim_vault name w = Inr (e, r)"
  using assms
  by (simp add: load_entry_def sim_store_def decrypt_metadata_def vault_decrypt_def sim_meta_def NONCE_LEN_def sim_open_frame)

lemma sim_seal_secret:
  assumes "name \<in> {[1], [2]}" "t \<in> {ApiKey, Psk}"
  shows "\<exists>ct. seal_secret sim_prims sim_vault name t (replicate 12 1) secret = Inr ct"
  by (rule seal_secret_ok [OF sim_prims_ok sim_prims_total sim_names(1) assms, of "replicate 12 1" secret]) (auto simp: NONCE_LEN_def)

lemma sim_authentic:
  "\<forall>m c a a'. vp_seal sim_prims key nonce a m = Some c \<longrightarrow> vp_open sim_prims key nonce a' c \<noteq> None \<longrightarrow> a' = a"
  by (auto simp: sim_open_frame split: if_splits)

theorem relocated_secret_refused_witness:
  "\<exists>ct. seal_secret sim_prims sim_vault [1] ApiKey (replicate 12 1) [42] = Inr ct \<and>
     vault_get sim_prims sim_store sim_vault [2]
       (sim_stored [2] \<lparr>se_envelope_version = 1, se_encrypted_secret = ct, se_encrypted_metadata = sim_meta (new_record [2] ApiKey 1)\<rparr>)
     = Inl (EntryCrypto DecryptionFailed)"
proof -
  obtain ct where ct: "seal_secret sim_prims sim_vault [1] ApiKey (replicate 12 1) [42] = Inr ct"
    using sim_seal_secret [of "[1]" ApiKey "[42]"] by auto
  let ?e = "\<lparr>se_envelope_version = 1, se_encrypted_secret = ct, se_encrypted_metadata = sim_meta (new_record [2] ApiKey 1)\<rparr>"
  have load: "load_entry sim_prims sim_store sim_vault [2] (sim_stored [2] ?e) = Inr (?e, new_record [2] ApiKey 1)" by (rule sim_load) (simp_all add: sim_stored_def)
  have bind: "bindable sim_prims sim_vault {[2]} {er_credential_type (new_record [2] ApiKey 1)}"
    using sim_names(1) by (simp add: bindable_def new_record_def)
  have "vault_get sim_prims sim_store sim_vault [2] (sim_stored [2] ?e) = Inl (EntryCrypto DecryptionFailed)"
    by (rule relocated_secret_refused [OF sim_authentic _ ct load _ _ bind]) (simp_all add: NONCE_LEN_def new_record_def)
  with ct show ?thesis by blast
qed

subsection \<open>What a writer of the store can do\<close>

text \<open>
  C34. A known secret can be planted. Somebody who can write the vault directory, and has no key, sets the envelope version of an active entry to the
  legacy value and its ciphertext to the key check of the header: \<open>get\<close> then returns the key-check text, which is public, as the secret of that
  entry. Key check and legacy secrets are sealed under the same key with the same empty associated data.
\<close>

theorem key_check_served_as_secret:
  assumes "vault_prims_ok V" and "unlock_header V passphrase header = Inr (v_key v)"
    and "load_entry V K v name w = Inr (e, r)" and "er_status r = StActive"
    and "vp_entry_enc V (e\<lparr>se_envelope_version := LEGACY_ENVELOPE_VERSION, se_encrypted_secret := sh_key_check header\<rparr>) = Some planted"
    and "kv_get K kv' (lookup_key V v name) = Inr (Some planted)"
  shows "vault_get V K v name (w\<lparr>vw_kv := kv'\<rparr>) =
    Inr \<lparr>de_name = er_name r, de_credential_type = er_credential_type r, de_secret = KEY_CHECK_PLAINTEXT, de_metadata = er_metadata r\<rparr>"
proof -
  have kc: "vault_decrypt V (v_key v) (sh_key_check header) [] = Inr KEY_CHECK_PLAINTEXT"
    using assms(2) by (auto simp: unlock_header_def split: if_splits sum.splits crypto_error.splits)
  have "decrypt_metadata V v e = Inr r" using assms(3) by (auto simp: load_entry_def split: sum.splits option.splits)
  then have "decrypt_metadata V v (e\<lparr>se_envelope_version := LEGACY_ENVELOPE_VERSION, se_encrypted_secret := sh_key_check header\<rparr>) = Inr r"
    by (simp add: decrypt_metadata_def)
  then have "load_entry V K v name (w\<lparr>vw_kv := kv'\<rparr>) =
      Inr (e\<lparr>se_envelope_version := LEGACY_ENVELOPE_VERSION, se_encrypted_secret := sh_key_check header\<rparr>, r)"
    using assms(6) vault_prims_laws(7) [OF assms(1,5)] by (simp add: load_entry_def)
  with kc assms(4) show ?thesis by (simp add: vault_get_def)
qed

definition sim_header :: stored_header where
  "sim_header =
     \<lparr>sh_version = 2, sh_salt = v_salt sim_vault, sh_kdf_params = kdf_default,
      sh_key_check = replicate 12 1 @ sim_frame (v_key sim_vault) (replicate 12 1) [] @ KEY_CHECK_PLAINTEXT,
      sh_installation_public_key = None, sh_sealed_signing_key = None\<rparr>"

lemma sim_header_unlocks: "unlock_header sim_prims sim_pass sim_header = Inr (v_key sim_vault)"
proof -
  have "derive_key sim_prims sim_pass (v_salt sim_vault) kdf_default = Inr (v_key sim_vault)"
    using kdf_default_in_range by (simp add: derive_key_def sim_vault_def SALT_LEN_def)
  then show ?thesis
    by (simp add: unlock_header_def sim_header_def VAULT_VERSION_def MIN_SUPPORTED_VAULT_VERSION_def vault_decrypt_def NONCE_LEN_def sim_open_frame)
qed

theorem key_check_served_as_secret_witness:
  "\<exists>ct kv'. seal_secret sim_prims sim_vault [1] ApiKey (replicate 12 1) [42] = Inr ct \<and>
     vault_get sim_prims sim_store sim_vault [1]
       (sim_stored [1] \<lparr>se_envelope_version = 1, se_encrypted_secret = ct, se_encrypted_metadata = sim_meta (new_record [1] ApiKey 1)\<rparr>\<lparr>vw_kv := kv'\<rparr>)
     = Inr \<lparr>de_name = [1], de_credential_type = ApiKey, de_secret = KEY_CHECK_PLAINTEXT, de_metadata = er_metadata (new_record [1] ApiKey 1)\<rparr>"
proof -
  obtain ct where ct: "seal_secret sim_prims sim_vault [1] ApiKey (replicate 12 1) [42] = Inr ct"
    using sim_seal_secret [of "[1]" ApiKey "[42]"] by auto
  let ?e = "\<lparr>se_envelope_version = 1, se_encrypted_secret = ct, se_encrypted_metadata = sim_meta (new_record [1] ApiKey 1)\<rparr>"
  let ?p = "enc_entry (?e\<lparr>se_envelope_version := LEGACY_ENVELOPE_VERSION, se_encrypted_secret := sh_key_check sim_header\<rparr>)"
  have load: "load_entry sim_prims sim_store sim_vault [1] (sim_stored [1] ?e) = Inr (?e, new_record [1] ApiKey 1)" by (rule sim_load) (simp_all add: sim_stored_def)
  have get: "kv_get sim_store [(lookup_key sim_prims sim_vault [1], ?p)] (lookup_key sim_prims sim_vault [1]) = Inr (Some ?p)"
    by (simp add: sim_store_def)
  have active: "er_status (new_record [1] ApiKey 1) = StActive" by (simp add: new_record_def)
  note planted = key_check_served_as_secret [OF sim_prims_ok sim_header_unlocks load active sim_prims_simps(9) get]
  have fields: "er_name (new_record [1] ApiKey 1) = [1]" "er_credential_type (new_record [1] ApiKey 1) = ApiKey"
    by (simp_all add: new_record_def)
  show ?thesis by (intro exI conjI) (rule ct planted [unfolded fields])+
qed

text \<open>
  C35. Revocation can be undone from outside. The metadata of an entry, its status included, is sealed without being bound to the entry. Somebody
  who can write the store, and has no key, replaces the metadata of a revoked entry by that of any active entry of the same type: before, \<open>get\<close>
  refuses the revoked entry; after, it returns its secret.
\<close>

theorem revocation_undone_by_splice:
  assumes "vault_prims_ok V" and "length nonce = NONCE_LEN"
    and "load_entry V K v name w = Inr (e, r)" and "er_status r = StRevoked"
    and "se_envelope_version e = ENTRY_ENVELOPE_VERSION"
    and "seal_secret V v name (er_credential_type r) nonce secret = Inr (se_encrypted_secret e)"
    and "load_entry V K v other w = Inr (e2, r2)" and "er_status r2 = StActive" and "er_credential_type r2 = er_credential_type r"
    and "vp_entry_enc V (e\<lparr>se_encrypted_metadata := se_encrypted_metadata e2\<rparr>) = Some spliced"
    and "kv_get K kv' (lookup_key V v name) = Inr (Some spliced)"
  shows "vault_get V K v name w = Inl (EntryRevoked name) \<and>
    vault_get V K v name (w\<lparr>vw_kv := kv'\<rparr>) =
      Inr \<lparr>de_name = er_name r2, de_credential_type = er_credential_type r, de_secret = secret, de_metadata = er_metadata r2\<rparr>"
proof -
  have "decrypt_metadata V v e2 = Inr r2" using assms(7) by (auto simp: load_entry_def split: sum.splits option.splits)
  then have "decrypt_metadata V v (e\<lparr>se_encrypted_metadata := se_encrypted_metadata e2\<rparr>) = Inr r2" by (simp add: decrypt_metadata_def)
  then have load: "load_entry V K v name (w\<lparr>vw_kv := kv'\<rparr>) = Inr (e\<lparr>se_encrypted_metadata := se_encrypted_metadata e2\<rparr>, r2)"
    using assms(11) vault_prims_laws(7) [OF assms(1,10)] by (simp add: load_entry_def)
  obtain aad where aad: "entry_aad V (v_salt v) name (er_credential_type r) ENTRY_ENVELOPE_VERSION = Inr aad"
      and enc: "vault_encrypt V nonce (v_key v) secret aad = Inr (se_encrypted_secret e)"
    using assms(6) by (auto simp: seal_secret_def split: sum.splits)
  have ver: "ENTRY_ENVELOPE_VERSION \<noteq> LEGACY_ENVELOPE_VERSION" by (simp add: ENTRY_ENVELOPE_VERSION_def LEGACY_ENVELOPE_VERSION_def)
  show ?thesis
    using load assms(3-5,8,9) aad ver vault_decrypt_encrypt [OF assms(1,2) enc] by (simp add: vault_get_def)
qed

theorem revocation_undone_by_splice_witness:
  "\<exists>w kv'. vault_get sim_prims sim_store sim_vault [1] w = Inl (EntryRevoked [1]) \<and>
     vault_get sim_prims sim_store sim_vault [1] (w\<lparr>vw_kv := kv'\<rparr>) =
       Inr \<lparr>de_name = [2], de_credential_type = ApiKey, de_secret = [42], de_metadata = er_metadata (new_record [2] ApiKey 2)\<rparr>"
proof -
  obtain ct where ct: "seal_secret sim_prims sim_vault [1] ApiKey (replicate 12 1) [42] = Inr ct"
    using sim_seal_secret [of "[1]" ApiKey "[42]"] by auto
  let ?lk = "lookup_key sim_prims sim_vault"
  define r where "r = revoked_record (new_record [1] ApiKey 1) 3"
  define r2 where "r2 = new_record [2] ApiKey 2"
  define e where "e = \<lparr>se_envelope_version = ENTRY_ENVELOPE_VERSION, se_encrypted_secret = ct, se_encrypted_metadata = sim_meta r\<rparr>"
  define e2 where "e2 = \<lparr>se_envelope_version = ENTRY_ENVELOPE_VERSION, se_encrypted_secret = [], se_encrypted_metadata = sim_meta r2\<rparr>"
  define w where "w = sim_world\<lparr>vw_kv := [(?lk [1], enc_entry e), (?lk [2], enc_entry e2)]\<rparr>"
  define spliced where "spliced = enc_entry (e\<lparr>se_encrypted_metadata := se_encrypted_metadata e2\<rparr>)"
  have ne: "?lk [1] \<noteq> ?lk [2]" using sim_names(2) by (auto simp: inj_on_def)
  have load: "load_entry sim_prims sim_store sim_vault [1] w = Inr (e, r)" by (rule sim_load) (simp_all add: e_def w_def)
  have load2: "load_entry sim_prims sim_store sim_vault [2] w = Inr (e2, r2)" by (rule sim_load) (use ne in \<open>simp_all add: e2_def w_def\<close>)
  have f: "er_status r = StRevoked" "er_credential_type r = ApiKey" "er_status r2 = StActive" "er_credential_type r2 = er_credential_type r"
      "er_name r2 = [2]"
    by (simp_all add: r_def r2_def revoked_record_def new_record_def)
  have sealed: "seal_secret sim_prims sim_vault [1] (er_credential_type r) (replicate 12 1) [42] = Inr (se_encrypted_secret e)"
    using ct by (simp add: f(2) e_def)
  have enc: "vp_entry_enc sim_prims (e\<lparr>se_encrypted_metadata := se_encrypted_metadata e2\<rparr>) = Some spliced" by (simp add: spliced_def)
  have get: "kv_get sim_store [(?lk [1], spliced)] (?lk [1]) = Inr (Some spliced)" by (simp add: sim_store_def)
  have "length (replicate 12 1 :: bytes) = NONCE_LEN" "se_envelope_version e = ENTRY_ENVELOPE_VERSION" by (simp_all add: NONCE_LEN_def e_def)
  from revocation_undone_by_splice [OF sim_prims_ok this(1) load f(1) this(2) sealed load2 f(3,4) enc get]
  show ?thesis unfolding f(2,5) unfolding r2_def by blast
qed

subsection \<open>Opening\<close>

text \<open>
  C32. What a successful open has checked. Whatever the header file says, a vault opens only if the header has the supported version, a salt of 32 bytes
  and key-derivation costs within the accepted range, so neither weakened nor exhausting costs are ever used; and the handle holds the
  key derived from the passphrase with them, which decrypts the key check.
\<close>

theorem open_checks_header:
  assumes "vault_open V K path passphrase lock_fails w = (Inr v, w')"
  shows "\<exists>bs header. read_file (vw_disk w) (path, HEADER_FILE) = Some bs \<and> vp_header_dec V bs = Some header \<and>
    sh_version header = 2 \<and> length (sh_salt header) = 32 \<and>
    65536 \<le> kp_memory_cost_kib (sh_kdf_params header) \<and> kp_memory_cost_kib (sh_kdf_params header) \<le> 1048576 \<and>
    3 \<le> kp_time_cost (sh_kdf_params header) \<and> kp_time_cost (sh_kdf_params header) \<le> 16 \<and>
    4 \<le> kp_parallelism (sh_kdf_params header) \<and> kp_parallelism (sh_kdf_params header) \<le> 16 \<and>
    vp_argon2 V (sh_kdf_params header) passphrase (sh_salt header) = Some (v_key v) \<and>
    vault_decrypt V (v_key v) (sh_key_check header) [] = Inr KEY_CHECK_PLAINTEXT \<and>
    v_salt v = sh_salt header \<and> v_path v = path"
proof -
  have present: "read_file (vw_disk w) (path, HEADER_FILE) \<noteq> None" using assms by (auto simp: vault_open_def split: if_splits)
  obtain w1 where lock: "acquire_lock path lock_fails w = (Inr (), w1)"
    using assms present by (auto simp: vault_open_def split: sum.splits prod.splits)
  have same: "read_file (vw_disk w1) (path, HEADER_FILE) = read_file (vw_disk w) (path, HEADER_FILE)"
    using lock by (auto simp: acquire_lock_def Let_def read_file_def put_file_def split: if_splits)
  obtain header where h: "read_header V path w1 = Inr header"
    using assms present lock by (cases "read_header V path w1") (auto simp: vault_open_def)
  obtain key where key: "unlock_header V passphrase header = Inr key"
    using assms present lock h by (cases "unlock_header V passphrase header") (auto simp: vault_open_def)
  have v: "v = \<lparr>v_key = key, v_salt = sh_salt header, v_path = path\<rparr>"
    using assms present lock h key by (auto simp: vault_open_def split: sum.splits prod.splits)
  obtain bs where bs: "read_file (vw_disk w) (path, HEADER_FILE) = Some bs" "vp_header_dec V bs = Some header"
    using h same by (auto simp: read_header_def split: option.splits)
  have ver: "sh_version header = 2"
    using key by (auto simp: unlock_header_def VAULT_VERSION_def MIN_SUPPORTED_VAULT_VERSION_def split: if_splits)
  have d: "derive_key V passphrase (sh_salt header) (sh_kdf_params header) = Inr key" "vault_decrypt V key (sh_key_check header) [] = Inr KEY_CHECK_PLAINTEXT"
    using key by (auto simp: unlock_header_def split: if_splits sum.splits crypto_error.splits)
  have salt: "length (sh_salt header) = 32" and range: "check_kdf_params (sh_kdf_params header) = Inr ()"
      and a2: "vp_argon2 V (sh_kdf_params header) passphrase (sh_salt header) = Some key"
    using d(1) by (auto simp: derive_key_def SALT_LEN_def split: if_splits sum.splits option.splits)
  note limits = MIN_KDF_MEMORY_KIB_def MAX_KDF_MEMORY_KIB_def MIN_KDF_TIME_COST_def MAX_KDF_TIME_COST_def MIN_KDF_PARALLELISM_def MAX_KDF_PARALLELISM_def
  show ?thesis
    using bs ver salt a2 d(2) v range by (auto simp: check_kdf_params_def limits not_less split: if_splits)
qed

definition sim_closed :: "sim_kv vault_world" where
  "sim_closed = sim_world\<lparr>vw_disk := \<lparr>d_files = [((''/vault'', HEADER_FILE), enc_header sim_header)], d_locks = []\<rparr>\<rparr>"

lemma sim_opens: "\<exists>w'. vault_open sim_prims sim_store ''/vault'' sim_pass False sim_closed = (Inr sim_vault, w')"
proof -
  have r: "read_file (vw_disk sim_closed) (''/vault'', HEADER_FILE) = Some (enc_header sim_header)"
    by (simp add: sim_closed_def read_file_def)
  obtain w1 where l: "acquire_lock ''/vault'' False sim_closed = (Inr (), w1)"
      and r1: "read_file (vw_disk w1) (''/vault'', HEADER_FILE) = Some (enc_header sim_header)"
    by (simp add: acquire_lock_def Let_def sim_closed_def put_file_def read_file_def)
  have "read_header sim_prims ''/vault'' w1 = Inr sim_header" by (simp add: read_header_def r1)
  moreover have "sh_salt sim_header = v_salt sim_vault" by (simp add: sim_header_def)
  moreover have "sim_vault = \<lparr>v_key = v_key sim_vault, v_salt = v_salt sim_vault, v_path = ''/vault''\<rparr>" by (simp add: sim_vault_def)
  ultimately show ?thesis
    using r l sim_header_unlocks by (simp add: vault_open_def open_fjall_def sim_store_def)
qed

theorem open_checks_header_witness:
  "\<exists>w' bs header. vault_open sim_prims sim_store ''/vault'' sim_pass False sim_closed = (Inr sim_vault, w') \<and>
     read_file (vw_disk sim_closed) (''/vault'', HEADER_FILE) = Some bs \<and> vp_header_dec sim_prims bs = Some header \<and>
     sh_version header = 2 \<and> 65536 \<le> kp_memory_cost_kib (sh_kdf_params header)"
  using sim_opens open_checks_header [of sim_prims sim_store "''/vault''" sim_pass False sim_closed sim_vault] by blast

text \<open>
  C33. A wrong passphrase is refused and changes nothing that matters. If the key derived from the given passphrase does not open the key check,
  opening fails with the error for a wrong passphrase, the store is not even opened, the header stays, and the lock is free again for the next
  attempt.
\<close>

theorem wrong_passphrase_refused:
  assumes "read_file (vw_disk w) (path, HEADER_FILE) = Some bs" and "vp_header_dec V bs = Some header"
    and "(path, LOCK_FILE) \<notin> set (d_locks (vw_disk w))" and "sh_version header = VAULT_VERSION"
    and "derive_key V passphrase (sh_salt header) (sh_kdf_params header) = Inr key" and "NONCE_LEN \<le> length (sh_key_check header)"
    and "vp_open V key (take NONCE_LEN (sh_key_check header)) [] (drop NONCE_LEN (sh_key_check header)) \<noteq> Some KEY_CHECK_PLAINTEXT"
  shows "\<exists>w'. vault_open V K path passphrase False w = (Inl WrongPassphrase, w') \<and> vw_kv w' = vw_kv w \<and>
    (\<forall>q. q \<noteq> (path, LOCK_FILE) \<longrightarrow> read_file (vw_disk w') q = read_file (vw_disk w) q) \<and> d_locks (vw_disk w') = d_locks (vw_disk w)"
proof -
  let ?l = "(path, LOCK_FILE)"
  define d where "d = put_file (vw_disk w) ?l []"
  define w1 where "w1 = w\<lparr>vw_disk := d\<lparr>d_locks := ?l # d_locks d\<rparr>\<rparr>"
  have d: "d_locks d = d_locks (vw_disk w)" "read_file d = (read_file (vw_disk w))(?l \<mapsto> [])"
    unfolding d_def by (simp, rule read_put_file)
  have lock: "acquire_lock path False w = (Inr (), w1)" using assms(3) d by (simp add: acquire_lock_def Let_def d_def [symmetric] w1_def)
  have r1: "read_file (vw_disk w1) = (read_file (vw_disk w))(?l \<mapsto> [])"
  proof -
    have "read_file (vw_disk w1) = read_file d" by (simp add: w1_def read_file_def fun_eq_iff)
    then show ?thesis by (simp only: d(2))
  qed
  have h: "read_header V path w1 = Inr header" using assms(1,2) r1 by (simp add: read_header_def)
  have u: "unlock_header V passphrase header = Inl WrongPassphrase"
    using assms(4-7) by (auto simp: unlock_header_def VAULT_VERSION_def MIN_SUPPORTED_VAULT_VERSION_def vault_decrypt_def split: option.splits)
  have "vault_open V K path passphrase False w = (Inl WrongPassphrase, unlock path w1)"
    using assms(1) lock h u by (simp add: vault_open_def)
  moreover have "vw_kv (unlock path w1) = vw_kv w" by (simp add: unlock_def w1_def)
  moreover have "read_file (vw_disk (unlock path w1)) q = read_file (vw_disk w) q" if "q \<noteq> ?l" for q
    using that r1 by (simp add: unlock_def release_lock_def read_file_def)
  moreover have "d_locks (vw_disk (unlock path w1)) = d_locks (vw_disk w)"
    using assms(3) d(1) by (simp add: unlock_def w1_def release_lock_def)
  ultimately show ?thesis by blast
qed

theorem wrong_passphrase_refused_witness:
  "\<exists>w'. vault_open sim_prims sim_store ''/vault'' [8] False sim_closed = (Inl WrongPassphrase, w') \<and> vw_kv w' = vw_kv sim_closed \<and>
    d_locks (vw_disk w') = d_locks (vw_disk sim_closed)"
proof -
  have r: "read_file (vw_disk sim_closed) (''/vault'', HEADER_FILE) = Some (enc_header sim_header)" by (simp add: sim_closed_def read_file_def)
  have free: "(''/vault'', LOCK_FILE) \<notin> set (d_locks (vw_disk sim_closed))" by (simp add: sim_closed_def)
  have ver: "sh_version sim_header = VAULT_VERSION" by (simp add: sim_header_def VAULT_VERSION_def)
  have key: "derive_key sim_prims [8] (sh_salt sim_header) (sh_kdf_params sim_header) = Inr (take 32 ([8] @ replicate 32 0))"
    using kdf_default_in_range by (simp add: derive_key_def sim_header_def sim_vault_def SALT_LEN_def)
  have len: "NONCE_LEN \<le> length (sh_key_check sim_header)" by (simp add: sim_header_def NONCE_LEN_def)
  have kc: "vp_open sim_prims (take 32 ([8] @ replicate 32 0)) (take NONCE_LEN (sh_key_check sim_header)) [] (drop NONCE_LEN (sh_key_check sim_header))
      \<noteq> Some KEY_CHECK_PLAINTEXT"
    by (simp add: sim_header_def NONCE_LEN_def sim_open_frame sim_vault_def sim_pass_def)
  show ?thesis
    using wrong_passphrase_refused [OF r sim_prims_simps(12) free ver key len kc, of sim_store] by blast
qed

subsection \<open>Listing\<close>

definition entry_summary :: "vault_prims \<Rightarrow> vault \<Rightarrow> bytes \<Rightarrow> entry_info option" where
  "entry_summary V v raw =
     (case vp_entry_dec V raw of
        None \<Rightarrow> None
      | Some e \<Rightarrow>
          (case decrypt_metadata V v e of
             Inl _ \<Rightarrow> None
           | Inr r \<Rightarrow>
               Some \<lparr>ei_name = er_name r, ei_credential_type = er_credential_type r, ei_status = er_status r, ei_metadata = er_metadata r\<rparr>))"

lemma list_loop_items:
  "list_loop V v (map Inr items) entries unreadable =
     Inr \<lparr>vl_entries = entries @ List.map_filter (\<lambda>item. entry_summary V v (snd item)) items,
          vl_unreadable = unreadable + length (filter (\<lambda>item. entry_summary V v (snd item) = None) items)\<rparr>"
proof (induction items arbitrary: entries unreadable)
  case (Cons item items)
  obtain k raw where item: "item = (k, raw)" by (cases item)
  show ?case
  proof (cases "vp_entry_dec V raw")
    case (Some e)
    then show ?thesis
      by (cases "decrypt_metadata V v e") (simp_all add: item Cons.IH entry_summary_def map_filter_simps)
  qed (simp add: item Cons.IH entry_summary_def map_filter_simps)
qed (simp add: map_filter_simps)

text \<open>
  C37. A listing accounts for every record. When the store can be iterated, the listing has, in the order of the store, the summary of each
  record that parses and decrypts, and counts every other record as unreadable: the two numbers add up to the number of records.
\<close>

theorem listing_accounts_for_every_record:
  assumes "kv_iter K (vw_kv w) = map Inr items"
  shows "\<exists>listing. vault_list V K v w = Inr listing \<and>
    vl_entries listing = List.map_filter (\<lambda>item. entry_summary V v (snd item)) items \<and>
    length (vl_entries listing) + vl_unreadable listing = length items"
proof -
  have "length (List.map_filter f xs) + length (filter (\<lambda>x. f x = None) xs) = length xs" for f :: "bytes \<times> bytes \<Rightarrow> entry_info option" and xs
    by (induction xs) (auto simp: map_filter_simps split: option.splits)
  with assms list_loop_items [of V v items "[]" 0] show ?thesis by (simp add: vault_list_def)
qed

theorem listing_accounts_for_every_record_witness:
  "\<exists>listing. vault_list sim_prims sim_store sim_vault (sim_world\<lparr>vw_kv := [([1], []), ([2], enc_entry
       \<lparr>se_envelope_version = 1, se_encrypted_secret = [], se_encrypted_metadata = sim_meta (new_record [1] ApiKey 1)\<rparr>)]\<rparr>) = Inr listing \<and>
    length (vl_entries listing) + vl_unreadable listing = 2"
  using listing_accounts_for_every_record [of sim_store "sim_world\<lparr>vw_kv := [([1], []), ([2], enc_entry
       \<lparr>se_envelope_version = 1, se_encrypted_secret = [], se_encrypted_metadata = sim_meta (new_record [1] ApiKey 1)\<rparr>)]\<rparr>"
       "[([1], []), ([2], enc_entry
       \<lparr>se_envelope_version = 1, se_encrypted_secret = [], se_encrypted_metadata = sim_meta (new_record [1] ApiKey 1)\<rparr>)]" sim_prims sim_vault]
  by (auto simp: sim_store_def)

end
