(* ===== verification/Signal_Baseline.thy ===== *)
theory Signal_Baseline
  imports Geo_Signal Float_Rounding
begin

section \<open>Running baselines\<close>

text \<open>
  Crate \<open>stoicheion\<close>, \<open>baseline.rs\<close>: Welford's running mean and variance over doubles, the score of a value against them, and the 168 baselines of a
  week. Every operation rounds as the hardware does. The count is a 64-bit word.
\<close>

subsection \<open>Square roots and signs\<close>

text \<open>
  \<open>sqrt\<close> is correctly rounded. A positive double is a multiple of \<open>1 / 2 ^ 1074\<close>, so its product with \<open>4 ^ 600\<close> is an integer of at least 126 bits; the integer part of the
  root of that, with a sticky bit for the rest, rounds as the root itself does.
\<close>

fun isqrt :: "nat \<Rightarrow> nat" where
  "isqrt n = (if n = 0 then 0 else let r = 2 * isqrt (n div 4) in if (r + 1) * (r + 1) \<le> n then r + 1 else r)"

declare isqrt.simps [simp del]

fun f64_sqrt :: "f64 \<Rightarrow> f64" where
  "f64_sqrt F_NaN = F_NaN"
| "f64_sqrt (F_Inf s) = (if s then F_NaN else F_Inf False)"
| "f64_sqrt (Fin x) =
     (if x < 0 then F_NaN
      else if x = 0 then Fin 0
      else let n = nat \<lfloor>x * 4 ^ 600\<rfloor>; r = isqrt n
           in round64 ((2 * of_nat r + (if r * r = n then 0 else 1)) / 2 ^ 601))"

text \<open>\<open>INFINITY.copysign(x)\<close>. The sign of a NaN is unspecified; here it is positive.\<close>

fun copysign_inf :: "f64 \<Rightarrow> f64" where
  "copysign_inf F_NaN = F_Inf False"
| "copysign_inf (F_Inf s) = F_Inf s"
| "copysign_inf (Fin x) = F_Inf (x < 0)"

subsection \<open>One baseline\<close>

record baseline =
  bl_count :: u64
  bl_mean :: f64
  bl_m2 :: f64
  bl_min :: f64
  bl_max :: f64

definition baseline_new :: baseline where
  "baseline_new = \<lparr>bl_count = 0, bl_mean = Fin 0, bl_m2 = Fin 0, bl_min = F_Inf False, bl_max = F_Inf True\<rparr>"

definition baseline_observe :: "baseline \<Rightarrow> f64 \<Rightarrow> baseline" where
  "baseline_observe b v =
     (if \<not> f64_is_finite v then b
      else let count = bl_count b + 1;
               delta = f64_sub round64 v (bl_mean b);
               mean = f64_add round64 (bl_mean b) (f64_div round64 delta (as_f64 count));
               delta2 = f64_sub round64 v mean
           in \<lparr>bl_count = count, bl_mean = mean, bl_m2 = f64_mul_add round64 delta delta2 (bl_m2 b),
               bl_min = (if f64_lt v (bl_min b) then v else bl_min b),
               bl_max = (if f64_lt (bl_max b) v then v else bl_max b)\<rparr>)"

definition baseline_mean :: "baseline \<Rightarrow> f64 option" where
  "baseline_mean b = (if bl_count b = 0 then None else Some (bl_mean b))"

definition baseline_variance :: "baseline \<Rightarrow> f64 option" where
  "baseline_variance b = (if bl_count b < 2 then None else Some (f64_div round64 (bl_m2 b) (as_f64 (bl_count b - 1))))"

definition population_variance :: "baseline \<Rightarrow> f64 option" where
  "population_variance b = (if bl_count b = 0 then None else Some (f64_div round64 (bl_m2 b) (as_f64 (bl_count b))))"

definition baseline_stddev :: "baseline \<Rightarrow> f64 option" where
  "baseline_stddev b = map_option f64_sqrt (baseline_variance b)"

definition baseline_min :: "baseline \<Rightarrow> f64 option" where
  "baseline_min b = (if bl_count b = 0 then None else Some (bl_min b))"

definition baseline_max :: "baseline \<Rightarrow> f64 option" where
  "baseline_max b = (if bl_count b = 0 then None else Some (bl_max b))"

definition z_score :: "baseline \<Rightarrow> f64 \<Rightarrow> f64 option" where
  "z_score b v =
     (case baseline_mean b of
        None \<Rightarrow> None
      | Some mean \<Rightarrow>
          (case baseline_stddev b of
             None \<Rightarrow> None
           | Some stddev \<Rightarrow> if f64_lt (Fin 0) stddev then Some (f64_div round64 (f64_sub round64 v mean) stddev) else None))"

definition baseline_merge :: "baseline \<Rightarrow> baseline \<Rightarrow> baseline" where
  "baseline_merge b other =
     (if bl_count other = 0 then b
      else if bl_count b = 0 then other
      else let combined = bl_count b + bl_count other;
               delta = f64_sub round64 (bl_mean other) (bl_mean b);
               self_weight = as_f64 (bl_count b);
               other_weight = as_f64 (bl_count other);
               combined_weight = as_f64 combined
           in \<lparr>bl_count = combined,
               bl_mean = f64_mul_add round64 delta (f64_div round64 other_weight combined_weight) (bl_mean b),
               bl_m2 = f64_add round64 (bl_m2 b)
                 (f64_mul_add round64 (f64_mul round64 delta delta)
                   (f64_div round64 (f64_mul round64 self_weight other_weight) combined_weight) (bl_m2 other)),
               bl_min = (if f64_lt (bl_min other) (bl_min b) then bl_min other else bl_min b),
               bl_max = (if f64_lt (bl_max b) (bl_max other) then bl_max other else bl_max b)\<rparr>)"

subsection \<open>Scores\<close>

datatype anomaly_score = Normal | Elevated f64 | Anomalous f64 | InsufficientData

fun is_anomalous :: "anomaly_score \<Rightarrow> bool" where
  "is_anomalous (Anomalous _) = True"
| "is_anomalous _ = False"

fun score_z :: "anomaly_score \<Rightarrow> f64 option" where
  "score_z (Elevated z) = Some z"
| "score_z (Anomalous z) = Some z"
| "score_z _ = None"

record scoring_config =
  sc_elevated_threshold :: f64
  sc_anomalous_threshold :: f64
  sc_min_observations :: u64

definition scoring_default :: scoring_config where
  "scoring_default = \<lparr>sc_elevated_threshold = Fin 2, sc_anomalous_threshold = Fin 3, sc_min_observations = 10\<rparr>"

definition baseline_score :: "baseline \<Rightarrow> f64 \<Rightarrow> anomaly_score" where
  "baseline_score b v =
     (if bl_count b < sc_min_observations scoring_default then InsufficientData
      else case z_score b v of
             None \<Rightarrow>
               (let mean = (case baseline_mean b of None \<Rightarrow> v | Some m \<Rightarrow> m)
                in if f64_eq v mean then Normal else Anomalous (copysign_inf (f64_sub round64 v mean)))
           | Some z \<Rightarrow>
               (let abs_z = f64_abs z
                in if f64_le (sc_anomalous_threshold scoring_default) abs_z then Anomalous z
                   else if f64_le (sc_elevated_threshold scoring_default) abs_z then Elevated z
                   else Normal))"

subsection \<open>The baselines of a week\<close>

type_synonym bucketed_baseline = "baseline list list"

definition bucketed_new :: bucketed_baseline where
  "bucketed_new = replicate 7 (replicate 24 baseline_new)"

definition bucket :: "bucketed_baseline \<Rightarrow> u8 \<Rightarrow> u8 \<Rightarrow> baseline option" where
  "bucket bs day hour =
     (if unat day < length bs \<and> unat hour < length (bs ! unat day) then Some (bs ! unat day ! unat hour) else None)"

definition bucketed_observe :: "bucketed_baseline \<Rightarrow> u8 \<Rightarrow> u8 \<Rightarrow> f64 \<Rightarrow> bucketed_baseline" where
  "bucketed_observe bs day hour v =
     (case bucket bs day hour of
        None \<Rightarrow> bs
      | Some b \<Rightarrow> bs[unat day := (bs ! unat day)[unat hour := baseline_observe b v]])"

definition bucketed_score :: "bucketed_baseline \<Rightarrow> u8 \<Rightarrow> u8 \<Rightarrow> f64 \<Rightarrow> anomaly_score" where
  "bucketed_score bs day hour v = (case bucket bs day hour of None \<Rightarrow> InsufficientData | Some b \<Rightarrow> baseline_score b v)"

definition global_baseline :: "bucketed_baseline \<Rightarrow> baseline" where
  "global_baseline bs = foldl baseline_merge baseline_new (concat bs)"

subsection \<open>Facts\<close>

lemma isqrt_bounds: "isqrt n * isqrt n \<le> n \<and> n < (isqrt n + 1) * (isqrt n + 1)"
proof (induction n rule: isqrt.induct)
  case (1 n)
  show ?case
  proof (cases "n = 0")
    case True
    then show ?thesis by (simp add: isqrt.simps)
  next
    case False
    define q where "q = isqrt (n div 4)"
    have q: "q * q \<le> n div 4" "n div 4 < (q + 1) * (q + 1)" using 1 [OF False] by (simp_all add: q_def)
    have lo: "(2 * q) * (2 * q) \<le> n" using q(1) by simp
    have hi: "n < (2 * q + 2) * (2 * q + 2)" using q(2) by (simp add: algebra_simps)
    have "isqrt n = (if (2 * q + 1) * (2 * q + 1) \<le> n then 2 * q + 1 else 2 * q)"
      using False by (subst isqrt.simps) (simp add: q_def Let_def)
    with lo hi show ?thesis by (auto simp: algebra_simps)
  qed
qed

lemma bucket_after_observe:
  "bucket (bucketed_observe bs day hour v) d h =
     (if (d, h) = (day, hour) then map_option (\<lambda>b. baseline_observe b v) (bucket bs d h) else bucket bs d h)"
  by (auto simp: bucketed_observe_def bucket_def nth_list_update word_unat_eq_iff split: option.splits if_splits)

lemma round64_zero [simp]: "round64 0 = Fin 0"
  by (simp add: round64_def round_to_def)

lemma round64_small_int:
  assumes "0 < n" "n < 2 ^ 53"
  shows "round64 (of_int n) = Fin (of_int n)"
proof -
  have r: "round_to 53 (- 1074) (of_int n) = (of_int n :: rat)" using assms by (intro round_to_int) simp_all
  have "(of_int n :: rat) < of_int (2 ^ 53)" using assms(2) by (simp only: of_int_less_iff)
  then have "of_int n < two_pow 53" by (simp add: two_pow_def)
  then have "of_int n < two_pow 1024" using two_pow_le [of 53 1024] by simp
  then show ?thesis using assms(1) by (simp add: round64_def r)
qed

lemma round64_small_nat: "0 < k \<Longrightarrow> k < 2 ^ 53 \<Longrightarrow> round64 (of_nat k) = Fin (of_nat k)"
  using round64_small_int [of "int k"] by simp

lemma as_f64_small: "0 < unat n \<Longrightarrow> unat n < 2 ^ 53 \<Longrightarrow> as_f64 n = Fin (of_nat (unat n))"
  unfolding as_f64_def by (rule round64_small_nat)

lemma unat_count: "n < 2 ^ 53 \<Longrightarrow> unat (word_of_nat n :: u64) = n"
  by (simp add: unsigned_of_nat take_bit_nat_eq_self)

lemma as_f64_count: "0 < n \<Longrightarrow> n < 2 ^ 53 \<Longrightarrow> as_f64 (word_of_nat n) = Fin (of_nat n)"
  unfolding as_f64_def by (subst unat_count, assumption, rule round64_small_nat)

subsection \<open>Constant signals\<close>

lemma baseline_constant:
  assumes "round64 q = Fin q" "0 < n" "n < 2 ^ 53"
  shows "foldl baseline_observe baseline_new (replicate n (Fin q)) =
    \<lparr>bl_count = word_of_nat n, bl_mean = Fin q, bl_m2 = Fin 0, bl_min = Fin q, bl_max = Fin q\<rparr>"
  using assms(2,3)
proof (induction n)
  case (Suc n)
  have one: "as_f64 1 = Fin 1" using as_f64_count [of 1] by simp
  show ?case
  proof (cases "n = 0")
    case True
    then show ?thesis
      by (simp add: baseline_observe_def baseline_new_def Let_def f64_sub_def assms(1) one)
  next
    case False
    have c: "(word_of_nat n + 1 :: u64) = word_of_nat (Suc n)" by simp
    have nz: "as_f64 (word_of_nat n + 1) = Fin (of_nat (Suc n))" unfolding c using Suc.prems
      by (intro as_f64_count) (simp, assumption)
    have "foldl baseline_observe baseline_new (replicate (Suc n) (Fin q)) =
        baseline_observe (foldl baseline_observe baseline_new (replicate n (Fin q))) (Fin q)"
      by (simp add: replicate_append_same [symmetric])
    also have "\<dots> = baseline_observe \<lparr>bl_count = word_of_nat n, bl_mean = Fin q, bl_m2 = Fin 0, bl_min = Fin q, bl_max = Fin q\<rparr> (Fin q)"
      using Suc False by simp
    also have "\<dots> = \<lparr>bl_count = word_of_nat (Suc n), bl_mean = Fin q, bl_m2 = Fin 0, bl_min = Fin q, bl_max = Fin q\<rparr>"
      unfolding c [symmetric] by (simp add: baseline_observe_def Let_def f64_sub_def assms(1) nz)
    finally show ?thesis .
  qed
qed simp

lemma word_less_small: "n < 2 ^ 53 \<Longrightarrow> (word_of_nat n :: u64) < numeral k \<longleftrightarrow> n < unat (numeral k :: u64)"
  using unat_count [of n] by (simp add: word_less_nat_alt)

text \<open>
  A signal that never changed has a sharp baseline. After ten or more observations of one value the mean is that value to the bit and the variance is
  zero: the value itself scores as normal, and every other finite value as anomalous, however close it is.
\<close>

theorem constant_signal_scores:
  assumes "round64 q = Fin q" and "10 \<le> n" and "n < 2 ^ 53"
  shows "let b = foldl baseline_observe baseline_new (replicate n (Fin q)) in
    baseline_mean b = Some (Fin q) \<and> baseline_variance b = Some (Fin 0) \<and> baseline_score b (Fin q) = Normal \<and>
    (\<forall>y. y = q \<or> is_anomalous (baseline_score b (Fin y)))"
proof -
  have b: "foldl baseline_observe baseline_new (replicate n (Fin q)) =
      \<lparr>bl_count = word_of_nat n, bl_mean = Fin q, bl_m2 = Fin 0, bl_min = Fin q, bl_max = Fin q\<rparr>"
    using assms by (intro baseline_constant) simp_all
  have c: "\<not> (word_of_nat n :: u64) < 10" "\<not> (word_of_nat n :: u64) < 2" "(word_of_nat n :: u64) \<noteq> 0"
    using assms(2,3) word_less_small [of n] unat_count [of n] by (auto simp: word_unat_eq_iff)
  have "(word_of_nat n - 1 :: u64) = word_of_nat (n - 1)" using assms(2) by (simp add: of_nat_diff)
  then have d: "as_f64 (word_of_nat n - 1) = Fin (of_nat (n - 1))" using as_f64_count [of "n - 1"] assms(2,3) by (simp del: of_nat_diff)
  have v: "baseline_variance \<lparr>bl_count = word_of_nat n, bl_mean = Fin q, bl_m2 = Fin 0, bl_min = Fin q, bl_max = Fin q\<rparr> = Some (Fin 0)"
    using c(2) assms(2) by (simp add: baseline_variance_def d)
  show ?thesis
    unfolding b Let_def using v c
    by (simp add: baseline_mean_def baseline_score_def z_score_def baseline_stddev_def scoring_default_def f64_eq_def Let_def)
qed

subsection \<open>Extreme observations\<close>

text \<open>A baseline whose mean has overflowed, and whose spread is not positive any more.\<close>

definition poisoned :: "baseline \<Rightarrow> bool" where
  "poisoned b \<longleftrightarrow> \<not> f64_is_finite (bl_mean b) \<and> (bl_m2 b = F_NaN \<or> bl_m2 b = F_Inf True)"

lemma round64_nonneg: "0 \<le> q \<Longrightarrow> \<not> f64_lt (round64 q) (Fin 0)"
proof -
  assume "0 \<le> q"
  then have "0 \<le> round_to 53 (- 1074) q"
    using round_ne_nonneg [of "q / two_pow (ulp_exp 53 (- 1074) q)"] by (simp add: round_to_def Let_def less_imp_le)
  then show ?thesis by (simp add: round64_def Let_def)
qed

lemma inf_over_count: "f64_div round64 (F_Inf s) (as_f64 n) = F_Inf s \<or> f64_div round64 (F_Inf s) (as_f64 n) = F_NaN"
proof -
  have "\<not> f64_lt (as_f64 n) (Fin 0)" unfolding as_f64_def by (rule round64_nonneg) (rule of_nat_0_le_iff)
  then show ?thesis by (cases "as_f64 n") auto
qed

lemma poisoned_observe:
  assumes "poisoned b"
  shows "poisoned (baseline_observe b v)"
proof (cases v)
  case (Fin x)
  show ?thesis
  proof (cases "bl_mean b")
    case F_NaN
    then show ?thesis by (simp add: poisoned_def baseline_observe_def Let_def Fin f64_sub_def)
  next
    case (F_Inf s)
    have "f64_add round64 (F_Inf s) (f64_div round64 (F_Inf (\<not> s)) (as_f64 (bl_count b + 1))) = F_NaN"
      using inf_over_count [of "\<not> s" "bl_count b + 1"] by (elim disjE) simp_all
    then show ?thesis by (simp add: poisoned_def baseline_observe_def Let_def Fin F_Inf f64_sub_def)
  qed (use assms in \<open>simp add: poisoned_def\<close>)
qed (use assms in \<open>simp_all add: baseline_observe_def\<close>)

lemma poisoned_run: "poisoned b \<Longrightarrow> poisoned (foldl baseline_observe b vs)"
  by (induction vs arbitrary: b) (auto intro: poisoned_observe)

lemma poisoned_score:
  assumes "poisoned b" "\<not> bl_count b < 10"
  shows "is_anomalous (baseline_score b (Fin y))"
proof -
  have c: "\<not> bl_count b < 2" "bl_count b \<noteq> 0" using assms(2) by (auto simp: word_less_nat_alt)
  have nn: "\<not> f64_lt (as_f64 (bl_count b - 1)) (Fin 0)" unfolding as_f64_def by (rule round64_nonneg) (rule of_nat_0_le_iff)
  have "\<not> f64_lt (Fin 0) (f64_sqrt (f64_div round64 (bl_m2 b) (as_f64 (bl_count b - 1))))"
    using assms(1) nn by (cases "as_f64 (bl_count b - 1)") (auto simp: poisoned_def)
  then have z: "z_score b (Fin y) = None" using c by (simp add: z_score_def baseline_mean_def baseline_stddev_def baseline_variance_def)
  have "Fin y \<noteq> bl_mean b" using assms(1) by (cases "bl_mean b") (simp_all add: poisoned_def)
  with z assms(2) c(2) show ?thesis
    by (simp add: baseline_score_def scoring_default_def baseline_mean_def f64_eq_def Let_def)
qed

text \<open>
  C39. Two extreme readings disable a baseline for good. If the second observation of a baseline lies so far from the first that their difference overflows
  (both finite, as the guard demands), then whatever is observed afterwards, once ten values have been recorded every finite value scores as
  anomalous.
\<close>

theorem extreme_readings_pin_baseline:
  assumes "round64 x = Fin x" and "f64_sub round64 (Fin y) (Fin x) = F_Inf s"
    and "b = foldl baseline_observe baseline_new (Fin x # Fin y # later)" and "\<not> bl_count b < 10"
  shows "is_anomalous (baseline_score b (Fin v))"
proof -
  have one: "as_f64 1 = Fin 1" and two: "as_f64 2 = Fin 2" using as_f64_count [of 1] as_f64_count [of 2] by simp_all
  have b1: "baseline_observe baseline_new (Fin x) = \<lparr>bl_count = 1, bl_mean = Fin x, bl_m2 = Fin 0, bl_min = Fin x, bl_max = Fin x\<rparr>"
    by (simp add: baseline_observe_def baseline_new_def Let_def f64_sub_def assms(1) one)
  have "poisoned (baseline_observe (baseline_observe baseline_new (Fin x)) (Fin y))"
    using assms(2) unfolding b1 by (cases s) (simp_all add: poisoned_def baseline_observe_def Let_def two f64_sub_def)
  from poisoned_run [OF this, of later] have "poisoned b" by (simp add: assms(3))
  from poisoned_score [OF this assms(4)] show ?thesis .
qed

lemma bl_count_run: "\<forall>v\<in>set vs. f64_is_finite v \<Longrightarrow> bl_count (foldl baseline_observe b vs) = bl_count b + word_of_nat (length vs)"
  by (induction vs arbitrary: b) (auto simp: baseline_observe_def Let_def)

lemma round64_two_pow: "round64 (two_pow 1023) = Fin (two_pow 1023)" "round64 (- two_pow 1023 - two_pow 1023) = F_Inf True"
proof -
  have r: "round_to 53 (- 1074) (two_pow k) = two_pow k" if "- 1074 \<le> k" for k using round_to_dyadic [of 1 53 "- 1074" k] that by simp
  show "round64 (two_pow 1023) = Fin (two_pow 1023)" by (simp add: round64_def r two_pow_less_iff Let_def abs_of_pos)
  have "(two_pow 1024 :: rat) = two_pow 1023 * two_pow 1" using two_pow_add [of 1023 1] by simp
  then have d: "- two_pow 1023 - two_pow 1023 = - two_pow 1024" by (simp add: two_pow_def [of 1])
  have "round_to 53 (- 1074) (- two_pow 1024) = - round_to 53 (- 1074) (two_pow 1024)" by (simp add: round_to_def Let_def sgn_minus)
  then show "round64 (- two_pow 1023 - two_pow 1023) = F_Inf True" unfolding d by (simp add: round64_def r Let_def abs_of_pos)
qed

theorem extreme_readings_pin_baseline_witness:
  "is_anomalous (baseline_score (foldl baseline_observe baseline_new
     (Fin (two_pow 1023) # Fin (- two_pow 1023) # replicate 20 (Fin 0))) (Fin 0))"
proof (rule extreme_readings_pin_baseline [OF round64_two_pow(1) _ refl])
  show "f64_sub round64 (Fin (- two_pow 1023)) (Fin (two_pow 1023)) = F_Inf True"
    using round64_two_pow(2) by (simp add: f64_sub_def)
  show "\<not> bl_count (foldl baseline_observe baseline_new (Fin (two_pow 1023) # Fin (- two_pow 1023) # replicate 20 (Fin 0))) < 10"
    by (subst bl_count_run) (simp_all add: baseline_new_def)
qed

end
