(* ===== verification/Signal_Convergence.thy ===== *)
theory Signal_Convergence
  imports Signal_Baseline Interfaces
begin

section \<open>Spatial convergence\<close>

text \<open>
  Crate \<open>semaino\<close>, \<open>convergence.rs\<close>: a grid of cells, each with one slot per signal domain, and the detection of cells where several domains were seen within
  a window. Timestamps are Unix milliseconds; \<open>i64\<close> arithmetic wraps, as it does in a release build.
\<close>

subsection \<open>Cells\<close>

definition i64_wrap :: "int \<Rightarrow> int" where
  "i64_wrap n = sint (word_of_int n :: 64 word)"

fun f64_floor :: "f64 \<Rightarrow> f64" where
  "f64_floor (Fin x) = Fin (of_int \<lfloor>x\<rfloor>)"
| "f64_floor x = x"

fun f64_clamp :: "f64 \<Rightarrow> f64 \<Rightarrow> f64 \<Rightarrow> f64" where
  "f64_clamp mn mx x = (if f64_lt x mn then mn else if f64_lt mx x then mx else x)"

datatype grid_cell = GridCell int int

definition quantize :: "coordinates \<Rightarrow> u32 \<Rightarrow> grid_cell" where
  "quantize coords resolution =
     (let res = Fin (of_nat (unat resolution))
      in GridCell (f64_trunc_i32 (f64_floor (f64_mul round64 (co_latitude coords) res)))
           (f64_trunc_i32 (f64_floor (f64_mul round64 (co_longitude coords) res))))"

definition cell_center :: "grid_cell \<Rightarrow> u32 \<Rightarrow> coordinates" where
  "cell_center cell resolution =
     (case cell of
        GridCell a b \<Rightarrow>
          let res = Fin (of_nat (unat resolution));
              half = f64_div round64 (Fin (1 / 2)) res;
              lat = f64_add round64 (f64_div round64 (Fin (of_int a)) res) half;
              lon = f64_add round64 (f64_div round64 (Fin (of_int b)) res) half
          in case coordinates_new (f64_clamp (Fin (- 90)) (Fin 90) lat) (f64_clamp (Fin (- 180)) (Fin 180) lon) None of
               Inr c \<Rightarrow> c
             | Inl _ \<Rightarrow> \<lparr>co_latitude = Fin 0, co_longitude = Fin 0, co_altitude = None, co_datum = Wgs84\<rparr>)"

subsection \<open>Slots\<close>

fun kind_discriminant :: "signal_kind \<Rightarrow> u8" where
  "kind_discriminant (Rf _) = 0"
| "kind_discriminant (Mesh _) = 1"
| "kind_discriminant (Network _) = 2"
| "kind_discriminant (Proximity _) = 3"
| "kind_discriminant (Gps _) = 4"
| "kind_discriminant (Environmental _) = 5"
| "kind_discriminant (Osint _) = 6"

definition DOMAIN_SLOTS :: usize where "DOMAIN_SLOTS = 8"

definition slot_index :: "u8 \<Rightarrow> usize" where
  "slot_index d = (if d = 255 then DOMAIN_SLOTS - 1 else unat d)"

record domain_hit =
  dh_kind :: signal_kind
  dh_timestamp :: int

type_synonym domain_slots = "domain_hit option list"

definition slots_default :: domain_slots where
  "slots_default = replicate DOMAIN_SLOTS None"

definition slots_record :: "domain_hit \<Rightarrow> domain_slots \<Rightarrow> domain_slots" where
  "slots_record hit slots =
     (let idx = slot_index (kind_discriminant (dh_kind hit)) in if idx < length slots then slots[idx := Some hit] else slots)"

definition within_window :: "domain_slots \<Rightarrow> int \<Rightarrow> domain_hit list" where
  "within_window slots cutoff = filter (\<lambda>h. cutoff \<le> dh_timestamp h) (List.map_filter id slots)"

definition distinct_domains :: "domain_slots \<Rightarrow> int \<Rightarrow> usize" where
  "distinct_domains slots cutoff = length (within_window slots cutoff)"

definition slots_evict :: "int \<Rightarrow> domain_slots \<Rightarrow> domain_slots" where
  "slots_evict cutoff slots =
     map (\<lambda>slot. case slot of None \<Rightarrow> None | Some h \<Rightarrow> if dh_timestamp h < cutoff then None else Some h) slots"

definition slots_remaining :: "domain_slots \<Rightarrow> bool" where
  "slots_remaining slots \<longleftrightarrow> (\<exists>slot\<in>set slots. slot \<noteq> None)"

subsection \<open>The grid\<close>

record convergence =
  cv_center :: coordinates
  cv_domain_count :: usize

record convergence_grid =
  cg_cells :: "(grid_cell, domain_slots) hash_map"
  cg_resolution :: u32

definition grid_new :: "u32 \<Rightarrow> convergence_grid" where
  "grid_new resolution = \<lparr>cg_cells = [], cg_resolution = resolution\<rparr>"

definition grid_ingest :: "geo_signal \<Rightarrow> convergence_grid \<Rightarrow> convergence_grid" where
  "grid_ingest sig g =
     (case gs_location sig of
        None \<Rightarrow> g
      | Some coords \<Rightarrow>
          let cell = quantize coords (cg_resolution g);
              slots = (case hm_get (cg_cells g) cell of None \<Rightarrow> slots_default | Some s \<Rightarrow> s)
          in g\<lparr>cg_cells := hm_insert cell (slots_record \<lparr>dh_kind = gs_kind sig, dh_timestamp = gs_timestamp sig\<rparr> slots) (cg_cells g)\<rparr>)"

definition converged_cell :: "convergence_grid \<Rightarrow> grid_cell \<Rightarrow> usize \<Rightarrow> int \<Rightarrow> convergence option" where
  "converged_cell g cell min_domains cutoff =
     (case hm_get (cg_cells g) cell of
        None \<Rightarrow> None
      | Some slots \<Rightarrow>
          let n = distinct_domains slots cutoff
          in if min_domains \<le> n then Some \<lparr>cv_center = cell_center cell (cg_resolution g), cv_domain_count = n\<rparr> else None)"

text \<open>A window is a duration in nanoseconds.\<close>

definition window_cutoff :: "nat \<Rightarrow> int \<Rightarrow> int" where
  "window_cutoff window now = i64_wrap (now - i64_wrap (int (window div 1000000)))"

definition grid_detect :: "convergence_grid \<Rightarrow> usize \<Rightarrow> nat \<Rightarrow> int \<Rightarrow> convergence list" where
  "grid_detect g min_domains window now =
     List.map_filter (\<lambda>cell. converged_cell g cell min_domains (window_cutoff window now)) (map fst (cg_cells g))"

definition detect_at :: "convergence_grid \<Rightarrow> coordinates \<Rightarrow> usize \<Rightarrow> nat \<Rightarrow> int \<Rightarrow> convergence option" where
  "detect_at g coords min_domains window now =
     converged_cell g (quantize coords (cg_resolution g)) min_domains (window_cutoff window now)"

definition grid_evict :: "int \<Rightarrow> convergence_grid \<Rightarrow> convergence_grid" where
  "grid_evict cutoff g =
     g\<lparr>cg_cells := filter (\<lambda>(cell, slots). slots_remaining slots) (hm_map_values (slots_evict cutoff) (cg_cells g))\<rparr>"

subsection \<open>Runs and their history\<close>

datatype grid_op = Ingest geo_signal | Evict int

fun grid_step :: "grid_op \<Rightarrow> convergence_grid \<Rightarrow> convergence_grid" where
  "grid_step (Ingest sig) g = grid_ingest sig g"
| "grid_step (Evict cutoff) g = grid_evict cutoff g"

text \<open>What was observed in a cell and a domain, in the order of ingestion.\<close>

fun observed :: "u32 \<Rightarrow> grid_cell \<Rightarrow> u8 \<Rightarrow> grid_op list \<Rightarrow> int list" where
  "observed res cell d [] = []"
| "observed res cell d (Evict _ # ops) = observed res cell d ops"
| "observed res cell d (Ingest sig # ops) =
     (case gs_location sig of
        None \<Rightarrow> observed res cell d ops
      | Some coords \<Rightarrow>
          (if quantize coords res = cell \<and> kind_discriminant (gs_kind sig) = d then gs_timestamp sig # observed res cell d ops
           else observed res cell d ops))"

text \<open>The domains seen in a cell since a time, counted over everything that was ever ingested.\<close>

definition domains_since :: "u32 \<Rightarrow> grid_cell \<Rightarrow> int \<Rightarrow> grid_op list \<Rightarrow> nat" where
  "domains_since res cell cutoff ops = card {d. \<exists>t\<in>set (observed res cell d ops). cutoff \<le> t}"

fun evictions :: "grid_op list \<Rightarrow> int list" where
  "evictions [] = []"
| "evictions (Evict c # ops) = c # evictions ops"
| "evictions (Ingest _ # ops) = evictions ops"

subsection \<open>Facts\<close>

lemma slot_index_bound: "slot_index (kind_discriminant k) < 7"
  by (cases k) (simp_all add: slot_index_def DOMAIN_SLOTS_def)

lemma slot_index_kind: "slot_index (kind_discriminant k) = unat (kind_discriminant k)"
  by (cases k) (simp_all add: slot_index_def)

lemma cg_resolution_step [simp]: "cg_resolution (grid_step op g) = cg_resolution g"
  by (cases op) (simp_all add: grid_ingest_def grid_evict_def Let_def split: option.splits)

lemma cg_resolution_run [simp]: "cg_resolution (fold grid_step ops g) = cg_resolution g"
  by (induction ops arbitrary: g) simp_all

subsection \<open>Slots against the history\<close>

definition slot_of :: "convergence_grid \<Rightarrow> grid_cell \<Rightarrow> nat \<Rightarrow> domain_hit option" where
  "slot_of g cell i = (case hm_get (cg_cells g) cell of None \<Rightarrow> None | Some slots \<Rightarrow> slots ! i)"

definition grid_inv :: "convergence_grid \<Rightarrow> bool" where
  "grid_inv g \<longleftrightarrow> hm_wf (cg_cells g) \<and> (\<forall>cell slots. hm_get (cg_cells g) cell = Some slots \<longrightarrow> length slots = DOMAIN_SLOTS)"

lemma cg_resolution_new [simp]: "cg_resolution (grid_new res) = res"
  by (simp add: grid_new_def)

lemma grid_inv_new [simp]: "grid_inv (grid_new res)"
  by (simp add: grid_inv_def grid_new_def)

lemma length_slots [simp]: "length slots_default = DOMAIN_SLOTS" "length (slots_record hit slots) = length slots"
  "length (slots_evict cutoff slots) = length slots"
  by (simp_all add: slots_default_def slots_record_def slots_evict_def Let_def)

lemma get_evict:
  assumes "hm_wf (cg_cells g)"
  shows "hm_get (cg_cells (grid_evict cutoff g)) cell =
    (case hm_get (cg_cells g) cell of
       None \<Rightarrow> None
     | Some slots \<Rightarrow> if slots_remaining (slots_evict cutoff slots) then Some (slots_evict cutoff slots) else None)"
proof -
  have "grid_evict cutoff g = g\<lparr>cg_cells := hm_retain (\<lambda>_ slots. slots_remaining slots) (hm_map_values (slots_evict cutoff) (cg_cells g))\<rparr>"
    by (simp add: grid_evict_def hm_retain_def)
  then show ?thesis using assms by (simp add: hm_get_retain split: option.splits)
qed

lemma grid_inv_step:
  assumes "grid_inv g"
  shows "grid_inv (grid_step op g)"
proof (cases op)
  case (Ingest sig)
  then show ?thesis
    using assms by (auto simp: grid_inv_def grid_ingest_def Let_def split: option.splits if_splits)
next
  case (Evict cutoff)
  have "hm_wf (cg_cells (grid_evict cutoff g))"
    using assms hm_wf_retain [of "hm_map_values (slots_evict cutoff) (cg_cells g)" "\<lambda>_ slots. slots_remaining slots"]
    by (simp add: grid_inv_def grid_evict_def hm_retain_def)
  moreover have "length slots = DOMAIN_SLOTS" if "hm_get (cg_cells (grid_evict cutoff g)) cell = Some slots" for cell slots
    using that assms by (auto simp: get_evict grid_inv_def split: option.splits if_splits)
  ultimately show ?thesis by (simp add: Evict grid_inv_def)
qed

interpretation grid: guarded_component grid_inv grid_step
  by unfold_locales (rule grid_inv_step)

lemma slot_of_new [simp]: "slot_of (grid_new res) cell i = None"
  by (simp add: slot_of_def grid_new_def)

text \<open>The effect of a step on one slot.\<close>

lemma slot_of_ingest:
  assumes "grid_inv g" "i < DOMAIN_SLOTS"
  shows "slot_of (grid_ingest sig g) cell i =
    (case gs_location sig of
       None \<Rightarrow> slot_of g cell i
     | Some coords \<Rightarrow>
         if quantize coords (cg_resolution g) = cell \<and> unat (kind_discriminant (gs_kind sig)) = i
         then Some \<lparr>dh_kind = gs_kind sig, dh_timestamp = gs_timestamp sig\<rparr> else slot_of g cell i)"
proof (cases "gs_location sig")
  case (Some coords)
  have idx: "slot_index (kind_discriminant (gs_kind sig)) < DOMAIN_SLOTS"
    using slot_index_bound [of "gs_kind sig"] by (simp add: DOMAIN_SLOTS_def)
  have "length slots = DOMAIN_SLOTS" if "hm_get (cg_cells g) (quantize coords (cg_resolution g)) = Some slots" for slots
    using assms(1) that by (simp add: grid_inv_def)
  then show ?thesis
    using idx assms(2) Some slot_index_kind [of "gs_kind sig"]
    by (auto simp: slot_of_def grid_ingest_def Let_def slots_record_def slots_default_def nth_list_update split: option.splits)
qed (simp add: grid_ingest_def)

lemma slot_of_evict:
  assumes "grid_inv g" "i < DOMAIN_SLOTS"
  shows "slot_of (grid_evict cutoff g) cell i =
    (case slot_of g cell i of None \<Rightarrow> None | Some h \<Rightarrow> if dh_timestamp h < cutoff then None else Some h)"
proof (cases "hm_get (cg_cells g) cell")
  case None
  then show ?thesis using assms(1) by (simp add: slot_of_def get_evict grid_inv_def)
next
  case (Some slots)
  then have len: "length slots = DOMAIN_SLOTS" using assms(1) by (simp add: grid_inv_def)
  have nth: "slots_evict cutoff slots ! i = (case slots ! i of None \<Rightarrow> None | Some h \<Rightarrow> if dh_timestamp h < cutoff then None else Some h)"
    using len assms(2) by (simp add: slots_evict_def)
  have "slots_evict cutoff slots ! i = None" if "\<not> slots_remaining (slots_evict cutoff slots)"
    using that len assms(2) nth_mem [of i "slots_evict cutoff slots"] by (auto simp: slots_remaining_def)
  then show ?thesis using Some nth assms(1) by (auto simp: slot_of_def get_evict grid_inv_def)
qed

lemma observed_snoc:
  "observed res cell d (ops @ [op]) = observed res cell d ops @ observed res cell d [op]"
  by (induction res cell d ops rule: observed.induct) (auto split: option.splits)

lemma evictions_snoc: "evictions (ops @ [op]) = evictions ops @ evictions [op]"
  by (induction ops rule: evictions.induct) simp_all

text \<open>A slot holds the last observation of its domain, or that observation is older than an eviction.\<close>

lemma slot_is_last:
  assumes "unat d < DOMAIN_SLOTS"
  shows "case slot_of (fold grid_step ops (grid_new res)) cell (unat d) of
      Some h \<Rightarrow> observed res cell d ops \<noteq> [] \<and> dh_timestamp h = last (observed res cell d ops)
    | None \<Rightarrow> observed res cell d ops = [] \<or> (\<exists>c\<in>set (evictions ops). last (observed res cell d ops) < c)"
proof (induction ops rule: rev_induct)
  case Nil
  then show ?case by simp
next
  case (snoc op ops)
  let ?g = "fold grid_step ops (grid_new res)"
  have inv: "grid_inv ?g" by (rule grid.run_inv) simp
  show ?case
  proof (cases op)
    case (Ingest sig)
    show ?thesis
      using snoc.IH
      by (auto simp: Ingest observed_snoc evictions_snoc slot_of_ingest [OF inv assms] word_unat_eq_iff [symmetric]
          split: option.splits if_splits)
  next
    case (Evict c)
    show ?thesis
      using snoc.IH by (auto simp: Evict observed_snoc evictions_snoc slot_of_evict [OF inv assms] split: option.splits if_splits)
  qed
qed

subsection \<open>Counting\<close>

lemma distinct_domains_card:
  "distinct_domains slots cutoff = card {i. i < length slots \<and> (\<exists>h. slots ! i = Some h \<and> cutoff \<le> dh_timestamp h)}"
proof -
  have "length (filter P (List.map_filter id xs)) = length (filter (\<lambda>slot. \<exists>h. slot = Some h \<and> P h) xs)"
    for P and xs :: "domain_hit option list"
    by (induction xs) (auto simp: map_filter_simps split: option.splits)
  then show ?thesis by (simp add: distinct_domains_def within_window_def length_filter_conv_card)
qed

text \<open>The domains that are live in a cell.\<close>

definition live_domains :: "convergence_grid \<Rightarrow> grid_cell \<Rightarrow> int \<Rightarrow> u8 set" where
  "live_domains g cell cutoff = {d. unat d < DOMAIN_SLOTS \<and> (\<exists>h. slot_of g cell (unat d) = Some h \<and> cutoff \<le> dh_timestamp h)}"

lemma finite_live [simp]: "finite (live_domains g cell cutoff)"
  by (rule finite_subset [OF subset_UNIV]) simp

lemma converged_cell_live:
  assumes "grid_inv g" "1 \<le> min_domains"
  shows "converged_cell g cell min_domains cutoff =
    (if min_domains \<le> card (live_domains g cell cutoff)
     then Some \<lparr>cv_center = cell_center cell (cg_resolution g), cv_domain_count = card (live_domains g cell cutoff)\<rparr> else None)"
proof (cases "hm_get (cg_cells g) cell")
  case None
  then show ?thesis using assms(2) by (simp add: converged_cell_def live_domains_def slot_of_def)
next
  case (Some slots)
  then have len: "length slots = DOMAIN_SLOTS" using assms(1) by (simp add: grid_inv_def)
  have "{i. i < length slots \<and> (\<exists>h. slots ! i = Some h \<and> cutoff \<le> dh_timestamp h)} = unat ` live_domains g cell cutoff"
  proof (rule set_eqI)
    fix i
    have "unat (word_of_nat i :: u8) = i" if "i < DOMAIN_SLOTS"
      using that by (simp add: DOMAIN_SLOTS_def unsigned_of_nat take_bit_nat_eq_self)
    then show "i \<in> {i. i < length slots \<and> (\<exists>h. slots ! i = Some h \<and> cutoff \<le> dh_timestamp h)} \<longleftrightarrow> i \<in> unat ` live_domains g cell cutoff"
      using Some len by (auto simp: live_domains_def slot_of_def image_iff intro!: exI [of _ "word_of_nat i"])
  qed
  then have "distinct_domains slots cutoff = card (live_domains g cell cutoff)"
    by (simp add: distinct_domains_card card_image inj_on_def word_unat_eq_iff)
  then show ?thesis by (simp add: converged_cell_def Some Let_def)
qed

lemma observed_known: "observed res cell d ops \<noteq> [] \<Longrightarrow> unat d < DOMAIN_SLOTS"
proof (induction res cell d ops rule: observed.induct)
  case (3 res cell d sig ops)
  then show ?case
    using slot_index_bound [of "gs_kind sig"] slot_index_kind [of "gs_kind sig"]
    by (auto simp: DOMAIN_SLOTS_def split: option.splits if_splits)
qed simp_all

lemma live_domains_last:
  assumes "\<forall>c\<in>set (evictions ops). c \<le> cutoff"
  shows "live_domains (fold grid_step ops (grid_new res)) cell cutoff =
    {d. observed res cell d ops \<noteq> [] \<and> cutoff \<le> last (observed res cell d ops)}"
proof (rule set_eqI)
  fix d
  show "d \<in> live_domains (fold grid_step ops (grid_new res)) cell cutoff \<longleftrightarrow>
      d \<in> {d. observed res cell d ops \<noteq> [] \<and> cutoff \<le> last (observed res cell d ops)}"
  proof (cases "unat d < DOMAIN_SLOTS")
    case True
    then show ?thesis
      using slot_is_last [OF True, where ops = ops and res = res and cell = cell] assms by (fastforce simp: live_domains_def split: option.splits)
  next
    case False
    then show ?thesis using observed_known [of res cell d ops] by (auto simp: live_domains_def)
  qed
qed

lemma sorted_le_last: "sorted xs \<Longrightarrow> t \<in> set xs \<Longrightarrow> t \<le> last (xs :: int list)"
  by (induction xs) auto

text \<open>
  C20. The bounded slots detect what the whole history would. As long as the signals of a domain reach a cell in the order of their timestamps and nothing
  newer than the detection window is evicted, looking at one slot per domain gives the same answer, count included, as counting the distinct domains
  over every signal that was ever ingested.
\<close>

theorem slots_detect_like_history:
  assumes "\<forall>d. sorted (observed res (quantize coords res) d ops)"
    and "\<forall>c\<in>set (evictions ops). c \<le> window_cutoff window now" and "1 \<le> min_domains"
  shows "detect_at (fold grid_step ops (grid_new res)) coords min_domains window now =
    (let n = domains_since res (quantize coords res) (window_cutoff window now) ops
     in if min_domains \<le> n then Some \<lparr>cv_center = cell_center (quantize coords res) res, cv_domain_count = n\<rparr> else None)"
proof -
  let ?g = "fold grid_step ops (grid_new res)" and ?cell = "quantize coords res" and ?cut = "window_cutoff window now"
  have inv: "grid_inv ?g" by (rule grid.run_inv) simp
  have "(observed res ?cell d ops \<noteq> [] \<and> ?cut \<le> last (observed res ?cell d ops)) \<longleftrightarrow> (\<exists>t\<in>set (observed res ?cell d ops). ?cut \<le> t)" for d
  proof -
    have "t \<le> last (observed res ?cell d ops)" if "t \<in> set (observed res ?cell d ops)" for t
      by (rule sorted_le_last) (use assms(1) that in simp_all)
    then show ?thesis by (metis last_in_set empty_iff empty_set order.trans)
  qed
  then have "live_domains ?g ?cell ?cut = {d. \<exists>t\<in>set (observed res ?cell d ops). ?cut \<le> t}"
    by (simp add: live_domains_last [OF assms(2)])
  then show ?thesis
    by (simp add: detect_at_def converged_cell_live [OF inv assms(3)] domains_since_def Let_def)
qed

definition origin :: coordinates where
  "origin = \<lparr>co_latitude = Fin 0, co_longitude = Fin 0, co_altitude = None, co_datum = Wgs84\<rparr>"

definition mesh_at :: "int \<Rightarrow> geo_signal" where
  "mesh_at t = geo_signal_new 1 (Mesh (MeshMessage 1 None 0)) t (Some origin)"

definition osint_at :: "int \<Rightarrow> geo_signal" where
  "osint_at t = geo_signal_new 2 (Osint (FeedItem [] [])) t (Some origin)"

lemma origin_cell: "quantize origin 10000 = GridCell 0 0"
  by (simp add: quantize_def origin_def Let_def)

lemma window_cutoff_100: "window_cutoff 50000000 150 = 100"
  by (simp add: window_cutoff_def i64_wrap_def)

lemma observed_sim:
  "observed 10000 (GridCell 0 0) d [Ingest (mesh_at 100), Ingest (osint_at 120), Evict 50, Ingest (mesh_at 130)] =
     (if d = 1 then [100, 130] else if d = 6 then [120] else [])"
  by (auto simp: mesh_at_def osint_at_def geo_signal_new_def origin_cell)

theorem slots_detect_like_history_witness:
  "detect_at (fold grid_step [Ingest (mesh_at 100), Ingest (osint_at 120), Evict 50, Ingest (mesh_at 130)] (grid_new 10000)) origin 2 50000000 150 =
     Some \<lparr>cv_center = cell_center (GridCell 0 0) 10000, cv_domain_count = 2\<rparr>"
proof -
  let ?ops = "[Ingest (mesh_at 100), Ingest (osint_at 120), Evict 50, Ingest (mesh_at 130)]"
  have "{d. \<exists>t\<in>set (if d = 1 then [100, 130] else if d = 6 then [120] else []). (100 :: int) \<le> t} = {1, 6 :: u8}" by auto
  then have "domains_since 10000 (GridCell 0 0) 100 ?ops = 2" unfolding domains_since_def observed_sim by simp
  moreover have "\<forall>d. sorted (observed 10000 (quantize origin 10000) d ?ops)" unfolding origin_cell observed_sim by simp
  moreover have "\<forall>c\<in>set (evictions ?ops). c \<le> window_cutoff 50000000 150" by (simp add: window_cutoff_100)
  ultimately show ?thesis
    using slots_detect_like_history [of 10000 origin ?ops 50000000 150 2] by (simp add: origin_cell window_cutoff_100 Let_def)
qed

text \<open>
  C38. A late signal hides a domain. A slot keeps the signal that came last, not the newest one: when a cell has just enough live domains, one more
  signal of one of these domains with a timestamp before the window, an old frame replayed or a delayed signal handled again, makes the detection at that
  place fail, although every domain was seen within the window.
\<close>

theorem late_signal_hides_convergence:
  assumes "gs_location sig = Some coords" and "gs_timestamp sig < window_cutoff window now" and "1 \<le> min_domains"
    and "\<forall>c\<in>set (evictions ops). c \<le> window_cutoff window now"
    and "observed res (quantize coords res) (kind_discriminant (gs_kind sig)) ops \<noteq> []"
    and "window_cutoff window now \<le> last (observed res (quantize coords res) (kind_discriminant (gs_kind sig)) ops)"
    and "detect_at (fold grid_step ops (grid_new res)) coords min_domains window now = Some cv" and "cv_domain_count cv = min_domains"
  shows "detect_at (grid_ingest sig (fold grid_step ops (grid_new res))) coords min_domains window now = None"
proof -
  let ?g = "fold grid_step ops (grid_new res)" and ?cell = "quantize coords res" and ?cut = "window_cutoff window now"
    and ?d = "kind_discriminant (gs_kind sig)"
  have inv: "grid_inv ?g" by (rule grid.run_inv) simp
  have inv': "grid_inv (grid_ingest sig ?g)" using grid_inv_step [OF inv, of "Ingest sig"] by simp
  have res: "cg_resolution (grid_ingest sig ?g) = res" using cg_resolution_step [of "Ingest sig" ?g] by simp
  have live: "?d \<in> live_domains ?g ?cell ?cut" using assms(5,6) by (simp add: live_domains_last [OF assms(4)])
  have n: "card (live_domains ?g ?cell ?cut) = min_domains"
    using assms(7,8) by (auto simp: detect_at_def converged_cell_live [OF inv assms(3)] split: if_splits)
  have "live_domains (grid_ingest sig ?g) ?cell ?cut \<subseteq> live_domains ?g ?cell ?cut - {?d}"
    using assms(1,2) by (auto simp: live_domains_def slot_of_ingest [OF inv] word_unat_eq_iff split: if_splits)
  then have "card (live_domains (grid_ingest sig ?g) ?cell ?cut) \<le> card (live_domains ?g ?cell ?cut - {?d})" by (intro card_mono) simp_all
  also have "\<dots> < min_domains" using live n by (simp add: card_Diff_singleton assms(3)) (use assms(3) in simp)
  finally show ?thesis by (simp add: detect_at_def converged_cell_live [OF inv' assms(3)] res)
qed

theorem late_signal_hides_convergence_witness:
  "detect_at (grid_ingest (mesh_at 20)
     (fold grid_step [Ingest (mesh_at 100), Ingest (osint_at 120), Evict 50, Ingest (mesh_at 130)] (grid_new 10000))) origin 2 50000000 150 = None"
proof -
  let ?ops = "[Ingest (mesh_at 100), Ingest (osint_at 120), Evict 50, Ingest (mesh_at 130)]"
  have "{d. observed 10000 (GridCell 0 0) d ?ops \<noteq> [] \<and> 100 \<le> last (observed 10000 (GridCell 0 0) d ?ops)} = {1, 6}"
    unfolding observed_sim by auto
  then have live: "live_domains (fold grid_step ?ops (grid_new 10000)) (GridCell 0 0) 100 = {1, 6}"
    by (subst live_domains_last) simp_all
  have inv: "grid_inv (fold grid_step ?ops (grid_new 10000))" by (rule grid.run_inv) simp
  have det: "detect_at (fold grid_step ?ops (grid_new 10000)) origin 2 50000000 150 =
      Some \<lparr>cv_center = cell_center (GridCell 0 0) 10000, cv_domain_count = 2\<rparr>"
    using converged_cell_live [OF inv, of 2 "GridCell 0 0" 100] live unfolding detect_at_def window_cutoff_100 cg_resolution_run cg_resolution_new origin_cell by simp
  have d: "kind_discriminant (gs_kind (mesh_at 20)) = 1" "gs_location (mesh_at 20) = Some origin" "gs_timestamp (mesh_at 20) = 20"
    by (simp_all add: mesh_at_def geo_signal_new_def)
  show ?thesis
    by (rule late_signal_hides_convergence [OF d(2) _ _ _ _ _ det])
      (simp_all add: d window_cutoff_100 origin_cell observed_sim del: observed.simps)
qed

end
