(* ===== verification/Signal_Alerts.thy ===== *)
theory Signal_Alerts
  imports Signal_Convergence
begin

section \<open>Aggregation and alerts\<close>

text \<open>
  Crate \<open>semaino\<close>, \<open>aggregator.rs\<close> and \<open>alert.rs\<close>: scoring a signal against the baseline of its kind, the severity of an alert, and the suppression of
  repeated alerts. The calendar (jiff) is a parameter that maps Unix milliseconds to a weekday and an hour. Clock readings and the identifiers of
  alerts are arguments. The summary of an alert is the data its text is built from. A sink is a number, and what a call hands to the sinks is
  part of its result. Machine arithmetic wraps, as it does in a release build.
\<close>

subsection \<open>Aggregation\<close>

datatype kind_key = KRf | KMesh | KNetwork | KProximity | KGps | KEnvironmental | KOsint

fun kind_key_from_signal :: "signal_kind \<Rightarrow> kind_key" where
  "kind_key_from_signal (Rf _) = KRf"
| "kind_key_from_signal (Mesh _) = KMesh"
| "kind_key_from_signal (Network _) = KNetwork"
| "kind_key_from_signal (Proximity _) = KProximity"
| "kind_key_from_signal (Gps _) = KGps"
| "kind_key_from_signal (Environmental _) = KEnvironmental"
| "kind_key_from_signal (Osint _) = KOsint"

record aggregated_signal =
  ag_signal :: geo_signal
  ag_score :: anomaly_score
  ag_baseline_mean :: "f64 option"
  ag_baseline_stddev :: "f64 option"

definition extract_feature :: "geo_signal \<Rightarrow> f64 option" where
  "extract_feature sig =
     (case gs_kind sig of
        Rf (Transmission _ pw _ _) \<Rightarrow> Some pw
      | Rf (Jamming _ estimated_power) \<Rightarrow> Some estimated_power
      | Mesh (NodeSeen _ _ hop_count) \<Rightarrow> Some (Fin (of_nat (unat hop_count)))
      | Proximity (Wifi _ _ rssi _) \<Rightarrow> Some (Fin (of_int rssi))
      | Proximity (Ble _ rssi _) \<Rightarrow> Some (Fin (of_int rssi))
      | Gps (GpsFix _ _ _) \<Rightarrow> (case gs_location sig of None \<Rightarrow> None | Some c \<Rightarrow> co_altitude c)
      | Environmental (Temperature celsius) \<Rightarrow> Some (f64_of_f32 celsius)
      | Environmental (Humidity percent) \<Rightarrow> Some (f64_of_f32 percent)
      | Environmental (Barometric hpa) \<Rightarrow> Some (f64_of_f32 hpa)
      | _ \<Rightarrow> None)"

datatype weekday = Monday | Tuesday | Wednesday | Thursday | Friday | Saturday | Sunday

type_synonym calendar = "int \<Rightarrow> (weekday \<times> int) option"

definition day_hour_from_timestamp :: "calendar \<Rightarrow> int \<Rightarrow> u8 \<times> u8" where
  "day_hour_from_timestamp civil ts =
     (case civil ts of
        None \<Rightarrow> (0, 0)
      | Some (wd, hour) \<Rightarrow>
          ((case wd of Monday \<Rightarrow> 0 | Tuesday \<Rightarrow> 1 | Wednesday \<Rightarrow> 2 | Thursday \<Rightarrow> 3 | Friday \<Rightarrow> 4 | Saturday \<Rightarrow> 5 | Sunday \<Rightarrow> 6),
           if 0 \<le> hour \<and> hour < 256 then word_of_int hour else 0))"

type_synonym signal_aggregator = "(kind_key, bucketed_baseline) hash_map"

text \<open>One turn of the loop of \<open>run\<close>: the aggregate that is sent, if one is, and the next state.\<close>

definition aggregate :: "calendar \<Rightarrow> geo_signal \<Rightarrow> signal_aggregator \<Rightarrow> aggregated_signal option \<times> signal_aggregator" where
  "aggregate civil sig baselines =
     (case extract_feature sig of
        None \<Rightarrow> (None, baselines)
      | Some feature \<Rightarrow>
          (case day_hour_from_timestamp civil (gs_timestamp sig) of
             (day, hour) \<Rightarrow>
               let key = kind_key_from_signal (gs_kind sig);
                   bs = (case hm_get baselines key of None \<Rightarrow> bucketed_new | Some b \<Rightarrow> b);
                   score = bucketed_score bs day hour feature;
                   (mean, stddev) =
                     (case bucket bs day hour of None \<Rightarrow> (None, None) | Some b \<Rightarrow> (baseline_mean b, baseline_stddev b));
                   baselines' = hm_insert key (bucketed_observe bs day hour feature) baselines
               in (case score of
                     Elevated _ \<Rightarrow>
                       Some \<lparr>ag_signal = sig, ag_score = score, ag_baseline_mean = mean, ag_baseline_stddev = stddev\<rparr>
                   | Anomalous _ \<Rightarrow>
                       Some \<lparr>ag_signal = sig, ag_score = score, ag_baseline_mean = mean, ag_baseline_stddev = stddev\<rparr>
                   | _ \<Rightarrow> None, baselines')))"

subsection \<open>Severity\<close>

fun severity_discriminant :: "alert_severity \<Rightarrow> u8" where
  "severity_discriminant SevLow = 0"
| "severity_discriminant SevMedium = 1"
| "severity_discriminant SevHigh = 2"
| "severity_discriminant SevCritical = 3"

fun classify :: "anomaly_score \<Rightarrow> convergence option \<Rightarrow> alert_severity option" where
  "classify (Anomalous _) cv = Some (if (case cv of None \<Rightarrow> False | Some c \<Rightarrow> 3 \<le> cv_domain_count c) then SevCritical else SevHigh)"
| "classify (Elevated _) cv = Some (if cv \<noteq> None then SevMedium else SevLow)"
| "classify _ cv = None"

subsection \<open>Alerts\<close>

record alert_fingerprint =
  fp_kind_discriminant :: u8
  fp_cell :: "grid_cell option"
  fp_severity_discriminant :: u8

datatype alert_summary = AnomalyDetected alert_severity string | ConvergenceAlert alert_severity string nat

record alert =
  al_id :: "128 word"
  al_severity :: alert_severity
  al_source_signals :: "signal_id list"
  al_timestamp :: int
  al_cell :: "grid_cell option"
  al_summary :: alert_summary
  al_fingerprint :: alert_fingerprint

fun domain_name :: "signal_kind \<Rightarrow> string" where
  "domain_name (Rf _) = ''RF''"
| "domain_name (Mesh _) = ''Mesh''"
| "domain_name (Network _) = ''Network''"
| "domain_name (Proximity _) = ''Proximity''"
| "domain_name (Gps _) = ''GPS''"
| "domain_name (Environmental _) = ''Environmental''"
| "domain_name (Osint _) = ''OSINT''"

definition build_summary :: "signal_kind \<Rightarrow> alert_severity \<Rightarrow> convergence option \<Rightarrow> alert_summary" where
  "build_summary kind severity cv =
     (case cv of
        None \<Rightarrow> AnomalyDetected severity (domain_name kind)
      | Some c \<Rightarrow> ConvergenceAlert severity (domain_name kind) (cv_domain_count c))"

definition MIN_PRUNE_THRESHOLD :: usize where "MIN_PRUNE_THRESHOLD = 64"

record alert_pipeline =
  ap_suppression :: "(alert_fingerprint, int) hash_map"
  ap_prune_threshold :: usize
  ap_suppression_window_ms :: int
  ap_grid_resolution :: u32
  ap_sinks :: "nat list"

definition alert_pipeline_new :: "u64 \<Rightarrow> u32 \<Rightarrow> alert_pipeline" where
  "alert_pipeline_new secs resolution =
     \<lparr>ap_suppression = [], ap_prune_threshold = MIN_PRUNE_THRESHOLD, ap_suppression_window_ms = sint (secs * 1000),
      ap_grid_resolution = resolution, ap_sinks = []\<rparr>"

definition add_sink :: "nat \<Rightarrow> alert_pipeline \<Rightarrow> alert_pipeline" where
  "add_sink sink p = p\<lparr>ap_sinks := ap_sinks p @ [sink]\<rparr>"

definition alert_prune_expired :: "int \<Rightarrow> alert_pipeline \<Rightarrow> alert_pipeline" where
  "alert_prune_expired now p =
     (if length (ap_suppression p) < ap_prune_threshold p then p
      else let kept = hm_retain (\<lambda>_ t. i64_saturating_sub now t < ap_suppression_window_ms p) (ap_suppression p)
           in p\<lparr>ap_suppression := kept, ap_prune_threshold := max (length kept * 2) MIN_PRUNE_THRESHOLD\<rparr>)"

definition fingerprint_of :: "u32 \<Rightarrow> geo_signal \<Rightarrow> alert_severity \<Rightarrow> alert_fingerprint" where
  "fingerprint_of resolution sig severity =
     \<lparr>fp_kind_discriminant = kind_discriminant (gs_kind sig), fp_cell = map_option (\<lambda>c. quantize c resolution) (gs_location sig),
      fp_severity_discriminant = severity_discriminant severity\<rparr>"

text \<open>The clock is read twice, once for the suppression and once for the alert.\<close>

record alert_env =
  ae_now :: int
  ae_timestamp :: int
  ae_id :: "128 word"

definition process_alert ::
    "aggregated_signal \<Rightarrow> convergence option \<Rightarrow> alert_env \<Rightarrow> alert_pipeline \<Rightarrow> alert option \<times> (nat \<times> alert) list \<times> alert_pipeline" where
  "process_alert ag cv env p =
     (case classify (ag_score ag) cv of
        None \<Rightarrow> (None, [], p)
      | Some severity \<Rightarrow>
          let fp = fingerprint_of (ap_grid_resolution p) (ag_signal ag) severity;
              suppressed = (case hm_get (ap_suppression p) fp of
                              None \<Rightarrow> False | Some t \<Rightarrow> i64_wrap (ae_now env - t) < ap_suppression_window_ms p)
          in if suppressed then (None, [], p)
             else let p1 = alert_prune_expired (ae_now env) p;
                      p2 = p1\<lparr>ap_suppression := hm_insert fp (ae_now env) (ap_suppression p1)\<rparr>;
                      al = \<lparr>al_id = ae_id env, al_severity = severity, al_source_signals = [gs_signal_id (ag_signal ag)],
                            al_timestamp = ae_timestamp env, al_cell = fp_cell fp,
                            al_summary = build_summary (gs_kind (ag_signal ag)) severity cv, al_fingerprint = fp\<rparr>
                  in (Some al, map (\<lambda>sink. (sink, al)) (ap_sinks p2), p2))"

subsection \<open>Suppression against the history\<close>

type_synonym alert_input = "aggregated_signal \<times> convergence option \<times> alert_env"

fun alert_run :: "alert_input list \<Rightarrow> alert_pipeline \<Rightarrow> alert option list \<times> alert_pipeline" where
  "alert_run [] p = ([], p)"
| "alert_run ((ag, cv, env) # ins) p =
     (case process_alert ag cv env p of
        (r, _, p1) \<Rightarrow> (case alert_run ins p1 of (rs, p2) \<Rightarrow> (r # rs, p2)))"

text \<open>The specification remembers the last emission of every fingerprint for ever.\<close>

fun spec_run :: "u32 \<Rightarrow> int \<Rightarrow> alert_input list \<Rightarrow> (alert_fingerprint \<rightharpoonup> int) \<Rightarrow> alert option list" where
  "spec_run res window [] last_emitted = []"
| "spec_run res window ((ag, cv, env) # ins) last_emitted =
     (case classify (ag_score ag) cv of
        None \<Rightarrow> None # spec_run res window ins last_emitted
      | Some severity \<Rightarrow>
          let fp = fingerprint_of res (ag_signal ag) severity
          in if (case last_emitted fp of None \<Rightarrow> False | Some t \<Rightarrow> ae_now env - t < window) then None # spec_run res window ins last_emitted
             else Some \<lparr>al_id = ae_id env, al_severity = severity, al_source_signals = [gs_signal_id (ag_signal ag)],
                        al_timestamp = ae_timestamp env, al_cell = fp_cell fp,
                        al_summary = build_summary (gs_kind (ag_signal ag)) severity cv, al_fingerprint = fp\<rparr>
                  # spec_run res window ins (last_emitted(fp \<mapsto> ae_now env)))"

definition sup_rel :: "int \<Rightarrow> int \<Rightarrow> (alert_fingerprint, int) hash_map \<Rightarrow> (alert_fingerprint \<rightharpoonup> int) \<Rightarrow> bool" where
  "sup_rel window now supp last_emitted \<longleftrightarrow>
     hm_wf supp \<and>
     (\<forall>fp t. last_emitted fp = Some t \<longrightarrow> \<bar>t\<bar> < 2 ^ 62 \<and> t \<le> now) \<and>
     (\<forall>fp. hm_get supp fp = last_emitted fp \<or> (hm_get supp fp = None \<and> (\<exists>t. last_emitted fp = Some t \<and> window \<le> now - t)))"

lemma i64_wrap_id: "- (2 ^ 63) \<le> n \<Longrightarrow> n < 2 ^ 63 \<Longrightarrow> i64_wrap n = n"
  by (simp add: i64_wrap_def signed_of_int signed_take_bit_int_eq_self)

lemma clock_difference:
  assumes "\<bar>now\<bar> < 2 ^ 62" "\<bar>t\<bar> < (2 :: int) ^ 62"
  shows "i64_wrap (now - t) = now - t" "i64_saturating_sub now t = now - t"
proof -
  have "- (2 ^ 63) \<le> now - t" "now - t < 2 ^ 63" using assms by auto
  then show "i64_wrap (now - t) = now - t" by (rule i64_wrap_id)
  show "i64_saturating_sub now t = now - t" using assms by (simp add: i64_saturating_sub_def)
qed

lemma sup_rel_later: "sup_rel window now supp last_emitted \<Longrightarrow> now \<le> now' \<Longrightarrow> sup_rel window now' supp last_emitted"
  unfolding sup_rel_def by (metis diff_right_mono order.trans)

text \<open>Sweeping never changes what is suppressed, now or later.\<close>

lemma sup_rel_prune:
  assumes rel: "sup_rel (ap_suppression_window_ms p) now (ap_suppression p) last_emitted" and now: "\<bar>now\<bar> < 2 ^ 62"
  shows "sup_rel (ap_suppression_window_ms p) now (ap_suppression (alert_prune_expired now p)) last_emitted"
proof (cases "length (ap_suppression p) < ap_prune_threshold p")
  case False
  let ?W = "ap_suppression_window_ms p" and ?s = "ap_suppression p"
  let ?k = "hm_retain (\<lambda>_ t. i64_saturating_sub now t < ?W) ?s"
  have wf: "hm_wf ?s" using rel by (simp add: sup_rel_def)
  have "hm_get ?k fp = last_emitted fp \<or> (hm_get ?k fp = None \<and> (\<exists>t. last_emitted fp = Some t \<and> ?W \<le> now - t))" for fp
  proof (cases "hm_get ?s fp")
    case None
    have "hm_get ?s fp = last_emitted fp \<or> (hm_get ?s fp = None \<and> (\<exists>t. last_emitted fp = Some t \<and> ?W \<le> now - t))"
      using rel unfolding sup_rel_def by blast
    with None show ?thesis using hm_get_retain [OF wf, of "\<lambda>_ t. i64_saturating_sub now t < ?W" fp] by auto
  next
    case (Some t)
    then have "last_emitted fp = Some t" using rel unfolding sup_rel_def by (metis option.distinct(1))
    moreover from this have "i64_saturating_sub now t = now - t" using rel now by (intro clock_difference(2)) (auto simp: sup_rel_def)
    ultimately show ?thesis using Some hm_get_retain [OF wf, of "\<lambda>_ t. i64_saturating_sub now t < ?W" fp] by auto
  qed
  with rel wf False show ?thesis by (simp add: sup_rel_def alert_prune_expired_def Let_def)
qed (use rel in \<open>simp add: alert_prune_expired_def\<close>)

lemma prune_fields [simp]:
  "ap_suppression_window_ms (alert_prune_expired now p) = ap_suppression_window_ms p"
  "ap_grid_resolution (alert_prune_expired now p) = ap_grid_resolution p" "ap_sinks (alert_prune_expired now p) = ap_sinks p"
  by (simp_all add: alert_prune_expired_def Let_def)

lemma sup_rel_emit:
  assumes "sup_rel window now supp last_emitted" "\<bar>now\<bar> < 2 ^ 62"
  shows "sup_rel window now (hm_insert fp now supp) (last_emitted(fp \<mapsto> now))"
  using assms by (auto simp: sup_rel_def)

lemma suppressed_iff:
  assumes "sup_rel window now supp last_emitted" "\<bar>now\<bar> < 2 ^ 62"
  shows "(case hm_get supp fp of None \<Rightarrow> False | Some t \<Rightarrow> i64_wrap (now - t) < window) \<longleftrightarrow>
    (case last_emitted fp of None \<Rightarrow> False | Some t \<Rightarrow> now - t < window)"
proof (cases "hm_get supp fp")
  case None
  then have "last_emitted fp = None \<or> (\<exists>t. last_emitted fp = Some t \<and> window \<le> now - t)" using assms(1) unfolding sup_rel_def by metis
  with None show ?thesis by auto
next
  case (Some t)
  then have t: "last_emitted fp = Some t" using assms(1) unfolding sup_rel_def by (metis option.distinct(1))
  then have "i64_wrap (now - t) = now - t" using assms by (intro clock_difference(1)) (auto simp: sup_rel_def)
  with Some t show ?thesis by simp
qed

lemma alert_run_spec:
  assumes "sorted (map (\<lambda>(_, _, env). ae_now env) ins)" "\<forall>(_, _, env) \<in> set ins. \<bar>ae_now env\<bar> < 2 ^ 62 \<and> now \<le> ae_now env"
    "sup_rel (ap_suppression_window_ms p) now (ap_suppression p) last_emitted"
  shows "fst (alert_run ins p) = spec_run (ap_grid_resolution p) (ap_suppression_window_ms p) ins last_emitted"
  using assms
proof (induction ins arbitrary: now p last_emitted)
  case Nil
  then show ?case by simp
next
  case (Cons x ins)
  obtain ag cv env where x: "x = (ag, cv, env)" by (cases x)
  let ?now = "ae_now env" and ?W = "ap_suppression_window_ms p"
  have now: "\<bar>?now\<bar> < 2 ^ 62" and rel: "sup_rel ?W ?now (ap_suppression p) last_emitted"
    using Cons.prems x sup_rel_later by auto
  have later: "sorted (map (\<lambda>(_, _, env). ae_now env) ins)" "\<forall>(_, _, env) \<in> set ins. \<bar>ae_now env\<bar> < 2 ^ 62 \<and> ?now \<le> ae_now env"
    using Cons.prems(1,2) x by auto
  note same = Cons.IH [OF later rel]
  show ?case
  proof (cases "classify (ag_score ag) cv")
    case None
    with same show ?thesis by (simp add: x process_alert_def case_prod_beta)
  next
    case (Some severity)
    let ?fp = "fingerprint_of (ap_grid_resolution p) (ag_signal ag) severity"
    note supp = suppressed_iff [OF rel now, of ?fp]
    show ?thesis
    proof (cases "case last_emitted ?fp of None \<Rightarrow> False | Some t \<Rightarrow> ?now - t < ?W")
      case True
      with same Some supp show ?thesis by (simp add: x process_alert_def Let_def case_prod_beta)
    next
      case False
      let ?p = "(alert_prune_expired ?now p)\<lparr>ap_suppression := hm_insert ?fp ?now (ap_suppression (alert_prune_expired ?now p))\<rparr>"
      have fields: "ap_suppression_window_ms ?p = ?W" "ap_grid_resolution ?p = ap_grid_resolution p"
        "ap_suppression ?p = hm_insert ?fp ?now (ap_suppression (alert_prune_expired ?now p))" by simp_all
      have rel': "sup_rel (ap_suppression_window_ms ?p) ?now (ap_suppression ?p) (last_emitted(?fp \<mapsto> ?now))"
        unfolding fields by (rule sup_rel_emit [OF sup_rel_prune [OF rel now] now])
      note step = Cons.IH [OF later rel', unfolded fields(1,2)]
      from step False Some supp show ?thesis by (simp add: x process_alert_def Let_def case_prod_beta del: fun_upd_apply)
    qed
  qed
qed

text \<open>
  C23. Suppression with a swept table decides as suppression with a perfect memory. On a clock that does not run backwards, a pipeline that starts empty produces,
  input by input, the alerts of the specification that remembers the last emission of every fingerprint for ever: an alert is held back exactly if
  the same fingerprint was emitted less than the window ago.
\<close>

theorem suppression_refines_history:
  assumes "sorted (map (\<lambda>(_, _, env). ae_now env) ins)" and "\<forall>(_, _, env) \<in> set ins. \<bar>ae_now env\<bar> < 2 ^ 62"
  shows "fst (alert_run ins (alert_pipeline_new secs res)) = spec_run res (sint (secs * 1000)) ins Map.empty"
proof (cases ins)
  case Nil
  then show ?thesis by simp
next
  case (Cons x rest)
  obtain ag cv env where x: "x = (ag, cv, env)" by (cases x)
  have "\<forall>(_, _, e) \<in> set ins. \<bar>ae_now e\<bar> < 2 ^ 62 \<and> ae_now env \<le> ae_now e" using assms Cons x by auto
  from alert_run_spec [OF assms(1) this, of "alert_pipeline_new secs res" Map.empty] show ?thesis
    by (simp add: sup_rel_def alert_pipeline_new_def)
qed

text \<open>Three readings of one kind in one cell, 49 and 20 seconds apart, with a window of a minute.\<close>

definition loud_mesh :: aggregated_signal where
  "loud_mesh = \<lparr>ag_signal = mesh_at 0, ag_score = Anomalous (Fin 5), ag_baseline_mean = Some (Fin 1), ag_baseline_stddev = Some (Fin 1)\<rparr>"

definition alert_at :: "int \<Rightarrow> 128 word \<Rightarrow> alert_input" where
  "alert_at t i = (loud_mesh, None, \<lparr>ae_now = t, ae_timestamp = t, ae_id = i\<rparr>)"

theorem suppression_refines_history_witness:
  "map (map_option al_id) (fst (alert_run [alert_at 1000 1, alert_at 50000 2, alert_at 70000 3] (alert_pipeline_new 60 10000))) = [Some 1, None, Some 3]"
  using suppression_refines_history [of "[alert_at 1000 1, alert_at 50000 2, alert_at 70000 3]" 60 10000]
  by (simp add: alert_at_def loud_mesh_def Let_def)

end
