(* ===== verification/Spec2Isabelle.thy ===== *)
theory Spec2Isabelle
  imports Prelude Interfaces Float_Model Mesh_Types Frame_Codec Outbound_Queue Delivery_Tracker Store_Forward Mesh_Router
    Node_Db Handshake Mesh_Topology List_Graph Topology_Snapshot Geo_Signal Mesh_Signals
    Packet_Processor Mesh_Collector Mesh_Crypto Mesh_Message
    Tamper_Format Tamper_Log Tamper_Rep Tamper_Props
    Float_Rounding Radio_Channel Baofeng_Codec Baofeng_Image Baofeng_Protocol Radio_Session Radio_Safety Radio_Props
    Vault_Crypto Vault_Storage Vault_Audit Vault_Refinement Vault_Instance Vault_Lifecycle Vault_Props
    Signal_Baseline Signal_Convergence Signal_Alerts
begin

text \<open>
  A verification library for \<^verbatim>\<open>akroasis\<close>, a Rust workspace that listens to a radio mesh, keeps a tamper-evident
  record of what it did, stores credentials, and programs hand-held radios. The crates live under
  \<^verbatim>\<open>src/crates/\<close>; file names below are relative to the \<^verbatim>\<open>src\<close> directory of a crate.

  \<^bold>\<open>How the program is modelled.\<close> Every function is a HOL function of the same name where Isabelle allows it. A method that
  mutates returns the next state; a \<open>Result\<close> is a sum with the error on the left; an \<open>Option\<close> is an option; a panic is \<open>None\<close> of an outer option.
  Fixed-width integers are words, \<open>usize\<close> is \<open>nat\<close>, instants and durations are nanoseconds, and clock readings, random bytes and
  I/O outcomes are arguments. A \<open>HashMap\<close> is an association list with distinct keys. Library code that is not part of the repository
  (petgraph, BLAKE3, AES, ChaCha20-Poly1305, Argon2, Ed25519, CBOR and JSON codecs, fjall, serial ports) is a record of functions, and
  what the program relies on is a named predicate on that record
  (\<open>stable_graph_laws\<close>, \<open>prims_ok\<close>, \<open>vault_prims_ok\<close>, \<open>kv_reliable\<close>, \<open>eeprom_radio\<close>, ...), for which a concrete instance is given with the witnesses.

  \<^bold>\<open>Foundations.\<close> \<open>Prelude\<close> holds the word types, hash maps and list lemmas; \<open>Interfaces\<close> the locales that the components implement
  (\<open>guarded_component\<close>: operations that keep an invariant, with runs of operations derived from it); \<open>Float_Model\<close> and
  \<open>Float_Rounding\<close> the part of IEEE arithmetic the code uses, with exact rounding lemmas.

  \<^bold>\<open>The mesh, crate kerykeion.\<close>
  \<^item> \<open>Mesh_Types\<close> (\<^verbatim>\<open>types.rs\<close>, \<^verbatim>\<open>packet_id.rs\<close>, the protobuf messages), \<open>Frame_Codec\<close> (\<^verbatim>\<open>codec.rs\<close>): framing round trip, independence of
    chunking, resynchronisation after noise.
  \<^item> \<open>Outbound_Queue\<close>, \<open>Delivery_Tracker\<close>, \<open>Store_Forward\<close> (the files of the same names) and \<open>Mesh_Router\<close> (\<^verbatim>\<open>router.rs\<close>), which composes them: a send
    either has its whole effect or none, what is stored for a node is queued when it comes online as far as there is room and stays stored otherwise, a packet
    sent to an absent node is among it, every overdue message is requeued or reported failed, all queues stay bounded.
  \<^item> \<open>Node_Db\<close> (\<^verbatim>\<open>node_db.rs\<close>), \<open>Handshake\<close> (\<^verbatim>\<open>handshake.rs\<close>), \<open>Mesh_Topology\<close>, \<open>List_Graph\<close>, \<open>Topology_Snapshot\<close> (\<^verbatim>\<open>topology.rs\<close>): the bounded node table,
    the configuration exchange, the link graph with its components (the search terminates and computes reachability) and snapshots.
  \<^item> \<open>Mesh_Signals\<close> (\<^verbatim>\<open>signals.rs\<close>), \<open>Packet_Processor\<close> (\<^verbatim>\<open>processor.rs\<close>), \<open>Mesh_Collector\<close> (\<^verbatim>\<open>collector.rs\<close>, \<^verbatim>\<open>discovery.rs\<close>): a received packet never panics and keeps all
    invariants; neither does any interleaving of the collector's tasks, given as a step relation.
  \<^item> \<open>Mesh_Crypto\<close> (\<^verbatim>\<open>crypto.rs\<close>), \<open>Mesh_Message\<close> (\<^verbatim>\<open>message.rs\<close>): key expansion, nonces, encryption and its inverse, the message builder.

  \<^bold>\<open>The shared signal model, crate stoicheion.\<close> \<open>Geo_Signal\<close> (\<^verbatim>\<open>signal.rs\<close>, \<^verbatim>\<open>coordinates.rs\<close>, \<^verbatim>\<open>frequency.rs\<close>, \<^verbatim>\<open>power.rs\<close>, \<^verbatim>\<open>entity.rs\<close>).

  \<^bold>\<open>The tamper-evident log, crate tekmerion.\<close> \<open>Tamper_Format\<close> (entry and seal formats, names), \<open>Tamper_Log\<close> (files, locks, writer,
  rotation, recovery, the verifiers, with a fault at every point of a write), \<open>Tamper_Rep\<close> (what a directory represents) and \<open>Tamper_Props\<close>: the log refines an
  abstract segmented list, interrupted commits recover, truncation and rewriting are detected, and the cases where they are not.

  \<^bold>\<open>Radio programming, crates syntonia and akroasis.\<close> \<open>Radio_Channel\<close> (\<^verbatim>\<open>tone.rs\<close>, \<^verbatim>\<open>types.rs\<close>, \<^verbatim>\<open>channel.rs\<close>, \<^verbatim>\<open>plan.rs\<close>, \<^verbatim>\<open>validate.rs\<close>), \<open>Baofeng_Codec\<close> and \<open>Baofeng_Image\<close>
  (\<^verbatim>\<open>baofeng/bcd.rs\<close>, \<^verbatim>\<open>tone_codec.rs\<close>, \<^verbatim>\<open>codec.rs\<close>, \<^verbatim>\<open>image.rs\<close>, \<^verbatim>\<open>import/img.rs\<close>), \<open>Baofeng_Protocol\<close> (\<^verbatim>\<open>constants.rs\<close>, \<^verbatim>\<open>ident.rs\<close>, \<^verbatim>\<open>variant.rs\<close>, \<^verbatim>\<open>protocol.rs\<close>,
  \<^verbatim>\<open>detect.rs\<close>), \<open>Radio_Session\<close> (\<^verbatim>\<open>akroasis: radio/mod.rs\<close>, \<^verbatim>\<open>serial_hardware.rs\<close>, \<^verbatim>\<open>program.rs\<close>, \<^verbatim>\<open>read.rs\<close>), \<open>Radio_Safety\<close> and \<open>Radio_Props\<close>: no call sequence on any serial port
  writes calibration data, a validated plan whose channels the memory format can represent survives the image and the radio, and the exact verdict and side effects of the program command.

  \<^bold>\<open>The credential vault, crate kryphos.\<close> \<open>Vault_Crypto\<close> (\<^verbatim>\<open>vault.rs\<close>, \<^verbatim>\<open>crypto.rs\<close>, \<^verbatim>\<open>key.rs\<close>, \<^verbatim>\<open>error.rs\<close>: key derivation,
  envelopes, identity), \<open>Vault_Storage\<close> (\<^verbatim>\<open>storage.rs\<close>: creation, opening, every operation, the audited commit), \<open>Vault_Audit\<close> (an
  append to the audit log touches files of the log only, and what it does to a represented log), \<open>Vault_Refinement\<close> (the abstract vault, a map
  from names to credentials, and the simulation of every operation), \<open>Vault_Instance\<close> (a concrete cipher, hash, encoders and store that satisfy the
  assumed laws), \<open>Vault_Lifecycle\<close> (creation, closing, reopening) and \<open>Vault_Props\<close>: the life of a vault refines the map and its audit log is exact; no
  mutation without its audit entry under any failure; secrets are bound to name and type; what a writer of the store can still do; what opening checks.

  \<^bold>\<open>Signal analysis, crates stoicheion and semaino.\<close> \<open>Signal_Baseline\<close> (\<^verbatim>\<open>baseline.rs\<close>: running mean and variance with every rounding, scores, the baselines of a
  week), \<open>Signal_Convergence\<close> (\<^verbatim>\<open>convergence.rs\<close>: cells, domain slots, detection, eviction) and \<open>Signal_Alerts\<close> (\<^verbatim>\<open>aggregator.rs\<close>, \<^verbatim>\<open>alert.rs\<close>: features, scoring, severity, suppression): the
  bounded slots detect what the full history would while the signals of a domain arrive in the order of their timestamps, and not otherwise; the swept suppression table decides as a
  perfect memory would; two extreme readings make a baseline report every later value.

  \<^bold>\<open>Bounds and fuel.\<close> The search for components is a \<open>partial_function\<close> whose termination is part of its theorem. The address loops of the
  radio driver carry \<open>LOOP_FUEL\<close>, 4096 steps, against at most 384 blocks of a transfer; the safety theorem shows that it
  never runs out. All other loops are structural or have a termination proof. Counters of the log are natural numbers and the
  properties that read one back from disk bound it by the width of its field.

  \<^bold>\<open>Not modelled.\<close> Asynchronous transports and their select loops, the periodic tasks that only wait and send, argument parsing and terminal output, the HTTP handlers, Bluetooth and USB
  enumeration: they are I/O around the functions above. The gateway bridge, the task loop around aggregation and alerts (\<^verbatim>\<open>semaino: pipeline.rs\<close>), caller receipts and CSV files are
  not covered.
\<close>

end
